(* ===== verification/Mpi_Ucx_Prelude.thy ===== *)
theory Mpi_Ucx_Prelude
  imports Main "HOL-Library.Word" "HOL-Library.Monad_Syntax"
begin

text \<open>
  What the component theories share: the integer types of the C sources, the return codes of
  the two code bases, the convention for undefined behaviour, and the generic lemmas.

  \<^item> Integers. \<open>u8\<close>, \<open>u16\<close>, \<open>u32\<close>, \<open>u64\<close> are C's unsigned types of these widths and wrap around.
    A C \<open>int\<close> used as an index, a rank or a count is the HOL type \<open>int\<close>; a signed operation that could
    leave the 32-bit range goes through \<open>c_int\<close>, for which overflow is a fault.
  \<^item> Undefined behaviour. A read or write outside an array, the dereference of a null pointer and a
    failed assertion end the execution. Operations that can do so return an \<open>option\<close>: \<open>None\<close> is the
    fault, so a theorem that an operation returns \<open>Some\<close> also states memory safety.
  \<^item> Pointers to user data are values of a type variable; a nullable one is an \<open>option\<close>.
\<close>

section \<open>Types\<close>

type_synonym u8 = "8 word"
type_synonym u16 = "16 word"
type_synonym u32 = "32 word"
type_synonym u64 = "64 word"

text \<open>The return codes of \<^verbatim>\<open>opal/include/opal/constants.h\<close> that the modelled functions use.\<close>

datatype opal_status =
    OPAL_SUCCESS
  | OPAL_ERROR
  | OPAL_ERR_OUT_OF_RESOURCE
  | OPAL_ERR_TEMP_OUT_OF_RESOURCE
  | OPAL_ERR_BAD_PARAM
  | OPAL_ERR_NOT_FOUND

text \<open>The status codes of \<^verbatim>\<open>ucs/type/status.h\<close> that the modelled functions use.\<close>

datatype ucs_status =
    UCS_OK
  | UCS_INPROGRESS
  | UCS_ERR_NO_MEMORY
  | UCS_ERR_NO_RESOURCE
  | UCS_ERR_MESSAGE_TRUNCATED
  | UCS_ERR_CANCELED
  | UCS_ERR_INVALID_PARAM
  | UCS_ERR_NO_ELEM
  | UCS_ERR_ALREADY_EXISTS

section \<open>Arrays with checked access\<close>

text \<open>
  A C array is a list; \<open>arr_get\<close> and \<open>arr_set\<close> fault outside of it. The index is a C \<open>int\<close>.
\<close>

definition arr_get :: "'a list \<Rightarrow> int \<Rightarrow> 'a option" where
  "arr_get xs i = (if 0 \<le> i \<and> i < int (length xs) then Some (xs ! nat i) else None)"

definition arr_set :: "'a list \<Rightarrow> int \<Rightarrow> 'a \<Rightarrow> 'a list option" where
  "arr_set xs i v = (if 0 \<le> i \<and> i < int (length xs) then Some (xs[nat i := v]) else None)"

named_theorems carray \<open>checked array access inside the bounds\<close>

lemma arr_get_in [carray]: "0 \<le> i \<Longrightarrow> i < int (length xs) \<Longrightarrow> arr_get xs i = Some (xs ! nat i)"
  by (simp add: arr_get_def)

lemma arr_set_in [carray]: "0 \<le> i \<Longrightarrow> i < int (length xs) \<Longrightarrow> arr_set xs i v = Some (xs[nat i := v])"
  by (simp add: arr_set_def)

lemma arr_get_SomeD: "arr_get xs i = Some x \<Longrightarrow> 0 \<le> i \<and> i < int (length xs) \<and> x = xs ! nat i"
  by (auto simp: arr_get_def split: if_splits)

lemma arr_set_SomeD:
  "arr_set xs i v = Some ys \<Longrightarrow> 0 \<le> i \<and> i < int (length xs) \<and> ys = xs[nat i := v]"
  by (auto simp: arr_set_def split: if_splits)

lemma nth_update_if: "xs[i := v] ! j = (if i = j \<and> j < length xs then v else xs ! j)"
  by (cases "i < length xs") (auto simp: nth_list_update list_update_beyond)

lemma take_Suc_update: "k < length xs \<Longrightarrow> take (Suc k) (xs[k := v]) = take k xs @ [v]"
  by (simp add: take_Suc_conv_app_nth)

lemma arr_get_nat [carray]: "i < length xs \<Longrightarrow> arr_get xs (int i) = Some (xs ! i)"
  by (simp add: arr_get_def)

section \<open>Signed arithmetic\<close>

text \<open>The result of a signed operation: overflow of the 32 bits is undefined, hence a fault.\<close>

definition c_int :: "int \<Rightarrow> int option" where
  "c_int x = (if - (2 ^ 31) \<le> x \<and> x < 2 ^ 31 then Some x else None)"

lemma c_int_Some [simp]: "0 \<le> x \<Longrightarrow> x < 2 ^ 31 \<Longrightarrow> c_int x = Some x"
  by (simp add: c_int_def)

text \<open>The conversion of a wider or unsigned value to \<open>int\<close> keeps its low 32 bits.\<close>

definition to_int :: "int \<Rightarrow> int" where
  "to_int x = signed_take_bit 31 x"

lemma to_int_small [simp]: "0 \<le> x \<Longrightarrow> x < 2 ^ 31 \<Longrightarrow> to_int x = x"
  unfolding to_int_def by (rule signed_take_bit_int_eq_self) simp_all

lemma c_int_out: "2 ^ 31 \<le> x \<Longrightarrow> c_int x = None"
  by (simp add: c_int_def)

section \<open>Sizes\<close>

text \<open>
  A \<open>size_t\<close> is a \<open>nat\<close> below \<open>2 ^ 64\<close>, with the wrap-around of its operations written out. \<open>calloc\<close>
  gives no object of more than \<open>PTRDIFF_MAX\<close> bytes; whether it gives a smaller one is a parameter.
\<close>

definition to_size :: "int \<Rightarrow> nat" where
  "to_size i = nat (i mod 2 ^ 64)"

definition size_add :: "nat \<Rightarrow> nat \<Rightarrow> nat" where
  "size_add a b = (a + b) mod 2 ^ 64"

definition size_mul :: "nat \<Rightarrow> nat \<Rightarrow> nat" where
  "size_mul a b = (a * b) mod 2 ^ 64"

definition calloc_ok :: "bool \<Rightarrow> nat \<Rightarrow> nat \<Rightarrow> bool" where
  "calloc_ok mem_ok n sz \<longleftrightarrow> mem_ok \<and> n * sz < 2 ^ 63"

lemma to_size_small: "0 \<le> i \<Longrightarrow> i < 2 ^ 64 \<Longrightarrow> to_size i = nat i"
  by (simp add: to_size_def)

lemma size_mul_le: "size_mul a b \<le> a * b"
  by (simp add: size_mul_def)

lemma size_mul_small: "a * b < 2 ^ 64 \<Longrightarrow> size_mul a b = a * b"
  unfolding size_mul_def by (rule mod_less)

lemma size_add_small: "a + b < 2 ^ 64 \<Longrightarrow> size_add a b = a + b"
  unfolding size_add_def by (rule mod_less)

section \<open>Loops that may fault\<close>

text \<open>The results of calling \<open>f\<close> on each element in turn; a fault ends the loop.\<close>

fun mapo :: "('a \<Rightarrow> 'b option) \<Rightarrow> 'a list \<Rightarrow> 'b list option" where
  "mapo f [] = Some []"
| "mapo f (x # xs) = (case f x of None \<Rightarrow> None | Some y \<Rightarrow> map_option ((#) y) (mapo f xs))"

lemma mapo_Some: "(\<And>x. x \<in> set xs \<Longrightarrow> f x = Some (g x)) \<Longrightarrow> mapo f xs = Some (map g xs)"
  by (induction xs) auto

lemma mapo_None: "x \<in> set xs \<Longrightarrow> f x = None \<Longrightarrow> mapo f xs = None"
  by (induction xs) (auto split: option.splits)

lemma mapo_SomeD: "mapo f xs = Some ys \<Longrightarrow> length ys = length xs \<and> (\<forall>i < length xs. f (xs ! i) = Some (ys ! i))"
proof (induction xs arbitrary: ys)
  case (Cons x xs)
  then obtain y zs where "f x = Some y" "mapo f xs = Some zs" "ys = y # zs" by (auto split: option.splits)
  with Cons.IH [of zs] show ?case by (auto simp: nth_Cons split: nat.splits)
qed simp

section \<open>Modular indices\<close>

lemma mod_add_neq: "j < k \<Longrightarrow> k < n \<Longrightarrow> (t + j) mod n \<noteq> (t + k) mod n"
  for j k n t :: nat
  using mod_eq_dvd_iff_nat [of "t + j" "t + k" n] by (auto dest!: dvd_imp_le)

lemma mod_add_inj: "j < n \<Longrightarrow> k < n \<Longrightarrow> (t + j) mod n = (t + k) mod n \<longleftrightarrow> j = k"
  for j k n t :: nat
  using mod_add_neq [of j k n t] mod_add_neq [of k j n t] by (cases j k rule: linorder_cases) auto

lemma int_wrap_succ:
  "x < n \<Longrightarrow> (if int x = int n - 1 then 0 else int x + 1) = int (Suc x mod n)"
  by (auto simp: mod_Suc)

end
