(* ===== verification/Opal_Ring_Buffer.thy ===== *)
theory Opal_Ring_Buffer
  imports Mpi_Ucx_Prelude
begin

text \<open>
  \<^verbatim>\<open>opal/class/opal_ring_buffer.c\<close>: a ring of \<open>size\<close> pointers that drops its oldest entry when a new
  one is pushed into a full ring. Every operation runs between \<open>OPAL_ACQUIRE_THREAD\<close> and
  \<open>OPAL_RELEASE_THREAD\<close> on the ring's own lock, so an operation is one atomic step here, and the lock,
  its condition variable and the \<open>in_use\<close> flag are not part of the state.
\<close>

section \<open>State and operations\<close>

text \<open>\<open>ring_addr = []\<close> is the null array of a ring that is constructed and not initialised.\<close>

record 'a ring_buffer =
  ring_head :: int
  ring_tail :: int
  ring_size :: int
  ring_addr :: "'a option list"

definition opal_ring_buffer_construct :: "'a ring_buffer" where
  "opal_ring_buffer_construct = \<lparr>ring_head = 0, ring_tail = -1, ring_size = 0, ring_addr = []\<rparr>"

definition opal_ring_buffer_destruct :: "'a ring_buffer \<Rightarrow> 'a ring_buffer" where
  "opal_ring_buffer_destruct ring = ring\<lparr>ring_addr := [], ring_size := 0\<rparr>"

text \<open>
  \<open>mem_ok\<close> is the outcome of \<open>calloc\<close>. A negative \<open>size\<close> converts to a \<open>size_t\<close> that no allocation
  can serve.
\<close>

definition opal_ring_buffer_init ::
  "bool \<Rightarrow> 'a ring_buffer option \<Rightarrow> int \<Rightarrow> opal_status \<times> 'a ring_buffer option" where
  "opal_ring_buffer_init mem_ok ring sz =
     (case ring of
        None \<Rightarrow> (OPAL_ERR_BAD_PARAM, None)
      | Some r \<Rightarrow>
          if \<not> mem_ok \<or> sz < 0 then (OPAL_ERR_OUT_OF_RESOURCE, Some (r\<lparr>ring_addr := []\<rparr>))
          else (OPAL_SUCCESS, Some (r\<lparr>ring_addr := replicate (nat sz) None, ring_size := sz\<rparr>)))"

text \<open>\<open>opal_ring_buffer_push\<close> returns the entry it overwrites, \<open>None\<close> when the slot was free.\<close>

definition opal_ring_buffer_push ::
  "'a ring_buffer \<Rightarrow> 'a option \<Rightarrow> ('a option \<times> 'a ring_buffer) option" where
  "opal_ring_buffer_push ring ptr =
     (case arr_get (ring_addr ring) (ring_head ring) of
        None \<Rightarrow> None
      | Some p \<Rightarrow>
          (let ring1 = (if p \<noteq> None
                        then ring\<lparr>ring_tail := (if ring_tail ring = ring_size ring - 1 then 0 else ring_head ring + 1)\<rparr>
                        else ring);
               ring2 = ring1\<lparr>ring_addr := (ring_addr ring1)[nat (ring_head ring1) := ptr]\<rparr>;
               ring3 = (if ring_tail ring2 < 0 then ring2\<lparr>ring_tail := ring_head ring2\<rparr> else ring2);
               ring4 = ring3\<lparr>ring_head := (if ring_head ring3 = ring_size ring3 - 1 then 0 else ring_head ring3 + 1)\<rparr>
           in Some (p, ring4)))"

definition opal_ring_buffer_pop ::
  "'a ring_buffer \<Rightarrow> ('a option \<times> 'a ring_buffer) option" where
  "opal_ring_buffer_pop ring =
     (if ring_tail ring = -1 then Some (None, ring)
      else
        (case arr_get (ring_addr ring) (ring_tail ring) of
           None \<Rightarrow> None
         | Some p \<Rightarrow>
             (let ring1 = ring\<lparr>ring_addr := (ring_addr ring)[nat (ring_tail ring) := None]\<rparr>;
                  ring2 = ring1\<lparr>ring_tail := (if ring_tail ring1 = ring_size ring1 - 1 then 0 else ring_tail ring1 + 1)\<rparr>;
                  ring3 = (if ring_tail ring2 = ring_head ring2 then ring2\<lparr>ring_tail := -1\<rparr> else ring2)
              in Some (p, ring3))))"

text \<open>\<open>ring->tail + i\<close> is a sum of two \<open>int\<close>s, both below the size.\<close>

definition opal_ring_buffer_poke :: "'a ring_buffer \<Rightarrow> int \<Rightarrow> 'a option option" where
  "opal_ring_buffer_poke ring i =
     (if ring_size ring \<le> i \<or> ring_tail ring = -1 then Some None
      else if i < 0 then
        (if ring_head ring = 0 then arr_get (ring_addr ring) (ring_size ring - 1)
         else arr_get (ring_addr ring) (ring_head ring - 1))
      else
        do {
          offset \<leftarrow> c_int (ring_tail ring + i);
          arr_get (ring_addr ring) (if ring_size ring \<le> offset then offset - ring_size ring else offset)
        })"

section \<open>The abstract ring: a list of at most \<open>n\<close> entries, oldest first\<close>

definition ring_push_spec :: "nat \<Rightarrow> 'a list \<Rightarrow> 'a \<Rightarrow> 'a option \<times> 'a list" where
  "ring_push_spec n xs p =
     (if length xs = n then (Some (hd xs), tl xs @ [p]) else (None, xs @ [p]))"

definition ring_pop_spec :: "'a list \<Rightarrow> 'a option \<times> 'a list" where
  "ring_pop_spec xs = (case xs of [] \<Rightarrow> (None, []) | y # ys \<Rightarrow> (Some y, ys))"

definition ring_poke_spec :: "'a list \<Rightarrow> int \<Rightarrow> 'a option" where
  "ring_poke_spec xs i =
     (if xs = [] then None
      else if i < 0 then Some (last xs)
      else if i < int (length xs) then Some (xs ! nat i) else None)"

text \<open>
  \<open>ring_slots n t xs a\<close>: the array \<open>a\<close> of \<open>n\<close> slots holds the entries \<open>xs\<close> from slot \<open>t\<close> on, around the
  end of the array, and null elsewhere. \<open>ring_rel n xs ring\<close>: the ring holds the entries \<open>xs\<close>, its
  tail is the slot of the oldest one, or \<open>-1\<close>, and its head the slot after the newest one.
\<close>

definition ring_slots :: "nat \<Rightarrow> nat \<Rightarrow> 'a list \<Rightarrow> 'a option list \<Rightarrow> bool" where
  "ring_slots n t xs a \<longleftrightarrow> t < n \<and> length xs \<le> n \<and> length a = n \<and>
     (\<forall>k < n. a ! ((t + k) mod n) = (if k < length xs then Some (xs ! k) else None))"

definition ring_rel :: "nat \<Rightarrow> 'a list \<Rightarrow> 'a ring_buffer \<Rightarrow> bool" where
  "ring_rel n xs ring \<longleftrightarrow> ring_size ring = int n \<and>
     (\<exists>t < n. ring_slots n t xs (ring_addr ring) \<and>
        ring_head ring = int ((t + length xs) mod n) \<and>
        ring_tail ring = (if xs = [] then -1 else int t))"

section \<open>Refinement\<close>

lemma ring_slots_nth:
  "ring_slots n t xs a \<Longrightarrow> k < n \<Longrightarrow> a ! ((t + k) mod n) = (if k < length xs then Some (xs ! k) else None)"
  by (simp add: ring_slots_def)

lemma ring_slots_append:
  assumes "ring_slots n t xs a" and "length xs < n"
  shows "ring_slots n t (xs @ [p]) (a[(t + length xs) mod n := Some p])"
  using assms by (auto simp: ring_slots_def nth_list_update mod_add_inj nth_append)

lemma ring_slots_tl:
  assumes "ring_slots n t (y # ys) a"
  shows "ring_slots n (Suc t mod n) ys (a[t := None])"
proof -
  have t: "t < n" and len: "length ys < n" and la: "length a = n"
    using assms by (auto simp: ring_slots_def)
  have "a[t := None] ! ((Suc t mod n + k) mod n) = (if k < length ys then Some (ys ! k) else None)"
    if "k < n" for k
  proof (cases "Suc k = n")
    case True
    then have "(Suc t mod n + k) mod n = t"
      using t by (metis add_Suc_shift mod_add_left_eq mod_add_self2 mod_less)
    with True t la len show ?thesis by simp
  next
    case False
    then have "(Suc t mod n + k) mod n = (t + Suc k) mod n" and sk: "Suc k < n"
      using that by (simp_all add: mod_add_left_eq)
    moreover have "(t + Suc k) mod n \<noteq> t"
      using mod_add_inj [OF sk, of 0 t] t by simp
    ultimately show ?thesis
      using ring_slots_nth [OF assms sk] by simp
  qed
  then show ?thesis
    using t len la by (simp add: ring_slots_def)
qed

lemma ring_slots_overwrite:
  assumes "ring_slots n t (y # ys) a" and "length (y # ys) = n"
  shows "ring_slots n (Suc t mod n) (ys @ [p]) (a[t := Some p])"
proof -
  have t: "t < n" using assms by (simp add: ring_slots_def)
  have "(Suc t mod n + length ys) mod n = t"
    using assms(2) t by (metis add_Suc_shift length_Cons mod_add_left_eq mod_add_self2 mod_less)
  with ring_slots_append [OF ring_slots_tl [OF assms(1)], of p] assms(2) show ?thesis
    by simp
qed

lemma ring_relE:
  assumes "ring_rel n xs ring"
  obtains t where "t < n" "length xs \<le> n" "ring_size ring = int n" "length (ring_addr ring) = n"
    "ring_slots n t xs (ring_addr ring)"
    "ring_head ring = int ((t + length xs) mod n)"
    "ring_tail ring = (if xs = [] then -1 else int t)"
  using assms by (auto simp: ring_rel_def ring_slots_def)

lemma ring_relI:
  assumes "ring_size ring = int n" "ring_slots n t xs (ring_addr ring)"
    "ring_head ring = int ((t + length xs) mod n)"
    "ring_tail ring = (if xs = [] then -1 else int t)"
  shows "ring_rel n xs ring"
  unfolding ring_rel_def using assms by (auto simp: ring_slots_def)

lemma ring_push_refines:
  assumes "ring_rel n xs ring"
  shows "\<exists>ring'. opal_ring_buffer_push ring (Some p) = Some (fst (ring_push_spec n xs p), ring') \<and>
           ring_rel n (snd (ring_push_spec n xs p)) ring'"
  using assms
proof (rule ring_relE)
  fix t assume t: "t < n" and len: "length xs \<le> n" and sz: "ring_size ring = int n"
    and la: "length (ring_addr ring) = n" and slots: "ring_slots n t xs (ring_addr ring)"
    and hd: "ring_head ring = int ((t + length xs) mod n)"
    and tl: "ring_tail ring = (if xs = [] then -1 else int t)"
  have hn: "(t + length xs) mod n < n" using t by simp
  have get: "arr_get (ring_addr ring) (ring_head ring) = Some (ring_addr ring ! ((t + length xs) mod n))"
    using hn la hd by (simp add: carray)
  have step: "(if ring_head ring = int n - 1 then 0 else ring_head ring + 1) =
      int (Suc (t + length xs) mod n)"
    by (simp only: hd int_wrap_succ [OF hn] mod_Suc_eq)
  show ?thesis
  proof (cases "length xs = n")
    case True
    then obtain y ys where xs: "xs = y # ys" using t by (cases xs) auto
    have ht: "(t + length xs) mod n = t" using True t by simp
    have old: "ring_addr ring ! t = Some y"
      using ring_slots_nth [OF slots, of 0] t xs by simp
    have "opal_ring_buffer_push ring (Some p) = Some (Some y,
        ring\<lparr>ring_tail := int (Suc t mod n), ring_addr := (ring_addr ring)[t := Some p],
             ring_head := int (Suc t mod n)\<rparr>)"
      using get old hd tl sz xs ht int_wrap_succ [OF t]
      by (auto simp: opal_ring_buffer_push_def Let_def)
    moreover have "Suc (Suc t mod n + length ys) mod n = Suc t mod n"
      using True xs by (metis add_Suc_right length_Cons mod_add_self2 mod_mod_trivial)
    ultimately show ?thesis
      using True xs sz ring_slots_overwrite [OF slots [unfolded xs], of p]
      by (auto simp: ring_push_spec_def intro!: ring_relI [where t = "Suc t mod n"])
  next
    case False
    then have lt: "length xs < n" using len by simp
    have old: "ring_addr ring ! ((t + length xs) mod n) = None"
      using ring_slots_nth [OF slots, of "length xs"] lt by simp
    have "opal_ring_buffer_push ring (Some p) = Some (None,
        ring\<lparr>ring_tail := int t, ring_addr := (ring_addr ring)[(t + length xs) mod n := Some p],
             ring_head := int (Suc (t + length xs) mod n)\<rparr>)"
      using get old hd tl sz step t by (auto simp: opal_ring_buffer_push_def Let_def)
    then show ?thesis
      using False sz ring_slots_append [OF slots lt, of p]
      by (auto simp: ring_push_spec_def intro!: ring_relI [where t = t])
  qed
qed

lemma ring_pop_refines:
  assumes "ring_rel n xs ring"
  shows "\<exists>ring'. opal_ring_buffer_pop ring = Some (fst (ring_pop_spec xs), ring') \<and>
           ring_rel n (snd (ring_pop_spec xs)) ring'"
proof (cases xs)
  case Nil
  with assms show ?thesis
    by (auto simp: opal_ring_buffer_pop_def ring_pop_spec_def elim: ring_relE)
next
  case (Cons y ys)
  from assms show ?thesis
  proof (rule ring_relE)
    fix t assume t: "t < n" and len: "length xs \<le> n" and sz: "ring_size ring = int n"
      and la: "length (ring_addr ring) = n" and slots: "ring_slots n t xs (ring_addr ring)"
      and hd: "ring_head ring = int ((t + length xs) mod n)"
      and tl: "ring_tail ring = (if xs = [] then -1 else int t)"
    have old: "ring_addr ring ! t = Some y"
      using ring_slots_nth [OF slots, of 0] t Cons by simp
    have hd': "ring_head ring = int ((Suc t mod n + length ys) mod n)"
      using hd Cons by (simp add: mod_add_left_eq)
    have lys: "length ys < n" using len Cons by simp
    have empty: "int (Suc t mod n) = ring_head ring \<longleftrightarrow> ys = []"
      using mod_add_inj [OF lys, of 0 "Suc t mod n"] t hd' by auto
    have "opal_ring_buffer_pop ring = Some (Some y,
        ring\<lparr>ring_addr := (ring_addr ring)[t := None],
             ring_tail := (if ys = [] then -1 else int (Suc t mod n))\<rparr>)"
      using t tl la sz old Cons empty int_wrap_succ [OF t]
      by (auto simp: opal_ring_buffer_pop_def Let_def carray)
    then show ?thesis
      using sz hd' Cons ring_slots_tl [OF slots [unfolded Cons]]
      by (auto simp: ring_pop_spec_def intro!: ring_relI [where t = "Suc t mod n"])
  qed
qed

lemma ring_poke_refines:
  assumes "ring_rel n xs ring" and small: "n \<le> 2 ^ 30"
  shows "opal_ring_buffer_poke ring i = Some (ring_poke_spec xs i)"
  using assms(1)
proof (rule ring_relE)
  fix t assume t: "t < n" and len: "length xs \<le> n" and sz: "ring_size ring = int n"
    and la: "length (ring_addr ring) = n" and slots: "ring_slots n t xs (ring_addr ring)"
    and hd: "ring_head ring = int ((t + length xs) mod n)"
    and tl: "ring_tail ring = (if xs = [] then -1 else int t)"
  consider "xs = []" | "xs \<noteq> []" "int n \<le> i" | "xs \<noteq> []" "i < 0" | "xs \<noteq> []" "0 \<le> i" "i < int n"
    by linarith
  then show ?thesis
  proof cases
    case 3
    let ?last = "(t + (length xs - 1)) mod n"
    have lt: "length xs - 1 < n" "?last < n" using 3 len t by auto
    have "(t + length xs) mod n = Suc ?last mod n" using 3 by (cases xs) (simp_all add: mod_Suc_eq)
    then have "(if ring_head ring = 0 then ring_size ring - 1 else ring_head ring - 1) = int ?last"
      using hd sz lt(2) by (auto simp: mod_Suc split: if_splits)
    moreover have "ring_addr ring ! ?last = Some (last xs)"
      using ring_slots_nth [OF slots lt(1)] 3 by (simp add: last_conv_nth)
    ultimately have "(if ring_head ring = 0 then arr_get (ring_addr ring) (ring_size ring - 1)
        else arr_get (ring_addr ring) (ring_head ring - 1)) = Some (Some (last xs))"
      using la lt(2) by (auto simp: carray split: if_splits)
    with 3 tl t sz show ?thesis
      by (simp add: opal_ring_buffer_poke_def ring_poke_spec_def)
  next
    case 4
    let ?k = "nat i"
    have k: "?k < n" using 4 by linarith
    have "int n \<le> 2 ^ 30" using small by simp
    then have "ring_tail ring + i < 2 ^ 31" "0 \<le> ring_tail ring + i" using 4 t tl by simp_all
    then have fits: "c_int (ring_tail ring + i) = Some (ring_tail ring + i)" by simp
    have off: "(if ring_size ring \<le> ring_tail ring + i then ring_tail ring + i - ring_size ring
        else ring_tail ring + i) = int ((t + ?k) mod n)"
      using 4 k t tl sz by (auto simp: mod_if)
    have "arr_get (ring_addr ring) (int ((t + ?k) mod n)) =
        Some (if ?k < length xs then Some (xs ! ?k) else None)"
      using t la ring_slots_nth [OF slots k] by (simp add: carray)
    moreover have "opal_ring_buffer_poke ring i = arr_get (ring_addr ring)
        (if ring_size ring \<le> ring_tail ring + i then ring_tail ring + i - ring_size ring
         else ring_tail ring + i)"
      using 4 t tl sz fits by (simp add: opal_ring_buffer_poke_def)
    ultimately show ?thesis
      using 4 by (simp only: off) (simp add: ring_poke_spec_def nat_less_iff)
  qed (use tl sz len t in \<open>auto simp: opal_ring_buffer_poke_def ring_poke_spec_def\<close>)
qed

section \<open>Runs\<close>

datatype 'a ring_op = Push 'a | Pop | Poke int

text \<open>A run of the code, and the same run on the abstract ring; the outputs are the returned pointers.\<close>

fun ring_run :: "'a ring_buffer \<Rightarrow> 'a ring_op list \<Rightarrow> 'a option list option" where
  "ring_run ring [] = Some []"
| "ring_run ring (Push p # ops) =
     (case opal_ring_buffer_push ring (Some p) of
        None \<Rightarrow> None | Some (r, ring') \<Rightarrow> map_option (Cons r) (ring_run ring' ops))"
| "ring_run ring (Pop # ops) =
     (case opal_ring_buffer_pop ring of
        None \<Rightarrow> None | Some (r, ring') \<Rightarrow> map_option (Cons r) (ring_run ring' ops))"
| "ring_run ring (Poke i # ops) =
     (case opal_ring_buffer_poke ring i of
        None \<Rightarrow> None | Some r \<Rightarrow> map_option (Cons r) (ring_run ring ops))"

fun ring_run_spec :: "nat \<Rightarrow> 'a list \<Rightarrow> 'a ring_op list \<Rightarrow> 'a option list" where
  "ring_run_spec n xs [] = []"
| "ring_run_spec n xs (Push p # ops) =
     (case ring_push_spec n xs p of (r, xs') \<Rightarrow> r # ring_run_spec n xs' ops)"
| "ring_run_spec n xs (Pop # ops) =
     (case ring_pop_spec xs of (r, xs') \<Rightarrow> r # ring_run_spec n xs' ops)"
| "ring_run_spec n xs (Poke i # ops) = ring_poke_spec xs i # ring_run_spec n xs ops"

lemma ring_run_refines: "ring_rel n xs ring \<Longrightarrow> n \<le> 2 ^ 30 \<Longrightarrow> ring_run ring ops = Some (ring_run_spec n xs ops)"
proof (induction n xs ops arbitrary: ring rule: ring_run_spec.induct)
  case (2 n xs p ops)
  from ring_push_refines [OF "2.prems"(1), of p] "2.IH" "2.prems"(2) show ?case
    by (cases "ring_push_spec n xs p") auto
next
  case (3 n xs ops)
  from ring_pop_refines [OF "3.prems"(1)] "3.IH" "3.prems"(2) show ?case
    by (cases "ring_pop_spec xs") auto
qed (auto simp: ring_poke_refines)

lemma ring_rel_init:
  assumes "0 < n"
  shows "ring_rel (nat n) [] (opal_ring_buffer_construct\<lparr>ring_addr := replicate (nat n) None, ring_size := n\<rparr>)"
  using assms
  by (intro ring_relI [where t = 0]) (auto simp: opal_ring_buffer_construct_def ring_slots_def)

text \<open>
  C15. Ring buffer refinement. On a ring that is constructed and successfully initialised with between 1 and
  \<open>2 ^ 30\<close> slots, for which the sum of the tail and an index is an \<open>int\<close>, every sequence of push, pop and poke calls runs without a memory fault and returns exactly
  what a list of at most \<open>n\<close> entries returns: push appends and, on a full ring, drops and returns
  the oldest entry; pop returns entries oldest first; poke reads the \<open>i\<close>-th oldest or the newest one.
\<close>

theorem ring_buffer_refines_bounded_list:
  assumes "opal_ring_buffer_init mem_ok (Some opal_ring_buffer_construct) n = (OPAL_SUCCESS, Some ring)"
    and "0 < n" and "n \<le> 2 ^ 30"
  shows "ring_run ring ops = Some (ring_run_spec (nat n) [] ops)"
proof -
  have "ring = opal_ring_buffer_construct\<lparr>ring_addr := replicate (nat n) None, ring_size := n\<rparr>"
    using assms by (auto simp: opal_ring_buffer_init_def split: if_splits)
  then show ?thesis
    using ring_run_refines [OF ring_rel_init [OF assms(2)]] assms(3) by (simp add: nat_le_iff)
qed

theorem ring_buffer_refines_bounded_list_witness:
  "\<exists>ring. opal_ring_buffer_init True (Some opal_ring_buffer_construct) 2 = (OPAL_SUCCESS, Some ring) \<and>
     ring_run ring [Push (7::nat), Push 8, Push 9, Pop, Poke (-1)] =
       Some [None, None, Some 7, Some 8, Some 9]"
proof -
  let ?ring = "opal_ring_buffer_construct\<lparr>ring_addr := [None, None], ring_size := 2\<rparr> :: nat ring_buffer"
  have init: "opal_ring_buffer_init True (Some opal_ring_buffer_construct) 2 = (OPAL_SUCCESS, Some ?ring)"
    by (simp add: opal_ring_buffer_init_def numeral_2_eq_2)
  have "ring_run ?ring [Push 7, Push 8, Push 9, Pop, Poke (-1)] =
      Some (ring_run_spec (nat 2) [] [Push 7, Push 8, Push 9, Pop, Poke (-1)])"
    by (rule ring_buffer_refines_bounded_list [OF init]) simp_all
  also have "\<dots> = Some [None, None, Some 7, Some 8, Some 9]"
    by (simp add: ring_push_spec_def ring_pop_spec_def ring_poke_spec_def)
  finally show ?thesis using init by blast
qed

end
