(* ===== verification/Slot_Table.thy ===== *)
theory Slot_Table
  imports Mpi_Ucx_Prelude
begin

text \<open>
  The interface that \<^verbatim>\<open>opal_hotel\<close>, \<^verbatim>\<open>opal_pointer_array\<close> and \<^verbatim>\<open>ucs_ptr_array\<close> offer their clients: a
  table that stores a pointer under an index of its own choosing, finds it by that index and
  forgets it. A client keeps the index as a handle (a request identifier, a Fortran handle), so what
  it relies on is that a fresh handle never collides with a live one and that other entries are
  left alone. The locale states these laws once; the theories of the three tables interpret it.
\<close>

section \<open>Batches of insertions and removals\<close>

fun insert_all :: "('s \<Rightarrow> 'v \<Rightarrow> ('i \<times> 's) option) \<Rightarrow> 's \<Rightarrow> 'v list \<Rightarrow> ('i list \<times> 's) option" where
  "insert_all ins s [] = Some ([], s)"
| "insert_all ins s (v # vs) =
     (case ins s v of
        None \<Rightarrow> None
      | Some (i, s') \<Rightarrow>
          (case insert_all ins s' vs of None \<Rightarrow> None | Some (is, s'') \<Rightarrow> Some (i # is, s'')))"

fun remove_all :: "('s \<Rightarrow> 'i \<Rightarrow> 's option) \<Rightarrow> 's \<Rightarrow> 'i list \<Rightarrow> 's option" where
  "remove_all rem s [] = Some s"
| "remove_all rem s (i # is) = (case rem s i of None \<Rightarrow> None | Some s' \<Rightarrow> remove_all rem s' is)"

lemma map_upds_nth:
  "distinct is \<Longrightarrow> length is = length vs \<Longrightarrow> k < length vs \<Longrightarrow> (m(is [\<mapsto>] vs)) (is ! k) = Some (vs ! k)"
proof (induction "is" vs arbitrary: m k rule: list_induct2')
  case (4 i "is" v vs)
  then show ?case by (cases k) (auto simp: map_upds_apply_nontin nth_mem)
qed simp_all

section \<open>The interface\<close>

locale slot_table =
  fixes inv :: "'s \<Rightarrow> bool"
    and storable :: "'v \<Rightarrow> bool"
    and lookup :: "'s \<Rightarrow> 'i \<Rightarrow> 'v option"
    and insert :: "'s \<Rightarrow> 'v \<Rightarrow> ('i \<times> 's) option"
    and remove :: "'s \<Rightarrow> 'i \<Rightarrow> 's option"
  assumes insert_step: "inv s \<Longrightarrow> storable v \<Longrightarrow> insert s v = Some (i, s') \<Longrightarrow>
      inv s' \<and> lookup s i = None \<and> lookup s' = (lookup s)(i \<mapsto> v)"
    and remove_step: "inv s \<Longrightarrow> lookup s i = Some v \<Longrightarrow>
      \<exists>s'. remove s i = Some s' \<and> inv s' \<and> lookup s' = (lookup s)(i := None)"
begin

lemma insert_all_step:
  assumes "inv s" and "\<forall>v \<in> set vs. storable v" and "insert_all insert s vs = Some (is, s')"
  shows "inv s' \<and> length is = length vs \<and> distinct is \<and> (\<forall>i \<in> set is. lookup s i = None) \<and>
    lookup s' = (lookup s)(is [\<mapsto>] vs)"
  using assms
proof (induction vs arbitrary: s "is")
  case Nil
  then show ?case by simp
next
  case (Cons v vs)
  from Cons.prems(3) obtain i s1 js where i: "insert s v = Some (i, s1)"
    and js: "insert_all insert s1 vs = Some (js, s')" and "is": "is = i # js"
    by (auto split: option.splits prod.splits)
  from insert_step [OF Cons.prems(1) _ i] Cons.prems(2)
  have s1: "inv s1" "lookup s i = None" "lookup s1 = (lookup s)(i \<mapsto> v)" by auto
  from Cons.IH [OF s1(1) _ js] Cons.prems(2) have IH: "inv s'" "length js = length vs" "distinct js"
    "\<forall>j \<in> set js. lookup s1 j = None" "lookup s' = (lookup s1)(js [\<mapsto>] vs)" by auto
  have "i \<notin> set js" using IH(4) s1(3) by auto
  moreover have "\<forall>j \<in> set js. lookup s j = None" using IH(4) s1(3) by (auto split: if_splits)
  ultimately show ?case using IH s1 "is" by simp
qed

lemma remove_all_step:
  assumes "inv s" and "distinct is" and "\<forall>i \<in> set is. lookup s i \<noteq> None"
  shows "\<exists>s'. remove_all remove s is = Some s' \<and> inv s' \<and>
    lookup s' = (\<lambda>i. if i \<in> set is then None else lookup s i)"
  using assms
proof (induction "is" arbitrary: s)
  case Nil
  then show ?case by simp
next
  case (Cons i js)
  from Cons.prems(3) obtain v where "lookup s i = Some v" by auto
  from remove_step [OF Cons.prems(1) this] obtain s1 where
    s1: "remove s i = Some s1" "inv s1" "lookup s1 = (lookup s)(i := None)" by blast
  have "\<forall>j \<in> set js. lookup s1 j \<noteq> None" using Cons.prems s1(3) by auto
  from Cons.IH [OF s1(2) _ this] Cons.prems(2) s1 show ?case by (auto simp: fun_eq_iff)
qed

text \<open>The handles of a batch are fresh and pairwise distinct, and each finds its own value.\<close>

lemma insert_all_handles:
  assumes "inv s" and "\<forall>v \<in> set vs. storable v" and "insert_all insert s vs = Some (is, s')"
  shows "length is = length vs \<and> distinct is \<and>
    (\<forall>k < length vs. lookup s (is ! k) = None \<and> lookup s' (is ! k) = Some (vs ! k)) \<and>
    (\<forall>i. i \<notin> set is \<longrightarrow> lookup s' i = lookup s i)"
  using insert_all_step [OF assms] by (simp add: map_upds_nth map_upds_apply_nontin)

text \<open>Handing out handles and giving them all back leaves the table's contents as they were.\<close>

lemma insert_all_remove_all:
  assumes "inv s" and "\<forall>v \<in> set vs. storable v" and "insert_all insert s vs = Some (is, s')"
  shows "\<exists>s''. remove_all remove s' is = Some s'' \<and> inv s'' \<and> lookup s'' = lookup s"
proof -
  note ia = insert_all_step [OF assms]
  then have "dom (lookup s') = set is \<union> dom (lookup s)" by simp
  then have live: "\<forall>i \<in> set is. lookup s' i \<noteq> None" by blast
  from remove_all_step [OF _ _ live] ia obtain s'' where
    "remove_all remove s' is = Some s''" "inv s''"
    "lookup s'' = (\<lambda>i. if i \<in> set is then None else lookup s' i)" by blast
  moreover have "(if i \<in> set is then None else lookup s' i) = lookup s i" for i
    using ia by (auto simp: map_upds_apply_nontin)
  ultimately show ?thesis by (auto simp: fun_eq_iff)
qed

end

end
