(* ===== verification/Opal_Hotel.thy ===== *)
theory Opal_Hotel
  imports Slot_Table
begin

text \<open>
  \<^verbatim>\<open>opal/class/opal_hotel.c\<close> and \<^verbatim>\<open>opal_hotel.h\<close>: a fixed number of rooms, a stack of the free ones, and a
  timer per room that evicts an occupant who stays too long. The timers are events of the event
  library, which is not part of the sources; what the code relies on is that \<open>opal_event_add\<close> makes
  an event pending, \<open>opal_event_del\<close> cancels it, and the library calls the callback of a pending
  event, which is then no longer pending. \<open>timers\<close> records which events are pending. A room holds
  \<open>None\<close> for the null pointer and \<open>Some x\<close> for an occupant, so the occupants that check in are not null; the code
  does not test for a null occupant, which would leave its room looking empty.
\<close>

section \<open>State and operations\<close>

record 'a opal_hotel =
  num_rooms :: int
  evbase :: bool
  timeout_sec :: nat
  timeout_usec :: nat
  rooms :: "'a option list"
  timers :: "bool list"
  unoccupied_rooms :: "int list"
  last_unoccupied_room :: int

text \<open>
  \<open>evbase\<close> is whether the event base pointer is non-null. The three allocations are not checked by
  the code; when one fails the initialisation loop writes through a null pointer.
\<close>

definition opal_hotel_init ::
  "bool \<Rightarrow> 'a opal_hotel \<Rightarrow> int \<Rightarrow> bool \<Rightarrow> u32 \<Rightarrow> bool \<Rightarrow> (opal_status \<times> 'a opal_hotel) option" where
  "opal_hotel_init mem_ok h n evb eviction_timeout has_callback =
     (if n \<le> 0 \<or> \<not> has_callback then Some (OPAL_ERR_BAD_PARAM, h)
      else if \<not> mem_ok then None
      else Some (OPAL_SUCCESS,
        \<lparr>num_rooms = n, evbase = evb,
         timeout_sec = unat eviction_timeout div 1000000,
         timeout_usec = unat eviction_timeout mod 1000000,
         rooms = replicate (nat n) None,
         timers = replicate (nat n) False,
         unoccupied_rooms = map int [0..<nat n],
         last_unoccupied_room = n - 1\<rparr>))"

definition hotel_constructor :: "'a opal_hotel" where
  "hotel_constructor =
     \<lparr>num_rooms = 0, evbase = False, timeout_sec = 0, timeout_usec = 0, rooms = [], timers = [],
      unoccupied_rooms = [], last_unoccupied_room = -1\<rparr>"

definition hotel_destructor :: "'a opal_hotel \<Rightarrow> 'a opal_hotel" where
  "hotel_destructor h = h\<lparr>
     timers := (if evbase h
                then map (\<lambda>i. if rooms h ! i \<noteq> None then False else timers h ! i) [0..<length (rooms h)]
                else timers h),
     rooms := [], unoccupied_rooms := []\<rparr>"

text \<open>Event handling: \<open>opal_event_add\<close> and \<open>opal_event_del\<close> are called only with an event base.\<close>

definition timer_set :: "'a opal_hotel \<Rightarrow> int \<Rightarrow> bool \<Rightarrow> 'a opal_hotel" where
  "timer_set h room_num b =
     (if evbase h then h\<lparr>timers := (timers h)[nat room_num := b]\<rparr> else h)"

definition opal_hotel_checkin ::
  "'a opal_hotel \<Rightarrow> 'a \<Rightarrow> (opal_status \<times> int option \<times> 'a opal_hotel) option" where
  "opal_hotel_checkin h occupant =
     (if last_unoccupied_room h < 0 then Some (OPAL_ERR_TEMP_OUT_OF_RESOURCE, None, h)
      else
        (case arr_get (unoccupied_rooms h) (last_unoccupied_room h) of
           None \<Rightarrow> None
         | Some room_num \<Rightarrow>
             (case arr_set (rooms h) room_num (Some occupant) of
                None \<Rightarrow> None
              | Some rs \<Rightarrow>
                  Some (OPAL_SUCCESS, Some room_num,
                    timer_set (h\<lparr>last_unoccupied_room := last_unoccupied_room h - 1, rooms := rs\<rparr>)
                      room_num True))))"

text \<open>The variant for callers who know that a room is free asserts that the room is empty.\<close>

definition opal_hotel_checkin_with_res ::
  "'a opal_hotel \<Rightarrow> 'a \<Rightarrow> (int \<times> 'a opal_hotel) option" where
  "opal_hotel_checkin_with_res h occupant =
     (case arr_get (unoccupied_rooms h) (last_unoccupied_room h) of
        None \<Rightarrow> None
      | Some room_num \<Rightarrow>
          (if arr_get (rooms h) room_num \<noteq> Some None then None
           else
             Some (room_num,
               timer_set (h\<lparr>last_unoccupied_room := last_unoccupied_room h - 1,
                            rooms := (rooms h)[nat room_num := Some occupant]\<rparr>) room_num True)))"

text \<open>
  The release of a room is the same code in both checkout functions and in the eviction callback:
  clear the occupant and push the room on the stack of free rooms.
\<close>

definition room_release :: "'a opal_hotel \<Rightarrow> int \<Rightarrow> 'a opal_hotel option" where
  "room_release h room_num =
     (let last = last_unoccupied_room h + 1 in
      if \<not> last < num_rooms h then None
      else
        (case arr_set (unoccupied_rooms h) last room_num of
           None \<Rightarrow> None
         | Some un \<Rightarrow> Some (h\<lparr>rooms := (rooms h)[nat room_num := None],
                             last_unoccupied_room := last, unoccupied_rooms := un\<rparr>)))"

definition opal_hotel_checkout_and_return_occupant ::
  "'a opal_hotel \<Rightarrow> int \<Rightarrow> ('a option \<times> 'a opal_hotel) option" where
  "opal_hotel_checkout_and_return_occupant h room_num =
     (if \<not> room_num < num_rooms h then None
      else
        (case arr_get (rooms h) room_num of
           None \<Rightarrow> None
         | Some None \<Rightarrow> Some (None, h)
         | Some (Some occupant) \<Rightarrow>
             map_option (Pair (Some occupant)) (room_release (timer_set h room_num False) room_num)))"

definition opal_hotel_checkout :: "'a opal_hotel \<Rightarrow> int \<Rightarrow> 'a opal_hotel option" where
  "opal_hotel_checkout h room_num =
     (if \<not> room_num < num_rooms h then None
      else
        (case arr_get (rooms h) room_num of
           None \<Rightarrow> None
         | Some None \<Rightarrow> Some h
         | Some (Some occupant) \<Rightarrow> room_release (timer_set h room_num False) room_num))"

text \<open>
  The eviction callback does not look whether the room is occupied. It returns the arguments that
  the user's callback is invoked with.
\<close>

definition local_eviction_callback ::
  "'a opal_hotel \<Rightarrow> int \<Rightarrow> ((int \<times> 'a option) \<times> 'a opal_hotel) option" where
  "local_eviction_callback h room_num =
     (case arr_get (rooms h) room_num of
        None \<Rightarrow> None
      | Some occupant \<Rightarrow> map_option (Pair (room_num, occupant)) (room_release h room_num))"

definition opal_hotel_is_empty :: "'a opal_hotel \<Rightarrow> bool" where
  "opal_hotel_is_empty h = (last_unoccupied_room h = num_rooms h - 1)"

definition opal_hotel_knock :: "'a opal_hotel \<Rightarrow> int \<Rightarrow> 'a option option" where
  "opal_hotel_knock h room_num =
     (if \<not> room_num < num_rooms h then None else arr_get (rooms h) room_num)"

section \<open>The hotel's invariant\<close>

definition free_rooms :: "'a opal_hotel \<Rightarrow> int list" where
  "free_rooms h = take (nat (last_unoccupied_room h + 1)) (unoccupied_rooms h)"

definition hotel_inv :: "'a opal_hotel \<Rightarrow> bool" where
  "hotel_inv h \<longleftrightarrow>
     length (rooms h) = nat (num_rooms h) \<and> length (timers h) = nat (num_rooms h) \<and>
     length (unoccupied_rooms h) = nat (num_rooms h) \<and> 0 \<le> num_rooms h \<and>
     -1 \<le> last_unoccupied_room h \<and> last_unoccupied_room h < num_rooms h \<and>
     distinct (free_rooms h) \<and>
     set (free_rooms h) = {int i |i. i < length (rooms h) \<and> rooms h ! i = None} \<and>
     (\<forall>i < length (rooms h). timers h ! i \<longleftrightarrow> evbase h \<and> rooms h ! i \<noteq> None)"

definition empty_rooms :: "'a option list \<Rightarrow> int set" where
  "empty_rooms rs = {int i |i. i < length rs \<and> rs ! i = None}"

lemma empty_rooms_occupy: "empty_rooms (rs[i := Some x]) = empty_rooms rs - {int i}"
  by (cases "i < length rs")
    (auto simp: empty_rooms_def nth_list_update list_update_beyond split: if_splits)

lemma empty_rooms_vacate: "i < length rs \<Longrightarrow> empty_rooms (rs[i := None]) = insert (int i) (empty_rooms rs)"
  by (auto simp: empty_rooms_def nth_list_update split: if_splits)

lemma card_empty_rooms_le: "card (empty_rooms rs) \<le> length rs"
proof -
  have "empty_rooms rs \<subseteq> int ` {..<length rs}" by (auto simp: empty_rooms_def)
  from card_mono [OF _ this] show ?thesis by (simp add: card_image)
qed

lemma card_empty_rooms_less: "i < length rs \<Longrightarrow> rs ! i \<noteq> None \<Longrightarrow> card (empty_rooms rs) < length rs"
proof -
  assume i: "i < length rs" "rs ! i \<noteq> None"
  have "finite (empty_rooms rs)"
    by (rule finite_subset [of _ "int ` {..<length rs}"]) (auto simp: empty_rooms_def)
  then have "card (empty_rooms (rs[i := None])) = Suc (card (empty_rooms rs))"
    using i by (simp add: empty_rooms_vacate) (auto simp: empty_rooms_def)
  with card_empty_rooms_le [of "rs[i := None]"] show ?thesis by simp
qed

lemma hotel_invD:
  assumes "hotel_inv h"
  shows "length (rooms h) = nat (num_rooms h)" "length (timers h) = nat (num_rooms h)"
    "length (unoccupied_rooms h) = nat (num_rooms h)" "0 \<le> num_rooms h"
    "-1 \<le> last_unoccupied_room h" "last_unoccupied_room h < num_rooms h"
    "distinct (free_rooms h)" "set (free_rooms h) = empty_rooms (rooms h)"
    "i < length (rooms h) \<Longrightarrow> timers h ! i \<longleftrightarrow> evbase h \<and> rooms h ! i \<noteq> None"
  using assms by (auto simp: hotel_inv_def empty_rooms_def)

lemma length_free_rooms: "hotel_inv h \<Longrightarrow> int (length (free_rooms h)) = last_unoccupied_room h + 1"
  using hotel_invD(3,4,5,6) [of h] by (auto simp: free_rooms_def)

lemma card_free_rooms: "hotel_inv h \<Longrightarrow> int (card (empty_rooms (rooms h))) = last_unoccupied_room h + 1"
  using length_free_rooms [of h] hotel_invD(7,8) [of h] by (metis distinct_card)

lemma free_rooms_snoc:
  assumes "hotel_inv h" and "0 \<le> last_unoccupied_room h"
  shows "free_rooms h = take (nat (last_unoccupied_room h)) (unoccupied_rooms h) @
           [unoccupied_rooms h ! nat (last_unoccupied_room h)]"
  using assms hotel_invD(3,4,6) [OF assms(1)]
  by (simp add: free_rooms_def nat_add_distrib take_Suc_conv_app_nth)

lemma init_inv:
  assumes "opal_hotel_init mem_ok h0 n evb t has_callback = Some (OPAL_SUCCESS, h)"
  shows "hotel_inv h \<and> 0 < num_rooms h \<and> (\<forall>i < length (rooms h). rooms h ! i = None)"
  using assms by (auto simp: opal_hotel_init_def hotel_inv_def free_rooms_def distinct_map split: if_splits)

text \<open>The room that a check-in takes: the one on the top of the stack, which is empty.\<close>

lemma checkin_room:
  assumes "hotel_inv h" and "0 \<le> last_unoccupied_room h"
  obtains r where "arr_get (unoccupied_rooms h) (last_unoccupied_room h) = Some (int r)"
    "r < length (rooms h)" "rooms h ! r = None"
    "hotel_inv (timer_set (h\<lparr>last_unoccupied_room := last_unoccupied_room h - 1,
       rooms := (rooms h)[r := Some x]\<rparr>) (int r) True)"
proof -
  let ?top = "unoccupied_rooms h ! nat (last_unoccupied_room h)"
  note inv = hotel_invD [OF assms(1)] and snoc = free_rooms_snoc [OF assms]
  have "?top \<in> empty_rooms (rooms h)" using snoc inv(8) by (metis in_set_conv_decomp)
  then obtain r where r: "?top = int r" "r < length (rooms h)" "rooms h ! r = None"
    by (auto simp: empty_rooms_def)
  let ?h' = "timer_set (h\<lparr>last_unoccupied_room := last_unoccupied_room h - 1,
       rooms := (rooms h)[r := Some x]\<rparr>) (int r) True"
  have free: "free_rooms ?h' = take (nat (last_unoccupied_room h)) (unoccupied_rooms h)"
    by (simp add: free_rooms_def timer_set_def)
  have "set (free_rooms ?h') = empty_rooms (rooms ?h')"
    using inv(7,8) snoc r free by (auto simp: empty_rooms_occupy timer_set_def)
  moreover have "distinct (free_rooms ?h')" using inv(7) snoc free by simp
  ultimately have "hotel_inv ?h'"
    using inv assms(2) r(2) unfolding hotel_inv_def empty_rooms_def
    by (auto simp: timer_set_def nth_list_update)
  moreover have "arr_get (unoccupied_rooms h) (last_unoccupied_room h) = Some (int r)"
    using r(1) inv(3,4,6) assms(2) by (simp add: carray)
  ultimately show ?thesis using that r(2,3) by blast
qed

text \<open>Releasing an occupied room succeeds and empties it.\<close>

lemma release_step:
  assumes "hotel_inv h" and "i < length (rooms h)" and "rooms h ! i \<noteq> None"
  shows "\<exists>h'. room_release (timer_set h (int i) False) (int i) = Some h' \<and> hotel_inv h' \<and>
    rooms h' = (rooms h)[i := None] \<and> num_rooms h' = num_rooms h"
proof -
  note inv = hotel_invD [OF assms(1)]
  have last: "last_unoccupied_room h + 1 < num_rooms h"
    using card_free_rooms [OF assms(1)] card_empty_rooms_less [OF assms(2,3)] inv(1,4) by linarith
  let ?k = "nat (last_unoccupied_room h + 1)"
  let ?h' = "(timer_set h (int i) False)\<lparr>rooms := (rooms h)[i := None],
     last_unoccupied_room := last_unoccupied_room h + 1,
     unoccupied_rooms := (unoccupied_rooms h)[?k := int i]\<rparr>"
  have rel: "room_release (timer_set h (int i) False) (int i) = Some ?h'"
    using last inv(3,5) by (simp add: room_release_def timer_set_def Let_def carray)
  have "nat (2 + last_unoccupied_room h) = Suc ?k" using inv(5) by linarith
  then have "free_rooms ?h' = free_rooms h @ [int i]"
    using last inv(3,5) by (simp add: free_rooms_def take_Suc_update)
  moreover have "int i \<notin> set (free_rooms h)"
    using assms(3) inv(8) by (auto simp: empty_rooms_def)
  ultimately have "distinct (free_rooms ?h')" "set (free_rooms ?h') = empty_rooms (rooms ?h')"
    using inv(7,8) assms(2) by (auto simp: empty_rooms_vacate)
  then have "hotel_inv ?h'"
    using inv assms(2) last unfolding hotel_inv_def empty_rooms_def
    by (auto simp: timer_set_def nth_list_update)
  with rel show ?thesis by (auto simp: timer_set_def)
qed

section \<open>Behaviour of the operations\<close>

lemma checkin_ok:
  assumes "hotel_inv h" and "\<exists>i < length (rooms h). rooms h ! i = None"
  shows "\<exists>r h'. opal_hotel_checkin h x = Some (OPAL_SUCCESS, Some (int r), h') \<and>
    opal_hotel_checkin_with_res h x = Some (int r, h') \<and>
    r < length (rooms h) \<and> rooms h ! r = None \<and> hotel_inv h' \<and> rooms h' = (rooms h)[r := Some x] \<and>
    num_rooms h' = num_rooms h"
proof -
  have "empty_rooms (rooms h) \<noteq> {}" using assms(2) by (auto simp: empty_rooms_def)
  moreover have "finite (empty_rooms (rooms h))" using hotel_invD(8) [OF assms(1)] by (metis finite_set)
  ultimately have "0 < card (empty_rooms (rooms h))" by (simp add: card_gt_0_iff)
  then have last: "0 \<le> last_unoccupied_room h"
    using card_free_rooms [OF assms(1)] by linarith
  from assms(1) last obtain r where
    "arr_get (unoccupied_rooms h) (last_unoccupied_room h) = Some (int r)"
    "r < length (rooms h)" "rooms h ! r = None"
    "hotel_inv (timer_set (h\<lparr>last_unoccupied_room := last_unoccupied_room h - 1,
       rooms := (rooms h)[r := Some x]\<rparr>) (int r) True)"
    by (rule checkin_room [where x = x])
  with last show ?thesis
    by (auto simp: opal_hotel_checkin_def opal_hotel_checkin_with_res_def carray)
      (auto simp: timer_set_def)
qed

lemma checkin_full:
  assumes "hotel_inv h" and "\<forall>i < length (rooms h). rooms h ! i \<noteq> None"
  shows "opal_hotel_checkin h x = Some (OPAL_ERR_TEMP_OUT_OF_RESOURCE, None, h)"
proof -
  have "empty_rooms (rooms h) = {}" using assms(2) by (auto simp: empty_rooms_def)
  then have "last_unoccupied_room h < 0" using card_free_rooms [OF assms(1)] by simp
  then show ?thesis by (simp add: opal_hotel_checkin_def)
qed

lemma checkout_and_return_ok:
  assumes "hotel_inv h" and "r < length (rooms h)"
  shows "\<exists>h'. opal_hotel_checkout_and_return_occupant h (int r) = Some (rooms h ! r, h') \<and>
    opal_hotel_checkout h (int r) = Some h' \<and>
    hotel_inv h' \<and> rooms h' = (rooms h)[r := None] \<and> num_rooms h' = num_rooms h"
proof (cases "rooms h ! r")
  case None
  then have "(rooms h)[r := None] = rooms h" by (metis list_update_id)
  with None assms hotel_invD(1,4) [OF assms(1)] show ?thesis
    by (auto simp: opal_hotel_checkout_and_return_occupant_def opal_hotel_checkout_def carray)
next
  case (Some x)
  with release_step [OF assms] assms hotel_invD(1,4) [OF assms(1)] show ?thesis
    by (auto simp: opal_hotel_checkout_and_return_occupant_def opal_hotel_checkout_def carray)
qed

lemma eviction_ok:
  assumes "hotel_inv h" and "r < length (rooms h)" and "timers h ! r"
  shows "\<exists>x h'. rooms h ! r = Some x \<and>
    local_eviction_callback (timer_set h (int r) False) (int r) = Some ((int r, Some x), h') \<and>
    hotel_inv h' \<and> rooms h' = (rooms h)[r := None] \<and> num_rooms h' = num_rooms h"
proof -
  from hotel_invD(9) [OF assms(1,2)] assms(3) obtain x where x: "rooms h ! r = Some x" by auto
  with release_step [OF assms(1,2)] assms(2) show ?thesis
    by (auto simp: local_eviction_callback_def timer_set_def carray)
qed

section \<open>The hotel as a state machine\<close>

text \<open>
  The steps a hotel can take: check-ins (also into a full hotel), checkouts of any room, and the
  event library firing a pending timer.
\<close>

inductive hotel_step :: "'a opal_hotel \<Rightarrow> 'a opal_hotel \<Rightarrow> bool" where
  checkin: "opal_hotel_checkin h x = Some (st, r, h') \<Longrightarrow> hotel_step h h'"
| checkout: "opal_hotel_checkout h r = Some h' \<Longrightarrow> hotel_step h h'"
| checkout_return: "opal_hotel_checkout_and_return_occupant h r = Some (x, h') \<Longrightarrow> hotel_step h h'"
| evict: "r < length (timers h) \<Longrightarrow> timers h ! r \<Longrightarrow>
    local_eviction_callback (timer_set h (int r) False) (int r) = Some (arg, h') \<Longrightarrow> hotel_step h h'"

inductive hotel_reachable :: "'a opal_hotel \<Rightarrow> bool" where
  init: "opal_hotel_init mem_ok h0 n evb t has_callback = Some (OPAL_SUCCESS, h) \<Longrightarrow> hotel_reachable h"
| step: "hotel_reachable h \<Longrightarrow> hotel_step h h' \<Longrightarrow> hotel_reachable h'"

lemma checkin_inv: "hotel_inv h \<Longrightarrow> opal_hotel_checkin h x = Some (st, r, h') \<Longrightarrow> hotel_inv h'"
  using checkin_ok [of h x] checkin_full [of h x]
  by (cases "\<exists>i < length (rooms h). rooms h ! i = None") auto

lemma checkout_range:
  assumes "opal_hotel_checkout h r = Some h'"
  obtains i where "r = int i" "i < length (rooms h)"
  using assms by (auto simp: opal_hotel_checkout_def arr_get_def split: if_splits intro!: that [of "nat r"])

lemma checkout_return_range:
  assumes "opal_hotel_checkout_and_return_occupant h r = Some (x, h')"
  obtains i where "r = int i" "i < length (rooms h)"
  using assms by (auto simp: opal_hotel_checkout_and_return_occupant_def arr_get_def
      split: if_splits intro!: that [of "nat r"])

lemma hotel_step_inv: "hotel_step h h' \<Longrightarrow> hotel_inv h \<Longrightarrow> hotel_inv h'"
proof (induction rule: hotel_step.induct)
  case (checkin h x st r h')
  then show ?case by (blast intro: checkin_inv)
next
  case (checkout h r h')
  from checkout(1) obtain i where "r = int i" "i < length (rooms h)" by (rule checkout_range)
  with checkout checkout_and_return_ok [of h i] show ?case by auto
next
  case (checkout_return h r x h')
  from checkout_return(1) obtain i where "r = int i" "i < length (rooms h)"
    by (rule checkout_return_range)
  with checkout_return checkout_and_return_ok [of h i] show ?case by auto
next
  case (evict r h arg h')
  with eviction_ok [of h r] hotel_invD(1,2) [of h] show ?case by auto
qed

lemma hotel_reachable_inv: "hotel_reachable h \<Longrightarrow> hotel_inv h"
  by (induction rule: hotel_reachable.induct) (auto dest: init_inv hotel_step_inv)

section \<open>The hotel as a slot table\<close>

definition hotel_lookup :: "'a opal_hotel \<Rightarrow> int \<Rightarrow> 'a option" where
  "hotel_lookup h r = (case opal_hotel_knock h r of Some x \<Rightarrow> x | None \<Rightarrow> None)"

definition hotel_insert :: "'a opal_hotel \<Rightarrow> 'a \<Rightarrow> (int \<times> 'a opal_hotel) option" where
  "hotel_insert h x =
     (case opal_hotel_checkin h x of
        Some (OPAL_SUCCESS, Some r, h') \<Rightarrow> Some (r, h') | _ \<Rightarrow> None)"

lemma hotel_lookup_eq:
  "hotel_inv h \<Longrightarrow> hotel_lookup h r =
     (if 0 \<le> r \<and> r < int (length (rooms h)) then rooms h ! nat r else None)"
  using hotel_invD(1,4) [of h] by (auto simp: hotel_lookup_def opal_hotel_knock_def arr_get_def)

lemma hotel_lookup_update:
  assumes "hotel_inv h" "hotel_inv h'" "rooms h' = (rooms h)[r := v]" "r < length (rooms h)"
  shows "hotel_lookup h' = (hotel_lookup h)(int r := v)"
proof
  fix j
  have "nat j = r \<longleftrightarrow> j = int r" if "0 \<le> j" using that by auto
  then show "hotel_lookup h' j = ((hotel_lookup h)(int r := v)) j"
    using assms(3,4) by (auto simp: hotel_lookup_eq [OF assms(1)] hotel_lookup_eq [OF assms(2)] nth_list_update)
qed

interpretation hotel_slots: slot_table hotel_inv "\<lambda>_. True" hotel_lookup hotel_insert opal_hotel_checkout
proof
  fix h :: "'a opal_hotel" and x i h'
  assume inv: "hotel_inv h" and ins: "hotel_insert h x = Some (i, h')"
  have "\<exists>j < length (rooms h). rooms h ! j = None"
  proof (rule ccontr)
    assume "\<not> (\<exists>j < length (rooms h). rooms h ! j = None)"
    then show False using ins checkin_full [OF inv, of x] by (simp add: hotel_insert_def)
  qed
  from checkin_ok [OF inv this, of x] ins obtain r where r: "i = int r" "r < length (rooms h)"
    "rooms h ! r = None" "hotel_inv h'" "rooms h' = (rooms h)[r := Some x]"
    by (auto simp: hotel_insert_def)
  then show "hotel_inv h' \<and> hotel_lookup h i = None \<and> hotel_lookup h' = (hotel_lookup h)(i \<mapsto> x)"
    using hotel_lookup_update [OF inv r(4,5,2)] by (simp add: hotel_lookup_eq [OF inv])
next
  fix h :: "'a opal_hotel" and i v
  assume inv: "hotel_inv h" and look: "hotel_lookup h i = Some v"
  then have r: "i = int (nat i)" "nat i < length (rooms h)"
    by (auto simp: hotel_lookup_eq split: if_splits)
  from checkout_and_return_ok [OF inv r(2)] obtain h' where h': "opal_hotel_checkout h i = Some h'"
    "hotel_inv h'" "rooms h' = (rooms h)[nat i := None]" using r(1) by auto
  then show "\<exists>h'. opal_hotel_checkout h i = Some h' \<and> hotel_inv h' \<and>
      hotel_lookup h' = (hotel_lookup h)(i := None)"
    using hotel_lookup_update [OF inv h'(2,3) r(2)] r(1) by metis
qed

section \<open>Properties\<close>

definition hotel_example :: "nat opal_hotel" where
  "hotel_example = \<lparr>num_rooms = 2, evbase = True, timeout_sec = 0, timeout_usec = 0,
     rooms = [None, None], timers = [False, False], unoccupied_rooms = [0, 1], last_unoccupied_room = 1\<rparr>"

lemma hotel_example_reachable: "hotel_reachable hotel_example"
  by (rule hotel_reachable.init [of True hotel_constructor 2 True 0 True])
    (simp add: opal_hotel_init_def hotel_example_def numeral_2_eq_2 upt_rec)

text \<open>
  C19. Hotel invariant. In every hotel reachable from a successful initialisation by check-ins,
  checkouts and timer evictions, the first \<open>last_unoccupied_room + 1\<close> entries of the index array name
  every empty room exactly once, and a room's eviction timer is pending exactly when the room is
  occupied and there is an event base.
\<close>

theorem hotel_free_list_exact:
  assumes "hotel_reachable h"
  shows "distinct (free_rooms h) \<and>
    (\<forall>i < length (rooms h). (int i \<in> set (free_rooms h) \<longleftrightarrow> rooms h ! i = None) \<and>
       (timers h ! i \<longleftrightarrow> evbase h \<and> rooms h ! i \<noteq> None)) \<and>
    set (free_rooms h) \<subseteq> {0..<int (length (rooms h))}"
  using hotel_invD [OF hotel_reachable_inv [OF assms]] by (auto simp: empty_rooms_def)

theorem hotel_free_list_exact_witness:
  "hotel_reachable hotel_example \<and> distinct (free_rooms hotel_example) \<and>
   (0::int) \<in> set (free_rooms hotel_example)"
  using hotel_example_reachable hotel_free_list_exact [OF hotel_example_reachable]
  by (simp add: hotel_example_def free_rooms_def)

text \<open>
  C18. Check-in and checkout round trip. When a batch of occupants checks into a reachable hotel, the
  room numbers are pairwise distinct, a knock on each finds its own occupant, the other rooms are
  untouched, and checking the batch out again succeeds and restores the occupancy of every room.
\<close>

theorem hotel_batch_round_trip:
  assumes "hotel_reachable h" and "insert_all hotel_insert h xs = Some (rs, h')"
  shows "distinct rs \<and>
    (\<forall>k < length xs. hotel_lookup h (rs ! k) = None \<and> hotel_lookup h' (rs ! k) = Some (xs ! k)) \<and>
    (\<forall>r. r \<notin> set rs \<longrightarrow> hotel_lookup h' r = hotel_lookup h r) \<and>
    (\<exists>h''. remove_all opal_hotel_checkout h' rs = Some h'' \<and> hotel_lookup h'' = hotel_lookup h)"
  using hotel_slots.insert_all_handles [OF hotel_reachable_inv [OF assms(1)] _ assms(2)]
    hotel_slots.insert_all_remove_all [OF hotel_reachable_inv [OF assms(1)] _ assms(2)] by auto

theorem hotel_batch_round_trip_witness:
  "\<exists>rs h' h''. hotel_reachable hotel_example \<and>
     insert_all hotel_insert hotel_example [7, 8] = Some (rs, h') \<and> rs = [1, 0] \<and>
     hotel_lookup h' (rs ! 1) = Some 8 \<and>
     remove_all opal_hotel_checkout h' rs = Some h'' \<and> hotel_lookup h'' = hotel_lookup hotel_example"
proof -
  let ?h' = "hotel_example\<lparr>rooms := [Some 8, Some 7], timers := [True, True], last_unoccupied_room := -1\<rparr>"
  have ins: "insert_all hotel_insert hotel_example [7, 8] = Some ([1, 0], ?h')"
    by (simp add: hotel_insert_def opal_hotel_checkin_def timer_set_def carray hotel_example_def)
  note rt = hotel_batch_round_trip [OF hotel_example_reachable ins]
  from rt obtain h'' where h'': "remove_all opal_hotel_checkout ?h' [1, 0] = Some h''"
    "hotel_lookup h'' = hotel_lookup hotel_example" by blast
  have "1 < length [7, 8::nat]" by simp
  with rt have "hotel_lookup ?h' ([1, 0] ! 1) = Some ([7, 8] ! 1)" by blast
  then have "hotel_lookup ?h' ([1, 0] ! 1) = Some 8" by simp
  with hotel_example_reachable ins h'' show ?thesis by blast
qed

end
