(* ===== verification/Bit_Set.thy ===== *)
theory Bit_Set
  imports Mpi_Ucx_Prelude
begin

text \<open>
  The interface of \<^verbatim>\<open>opal_bitmap\<close> that the group operations use: a set of indices that starts empty, to
  which indices up to a bound can be added, and that is asked for membership. The client fact is
  what marking a whole list of indices does.
\<close>

fun set_all :: "('s \<Rightarrow> int \<Rightarrow> 's option) \<Rightarrow> 's \<Rightarrow> int list \<Rightarrow> 's option" where
  "set_all f s [] = Some s"
| "set_all f s (b # bs) = (case f s b of None \<Rightarrow> None | Some s' \<Rightarrow> set_all f s' bs)"

locale bit_set =
  fixes inv :: "'s \<Rightarrow> bool"
    and mem :: "'s \<Rightarrow> int \<Rightarrow> bool"
    and bound :: "'s \<Rightarrow> int"
    and set_bit :: "'s \<Rightarrow> int \<Rightarrow> 's option"
  assumes set_step: "inv s \<Longrightarrow> 0 \<le> b \<Longrightarrow> b \<le> bound s \<Longrightarrow>
      \<exists>s'. set_bit s b = Some s' \<and> inv s' \<and> bound s' = bound s \<and> mem s' = (mem s)(b := True)"
begin

lemma set_all_step:
  assumes "inv s" and "\<forall>b \<in> set bs. 0 \<le> b \<and> b \<le> bound s"
  shows "\<exists>s'. set_all set_bit s bs = Some s' \<and> inv s' \<and> bound s' = bound s \<and>
    (\<forall>b. mem s' b \<longleftrightarrow> mem s b \<or> b \<in> set bs)"
  using assms
proof (induction bs arbitrary: s)
  case Nil
  then show ?case by simp
next
  case (Cons b bs)
  then obtain s1 where s1: "set_bit s b = Some s1" "inv s1" "bound s1 = bound s"
    "mem s1 = (mem s)(b := True)" using set_step [of s b] by auto
  with Cons.IH [OF s1(2)] Cons.prems(2) obtain s' where "set_all set_bit s1 bs = Some s'"
    "inv s'" "bound s' = bound s" "\<forall>c. mem s' c \<longleftrightarrow> mem s1 c \<or> c \<in> set bs" by auto
  with s1 show ?case by auto
qed

end

end
