(* ===== verification/Opal_Bitmap.thy ===== *)
theory Opal_Bitmap
  imports Bit_Set
begin

unbundle bit_operations_syntax

text \<open>
  \<^verbatim>\<open>opal/class/opal_bitmap.c\<close> and \<^verbatim>\<open>opal_bitmap.h\<close>: a bitmap of 64-bit words that grows on demand. The
  operations here take the bitmap object; the checks for a null object pointer, which come first in
  every operation of the source and return \<open>OPAL_ERR_BAD_PARAM\<close>, have no counterpart. \<open>mem_ok\<close> is the
  outcome of the allocation an operation makes. The fault \<open>None\<close> is an access outside the word array or the
  overflow of an \<open>int\<close>: the number of bits, 64 times the number of words, is computed as an \<open>int\<close>.
\<close>

section \<open>State and operations\<close>

definition INT_MAX :: int where
  "INT_MAX = 2147483647"

text \<open>A null word array is the empty list.\<close>

record opal_bitmap =
  bitmap :: "u64 list"
  array_size :: int
  max_size :: int

definition opal_bitmap_construct :: opal_bitmap where
  "opal_bitmap_construct = \<lparr>bitmap = [], array_size = 0, max_size = INT_MAX\<rparr>"

definition opal_bitmap_destruct :: "opal_bitmap \<Rightarrow> opal_bitmap" where
  "opal_bitmap_destruct bm = bm\<lparr>bitmap := []\<rparr>"

text \<open>\<open>((size_t) s + 63) / 64\<close>, converted back to an \<open>int\<close>.\<close>

definition words_for :: "int \<Rightarrow> int" where
  "words_for s = (s + 63) div 64"

definition opal_bitmap_set_max_size :: "opal_bitmap \<Rightarrow> int \<Rightarrow> opal_status \<times> opal_bitmap" where
  "opal_bitmap_set_max_size bm s = (OPAL_SUCCESS, bm\<lparr>max_size := words_for s\<rparr>)"

definition opal_bitmap_clear_all_bits :: "opal_bitmap \<Rightarrow> opal_status \<times> opal_bitmap" where
  "opal_bitmap_clear_all_bits bm = (OPAL_SUCCESS, bm\<lparr>bitmap := replicate (nat (array_size bm)) 0\<rparr>)"

definition opal_bitmap_set_all_bits :: "opal_bitmap \<Rightarrow> opal_status \<times> opal_bitmap" where
  "opal_bitmap_set_all_bits bm = (OPAL_SUCCESS, bm\<lparr>bitmap := replicate (nat (array_size bm)) (-1)\<rparr>)"

definition opal_bitmap_init :: "bool \<Rightarrow> opal_bitmap \<Rightarrow> int \<Rightarrow> opal_status \<times> opal_bitmap" where
  "opal_bitmap_init mem_ok bm sz =
     (if sz \<le> 0 \<or> sz > max_size bm then (OPAL_ERR_BAD_PARAM, bm)
      else
        (let bm1 = bm\<lparr>array_size := words_for sz\<rparr>;
             bm2 = (if bitmap bm1 \<noteq> [] \<and> max_size bm1 < array_size bm1
                    then bm1\<lparr>max_size := array_size bm1\<rparr> else bm1)
         in if \<not> mem_ok then (OPAL_ERR_OUT_OF_RESOURCE, bm2\<lparr>bitmap := []\<rparr>)
            else opal_bitmap_clear_all_bits bm2))"

text \<open>
  Setting a bit beyond the array reallocates it to \<open>index + 1\<close> words, at most \<open>max_size\<close>, and zeroes
  the new words; \<open>memset\<close> with a negative length faults.
\<close>

definition opal_bitmap_set_bit :: "bool \<Rightarrow> opal_bitmap \<Rightarrow> int \<Rightarrow> (opal_status \<times> opal_bitmap) option" where
  "opal_bitmap_set_bit mem_ok bm b =
     (if b < 0 \<or> b > max_size bm then Some (OPAL_ERR_BAD_PARAM, bm)
      else
        (let index = b div 64; offset = nat (b mod 64);
             new_size = (if index + 1 > max_size bm then max_size bm else index + 1);
             grown = (if array_size bm \<le> index
                      then (if \<not> mem_ok then Inl (Some (OPAL_ERR_OUT_OF_RESOURCE, bm\<lparr>bitmap := []\<rparr>))
                            else if new_size < array_size bm then Inl None
                            else Inr (bm\<lparr>bitmap := take (nat (array_size bm)) (bitmap bm) @
                                          replicate (nat (new_size - array_size bm)) 0,
                                        array_size := new_size\<rparr>))
                      else Inr bm)
         in case grown of
              Inl r \<Rightarrow> r
            | Inr bm1 \<Rightarrow>
                (case arr_get (bitmap bm1) index of
                   None \<Rightarrow> None
                 | Some w \<Rightarrow>
                     Some (OPAL_SUCCESS,
                       bm1\<lparr>bitmap := (bitmap bm1)[nat index := w OR push_bit offset 1]\<rparr>))))"

definition opal_bitmap_clear_bit :: "opal_bitmap \<Rightarrow> int \<Rightarrow> (opal_status \<times> opal_bitmap) option" where
  "opal_bitmap_clear_bit bm b =
     (if b < 0 then Some (OPAL_ERR_BAD_PARAM, bm)
      else
        do {
          nbits \<leftarrow> c_int (array_size bm * 64);
          if b \<ge> nbits then Some (OPAL_ERR_BAD_PARAM, bm)
          else
            (let index = b div 64; offset = nat (b mod 64) in
             case arr_get (bitmap bm) index of
               None \<Rightarrow> None
             | Some w \<Rightarrow>
                 Some (OPAL_SUCCESS,
                   bm\<lparr>bitmap := (bitmap bm)[nat index := w AND NOT (push_bit offset 1)]\<rparr>))
        })"

definition opal_bitmap_is_set_bit :: "opal_bitmap \<Rightarrow> int \<Rightarrow> bool option" where
  "opal_bitmap_is_set_bit bm b =
     (if b < 0 then Some False
      else
        do {
          nbits \<leftarrow> c_int (array_size bm * 64);
          if b \<ge> nbits then Some False
          else
            (let index = b div 64; offset = nat (b mod 64) in
             map_option (\<lambda>w. w AND push_bit offset 1 \<noteq> 0) (arr_get (bitmap bm) index))
        })"

text \<open>
  \<open>skip_full\<close> is the loop over the words without an unset bit. \<open>shift_pos\<close> is the loop that shifts the
  changed bit down to bit 0 and counts; it would not end on a zero word.
\<close>

fun skip_full :: "u64 list \<Rightarrow> nat" where
  "skip_full [] = 0"
| "skip_full (w # ws) = (if w = -1 then Suc (skip_full ws) else 0)"

partial_function (option) shift_pos :: "u64 \<Rightarrow> int \<Rightarrow> int option" where
  "shift_pos temp position =
     (if temp AND 1 = 0 then shift_pos (drop_bit 1 temp) (position + 1) else Some position)"

definition opal_bitmap_find_and_set_first_unset_bit ::
  "bool \<Rightarrow> opal_bitmap \<Rightarrow> (opal_status \<times> int \<times> opal_bitmap) option" where
  "opal_bitmap_find_and_set_first_unset_bit mem_ok bm =
     (let i = skip_full (take (nat (array_size bm)) (bitmap bm)) in
      if int i = array_size bm then
        do {
          position \<leftarrow> c_int (array_size bm * 64);
          (st, bm') \<leftarrow> opal_bitmap_set_bit mem_ok bm position;
          Some (st, position, bm')
        }
      else
        (case arr_get (bitmap bm) (int i) of
           None \<Rightarrow> None
         | Some w \<Rightarrow>
             (let w' = w OR (w + 1); temp = w XOR w' in
              do {
                position \<leftarrow> shift_pos temp 0;
                base \<leftarrow> c_int (int i * 64);
                position \<leftarrow> c_int (position + base);
                Some (OPAL_SUCCESS, position, bm\<lparr>bitmap := (bitmap bm)[i := w']\<rparr>)
              })))"

text \<open>The three in-place operators differ in the word operation only.\<close>

definition bitwise_inplace ::
  "(u64 \<Rightarrow> u64 \<Rightarrow> u64) \<Rightarrow> opal_bitmap \<Rightarrow> opal_bitmap \<Rightarrow> (opal_status \<times> opal_bitmap) option" where
  "bitwise_inplace f dest right =
     (if array_size dest \<noteq> array_size right then Some (OPAL_ERR_BAD_PARAM, dest)
      else if nat (array_size dest) \<le> length (bitmap dest) \<and> nat (array_size dest) \<le> length (bitmap right)
      then Some (OPAL_SUCCESS, dest\<lparr>bitmap :=
              map2 f (take (nat (array_size dest)) (bitmap dest)) (take (nat (array_size dest)) (bitmap right)) @
              drop (nat (array_size dest)) (bitmap dest)\<rparr>)
      else None)"

definition opal_bitmap_bitwise_and_inplace ::
  "opal_bitmap \<Rightarrow> opal_bitmap \<Rightarrow> (opal_status \<times> opal_bitmap) option" where
  "opal_bitmap_bitwise_and_inplace = bitwise_inplace (AND)"

definition opal_bitmap_bitwise_or_inplace ::
  "opal_bitmap \<Rightarrow> opal_bitmap \<Rightarrow> (opal_status \<times> opal_bitmap) option" where
  "opal_bitmap_bitwise_or_inplace = bitwise_inplace (OR)"

definition opal_bitmap_bitwise_xor_inplace ::
  "opal_bitmap \<Rightarrow> opal_bitmap \<Rightarrow> (opal_status \<times> opal_bitmap) option" where
  "opal_bitmap_bitwise_xor_inplace = bitwise_inplace (XOR)"

definition opal_bitmap_size :: "opal_bitmap \<Rightarrow> int option" where
  "opal_bitmap_size bm = c_int (array_size bm * 64)"

fun words_differ :: "u64 list \<Rightarrow> u64 list \<Rightarrow> nat \<Rightarrow> nat \<Rightarrow> bool option" where
  "words_differ left right i 0 = Some False"
| "words_differ left right i (Suc n) =
     do {
       l \<leftarrow> arr_get left (int i);
       r \<leftarrow> arr_get right (int i);
       if l \<noteq> r then Some True else words_differ left right (Suc i) n
     }"

definition opal_bitmap_are_different :: "opal_bitmap \<Rightarrow> opal_bitmap \<Rightarrow> bool option" where
  "opal_bitmap_are_different left right =
     do {
       l \<leftarrow> opal_bitmap_size left;
       r \<leftarrow> opal_bitmap_size right;
       if l \<noteq> r then Some True else words_differ (bitmap left) (bitmap right) 0 (nat (array_size left))
     }"

definition opal_bitmap_get_string :: "bool \<Rightarrow> opal_bitmap \<Rightarrow> string option option" where
  "opal_bitmap_get_string mem_ok bm =
     do {
       nbits \<leftarrow> c_int (array_size bm * 64);
       _ \<leftarrow> c_int (nbits + 1);
       if \<not> mem_ok then Some None
       else
         map_option Some
           (mapo (\<lambda>i. map_option (\<lambda>b. if b then CHR ''X'' else CHR ''_'') (opal_bitmap_is_set_bit bm (int i)))
              [0..<nat nbits])
     }"

text \<open>Wegner's loop clears the lowest set bit of the word until the word is zero.\<close>

function wegner :: "u64 \<Rightarrow> int \<Rightarrow> int" where
  "wegner val cnt = (if val = 0 then cnt else wegner (val AND (val - 1)) (cnt + 1))"
  by pat_completeness auto
termination
proof (relation "measure (\<lambda>(val, cnt). unat val)")
  fix val :: u64 and cnt :: int
  assume "val \<noteq> 0"
  have "val AND (val - 1) \<le> val - 1" by (rule word_and_le1)
  also have "val - 1 < val" using \<open>val \<noteq> 0\<close> by (simp add: word_less_nat_alt unat_minus_one unat_gt_0)
  finally show "((val AND (val - 1), cnt + 1), val, cnt) \<in> measure (\<lambda>(val, cnt). unat val)"
    by (simp add: word_less_nat_alt)
qed simp

declare wegner.simps [simp del]

text \<open>
  \<open>opal_bitmap_num_set_bits\<close> as built without \<open>OPAL_ENABLE_DEBUG\<close>: the loop indexes the word array with
  \<open>i < len\<close>. The count only goes up, so it overflows within a word when it is too large after it.
\<close>

fun num_set_bits_loop :: "u64 list \<Rightarrow> nat \<Rightarrow> nat \<Rightarrow> int \<Rightarrow> int option" where
  "num_set_bits_loop ws i 0 cnt = Some cnt"
| "num_set_bits_loop ws i (Suc n) cnt =
     (case arr_get ws (int i) of
        None \<Rightarrow> None
      | Some val \<Rightarrow> do { cnt \<leftarrow> c_int (wegner val cnt); num_set_bits_loop ws (Suc i) n cnt })"

definition opal_bitmap_num_set_bits :: "opal_bitmap \<Rightarrow> int \<Rightarrow> int option" where
  "opal_bitmap_num_set_bits bm len = num_set_bits_loop (bitmap bm) 0 (nat len) 0"

definition opal_bitmap_num_unset_bits :: "opal_bitmap \<Rightarrow> int \<Rightarrow> int option" where
  "opal_bitmap_num_unset_bits bm len = do { c \<leftarrow> opal_bitmap_num_set_bits bm len; c_int (len - c) }"

definition opal_bitmap_is_clear :: "opal_bitmap \<Rightarrow> bool" where
  "opal_bitmap_is_clear bm = (\<forall>w \<in> set (take (nat (array_size bm)) (bitmap bm)). w = 0)"

definition opal_bitmap_copy :: "bool \<Rightarrow> opal_bitmap \<Rightarrow> opal_bitmap \<Rightarrow> opal_bitmap option" where
  "opal_bitmap_copy mem_ok dest src =
     (if array_size dest < array_size src \<and> \<not> mem_ok then None
      else Some \<lparr>
        bitmap = take (nat (array_size src)) (bitmap src) @
          (if array_size dest < array_size src then [] else drop (nat (array_size src)) (bitmap dest)),
        array_size = array_size src,
        max_size = (if array_size dest < array_size src then max_size src else max_size dest)\<rparr>)"

section \<open>The bitmap as a set of bits\<close>

text \<open>Single-bit masks stay in the shape \<open>push_bit n 1\<close> they have in the source.\<close>

declare push_bit_of_1 [simp del]

definition bitmap_inv :: "opal_bitmap \<Rightarrow> bool" where
  "bitmap_inv bm \<longleftrightarrow> 0 \<le> array_size bm \<and> length (bitmap bm) = nat (array_size bm)"

text \<open>\<open>bits_of bm\<close> is the set the bitmap stands for: bit \<open>b\<close> is bit \<open>b mod 64\<close> of word \<open>b div 64\<close>.\<close>

definition bits_of :: "opal_bitmap \<Rightarrow> int \<Rightarrow> bool" where
  "bits_of bm b \<longleftrightarrow> 0 \<le> b \<and> b < array_size bm * 64 \<and> bit (bitmap bm ! nat (b div 64)) (nat (b mod 64))"

lemma word_index: "0 \<le> b \<Longrightarrow> b < a * 64 \<Longrightarrow> 0 \<le> b div 64 \<and> b div 64 < a \<and> nat (b mod 64) < 64"
  for a b :: int
  by (auto simp: pos_imp_zdiv_nonneg_iff nat_less_iff)

lemma div_mod_64_eq_iff: "0 \<le> a \<Longrightarrow> 0 \<le> b \<Longrightarrow>
    nat (a div 64) = nat (b div 64) \<and> nat (a mod 64) = nat (b mod 64) \<longleftrightarrow> a = b"
  for a b :: int
  by (metis div_mult_mod_eq eq_nat_nat_iff pos_imp_zdiv_nonneg_iff pos_mod_sign zero_less_numeral)

lemma single_bit_test: "(w AND push_bit n 1 \<noteq> 0) = bit w n" for w :: u64
  by (rule bit_iff_and_push_bit_not_eq_0 [symmetric])

lemma bit_or_single: "n < 64 \<Longrightarrow> bit (w OR push_bit k 1) n \<longleftrightarrow> bit w n \<or> n = k" for w :: u64
  by (auto simp: bit_simps)

lemma bit_and_not_single: "n < 64 \<Longrightarrow> bit (w AND NOT (push_bit k 1)) n \<longleftrightarrow> bit w n \<and> n \<noteq> k" for w :: u64
  by (auto simp: bit_simps)

lemma nat_mod_64: "nat (b mod 64) < 64" for b :: int
  by (simp add: nat_less_iff)

text \<open>The number of bits is an \<open>int\<close> below \<open>2 ^ 25\<close> words.\<close>

lemma bitmap_size_small: "bitmap_inv bm \<Longrightarrow> array_size bm < 2 ^ 25 \<Longrightarrow> c_int (array_size bm * 64) = Some (array_size bm * 64)"
  by (simp add: bitmap_inv_def)

lemma is_set_bit_eq:
  assumes "bitmap_inv bm" and "array_size bm < 2 ^ 25"
  shows "opal_bitmap_is_set_bit bm b = Some (bits_of bm b)"
  using word_index [of b "array_size bm"] assms(1)
  unfolding opal_bitmap_is_set_bit_def single_bit_test bitmap_size_small [OF assms]
  by (auto simp: bits_of_def bitmap_inv_def Let_def carray)

lemma is_set_bit_overflow: "2 ^ 25 \<le> array_size bm \<Longrightarrow> opal_bitmap_is_set_bit bm b = (if b < 0 then Some False else None)"
  by (simp add: opal_bitmap_is_set_bit_def c_int_out)

lemma bits_of_update:
  assumes inv: "bitmap_inv bm" and i: "i < length (bitmap bm)"
  shows "bits_of (bm\<lparr>bitmap := (bitmap bm)[i := w]\<rparr>) b =
    (if 0 \<le> b \<and> nat (b div 64) = i then bit w (nat (b mod 64)) else bits_of bm b)"
  using assms word_index [of b "array_size bm"]
  by (auto simp: bits_of_def bitmap_inv_def nth_list_update)

lemma bitmap_inv_update: "bitmap_inv bm \<Longrightarrow> bitmap_inv (bm\<lparr>bitmap := (bitmap bm)[i := w]\<rparr>)"
  by (simp add: bitmap_inv_def)

section \<open>Word arithmetic on the lowest bit\<close>

lemma lowest_zero:
  fixes w :: u64
  assumes "w \<noteq> -1"
  obtains k where "k < 64" "\<not> bit w k" "\<And>j. j < k \<Longrightarrow> bit w j" "w OR (w + 1) = w OR push_bit k 1"
    "w XOR (w OR (w + 1)) = push_bit k 1"
proof -
  have "\<exists>k < 64. \<not> bit w k"
    using assms by (auto simp: bit_word_eqI bit_eq_iff bit_simps)
  then obtain k where k: "k < 64" "\<not> bit w k" "\<And>j. j < k \<Longrightarrow> bit w j"
    using exists_least_iff [of "\<lambda>k. k < 64 \<and> \<not> bit w k"] by (metis order.strict_trans)
  define h where "h = push_bit (Suc k) (drop_bit (Suc k) w)"
  have bit_h: "bit h n \<longleftrightarrow> k < n \<and> n < 64 \<and> bit w n" for n
    by (auto simp: h_def bit_push_bit_iff bit_drop_bit_eq possible_bit_word dest: bit_imp_le_length
        simp del: push_bit_Suc)
  define e :: u64 where "e = push_bit k 1"
  have bit_e: "bit e n \<longleftrightarrow> n = k" for n
    using k(1) by (auto simp: e_def bit_simps)
  have "take_bit (Suc k) w = mask k"
    using k by (intro bit_word_eqI) (auto simp: bit_simps less_Suc_eq)
  then have "w = mask k + h"
    using bits_ident [of "Suc k" w] by (simp only: h_def add.commute)
  then have "w + 1 = mask k + 1 + h" by (metis add.assoc add.commute)
  also have "mask k + 1 = e" by (simp add: e_def mask_eq_exp_minus_1 push_bit_eq_mult)
  also have "e + h = e OR h"
    by (rule disjunctive_add_eq_or) (auto intro!: bit_word_eqI simp: bit_and_iff bit_e bit_h)
  finally have "w OR (w + 1) = w OR e"
    by (auto intro!: bit_word_eqI simp: bit_or_iff bit_e bit_h)
  moreover have "w XOR (w OR e) = e"
    using k(2) by (auto intro!: bit_word_eqI simp: bit_or_iff bit_xor_iff bit_e)
  ultimately show ?thesis using that k e_def by metis
qed

lemma shift_pos_single: "k < 64 \<Longrightarrow> shift_pos (push_bit k 1) p = Some (p + int k)"
proof (induction k arbitrary: p)
  case 0
  then show ?case by (subst shift_pos.simps) simp
next
  case (Suc k)
  have "drop_bit 1 (push_bit (Suc k) 1) = (push_bit k 1 :: u64)"
    using Suc.prems by (auto intro!: bit_word_eqI simp: bit_simps)
  moreover have "push_bit (Suc k) 1 AND 1 = (0 :: u64)"
    by (auto intro!: bit_word_eqI simp: bit_simps)
  ultimately show ?case using Suc.IH [of "p + 1"] Suc.prems
    by (subst shift_pos.simps) (simp del: push_bit_of_1 push_bit_Suc)
qed

text \<open>Clearing the lowest set bit is the dual, by complement.\<close>

lemma lowest_one:
  fixes w :: u64
  assumes "w \<noteq> 0"
  obtains k where "k < 64" "bit w k" "w AND (w - 1) = w AND NOT (push_bit k 1)"
proof -
  have "NOT w \<noteq> -1" using assms by (metis bit.double_compl bit.compl_one)
  then obtain k where k: "k < 64" "\<not> bit (NOT w) k" "NOT w OR (NOT w + 1) = NOT w OR push_bit k 1"
    by (rule lowest_zero)
  have "w - 1 = NOT (NOT w + 1)" by (simp add: not_eq_complement)
  then have "w AND (w - 1) = NOT (NOT w OR (NOT w + 1))" by (simp only: bit.de_Morgan_disj bit.double_compl)
  also have "\<dots> = w AND NOT (push_bit k 1)" unfolding k(3) by (simp only: bit.de_Morgan_disj bit.double_compl)
  finally show ?thesis using that k by (simp add: bit_not_iff)
qed

definition popcount :: "u64 \<Rightarrow> nat" where
  "popcount w = card {n. n < 64 \<and> bit w n}"

lemma popcount_clear: "k < 64 \<Longrightarrow> bit w k \<Longrightarrow> popcount w = Suc (popcount (w AND NOT (push_bit k 1)))"
proof -
  assume k: "k < 64" "bit w k"
  have "{n. n < 64 \<and> bit w n} = insert k {n. n < 64 \<and> bit (w AND NOT (push_bit k 1)) n}"
    using k by (auto simp: bit_simps)
  moreover have "k \<notin> {n. n < 64 \<and> bit (w AND NOT (push_bit k 1)) n}"
    by (auto simp: bit_simps)
  ultimately show ?thesis by (simp add: popcount_def)
qed

lemma wegner_popcount: "wegner w c = c + int (popcount w)"
proof (induction w c rule: wegner.induct)
  case (1 w c)
  show ?case
  proof (cases "w = 0")
    case True
    then show ?thesis by (simp add: wegner.simps [of 0 c] popcount_def)
  next
    case False
    then obtain k where "k < 64" "bit w k" "w AND (w - 1) = w AND NOT (push_bit k 1)"
      by (rule lowest_one)
    with "1.IH" [OF False] False show ?thesis
      by (simp add: wegner.simps [of w c] popcount_clear)
  qed
qed

lemma popcount_le: "popcount w \<le> 64"
proof -
  have "popcount w \<le> card {..<64 :: nat}" unfolding popcount_def by (rule card_mono) auto
  then show ?thesis by simp
qed

lemma num_set_bits_loop_eq:
  "i + n \<le> length ws \<Longrightarrow> 0 \<le> c \<Longrightarrow> c + 64 * int n < 2 ^ 31 \<Longrightarrow>
   num_set_bits_loop ws i n c = Some (c + int (sum_list (map popcount (take n (drop i ws)))))"
proof (induction n arbitrary: i c)
  case 0
  then show ?case by simp
next
  case (Suc n)
  then have "drop i ws = ws ! i # drop (Suc i) ws" by (simp add: Cons_nth_drop_Suc)
  moreover have "c_int (wegner (ws ! i) c) = Some (c + int (popcount (ws ! i)))"
    using Suc.prems popcount_le [of "ws ! i"] unfolding wegner_popcount by (intro c_int_Some) simp_all
  ultimately show ?case using Suc popcount_le [of "ws ! i"] by (simp add: carray)
qed

section \<open>Behaviour of the operations\<close>

lemma bits_of_grow:
  assumes "bitmap_inv bm" and "array_size bm \<le> n"
  defines "bm' \<equiv> bm\<lparr>bitmap := take (nat (array_size bm)) (bitmap bm) @ replicate (nat (n - array_size bm)) 0,
             array_size := n\<rparr>"
  shows "bitmap_inv bm' \<and> bits_of bm' = bits_of bm"
proof
  show "bitmap_inv bm'" using assms by (auto simp: bitmap_inv_def)
  show "bits_of bm' = bits_of bm"
  proof
    fix b
    show "bits_of bm' b = bits_of bm b"
      using assms word_index [of b n] by (auto simp: bits_of_def bitmap_inv_def nth_append)
  qed
qed

text \<open>Replacing the word of bit \<open>b\<close> by one that differs in that bit only changes the membership of \<open>b\<close>.\<close>

lemma bits_of_word_change:
  assumes inv: "bitmap_inv bm" and b: "0 \<le> b" "b < array_size bm * 64"
    and w: "\<And>n. n < 64 \<Longrightarrow> bit w n \<longleftrightarrow>
      (if n = nat (b mod 64) then v else bit (bitmap bm ! nat (b div 64)) n)"
  shows "bits_of (bm\<lparr>bitmap := (bitmap bm)[nat (b div 64) := w]\<rparr>) = (bits_of bm)(b := v)"
proof
  fix c
  have il: "nat (b div 64) < length (bitmap bm)"
    using inv word_index [OF b] by (simp add: bitmap_inv_def)
  show "bits_of (bm\<lparr>bitmap := (bitmap bm)[nat (b div 64) := w]\<rparr>) c = ((bits_of bm)(b := v)) c"
  proof (cases "0 \<le> c \<and> nat (c div 64) = nat (b div 64)")
    case True
    then have "c div 64 = b div 64" using b(1) by (simp add: pos_imp_zdiv_nonneg_iff nat_eq_iff2)
    then have "c < array_size bm * 64" using b(2) word_index [OF b] by linarith
    then have old: "bits_of bm c = bit (bitmap bm ! nat (b div 64)) (nat (c mod 64))"
      using True by (simp add: bits_of_def)
    have eq: "nat (c mod 64) = nat (b mod 64) \<longleftrightarrow> c = b"
      using div_mod_64_eq_iff [of c b] b(1) True by simp
    have "bits_of (bm\<lparr>bitmap := (bitmap bm)[nat (b div 64) := w]\<rparr>) c = bit w (nat (c mod 64))"
      using True by (simp only: bits_of_update [OF inv il] if_True simp_thms)
    also have "\<dots> = (if c = b then v else bits_of bm c)"
      by (simp only: w [OF nat_mod_64] eq old)
    finally show ?thesis by simp
  next
    case False
    then have "c \<noteq> b" using b(1) by auto
    with False show ?thesis by (simp only: bits_of_update [OF inv il] if_False fun_upd_apply)
  qed
qed

lemma set_bit_ok:
  assumes inv: "bitmap_inv bm" and b: "0 \<le> b" "b \<le> max_size bm" and "0 < max_size bm"
  shows "\<exists>bm'. opal_bitmap_set_bit True bm b = Some (OPAL_SUCCESS, bm') \<and> bitmap_inv bm' \<and>
    max_size bm' = max_size bm \<and> bits_of bm' = (bits_of bm)(b := True) \<and>
    array_size bm' = max (array_size bm) (b div 64 + 1)"
proof -
  let ?i = "b div 64" and ?o = "nat (b mod 64)"
  have i: "0 \<le> ?i" "?i + 1 \<le> max_size bm" using b assms(4) by linarith+
  define bm1 where "bm1 = (if array_size bm \<le> ?i
      then bm\<lparr>bitmap := take (nat (array_size bm)) (bitmap bm) @ replicate (nat (?i + 1 - array_size bm)) 0,
              array_size := ?i + 1\<rparr> else bm)"
  have bm1: "bitmap_inv bm1" "bits_of bm1 = bits_of bm" "max_size bm1 = max_size bm"
    using bits_of_grow [OF inv, of "?i + 1"] inv by (auto simp: bm1_def)
  have sz: "array_size bm1 = max (array_size bm) (?i + 1)" by (simp add: bm1_def)
  then have len: "?i < array_size bm1" by simp
  then have il: "nat ?i < length (bitmap bm1)" and bl: "b < array_size bm1 * 64"
    using bm1(1) i(1) by (auto simp: bitmap_inv_def)
  let ?bm' = "bm1\<lparr>bitmap := (bitmap bm1)[nat ?i := bitmap bm1 ! nat ?i OR push_bit ?o 1]\<rparr>"
  have "opal_bitmap_set_bit True bm b = (case arr_get (bitmap bm1) ?i of None \<Rightarrow> None
      | Some w \<Rightarrow> Some (OPAL_SUCCESS, bm1\<lparr>bitmap := (bitmap bm1)[nat ?i := w OR push_bit ?o 1]\<rparr>))"
    using b i by (simp add: opal_bitmap_set_bit_def bm1_def Let_def cong: option.case_cong)
  also have "\<dots> = Some (OPAL_SUCCESS, ?bm')"
    using i il by (simp add: carray)
  finally have "opal_bitmap_set_bit True bm b = Some (OPAL_SUCCESS, ?bm')" .
  moreover have "bits_of ?bm' = (bits_of bm1)(b := True)"
    by (rule bits_of_word_change [OF bm1(1) b(1) bl]) (simp add: bit_or_single)
  ultimately show ?thesis using bm1 sz by (simp add: bitmap_inv_update)
qed

lemma clear_bit_ok:
  assumes inv: "bitmap_inv bm" and small: "array_size bm < 2 ^ 25" and b: "0 \<le> b" "b < array_size bm * 64"
  shows "\<exists>bm'. opal_bitmap_clear_bit bm b = Some (OPAL_SUCCESS, bm') \<and> bitmap_inv bm' \<and>
    bits_of bm' = (bits_of bm)(b := False)"
proof -
  let ?bm' = "bm\<lparr>bitmap := (bitmap bm)[nat (b div 64) :=
     bitmap bm ! nat (b div 64) AND NOT (push_bit (nat (b mod 64)) 1)]\<rparr>"
  have "opal_bitmap_clear_bit bm b = Some (OPAL_SUCCESS, ?bm')"
    using inv b word_index [OF b] bitmap_size_small [OF inv small]
    by (simp add: opal_bitmap_clear_bit_def bitmap_inv_def Let_def carray)
  moreover have "bits_of ?bm' = (bits_of bm)(b := False)"
    by (rule bits_of_word_change [OF inv b]) (simp add: bit_and_not_single)
  ultimately show ?thesis using inv by (simp add: bitmap_inv_update)
qed

lemma skip_full_le: "skip_full ws \<le> length ws"
  by (induction ws) auto

lemma skip_full_prefix: "j < skip_full ws \<Longrightarrow> ws ! j = -1"
  by (induction ws arbitrary: j) (auto simp: nth_Cons split: if_splits nat.splits)

lemma skip_full_stop: "skip_full ws < length ws \<Longrightarrow> ws ! skip_full ws \<noteq> -1"
  by (induction ws) auto

lemma bits_below_skip:
  assumes inv: "bitmap_inv bm" and "0 \<le> c" and "c < int (skip_full (bitmap bm)) * 64"
  shows "bits_of bm c"
proof -
  have "c div 64 < int (skip_full (bitmap bm))" using assms(2,3) by linarith
  then have "bitmap bm ! nat (c div 64) = -1"
    using assms(2) by (intro skip_full_prefix) (simp add: nat_less_iff pos_imp_zdiv_nonneg_iff)
  moreover have "int (skip_full (bitmap bm)) \<le> array_size bm"
    using skip_full_le [of "bitmap bm"] inv by (auto simp: bitmap_inv_def)
  ultimately show ?thesis using assms nat_mod_64 [of c] by (auto simp: bits_of_def)
qed

lemma find_first_ok:
  assumes inv: "bitmap_inv bm" and small: "array_size bm < 2 ^ 25"
    and room: "array_size bm * 64 \<le> max_size bm" "0 < max_size bm"
  shows "\<exists>p bm'. opal_bitmap_find_and_set_first_unset_bit True bm = Some (OPAL_SUCCESS, p, bm') \<and>
    bitmap_inv bm' \<and> array_size bm' \<le> array_size bm + 1 \<and> 0 \<le> p \<and> \<not> bits_of bm p \<and> (\<forall>c. 0 \<le> c \<and> c < p \<longrightarrow> bits_of bm c) \<and>
    bits_of bm' = (bits_of bm)(p := True)"
proof -
  let ?i = "skip_full (bitmap bm)"
  have tk: "take (nat (array_size bm)) (bitmap bm) = bitmap bm" using inv by (simp add: bitmap_inv_def)
  show ?thesis
  proof (cases "int ?i = array_size bm")
    case True
    let ?p = "array_size bm * 64"
    have p: "0 \<le> ?p" using inv by (simp add: bitmap_inv_def)
    from set_bit_ok [OF inv p room] obtain bm' where bm': "opal_bitmap_set_bit True bm ?p = Some (OPAL_SUCCESS, bm')"
      "bitmap_inv bm'" "bits_of bm' = (bits_of bm)(?p := True)" "array_size bm' = max (array_size bm) (?p div 64 + 1)"
      by blast
    moreover have "\<not> bits_of bm ?p" by (simp add: bits_of_def)
    moreover have "bits_of bm c" if "0 \<le> c" "c < ?p" for c
      using bits_below_skip [OF inv] that True by simp
    ultimately show ?thesis using p True tk bitmap_size_small [OF inv small]
      by (auto simp: opal_bitmap_find_and_set_first_unset_bit_def Let_def)
  next
    case False
    then have il: "?i < length (bitmap bm)"
      using skip_full_le [of "bitmap bm"] inv by (auto simp: bitmap_inv_def)
    let ?w = "bitmap bm ! ?i"
    from skip_full_stop [OF il] obtain k where k: "k < 64" "\<not> bit ?w k" "\<And>j. j < k \<Longrightarrow> bit ?w j"
      "?w OR (?w + 1) = ?w OR push_bit k 1" "?w XOR (?w OR (?w + 1)) = push_bit k 1"
      by (rule lowest_zero) blast
    let ?p = "int k + int ?i * 64"
    have dm: "?p div 64 = int ?i" "?p mod 64 = int k" using k(1) by simp_all
    have pl: "?p < array_size bm * 64" using il inv k(1) by (auto simp: bitmap_inv_def)
    let ?bm' = "bm\<lparr>bitmap := (bitmap bm)[?i := ?w OR push_bit k 1]\<rparr>"
    have "array_size bm * 64 < 2 ^ 31" using small by simp
    then have "c_int (int ?i * 64) = Some (int ?i * 64)" "c_int ?p = Some ?p"
      using pl by (intro c_int_Some; linarith)+
    then have "opal_bitmap_find_and_set_first_unset_bit True bm = Some (OPAL_SUCCESS, ?p, ?bm')"
      using False il k(1) tk
      by (simp add: opal_bitmap_find_and_set_first_unset_bit_def Let_def carray k(4) k(5) [unfolded k(4)]
          shift_pos_single [OF k(1)])
    moreover have "bits_of ?bm' = (bits_of bm)(?p := True)"
      using bits_of_word_change [OF inv _ pl, of "?w OR push_bit k 1" True] dm
      by (simp add: bit_or_single)
    moreover have "\<not> bits_of bm ?p" using k(2) dm by (simp add: bits_of_def)
    moreover have "bits_of bm c" if c: "0 \<le> c" "c < ?p" for c
    proof (cases "c < int ?i * 64")
      case True
      then show ?thesis using bits_below_skip [OF inv] c by simp
    next
      case False
      then have d: "c div 64 = int ?i" using c k(1) by linarith
      moreover have "c mod 64 < int k" using d c div_mult_mod_eq [of c 64] by linarith
      ultimately show ?thesis using k(3) [of "nat (c mod 64)"] c pl
        by (simp add: bits_of_def nat_less_iff)
    qed
    ultimately show ?thesis using inv by (auto simp: bitmap_inv_update)
  qed
qed

lemma bitwise_inplace_ok:
  assumes "bitmap_inv dest" "bitmap_inv right" "array_size dest = array_size right"
    and f: "\<And>v w n. n < 64 \<Longrightarrow> bit (f v w) n = g (bit v n) (bit w n)"
  shows "\<exists>bm'. bitwise_inplace f dest right = Some (OPAL_SUCCESS, bm') \<and> bitmap_inv bm' \<and>
    (\<forall>b. 0 \<le> b \<and> b < array_size dest * 64 \<longrightarrow> bits_of bm' b = g (bits_of dest b) (bits_of right b))"
proof -
  let ?bm' = "dest\<lparr>bitmap := map2 f (bitmap dest) (bitmap right)\<rparr>"
  have len: "length (bitmap dest) = nat (array_size dest)" "length (bitmap right) = nat (array_size dest)"
    using assms by (simp_all add: bitmap_inv_def)
  then have "bitwise_inplace f dest right = Some (OPAL_SUCCESS, ?bm')"
    using assms(3) by (simp add: bitwise_inplace_def)
  moreover have "bits_of ?bm' b = g (bits_of dest b) (bits_of right b)"
    if "0 \<le> b" "b < array_size dest * 64" for b
  proof -
    have "nat (b div 64) < nat (array_size dest)" using word_index [OF that] by simp
    then show ?thesis using that assms(3) len f [OF nat_mod_64] by (simp add: bits_of_def)
  qed
  ultimately show ?thesis using assms by (auto simp: bitmap_inv_def)
qed

lemma clear_all_inv: "0 \<le> array_size bm \<Longrightarrow>
    bitmap_inv (snd (opal_bitmap_clear_all_bits bm)) \<and> \<not> bits_of (snd (opal_bitmap_clear_all_bits bm)) b"
  using word_index [of b "array_size bm"]
  by (auto simp: opal_bitmap_clear_all_bits_def bitmap_inv_def bits_of_def)

lemma init_ok:
  assumes "0 < sz" "sz \<le> max_size bm"
  shows "\<exists>bm'. opal_bitmap_init True bm sz = (OPAL_SUCCESS, bm') \<and> bitmap_inv bm' \<and>
    array_size bm' = words_for sz \<and> max_size bm \<le> max_size bm' \<and> (\<forall>b. \<not> bits_of bm' b)"
proof -
  define bm2 where "bm2 = (if bitmap bm \<noteq> [] \<and> max_size bm < words_for sz
      then bm\<lparr>array_size := words_for sz, max_size := words_for sz\<rparr> else bm\<lparr>array_size := words_for sz\<rparr>)"
  have a: "array_size bm2 = words_for sz" "0 \<le> array_size bm2" "max_size bm \<le> max_size bm2"
    using assms by (auto simp: bm2_def words_for_def)
  have "opal_bitmap_init True bm sz = opal_bitmap_clear_all_bits bm2"
    using assms by (simp add: opal_bitmap_init_def bm2_def Let_def)
  then have "opal_bitmap_init True bm sz = (OPAL_SUCCESS, snd (opal_bitmap_clear_all_bits bm2))"
    by (simp add: opal_bitmap_clear_all_bits_def)
  with clear_all_inv [OF a(2)] a show ?thesis
    by (auto simp: opal_bitmap_clear_all_bits_def)
qed

section \<open>The bitmap as a bit set\<close>

definition bitmap_set :: "opal_bitmap \<Rightarrow> int \<Rightarrow> opal_bitmap option" where
  "bitmap_set bm b =
     (case opal_bitmap_set_bit True bm b of Some (OPAL_SUCCESS, bm') \<Rightarrow> Some bm' | _ \<Rightarrow> None)"

text \<open>The bits that can be set and tested afterwards lie below \<open>2 ^ 31 - 64\<close>.\<close>

interpretation bitmap_bits: bit_set "\<lambda>bm. bitmap_inv bm \<and> array_size bm < 2 ^ 25 \<and> 0 < max_size bm" bits_of
  "\<lambda>bm. min (max_size bm) (2 ^ 31 - 65)" bitmap_set
proof
  fix bm b
  assume inv: "bitmap_inv bm \<and> array_size bm < 2 ^ 25 \<and> 0 < max_size bm" and b: "0 \<le> b" "b \<le> min (max_size bm) (2 ^ 31 - 65)"
  have "b \<le> 2147483583" using b by simp
  then have "b div 64 + 1 < 33554432" by linarith
  then have "b div 64 + 1 < 2 ^ 25" by simp
  with set_bit_ok [of bm b] inv b
  show "\<exists>bm'. bitmap_set bm b = Some bm' \<and> (bitmap_inv bm' \<and> array_size bm' < 2 ^ 25 \<and> 0 < max_size bm') \<and>
      min (max_size bm') (2 ^ 31 - 65) = min (max_size bm) (2 ^ 31 - 65) \<and> bits_of bm' = (bits_of bm)(b := True)"
    by (auto simp: bitmap_set_def)
qed

section \<open>Properties\<close>

text \<open>
  C31. Setting a bit. On a well-formed bitmap of fewer than \<open>2 ^ 25\<close> words, setting any bit of an \<open>int\<close> that is not above
  the (positive) maximum succeeds when memory is available, growing the array when needed. Afterwards
  exactly that bit is set in addition, whatever bit is asked for, unless the bit is one of the last 64
  of an \<open>int\<close>: then the number of bits of the bitmap is no \<open>int\<close> any more, and every later test of a bit
  overflows.
\<close>

theorem bitmap_set_then_test:
  assumes "bitmap_inv bm" and "array_size bm < 2 ^ 25" and "0 \<le> b" and "b \<le> max_size bm" and "b \<le> INT_MAX"
    and "0 < max_size bm"
  shows "\<exists>bm'. opal_bitmap_set_bit True bm b = Some (OPAL_SUCCESS, bm') \<and> bitmap_inv bm' \<and>
    (\<forall>c. opal_bitmap_is_set_bit bm' c =
      (if 0 \<le> c \<and> 2 ^ 31 - 64 \<le> b then None
       else if c = b then Some True else opal_bitmap_is_set_bit bm c))"
proof -
  obtain bm' where bm': "opal_bitmap_set_bit True bm b = Some (OPAL_SUCCESS, bm')" "bitmap_inv bm'"
    "bits_of bm' = (bits_of bm)(b := True)" "array_size bm' = max (array_size bm) (b div 64 + 1)"
    using set_bit_ok [OF assms(1,3,4,6)] by blast
  have "opal_bitmap_is_set_bit bm' c =
      (if 0 \<le> c \<and> 2 ^ 31 - 64 \<le> b then None
       else if c = b then Some True else opal_bitmap_is_set_bit bm c)" for c
  proof (cases "2 ^ 31 - 64 \<le> b")
    case True
    then have "33554432 \<le> b div 64 + 1" by simp
    then have "2 ^ 25 \<le> array_size bm'" using bm'(4) by simp
    then show ?thesis using True assms(3) is_set_bit_overflow [of bm' c] by (simp add: opal_bitmap_is_set_bit_def)
  next
    case False
    then have "b < 2147483584" by simp
    then have "b div 64 + 1 < 33554432" by linarith
    then have "array_size bm' < 2 ^ 25" using bm'(4) assms(2) by simp
    then show ?thesis using False is_set_bit_eq bm'(2,3) assms(1,2) by simp
  qed
  with bm' show ?thesis by blast
qed

theorem bitmap_set_then_test_witness:
  "\<exists>bm'. opal_bitmap_set_bit True opal_bitmap_construct 100 = Some (OPAL_SUCCESS, bm') \<and>
     opal_bitmap_is_set_bit bm' 100 = Some True \<and>
     opal_bitmap_is_set_bit bm' 99 = opal_bitmap_is_set_bit opal_bitmap_construct 99"
proof -
  have "bitmap_inv opal_bitmap_construct" "array_size opal_bitmap_construct < 2 ^ 25" "(0::int) \<le> 100"
    "100 \<le> max_size opal_bitmap_construct" "100 \<le> INT_MAX" "0 < max_size opal_bitmap_construct"
    by (simp_all add: opal_bitmap_construct_def bitmap_inv_def INT_MAX_def)
  from bitmap_set_then_test [OF this] show ?thesis by auto
qed

text \<open>
  C32. First unset bit. On a well-formed bitmap that may still grow by one word, to fewer than \<open>2 ^ 25\<close> words,
  the search returns the least index that is not set (the first index behind the array when all bits
  are set), and sets exactly that bit; the bit-twiddling search loop always ends.
\<close>

theorem bitmap_find_first_unset_least:
  assumes "bitmap_inv bm" and "array_size bm + 1 < 2 ^ 25" and "array_size bm * 64 \<le> max_size bm" and "0 < max_size bm"
  shows "\<exists>p bm'. opal_bitmap_find_and_set_first_unset_bit True bm = Some (OPAL_SUCCESS, p, bm') \<and>
    0 \<le> p \<and> opal_bitmap_is_set_bit bm p = Some False \<and>
    (\<forall>c. 0 \<le> c \<and> c < p \<longrightarrow> opal_bitmap_is_set_bit bm c = Some True) \<and>
    (\<forall>c. opal_bitmap_is_set_bit bm' c = (if c = p then Some True else opal_bitmap_is_set_bit bm c))"
proof -
  have small: "array_size bm < 2 ^ 25" using assms(2) by linarith
  from find_first_ok [OF assms(1) small assms(3,4)] obtain p bm' where p:
    "opal_bitmap_find_and_set_first_unset_bit True bm = Some (OPAL_SUCCESS, p, bm')"
    "bitmap_inv bm'" "array_size bm' \<le> array_size bm + 1" "0 \<le> p" "\<not> bits_of bm p"
    "\<forall>c. 0 \<le> c \<and> c < p \<longrightarrow> bits_of bm c" "bits_of bm' = (bits_of bm)(p := True)" by blast
  have "array_size bm' < 2 ^ 25" using p(3) assms(2) by linarith
  then show ?thesis using p is_set_bit_eq [OF assms(1) small] is_set_bit_eq [OF p(2)] by auto
qed

theorem bitmap_find_first_unset_least_witness:
  "\<exists>p bm'. opal_bitmap_find_and_set_first_unset_bit True \<lparr>bitmap = [-1, 3], array_size = 2, max_size = 500\<rparr> =
      Some (OPAL_SUCCESS, p, bm') \<and> 0 \<le> p \<and>
      opal_bitmap_is_set_bit \<lparr>bitmap = [-1, 3], array_size = 2, max_size = 500\<rparr> p = Some False"
proof -
  let ?bm = "\<lparr>bitmap = [-1, 3], array_size = 2, max_size = 500\<rparr>"
  have "bitmap_inv ?bm" "array_size ?bm + 1 < 2 ^ 25" "array_size ?bm * 64 \<le> max_size ?bm" "0 < max_size ?bm"
    by (simp_all add: bitmap_inv_def)
  from bitmap_find_first_unset_least [OF this] show ?thesis by auto
qed

text \<open>
  C38. The maximum of a bitmap is kept in words and compared with bits. The header documents
  \<open>opal_bitmap_set_max_size bm s\<close> as a maximum of \<open>s\<close> bits. What it does is this: on any well-formed bitmap and for any positive
  \<open>s\<close>, the bits that can be set afterwards are those from 0 to \<open>s / 64\<close> rounded up, and every other bit is
  refused, the bitmap unchanged; so for \<open>s > 2\<close> bit \<open>s - 1\<close> is refused.
\<close>

theorem bitmap_max_size_unit_mismatch:
  assumes "bitmap_inv bm" and "0 < s"
  defines "bm1 \<equiv> snd (opal_bitmap_set_max_size bm s)"
  shows "(if 0 \<le> b \<and> b \<le> (s + 63) div 64
          then \<exists>bm'. opal_bitmap_set_bit True bm1 b = Some (OPAL_SUCCESS, bm') \<and> bits_of bm' = (bits_of bm)(b := True)
          else opal_bitmap_set_bit True bm1 b = Some (OPAL_ERR_BAD_PARAM, bm1)) \<and>
         (2 < s \<longrightarrow> opal_bitmap_set_bit True bm1 (s - 1) = Some (OPAL_ERR_BAD_PARAM, bm1))"
proof -
  have mx: "max_size bm1 = (s + 63) div 64" and inv: "bitmap_inv bm1" and bits: "bits_of bm1 = bits_of bm"
    using assms(1) by (auto simp: bm1_def opal_bitmap_set_max_size_def words_for_def bitmap_inv_def bits_of_def)
  have refused: "opal_bitmap_set_bit True bm1 c = Some (OPAL_ERR_BAD_PARAM, bm1)" if "c < 0 \<or> (s + 63) div 64 < c" for c
    using that mx by (auto simp: opal_bitmap_set_bit_def)
  have "0 < max_size bm1" using mx assms(2) by simp
  with set_bit_ok [OF inv, of b] mx bits
  have "\<exists>bm'. opal_bitmap_set_bit True bm1 b = Some (OPAL_SUCCESS, bm') \<and> bits_of bm' = (bits_of bm)(b := True)"
    if "0 \<le> b" "b \<le> (s + 63) div 64"
    using that by auto
  moreover have "(s + 63) div 64 < s - 1" if "2 < s" using that by linarith
  ultimately show ?thesis using refused by auto
qed

theorem bitmap_max_size_unit_mismatch_witness:
  "opal_bitmap_set_bit True (snd (opal_bitmap_set_max_size opal_bitmap_construct 128)) 3 =
     Some (OPAL_ERR_BAD_PARAM, snd (opal_bitmap_set_max_size opal_bitmap_construct 128))"
  using bitmap_max_size_unit_mismatch [of opal_bitmap_construct 128 3]
  by (simp add: opal_bitmap_construct_def bitmap_inv_def)

end
