(* ===== verification/Fifo_Queue.thy ===== *)
theory Fifo_Queue
  imports Main
begin

text \<open>
  The contract of the queues that the transport and protocol layers keep their pending operations in:
  several queues over one memory, each with the list of elements it holds. The lemmas are those of a
  client that hands a batch of elements to a queue, drains it, or moves one queue into another, with
  the other queues left alone.
\<close>

fun push_all :: "('s \<Rightarrow> 'q \<Rightarrow> 'e \<Rightarrow> 's) \<Rightarrow> 's \<Rightarrow> 'q \<Rightarrow> 'e list \<Rightarrow> 's" where
  "push_all push s q [] = s"
| "push_all push s q (e # es) = push_all push (push s q e) q es"

fun pull_n :: "('s \<Rightarrow> 'q \<Rightarrow> ('e option \<times> 's) option) \<Rightarrow> 's \<Rightarrow> 'q \<Rightarrow> nat \<Rightarrow> ('e option list \<times> 's) option" where
  "pull_n pull s q 0 = Some ([], s)"
| "pull_n pull s q (Suc n) =
     (case pull s q of
        None \<Rightarrow> None
      | Some (r, s') \<Rightarrow> map_option (\<lambda>(rs, t). (r # rs, t)) (pull_n pull s' q n))"

locale fifo_queue =
  fixes rep :: "'s \<Rightarrow> 'q \<Rightarrow> 'e list \<Rightarrow> bool"
    and init :: "'s \<Rightarrow> 'q \<Rightarrow> 's"
    and push :: "'s \<Rightarrow> 'q \<Rightarrow> 'e \<Rightarrow> 's"
    and pull :: "'s \<Rightarrow> 'q \<Rightarrow> ('e option \<times> 's) option"
  assumes init_law: "rep (init s q) q []"
    and push_law: "rep s q xs \<Longrightarrow> e \<notin> set xs \<Longrightarrow> rep (push s q e) q (xs @ [e])"
    and push_frame: "rep s q xs \<Longrightarrow> rep s q' ys \<Longrightarrow> q \<noteq> q' \<Longrightarrow> set xs \<inter> set ys = {} \<Longrightarrow>
      rep (push s q e) q' ys"
    and pull_empty_law: "rep s q [] \<Longrightarrow> pull s q = Some (None, s)"
    and pull_law: "rep s q (x # xs) \<Longrightarrow> \<exists>s'. pull s q = Some (Some x, s') \<and> rep s' q xs"
    and pull_frame: "rep s q (x # xs) \<Longrightarrow> rep s q' ys \<Longrightarrow> q \<noteq> q' \<Longrightarrow> pull s q = Some (r, s') \<Longrightarrow>
      rep s' q' ys"
begin

lemma push_all_rep:
  "rep s q xs \<Longrightarrow> distinct es \<Longrightarrow> set es \<inter> set xs = {} \<Longrightarrow> rep (push_all push s q es) q (xs @ es)"
proof (induction es arbitrary: s xs)
  case Nil
  then show ?case by simp
next
  case (Cons e es)
  then have "rep (push s q e) q (xs @ [e])" by (intro push_law) auto
  from Cons.IH [OF this] Cons.prems show ?case by simp
qed

lemma push_all_frame:
  "rep s q xs \<Longrightarrow> distinct es \<Longrightarrow> set es \<inter> set xs = {} \<Longrightarrow> rep s q' ys \<Longrightarrow> q \<noteq> q' \<Longrightarrow>
     set (xs @ es) \<inter> set ys = {} \<Longrightarrow> rep (push_all push s q es) q' ys"
proof (induction es arbitrary: s xs)
  case Nil
  then show ?case by simp
next
  case (Cons e es)
  have "rep (push s q e) q (xs @ [e])" using Cons.prems by (intro push_law) auto
  moreover have "rep (push s q e) q' ys" using Cons.prems by (intro push_frame [of s q xs]) auto
  ultimately show ?case using Cons.IH [of "push s q e" "xs @ [e]"] Cons.prems by auto
qed

lemma pull_n_rep:
  "rep s q (es @ xs) \<Longrightarrow> rep s q' ys \<Longrightarrow> q \<noteq> q' \<Longrightarrow>
     \<exists>s'. pull_n pull s q (length es) = Some (map Some es, s') \<and> rep s' q xs \<and> rep s' q' ys"
proof (induction es arbitrary: s)
  case Nil
  then show ?case by simp
next
  case (Cons e es)
  obtain s1 where s1: "pull s q = Some (Some e, s1)" "rep s1 q (es @ xs)"
    using pull_law [of s q e "es @ xs"] Cons.prems by auto
  have "rep s1 q' ys" using pull_frame [of s q e "es @ xs" q' ys] Cons.prems s1 by auto
  from Cons.IH [OF s1(2) this Cons.prems(3)] s1(1) show ?case by auto
qed

text \<open>A batch pushed to an empty queue comes out in the order it went in, and the queue is empty again.\<close>

lemma push_all_pull_n:
  assumes "rep s q []" and "distinct es" and "rep s q' ys" and "q \<noteq> q'" and "set es \<inter> set ys = {}"
  shows "\<exists>s'. pull_n pull (push_all push s q es) q (length es) = Some (map Some es, s') \<and>
              rep s' q [] \<and> rep s' q' ys"
  using pull_n_rep [of "push_all push s q es" q es "[]" q' ys] push_all_rep [of s q "[]" es]
    push_all_frame [of s q "[]" es q' ys] assms by auto

end

end
