(* ===== verification/Ucs_Queue.thy ===== *)
theory Ucs_Queue
  imports Mpi_Ucx_Prelude Fifo_Queue
begin

text \<open>
  \<^verbatim>\<open>ucs/datastruct/queue.h\<close>: the singly linked queue of UCX. A queue is a \<open>head\<close> pointer and a pointer
  \<open>ptail\<close> to the pointer that is to be set when the next element is pushed: the head field of an
  empty queue, the \<open>next\<close> field of the last element otherwise. The model keeps these pointers to
  pointers: a \<open>cell\<close> is the head field of a queue or the next field of an element, the memory maps
  cells to pointers, and \<open>ptail\<close> maps queues to cells. Queues and elements are named by addresses of
  arbitrary types. The build modelled has \<open>UCS_ENABLE_ASSERT\<close> off. \<open>None\<close> is the dereference of a
  pointer that does not point to an element.
\<close>

section \<open>Memory\<close>

datatype ('q, 'e) cell = Head 'q | Next 'e

text \<open>\<open>ucs_queue_for_each\<close> stores the address of the queue itself as an end marker.\<close>

datatype ('q, 'e) ptr = Null | Elem 'e | QueueAddr 'q

record ('q, 'e) qmem =
  cells :: "('q, 'e) cell \<Rightarrow> ('q, 'e) ptr"
  ptail :: "'q \<Rightarrow> ('q, 'e) cell"

section \<open>Operations\<close>

definition ucs_queue_head_init :: "('q, 'e) qmem \<Rightarrow> 'q \<Rightarrow> ('q, 'e) qmem" where
  "ucs_queue_head_init s q = s\<lparr>ptail := (ptail s)(q := Head q)\<rparr>"

definition ucs_queue_is_tail :: "('q, 'e) qmem \<Rightarrow> 'q \<Rightarrow> 'e \<Rightarrow> bool" where
  "ucs_queue_is_tail s q e = (ptail s q = Next e)"

definition ucs_queue_is_empty_no_deref :: "('q, 'e) qmem \<Rightarrow> 'q \<Rightarrow> bool" where
  "ucs_queue_is_empty_no_deref s q = (ptail s q = Head q)"

definition ucs_queue_is_empty :: "('q, 'e) qmem \<Rightarrow> 'q \<Rightarrow> bool" where
  "ucs_queue_is_empty s q = ucs_queue_is_empty_no_deref s q"

definition ucs_queue_push :: "('q, 'e) qmem \<Rightarrow> 'q \<Rightarrow> 'e \<Rightarrow> ('q, 'e) qmem" where
  "ucs_queue_push s q e =
     (let s1 = s\<lparr>cells := (cells s)(ptail s q := Elem e)\<rparr> in s1\<lparr>ptail := (ptail s1)(q := Next e)\<rparr>)"

definition ucs_queue_push_head :: "('q, 'e) qmem \<Rightarrow> 'q \<Rightarrow> 'e \<Rightarrow> ('q, 'e) qmem" where
  "ucs_queue_push_head s q e =
     (let s1 = s\<lparr>cells := (cells s)(Next e := cells s (Head q))\<rparr>;
          s2 = s1\<lparr>cells := (cells s1)(Head q := Elem e)\<rparr>
      in if ucs_queue_is_empty s2 q then s2\<lparr>ptail := (ptail s2)(q := Next e)\<rparr> else s2)"

definition ucs_queue_pull_non_empty :: "('q, 'e) qmem \<Rightarrow> 'q \<Rightarrow> ('e \<times> ('q, 'e) qmem) option" where
  "ucs_queue_pull_non_empty s q =
     (case cells s (Head q) of
        Elem e \<Rightarrow>
          (let s1 = s\<lparr>cells := (cells s)(Head q := cells s (Next e))\<rparr>;
               s2 = (if ucs_queue_is_tail s1 q e then s1\<lparr>ptail := (ptail s1)(q := Head q)\<rparr> else s1)
           in Some (e, s2))
      | _ \<Rightarrow> None)"

definition ucs_queue_pull :: "('q, 'e) qmem \<Rightarrow> 'q \<Rightarrow> ('e option \<times> ('q, 'e) qmem) option" where
  "ucs_queue_pull s q =
     (if ucs_queue_is_empty s q then Some (None, s)
      else map_option (\<lambda>(e, s'). (Some e, s')) (ucs_queue_pull_non_empty s q))"

definition ucs_queue_splice :: "('q, 'e) qmem \<Rightarrow> 'q \<Rightarrow> 'q \<Rightarrow> ('q, 'e) qmem" where
  "ucs_queue_splice s q new_elems =
     (if \<not> ucs_queue_is_empty s new_elems then
        (let s1 = s\<lparr>cells := (cells s)(ptail s q := cells s (Head new_elems))\<rparr>;
             s2 = s1\<lparr>ptail := (ptail s1)(q := ptail s1 new_elems)\<rparr>
         in s2\<lparr>ptail := (ptail s2)(new_elems := Head new_elems)\<rparr>)
      else s)"

text \<open>An iterator is a cell: the one that holds the pointer to the current element.\<close>

definition ucs_queue_iter_begin :: "'q \<Rightarrow> ('q, 'e) cell" where
  "ucs_queue_iter_begin q = Head q"

definition ucs_queue_iter_next :: "('q, 'e) qmem \<Rightarrow> ('q, 'e) cell \<Rightarrow> ('q, 'e) cell option" where
  "ucs_queue_iter_next s i = (case cells s i of Elem e \<Rightarrow> Some (Next e) | _ \<Rightarrow> None)"

definition ucs_queue_iter_end :: "('q, 'e) qmem \<Rightarrow> 'q \<Rightarrow> ('q, 'e) cell \<Rightarrow> bool" where
  "ucs_queue_iter_end s q i = (i = ptail s q)"

definition ucs_queue_del_iter :: "('q, 'e) qmem \<Rightarrow> 'q \<Rightarrow> ('q, 'e) cell \<Rightarrow> ('q, 'e) qmem option" where
  "ucs_queue_del_iter s q iter =
     (case cells s iter of
        Elem e \<Rightarrow>
          Some (if ucs_queue_is_tail s q e
                then s\<lparr>ptail := (ptail s)(q := iter), cells := (cells s)(iter := Null)\<rparr>
                else s\<lparr>cells := (cells s)(iter := cells s (Next e))\<rparr>)
      | _ \<Rightarrow> None)"

text \<open>
  The loops follow the pointers. On a damaged queue they may fault or run forever; both are \<open>None\<close>.
\<close>

partial_function (option) length_loop ::
  "('q, 'e) qmem \<Rightarrow> ('q, 'e) cell \<Rightarrow> ('q, 'e) cell \<Rightarrow> nat \<Rightarrow> nat option" where
  "length_loop s pelem tail n =
     (if pelem = tail then Some n
      else (case cells s pelem of Elem e \<Rightarrow> length_loop s (Next e) tail (Suc n) | _ \<Rightarrow> None))"

definition ucs_queue_length :: "('q, 'e) qmem \<Rightarrow> 'q \<Rightarrow> nat option" where
  "ucs_queue_length s q = length_loop s (Head q) (ptail s q) 0"

partial_function (option) for_each_loop ::
  "('q, 'e) qmem \<Rightarrow> 'q \<Rightarrow> ('q, 'e) ptr \<Rightarrow> 'e list \<Rightarrow> 'e list option" where
  "for_each_loop s q p acc =
     (if p = QueueAddr q then Some (rev acc)
      else (case p of Elem e \<Rightarrow> for_each_loop s q (cells s (Next e)) (e # acc) | _ \<Rightarrow> None))"

text \<open>The elements \<open>ucs_queue_for_each\<close> visits, in order, and the memory it leaves.\<close>

definition ucs_queue_for_each :: "('q, 'e) qmem \<Rightarrow> 'q \<Rightarrow> ('e list \<times> ('q, 'e) qmem) option" where
  "ucs_queue_for_each s q =
     (let s1 = s\<lparr>cells := (cells s)(ptail s q := QueueAddr q)\<rparr>
      in map_option (\<lambda>es. (es, s1)) (for_each_loop s1 q (cells s1 (Head q)) []))"

partial_function (option) remove_loop ::
  "('q, 'e) qmem \<Rightarrow> 'q \<Rightarrow> 'e \<Rightarrow> ('q, 'e) cell \<Rightarrow> ('q, 'e) qmem option" where
  "remove_loop s q e iter =
     (if ucs_queue_iter_end s q iter then Some s
      else if cells s iter = Elem e then ucs_queue_del_iter s q iter
      else (case ucs_queue_iter_next s iter of None \<Rightarrow> None | Some i \<Rightarrow> remove_loop s q e i))"

definition ucs_queue_remove :: "('q, 'e) qmem \<Rightarrow> 'q \<Rightarrow> 'e \<Rightarrow> ('q, 'e) qmem option" where
  "ucs_queue_remove s q e = remove_loop s q e (ucs_queue_iter_begin q)"

text \<open>
  The two iteration macros that change the queue. The body of \<open>ucs_queue_for_each_safe\<close> is here one
  that deletes the current element when \<open>P\<close> holds of it; the iterator moves on only when the element
  is still there.
\<close>

partial_function (option) for_each_safe_loop ::
  "('q, 'e) qmem \<Rightarrow> 'q \<Rightarrow> ('e \<Rightarrow> bool) \<Rightarrow> ('q, 'e) cell \<Rightarrow> ('q, 'e) qmem option" where
  "for_each_safe_loop s q P iter =
     (if iter = ptail s q then Some s
      else (case cells s iter of
              Elem e \<Rightarrow>
                (case (if P e then ucs_queue_del_iter s q iter else Some s) of
                   None \<Rightarrow> None
                 | Some s' \<Rightarrow>
                     for_each_safe_loop s' q P (if cells s' iter = Elem e then Next e else iter))
            | _ \<Rightarrow> None))"

definition ucs_queue_for_each_safe ::
  "('q, 'e) qmem \<Rightarrow> 'q \<Rightarrow> ('e \<Rightarrow> bool) \<Rightarrow> ('q, 'e) qmem option" where
  "ucs_queue_for_each_safe s q P = for_each_safe_loop s q P (Head q)"

partial_function (option) ucs_queue_for_each_extract ::
  "('q, 'e) qmem \<Rightarrow> 'q \<Rightarrow> ('e \<Rightarrow> bool) \<Rightarrow> 'e list \<Rightarrow> ('e list \<times> ('q, 'e) qmem) option" where
  "ucs_queue_for_each_extract s q P acc =
     (if ucs_queue_is_empty s q then Some (rev acc, s)
      else (case cells s (Head q) of
              Elem e \<Rightarrow>
                (if P e
                 then (case ucs_queue_pull_non_empty s q of
                         None \<Rightarrow> None
                       | Some (e', s') \<Rightarrow> ucs_queue_for_each_extract s' q P (e' # acc))
                 else Some (rev acc, s))
            | _ \<Rightarrow> None))"

section \<open>The list a queue represents\<close>

fun links :: "(('q, 'e) cell \<Rightarrow> ('q, 'e) ptr) \<Rightarrow> ('q, 'e) cell \<Rightarrow> 'e list \<Rightarrow> ('q, 'e) cell \<Rightarrow> bool" where
  "links m c [] d = (c = d)"
| "links m c (x # xs) d = (m c = Elem x \<and> links m (Next x) xs d)"

definition queue_rep :: "('q, 'e) qmem \<Rightarrow> 'q \<Rightarrow> 'e list \<Rightarrow> bool" where
  "queue_rep s q xs \<longleftrightarrow> distinct xs \<and> links (cells s) (Head q) xs (ptail s q)"

lemma links_append: "links m c (xs @ ys) d = (\<exists>b. links m c xs b \<and> links m b ys d)"
  by (induction xs arbitrary: c) auto

lemma links_end: "links m c xs d \<Longrightarrow> d = (if xs = [] then c else Next (last xs))"
  by (induction xs arbitrary: c) auto

lemma links_split: "links m c xs b \<Longrightarrow> links m c (xs @ ys) d = links m b ys d"
  by (induction xs arbitrary: c) auto

lemma links_upd_outside:
  "c \<noteq> u \<Longrightarrow> u \<notin> Next ` set xs \<Longrightarrow> links (m(u := v)) c xs d = links m c xs d"
  by (induction xs arbitrary: c) auto

lemma links_upd_end:
  assumes "links m (Head q) xs d" and "distinct xs"
  shows "links (m(d := v)) (Head q) xs d"
proof (cases xs rule: rev_cases)
  case Nil
  with assms show ?thesis by simp
next
  case (snoc ys y)
  then have d: "d = Next y" using links_end [OF assms(1)] by simp
  from assms snoc obtain b where "links m (Head q) ys b" "m b = Elem y"
    by (auto simp: links_append)
  moreover from this(1) have "b \<noteq> d" using links_end [of m "Head q" ys b] assms(2) snoc d by auto
  moreover have "d \<notin> Next ` set ys" using assms(2) snoc d by auto
  ultimately show ?thesis using snoc d by (auto simp: links_append links_upd_outside)
qed

lemma queue_rep_ptail: "queue_rep s q xs \<Longrightarrow> ptail s q = (if xs = [] then Head q else Next (last xs))"
  using links_end [of "cells s" "Head q" xs] by (auto simp: queue_rep_def)

lemma is_empty_rep: "queue_rep s q xs \<Longrightarrow> ucs_queue_is_empty s q \<longleftrightarrow> xs = []"
  using queue_rep_ptail [of s q xs]
  by (auto simp: ucs_queue_is_empty_def ucs_queue_is_empty_no_deref_def)

lemma init_rep: "queue_rep (ucs_queue_head_init s q) q []"
  by (simp add: queue_rep_def ucs_queue_head_init_def)

lemma push_rep:
  assumes "queue_rep s q xs" and "e \<notin> set xs"
  shows "queue_rep (ucs_queue_push s q e) q (xs @ [e])"
  using assms links_upd_end [of "cells s" q xs "ptail s q" "Elem e"]
  by (auto simp: queue_rep_def ucs_queue_push_def Let_def links_append)

lemma push_head_rep:
  assumes "queue_rep s q xs" and "e \<notin> set xs"
  shows "queue_rep (ucs_queue_push_head s q e) q (e # xs)"
proof (cases xs)
  case Nil
  with assms show ?thesis
    by (simp add: queue_rep_def ucs_queue_push_head_def ucs_queue_is_empty_def
        ucs_queue_is_empty_no_deref_def Let_def)
next
  case (Cons y ys)
  let ?m = "(cells s)(Next e := cells s (Head q), Head q := Elem e)"
  have "links (cells s) (Next y) ys (ptail s q)" using assms Cons by (simp add: queue_rep_def)
  then have "links ?m (Next y) ys (ptail s q)"
    using assms Cons by (subst links_upd_outside, (auto)[2], subst links_upd_outside) auto
  moreover have "ptail s q \<noteq> Head q" using queue_rep_ptail [OF assms(1)] Cons by simp
  ultimately show ?thesis
    using assms Cons
    by (auto simp: queue_rep_def ucs_queue_push_head_def ucs_queue_is_empty_def
        ucs_queue_is_empty_no_deref_def Let_def)
qed

lemma pull_rep:
  assumes "queue_rep s q (x # xs)"
  shows "\<exists>s'. ucs_queue_pull_non_empty s q = Some (x, s') \<and> queue_rep s' q xs"
proof (cases xs)
  case Nil
  with assms show ?thesis
    by (auto simp: queue_rep_def ucs_queue_pull_non_empty_def ucs_queue_is_tail_def Let_def)
next
  case (Cons y ys)
  have "ptail s q \<noteq> Next x"
    using queue_rep_ptail [OF assms] assms Cons by (auto simp: queue_rep_def split: if_splits)
  moreover have "links ((cells s)(Head q := Elem y)) (Next y) ys (ptail s q)"
    using assms Cons by (subst links_upd_outside) (auto simp: queue_rep_def)
  ultimately show ?thesis
    using assms Cons
    by (auto simp: queue_rep_def ucs_queue_pull_non_empty_def ucs_queue_is_tail_def Let_def)
qed

lemma pull_correct:
  "queue_rep s q [] \<Longrightarrow> ucs_queue_pull s q = Some (None, s)"
  "queue_rep s q (x # xs) \<Longrightarrow> \<exists>s'. ucs_queue_pull s q = Some (Some x, s') \<and> queue_rep s' q xs"
  using pull_rep [of s q x xs] by (auto simp: ucs_queue_pull_def is_empty_rep)

subsection \<open>Loops\<close>

lemma length_loop_links:
  "links (cells s) c xs d \<Longrightarrow> distinct xs \<Longrightarrow> c \<notin> Next ` set xs \<Longrightarrow>
     length_loop s c d n = Some (n + length xs)"
proof (induction xs arbitrary: c n)
  case Nil
  then show ?case by (simp add: length_loop.simps)
next
  case (Cons x xs)
  then have "c \<noteq> d" using links_end [of "cells s" c "x # xs" d] by (auto split: if_splits)
  with Cons.prems Cons.IH [of "Next x" "Suc n"] show ?case by (subst length_loop.simps) auto
qed

lemma queue_length_rep: "queue_rep s q xs \<Longrightarrow> ucs_queue_length s q = Some (length xs)"
  using length_loop_links [of s "Head q" xs "ptail s q" 0]
  by (auto simp: queue_rep_def ucs_queue_length_def)

lemma for_each_loop_links:
  "links (cells s) c xs d \<Longrightarrow> cells s d = QueueAddr q \<Longrightarrow>
     for_each_loop s q (cells s c) acc = Some (rev acc @ xs)"
  by (induction xs arbitrary: c acc) (subst for_each_loop.simps, simp)+

lemma for_each_rep:
  assumes "queue_rep s q xs"
  shows "\<exists>s'. ucs_queue_for_each s q = Some (xs, s') \<and> queue_rep s' q xs"
proof -
  let ?s = "s\<lparr>cells := (cells s)(ptail s q := QueueAddr q)\<rparr>"
  have "links (cells ?s) (Head q) xs (ptail s q)"
    using assms links_upd_end by (auto simp: queue_rep_def)
  then show ?thesis
    using for_each_loop_links [of ?s "Head q" xs "ptail s q" q "[]"] assms
    by (simp add: ucs_queue_for_each_def queue_rep_def)
qed

text \<open>Deleting the element an iterator stands at. The part of the queue before the iterator stays.\<close>

lemma del_iter_rep:
  assumes "queue_rep s q (xs @ x # ys)" and it: "links (cells s) (Head q) xs iter"
  shows "\<exists>s'. ucs_queue_del_iter s q iter = Some s' \<and> queue_rep s' q (xs @ ys) \<and>
              links (cells s') (Head q) xs iter \<and> cells s' iter \<noteq> Elem x"
proof -
  have d: "distinct (xs @ x # ys)" and l: "links (cells s) (Head q) (xs @ x # ys) (ptail s q)"
    using assms(1) by (auto simp: queue_rep_def)
  have iter: "iter = (if xs = [] then Head q else Next (last xs))" by (rule links_end [OF it])
  have x: "cells s iter = Elem x" and ys: "links (cells s) (Next x) ys (ptail s q)"
    using l links_split [OF it] by auto
  have tail: "ptail s q = (if ys = [] then Next x else Next (last ys))" by (rule links_end [OF ys])
  have keep: "links ((cells s)(iter := v)) (Head q) xs iter" for v
    using links_upd_end [OF it] d by simp
  have out: "iter \<notin> Next ` set (x # ys)" using d iter by (auto split: if_splits dest: last_in_set)
  show ?thesis
  proof (cases ys)
    case Nil
    then show ?thesis using d x tail keep [of Null]
      by (auto simp: ucs_queue_del_iter_def ucs_queue_is_tail_def queue_rep_def)
  next
    case (Cons y zs)
    have nt: "ptail s q \<noteq> Next x" using tail Cons d by (auto split: if_splits dest: last_in_set)
    have y: "cells s (Next x) = Elem y" "links (cells s) (Next y) zs (ptail s q)"
      using ys Cons by auto
    have "links ((cells s)(iter := Elem y)) (Next y) zs (ptail s q)"
      using y(2) out Cons by (subst links_upd_outside) auto
    then show ?thesis using d x y(1) nt keep [of "Elem y"] Cons
      by (auto simp: ucs_queue_del_iter_def ucs_queue_is_tail_def queue_rep_def links_append)
  qed
qed

lemma iter_at_end:
  assumes "queue_rep s q (xs @ ys)" and "links (cells s) (Head q) xs iter"
  shows "iter = ptail s q \<longleftrightarrow> ys = []"
proof -
  have "distinct (xs @ ys)" using assms(1) by (simp add: queue_rep_def)
  then show ?thesis
    using links_end [OF assms(2)] queue_rep_ptail [OF assms(1)]
    by (cases ys rule: rev_cases) (auto split: if_splits)
qed

lemma iter_cell:
  assumes "queue_rep s q (xs @ y # ys)" and "links (cells s) (Head q) xs iter"
  shows "cells s iter = Elem y" and "links (cells s) (Head q) (xs @ [y]) (Next y)"
  using assms(1) links_split [OF assms(2)] by (simp_all add: queue_rep_def)

lemma remove_loop_rep:
  "queue_rep s q (xs @ ys) \<Longrightarrow> links (cells s) (Head q) xs iter \<Longrightarrow> e \<notin> set xs \<Longrightarrow>
     \<exists>s'. remove_loop s q e iter = Some s' \<and> queue_rep s' q (xs @ remove1 e ys)"
proof (induction ys arbitrary: xs iter)
  case Nil
  then show ?case
    using iter_at_end [of s q xs "[]" iter] by (simp add: remove_loop.simps ucs_queue_iter_end_def)
next
  case (Cons y ys)
  note c = iter_cell [OF Cons.prems(1,2)]
  have ne: "iter \<noteq> ptail s q" using iter_at_end [OF Cons.prems(1,2)] by simp
  show ?case
  proof (cases "y = e")
    case True
    then show ?thesis using del_iter_rep [OF Cons.prems(1,2)] c ne
      by (subst remove_loop.simps) (auto simp: ucs_queue_iter_end_def)
  next
    case False
    then show ?thesis
      using Cons.IH [of "xs @ [y]" "Next y"] Cons.prems c ne
      by (subst remove_loop.simps) (auto simp: ucs_queue_iter_end_def ucs_queue_iter_next_def)
  qed
qed

lemma remove_rep:
  "queue_rep s q xs \<Longrightarrow> \<exists>s'. ucs_queue_remove s q e = Some s' \<and> queue_rep s' q (remove1 e xs)"
  using remove_loop_rep [of s q "[]" xs "Head q" e]
  by (simp add: ucs_queue_remove_def ucs_queue_iter_begin_def)

lemma for_each_safe_loop_rep:
  "queue_rep s q (xs @ ys) \<Longrightarrow> links (cells s) (Head q) xs iter \<Longrightarrow>
     \<exists>s'. for_each_safe_loop s q P iter = Some s' \<and> queue_rep s' q (xs @ filter (\<lambda>e. \<not> P e) ys)"
proof (induction ys arbitrary: s xs iter)
  case Nil
  then show ?case using iter_at_end [of s q xs "[]" iter] by (simp add: for_each_safe_loop.simps)
next
  case (Cons y ys)
  note c = iter_cell [OF Cons.prems(1,2)]
  have ne: "iter \<noteq> ptail s q" using iter_at_end [OF Cons.prems(1,2)] by simp
  show ?case
  proof (cases "P y")
    case True
    obtain s' where s': "ucs_queue_del_iter s q iter = Some s'" "queue_rep s' q (xs @ ys)"
      "links (cells s') (Head q) xs iter" "cells s' iter \<noteq> Elem y"
      using del_iter_rep [OF Cons.prems(1,2)] by blast
    then show ?thesis using Cons.IH [OF s'(2,3)] c ne True
      by (subst for_each_safe_loop.simps) simp
  next
    case False
    then show ?thesis using Cons.IH [of s "xs @ [y]" "Next y"] Cons.prems c ne
      by (subst for_each_safe_loop.simps) simp
  qed
qed

lemma for_each_safe_rep:
  "queue_rep s q xs \<Longrightarrow>
     \<exists>s'. ucs_queue_for_each_safe s q P = Some s' \<and> queue_rep s' q (filter (\<lambda>e. \<not> P e) xs)"
  using for_each_safe_loop_rep [of s q "[]" xs "Head q" P] by (simp add: ucs_queue_for_each_safe_def)

lemma for_each_extract_rep:
  "queue_rep s q xs \<Longrightarrow>
     \<exists>s'. ucs_queue_for_each_extract s q P acc = Some (rev acc @ takeWhile P xs, s') \<and>
          queue_rep s' q (dropWhile P xs)"
proof (induction xs arbitrary: s acc)
  case Nil
  then show ?case using is_empty_rep [OF Nil] by (simp add: ucs_queue_for_each_extract.simps)
next
  case (Cons x xs)
  obtain s' where s': "ucs_queue_pull_non_empty s q = Some (x, s')" "queue_rep s' q xs"
    using pull_rep [OF Cons.prems] by blast
  moreover have "cells s (Head q) = Elem x" using Cons.prems by (simp add: queue_rep_def)
  ultimately show ?case
    using Cons.IH [OF s'(2), of "x # acc"] is_empty_rep [OF Cons.prems] Cons.prems
    by (subst ucs_queue_for_each_extract.simps) auto
qed

subsection \<open>Several queues\<close>

lemma links_cong:
  "(\<And>a. a = c \<or> a \<in> Next ` set xs \<Longrightarrow> m' a = m a) \<Longrightarrow> links m' c xs d = links m c xs d"
  by (induction xs arbitrary: c) auto

lemma queue_rep_frame:
  assumes "queue_rep s q xs" and "ptail s' q = ptail s q"
    and "\<And>c. c = Head q \<or> c \<in> Next ` set xs \<Longrightarrow> cells s' c = cells s c"
  shows "queue_rep s' q xs"
  using assms(1,2) links_cong [of "Head q" xs "cells s'" "cells s", OF assms(3)]
  by (simp add: queue_rep_def)

lemma ptail_outside:
  assumes "queue_rep s q xs" and "q \<noteq> q'" and "set xs \<inter> set ys = {}"
  shows "ptail s q \<noteq> Head q'" and "ptail s q \<notin> Next ` set ys"
  using queue_rep_ptail [OF assms(1)] assms(2,3) last_in_set [of xs]
  by (auto split: if_splits simp: disjoint_iff)

lemma push_other:
  assumes "queue_rep s q xs" and "queue_rep s q' ys" and "q \<noteq> q'" and "set xs \<inter> set ys = {}"
  shows "queue_rep (ucs_queue_push s q e) q' ys"
  by (rule queue_rep_frame [OF assms(2)])
    (use assms(3) ptail_outside [OF assms(1,3,4)] in
      \<open>auto simp: ucs_queue_push_def Let_def\<close>)

lemma push_head_other:
  assumes "queue_rep s q' ys" and "q \<noteq> q'" and "e \<notin> set ys"
  shows "queue_rep (ucs_queue_push_head s q e) q' ys"
  by (rule queue_rep_frame [OF assms(1)])
    (use assms(2,3) in \<open>auto simp: ucs_queue_push_head_def Let_def\<close>)

lemma pull_other:
  assumes "queue_rep s q' ys" and "q \<noteq> q'" and "ucs_queue_pull s q = Some (r, s')"
  shows "queue_rep s' q' ys"
  by (rule queue_rep_frame [OF assms(1)])
    (use assms(2,3) in \<open>auto simp: ucs_queue_pull_def ucs_queue_pull_non_empty_def Let_def
      split: if_splits ptr.splits\<close>)

interpretation uq: fifo_queue queue_rep ucs_queue_head_init ucs_queue_push ucs_queue_pull
  by unfold_locales
    (auto simp: init_rep push_rep pull_correct intro: push_other pull_other)

lemma splice_rep:
  assumes "queue_rep s q xs" and "queue_rep s q' ys" and "q \<noteq> q'" and dis: "set xs \<inter> set ys = {}"
  shows "queue_rep (ucs_queue_splice s q q') q (xs @ ys)"
    and "queue_rep (ucs_queue_splice s q q') q' []"
proof -
  let ?m = "(cells s)(ptail s q := cells s (Head q'))"
  have e: "ucs_queue_is_empty s q' = (ys = [])" by (rule is_empty_rep [OF assms(2)])
  show "queue_rep (ucs_queue_splice s q q') q' []"
    using assms e by (auto simp: ucs_queue_splice_def queue_rep_def Let_def)
  show "queue_rep (ucs_queue_splice s q q') q (xs @ ys)"
  proof (cases ys)
    case Nil
    with assms e show ?thesis by (simp add: ucs_queue_splice_def)
  next
    case (Cons y zs)
    have y: "cells s (Head q') = Elem y" "links (cells s) (Next y) zs (ptail s q')"
      using assms(2) Cons by (auto simp: queue_rep_def)
    have "ptail s q \<notin> Next ` set ys" by (rule ptail_outside [OF assms(1,3) dis])
    then have "links ?m (Next y) zs (ptail s q')"
      using y(2) Cons by (subst links_upd_outside) auto
    moreover have "links ?m (Head q) xs (ptail s q)"
      using assms(1) links_upd_end by (auto simp: queue_rep_def)
    ultimately have "links ?m (Head q) (xs @ ys) (ptail s q')"
      using Cons y(1) by (auto simp: links_append)
    then show ?thesis
      using assms e Cons by (auto simp: ucs_queue_splice_def queue_rep_def Let_def)
  qed
qed

lemma splice_other:
  assumes "queue_rep s q xs" and "queue_rep s p zs" and "q \<noteq> p" "q' \<noteq> p" and "set xs \<inter> set zs = {}"
  shows "queue_rep (ucs_queue_splice s q q') p zs"
  by (rule queue_rep_frame [OF assms(2)])
    (use assms(3,4) ptail_outside [OF assms(1,3,5)] in \<open>auto simp: ucs_queue_splice_def Let_def\<close>)

lemma del_iter_cells:
  assumes "ucs_queue_del_iter s q iter = Some s'"
  shows "c \<noteq> iter \<Longrightarrow> cells s' c = cells s c" and "p \<noteq> q \<Longrightarrow> ptail s' p = ptail s p"
  using assms by (auto simp: ucs_queue_del_iter_def split: ptr.splits if_splits)

lemma remove_loop_other:
  "queue_rep s q (xs @ ys) \<Longrightarrow> links (cells s) (Head q) xs iter \<Longrightarrow> remove_loop s q e iter = Some s' \<Longrightarrow>
     queue_rep s p zs \<Longrightarrow> q \<noteq> p \<Longrightarrow> set (xs @ ys) \<inter> set zs = {} \<Longrightarrow> queue_rep s' p zs"
proof (induction ys arbitrary: xs iter)
  case Nil
  then show ?case
    using iter_at_end [of s q xs "[]" iter] by (simp add: remove_loop.simps ucs_queue_iter_end_def)
next
  case (Cons y ys)
  note c = iter_cell [OF Cons.prems(1,2)]
  have ne: "iter \<noteq> ptail s q" using iter_at_end [OF Cons.prems(1,2)] by simp
  have iter: "iter \<noteq> Head p" "iter \<notin> Next ` set zs"
    using links_end [OF Cons.prems(2)] Cons.prems(5,6) last_in_set [of xs]
    by (auto simp: disjoint_iff split: if_splits)
  show ?case
  proof (cases "y = e")
    case True
    then have "ucs_queue_del_iter s q iter = Some s'" using Cons.prems(3) c ne
      by (subst (asm) remove_loop.simps) (auto simp: ucs_queue_iter_end_def)
    from del_iter_cells [OF this] show ?thesis
      by (intro queue_rep_frame [OF Cons.prems(4)]) (use iter Cons.prems(5) in metis)+
  next
    case False
    then have "remove_loop s q e (Next y) = Some s'" using Cons.prems(3) c ne
      by (subst (asm) remove_loop.simps) (auto simp: ucs_queue_iter_end_def ucs_queue_iter_next_def)
    then show ?thesis using Cons.IH [of "xs @ [y]" "Next y"] Cons.prems c by auto
  qed
qed

lemma remove_other:
  assumes "queue_rep s q xs" and "ucs_queue_remove s q e = Some s'"
    and "queue_rep s p zs" and "q \<noteq> p" and "set xs \<inter> set zs = {}"
  shows "queue_rep s' p zs"
  using remove_loop_other [of s q "[]" xs "Head q" e s' p zs] assms
  by (simp add: ucs_queue_remove_def ucs_queue_iter_begin_def)

section \<open>Sequences of operations\<close>

text \<open>What the operations promise: each queue is a list, no element is in two queues.\<close>

datatype ('q, 'e) queue_op =
  Push 'q 'e | Push_Head 'q 'e | Pull 'q | Remove 'q 'e | Splice 'q 'q | Length 'q

datatype 'e queue_out = Done | Pulled "'e option" | Counted nat

text \<open>The concrete step; \<open>None\<close> is a fault.\<close>

fun queue_step :: "('q, 'e) qmem \<Rightarrow> ('q, 'e) queue_op \<Rightarrow> ('e queue_out \<times> ('q, 'e) qmem) option" where
  "queue_step s (Push q e) = Some (Done, ucs_queue_push s q e)"
| "queue_step s (Push_Head q e) = Some (Done, ucs_queue_push_head s q e)"
| "queue_step s (Pull q) = map_option (\<lambda>(r, s'). (Pulled r, s')) (ucs_queue_pull s q)"
| "queue_step s (Remove q e) = map_option (\<lambda>s'. (Done, s')) (ucs_queue_remove s q e)"
| "queue_step s (Splice q q') = Some (Done, ucs_queue_splice s q q')"
| "queue_step s (Length q) = map_option (\<lambda>n. (Counted n, s)) (ucs_queue_length s q)"

fun list_step :: "('q \<Rightarrow> 'e list) \<Rightarrow> ('q, 'e) queue_op \<Rightarrow> 'e queue_out \<times> ('q \<Rightarrow> 'e list)" where
  "list_step A (Push q e) = (Done, A(q := A q @ [e]))"
| "list_step A (Push_Head q e) = (Done, A(q := e # A q))"
| "list_step A (Pull q) =
     (case A q of [] \<Rightarrow> (Pulled None, A) | x # xs \<Rightarrow> (Pulled (Some x), A(q := xs)))"
| "list_step A (Remove q e) = (Done, A(q := remove1 e (A q)))"
| "list_step A (Splice q q') = (Done, A(q := A q @ A q', q' := []))"
| "list_step A (Length q) = (Counted (length (A q)), A)"

text \<open>The caller's obligation: an element is pushed only while it is in no queue, and a queue is not
  spliced into itself.\<close>

fun op_ok :: "('q \<Rightarrow> 'e list) \<Rightarrow> ('q, 'e) queue_op \<Rightarrow> bool" where
  "op_ok A (Push q e) = (\<forall>p. e \<notin> set (A p))"
| "op_ok A (Push_Head q e) = (\<forall>p. e \<notin> set (A p))"
| "op_ok A (Splice q q') = (q \<noteq> q')"
| "op_ok A _ = True"

fun queue_run :: "('q, 'e) qmem \<Rightarrow> ('q, 'e) queue_op list \<Rightarrow> ('e queue_out list \<times> ('q, 'e) qmem) option" where
  "queue_run s [] = Some ([], s)"
| "queue_run s (a # as) =
     (case queue_step s a of
        None \<Rightarrow> None
      | Some (r, s') \<Rightarrow> map_option (\<lambda>(rs, t). (r # rs, t)) (queue_run s' as))"

fun list_run :: "('q \<Rightarrow> 'e list) \<Rightarrow> ('q, 'e) queue_op list \<Rightarrow> 'e queue_out list \<times> ('q \<Rightarrow> 'e list)" where
  "list_run A [] = ([], A)"
| "list_run A (a # as) = (let (r, B) = list_step A a; (rs, C) = list_run B as in (r # rs, C))"

fun ops_ok :: "('q \<Rightarrow> 'e list) \<Rightarrow> ('q, 'e) queue_op list \<Rightarrow> bool" where
  "ops_ok A [] = True"
| "ops_ok A (a # as) = (op_ok A a \<and> ops_ok (snd (list_step A a)) as)"

definition queues_rep :: "('q, 'e) qmem \<Rightarrow> ('q \<Rightarrow> 'e list) \<Rightarrow> bool" where
  "queues_rep s A \<longleftrightarrow>
     (\<forall>q. queue_rep s q (A q)) \<and> (\<forall>p q. p \<noteq> q \<longrightarrow> set (A p) \<inter> set (A q) = {})"

lemma queues_rep_upd:
  assumes "queues_rep s A" and "queue_rep s' q xs"
    and "\<And>p. p \<noteq> q \<Longrightarrow> queue_rep s' p (A p)" and "\<And>p. p \<noteq> q \<Longrightarrow> set xs \<inter> set (A p) = {}"
  shows "queues_rep s' (A(q := xs))"
  using assms by (auto simp: queues_rep_def)

lemma queue_step_refines:
  assumes "queues_rep s A" and "op_ok A a" and "list_step A a = (r, B)"
  shows "\<exists>s'. queue_step s a = Some (r, s') \<and> queues_rep s' B"
proof (cases a)
  case (Push q e)
  then have "queues_rep (ucs_queue_push s q e) (A(q := A q @ [e]))"
    using assms by (intro queues_rep_upd [OF assms(1)])
      (auto simp: queues_rep_def disjoint_iff intro!: push_rep push_other [of s q "A q"])
  with Push assms(3) show ?thesis by auto
next
  case (Push_Head q e)
  then have "queues_rep (ucs_queue_push_head s q e) (A(q := e # A q))"
    using assms by (intro queues_rep_upd [OF assms(1)])
      (auto simp: queues_rep_def disjoint_iff intro!: push_head_rep push_head_other)
  with Push_Head assms(3) show ?thesis by auto
next
  case (Pull q)
  show ?thesis
  proof (cases "A q")
    case Nil
    then have "ucs_queue_pull s q = Some (None, s)"
      using assms(1) pull_correct(1) [of s q] by (metis queues_rep_def)
    with assms Pull Nil show ?thesis by auto
  next
    case (Cons x xs)
    obtain s' where s': "ucs_queue_pull s q = Some (Some x, s')" "queue_rep s' q xs"
      using pull_correct(2) [of s q x xs] assms(1) Cons by (metis queues_rep_def)
    have "queues_rep s' (A(q := xs))"
    proof (rule queues_rep_upd [OF assms(1) s'(2)])
      fix p assume "p \<noteq> q"
      then show "queue_rep s' p (A p)"
        using pull_other [of s p "A p" q] assms(1) s'(1) by (auto simp: queues_rep_def)
      have "set (A q) \<inter> set (A p) = {}" using assms(1) \<open>p \<noteq> q\<close> by (auto simp: queues_rep_def)
      then show "set xs \<inter> set (A p) = {}" using Cons by auto
    qed
    with assms(3) Cons Pull s'(1) show ?thesis by auto
  qed
next
  case (Remove q e)
  obtain s' where s': "ucs_queue_remove s q e = Some s'" "queue_rep s' q (remove1 e (A q))"
    using remove_rep [of s q "A q" e] assms(1) by (auto simp: queues_rep_def)
  have "queues_rep s' (A(q := remove1 e (A q)))"
  proof (rule queues_rep_upd [OF assms(1) s'(2)])
    fix p assume "p \<noteq> q"
    then have d: "set (A q) \<inter> set (A p) = {}" using assms(1) by (auto simp: queues_rep_def)
    then show "queue_rep s' p (A p)"
      using remove_other [of s q "A q" e s' p "A p"] assms(1) s'(1) \<open>p \<noteq> q\<close>
      by (auto simp: queues_rep_def)
    show "set (remove1 e (A q)) \<inter> set (A p) = {}" using d set_remove1_subset [of e "A q"] by blast
  qed
  with assms(3) Remove s'(1) show ?thesis by auto
next
  case (Splice q q')
  then have ne: "q \<noteq> q'" using assms(2) by simp
  let ?s = "ucs_queue_splice s q q'"
  have r: "queue_rep ?s q (A q @ A q')" "queue_rep ?s q' []"
    using splice_rep [of s q "A q" q' "A q'"] assms(1) ne by (auto simp: queues_rep_def)
  have o: "queue_rep ?s p (A p)" if "p \<noteq> q" "p \<noteq> q'" for p
    using splice_other [of s q "A q" p "A p" q'] assms(1) that by (auto simp: queues_rep_def)
  have "queues_rep ?s (A(q := A q @ A q', q' := []))"
    using assms(1) r o ne by (auto simp: queues_rep_def disjoint_iff)
  with Splice assms(3) show ?thesis by auto
next
  case (Length q)
  with assms queue_length_rep [of s q "A q"] show ?thesis by (auto simp: queues_rep_def)
qed

section \<open>Properties\<close>

text \<open>
  C8. The pointer code of \<open>queue.h\<close> implements lists. Take any number of queues over one memory, and any
  sequence of push, push at the head, pull, remove, splice and length on them that respects the
  caller's obligation. From a state that represents a list for every queue, with no element in two of
  them, the sequence never dereferences a wrong pointer, every loop in it ends, each call returns what
  the operation on lists returns, and the final state represents the final lists; a queue that an
  operation does not name is untouched.
\<close>

theorem queues_refine_lists:
  assumes "queues_rep s A" and "ops_ok A as" and "list_run A as = (rs, B)"
  shows "\<exists>s'. queue_run s as = Some (rs, s') \<and> queues_rep s' B"
  using assms
proof (induction as arbitrary: s A rs)
  case Nil
  then show ?case by simp
next
  case (Cons a as)
  obtain r C where C: "list_step A a = (r, C)" by fastforce
  then obtain rs' where rs': "list_run C as = (rs', B)" "rs = r # rs'"
    using Cons.prems(3) by (auto split: prod.splits)
  obtain s1 where s1: "queue_step s a = Some (r, s1)" "queues_rep s1 C"
    using queue_step_refines [OF Cons.prems(1) _ C] Cons.prems(2) by auto
  from Cons.IH [OF s1(2) _ rs'(1)] Cons.prems(2) C s1(1) rs'(2) show ?case by auto
qed

theorem queues_refine_lists_witness:
  "\<exists>s'. queue_run \<lparr>cells = \<lambda>_. Null, ptail = Head\<rparr>
     [Push True (1 :: nat), Push False 2, Push_Head True 3, Splice False True, Remove False 3, Pull False,
      Length False, Pull True]
     = Some ([Done, Done, Done, Done, Done, Pulled (Some 2), Counted 1, Pulled None], s') \<and>
     queues_rep s' ((\<lambda>_. [])(False := [1]))"
proof (rule queues_refine_lists [of _ "\<lambda>_. []"])
  show "queues_rep \<lparr>cells = \<lambda>_. Null, ptail = Head\<rparr> (\<lambda>_. [])"
    by (simp add: queues_rep_def queue_rep_def)
qed (auto simp: fun_eq_iff)

text \<open>
  C33. The iteration macros of \<open>queue.h\<close>. \<open>ucs_queue_for_each\<close> visits exactly the elements of the queue
  in order and leaves the queue as it was, \<open>ucs_queue_for_each_safe\<close> with a body that deletes the
  elements with a property leaves exactly the others in their order, and \<open>ucs_queue_for_each_extract\<close>
  takes the longest prefix that satisfies the condition. All three end without a fault.
\<close>

theorem queue_iteration_correct:
  assumes "queue_rep s q xs"
  shows "(\<exists>s'. ucs_queue_for_each s q = Some (xs, s') \<and> queue_rep s' q xs) \<and>
         (\<exists>s'. ucs_queue_for_each_safe s q P = Some s' \<and> queue_rep s' q (filter (\<lambda>e. \<not> P e) xs)) \<and>
         (\<exists>s'. ucs_queue_for_each_extract s q P [] = Some (takeWhile P xs, s') \<and>
               queue_rep s' q (dropWhile P xs))"
  using for_each_rep [OF assms] for_each_safe_rep [OF assms, of P] for_each_extract_rep [OF assms, of P "[]"]
  by simp

theorem queue_iteration_correct_witness:
  "\<exists>s'. ucs_queue_for_each_safe
     (push_all ucs_queue_push (ucs_queue_head_init \<lparr>cells = \<lambda>_. Null, ptail = Head\<rparr> ()) () [4, 7, 9 :: nat])
     () even = Some s' \<and> queue_rep s' () [7, 9]"
proof -
  let ?s = "push_all ucs_queue_push (ucs_queue_head_init \<lparr>cells = \<lambda>_. Null, ptail = Head\<rparr> ()) () [4, 7, 9 :: nat]"
  have "queue_rep ?s () ([] @ [4, 7, 9])" by (rule uq.push_all_rep [OF init_rep]) simp_all
  then have "queue_rep ?s () [4, 7, 9]" by (simp only: append.simps)
  from queue_iteration_correct [OF this, of even] show ?thesis by simp
qed

end
