(* ===== verification/Ucs_Frag_List.thy ===== *)
theory Ucs_Frag_List
  imports Mpi_Ucx_Prelude
begin

text \<open>
  \<^verbatim>\<open>ucs/datastruct/frag_list.{h,c}\<close>: the reorder buffer of the datagram transports. Packets carry 16-bit
  sequence numbers that wrap around and are compared circularly. Packets that arrive early are kept in
  runs without gaps; the first packet of a run is the head of the run and holds the queue of the
  others. The queues of the code (\<open>ucs_queue_head_t\<close>) are lists here. A failed \<open>ucs_assert\<close> is \<open>None\<close>.
  The statistics counters (\<open>ENABLE_STATS\<close>) are left out.

  The theory also has the receive path of the SRD transport, \<^verbatim>\<open>uct/ib/efa/srd/srd_iface.c\<close>, which keeps
  one such list per sender.
\<close>

section \<open>Data\<close>

datatype ooo_type =
    UCS_FRAG_LIST_INSERT_FAST
  | UCS_FRAG_LIST_INSERT_FIRST
  | UCS_FRAG_LIST_INSERT_SLOW
  | UCS_FRAG_LIST_INSERT_DUP
  | UCS_FRAG_LIST_INSERT_READY
  | UCS_FRAG_LIST_INSERT_FAIL

type_synonym sn = u16

text \<open>\<open>UCS_CIRCULAR_COMPARE16(a, op, b)\<close> is \<open>sn_cmp a b op 0\<close>.\<close>

definition sn_cmp :: "sn \<Rightarrow> sn \<Rightarrow> int" where
  "sn_cmp a b = sint (a - b)"

text \<open>A run of consecutive packets: its head element and what the head element holds.\<close>

record 'e frag_run =
  h_elem :: 'e
  first_sn :: sn
  last_sn :: sn
  h_list :: "'e list"

record 'e frag_list =
  fl_list :: "'e frag_run list"
  ready_list :: "'e list"
  head_sn :: sn
  elem_count :: u32
  list_count :: u32
  max_holes :: int

section \<open>Operations\<close>

definition ucs_frag_list_init :: "sn \<Rightarrow> int \<Rightarrow> (ucs_status \<times> 'e frag_list) option" where
  "ucs_frag_list_init initial_sn mh =
     (if mh = 0 \<or> mh = -1
      then Some (UCS_OK, \<lparr>fl_list = [], ready_list = [], head_sn = initial_sn, elem_count = 0,
                          list_count = 0, max_holes = mh\<rparr>)
      else None)"

text \<open>The cleanup only asserts that the list was emptied.\<close>

definition ucs_frag_list_cleanup :: "'e frag_list \<Rightarrow> unit option" where
  "ucs_frag_list_cleanup fl =
     (if elem_count fl = 0 \<and> list_count fl = 0 \<and> fl_list fl = [] \<and> ready_list fl = [] then Some () else None)"

text \<open>The helpers take the list of runs split at the run \<open>h\<close>: \<open>prev\<close> are the runs before it (the code's
  \<open>prevh\<close> is the last of them), \<open>rest\<close> the ones after it.\<close>

definition frag_list_replace_head ::
  "'e frag_list \<Rightarrow> 'e frag_run list \<Rightarrow> 'e frag_run \<Rightarrow> 'e frag_run list \<Rightarrow> 'e \<Rightarrow> 'e frag_list" where
  "frag_list_replace_head fl prev h rest new_h =
     fl\<lparr>fl_list := prev @ \<lparr>h_elem = new_h, first_sn = first_sn h - 1, last_sn = last_sn h,
                            h_list = h_elem h # h_list h\<rparr> # rest\<rparr>"

definition frag_list_add_tail :: "'e frag_run \<Rightarrow> 'e \<Rightarrow> 'e frag_run" where
  "frag_list_add_tail h elem = h\<lparr>last_sn := last_sn h + 1, h_list := h_list h @ [elem]\<rparr>"

definition frag_list_merge_heads :: "'e frag_run \<Rightarrow> 'e frag_run \<Rightarrow> 'e frag_run" where
  "frag_list_merge_heads h1 h2 = h1\<lparr>last_sn := last_sn h2, h_list := h_list h1 @ h_elem h2 # h_list h2\<rparr>"

definition new_run :: "'e \<Rightarrow> sn \<Rightarrow> 'e frag_run" where
  "new_run e sn = \<lparr>h_elem = e, first_sn = sn, last_sn = sn, h_list = []\<rparr>"

definition frag_list_insert_head ::
  "'e frag_list \<Rightarrow> 'e frag_run list \<Rightarrow> 'e frag_run \<Rightarrow> 'e frag_run list \<Rightarrow> 'e \<Rightarrow> sn \<Rightarrow> 'e frag_list" where
  "frag_list_insert_head fl prev h rest new_h sn = fl\<lparr>fl_list := prev @ new_run new_h sn # h # rest\<rparr>"

definition frag_list_insert_tail :: "'e frag_list \<Rightarrow> 'e \<Rightarrow> sn \<Rightarrow> 'e frag_list" where
  "frag_list_insert_tail fl new_h sn = fl\<lparr>fl_list := fl_list fl @ [new_run new_h sn]\<rparr>"

definition count_elem :: "'e frag_list \<Rightarrow> 'e frag_list" where
  "count_elem fl = fl\<lparr>elem_count := elem_count fl + 1\<rparr>"

definition ucs_frag_list_insert_head :: "'e frag_list \<Rightarrow> 'e \<Rightarrow> sn \<Rightarrow> ooo_type \<times> 'e frag_list" where
  "ucs_frag_list_insert_head fl elem sn =
     (if fl_list fl \<noteq> [] \<and> sn_cmp sn (first_sn (hd (fl_list fl))) \<ge> 0
      then (UCS_FRAG_LIST_INSERT_DUP, fl)
      else
        (let fl1 = fl\<lparr>head_sn := head_sn fl + 1\<rparr> in
         if ready_list fl1 \<noteq> []
         then (UCS_FRAG_LIST_INSERT_READY, fl1\<lparr>ready_list := ready_list fl1 @ [elem]\<rparr>)
         else if fl_list fl \<noteq> [] \<and> sn_cmp (first_sn (hd (fl_list fl))) (sn + 1) = 0
         then (UCS_FRAG_LIST_INSERT_FIRST, fl1)
         else (UCS_FRAG_LIST_INSERT_FAST, fl1)))"

text \<open>
  The search of \<open>ucs_frag_list_insert_slow\<close>. The test for a merge compares \<open>first_sn\<close> with \<open>sn + 1\<close>
  as C integers, without wrap-around.
\<close>

fun insert_loop ::
  "'e frag_list \<Rightarrow> 'e \<Rightarrow> sn \<Rightarrow> 'e frag_run list \<Rightarrow> 'e frag_run list \<Rightarrow> (ooo_type \<times> 'e frag_list) option" where
  "insert_loop fl elem sn prev [] =
     (let fl1 = count_elem (frag_list_insert_tail fl elem sn)
      in Some (UCS_FRAG_LIST_INSERT_SLOW, fl1\<lparr>list_count := list_count fl1 + 1\<rparr>))"
| "insert_loop fl elem sn prev (h # rest) =
     (if sn_cmp sn (first_sn h) \<ge> 0 \<and> sn_cmp sn (last_sn h) \<le> 0
      then Some (UCS_FRAG_LIST_INSERT_DUP, fl)
      else if sn_cmp (sn + 1) (first_sn h) = 0
      then Some (UCS_FRAG_LIST_INSERT_SLOW, count_elem (frag_list_replace_head fl prev h rest elem))
      else if sn_cmp (last_sn h + 1) sn = 0
      then (if \<not> sn_cmp (first_sn h) (last_sn h) \<le> 0 then None
            else
              (let h1 = frag_list_add_tail h elem
               in case rest of
                    [] \<Rightarrow> Some (UCS_FRAG_LIST_INSERT_SLOW, count_elem (fl\<lparr>fl_list := prev @ [h1]\<rparr>))
                  | nexth # rest' \<Rightarrow>
                      (if uint (first_sn nexth) = uint sn + 1
                       then Some (UCS_FRAG_LIST_INSERT_SLOW,
                              count_elem (fl\<lparr>fl_list := prev @ frag_list_merge_heads h1 nexth # rest',
                                             list_count := list_count fl - 1\<rparr>))
                       else Some (UCS_FRAG_LIST_INSERT_SLOW,
                              count_elem (fl\<lparr>fl_list := prev @ h1 # rest\<rparr>)))))
      else if sn_cmp sn (first_sn h) < 0
      then (if prev \<noteq> [] \<and> \<not> sn_cmp (last_sn (last prev) + 1) sn < 0 then None
            else
              (let fl1 = count_elem (frag_list_insert_head fl prev h rest elem sn)
               in Some (UCS_FRAG_LIST_INSERT_SLOW, fl1\<lparr>list_count := list_count fl1 + 1\<rparr>)))
      else if \<not> sn_cmp (last_sn h + 1) sn < 0 then None
      else insert_loop fl elem sn (prev @ [h]) rest)"

definition ucs_frag_list_insert_slow :: "'e frag_list \<Rightarrow> 'e \<Rightarrow> sn \<Rightarrow> (ooo_type \<times> 'e frag_list) option" where
  "ucs_frag_list_insert_slow fl elem sn =
     (if sn_cmp sn (head_sn fl + 1) = 0 then Some (ucs_frag_list_insert_head fl elem sn)
      else if sn_cmp sn (head_sn fl) \<le> 0 then Some (UCS_FRAG_LIST_INSERT_DUP, fl)
      else if max_holes fl = 0 then Some (UCS_FRAG_LIST_INSERT_FAIL, fl)
      else insert_loop fl elem sn [] (fl_list fl))"

definition ucs_frag_list_insert :: "'e frag_list \<Rightarrow> 'e \<Rightarrow> sn \<Rightarrow> (ooo_type \<times> 'e frag_list) option" where
  "ucs_frag_list_insert fl elem sn =
     (if sn_cmp sn (head_sn fl + 1) = 0 \<and> elem_count fl = 0
      then Some (UCS_FRAG_LIST_INSERT_FAST, fl\<lparr>head_sn := sn\<rparr>)
      else ucs_frag_list_insert_slow fl elem sn)"

text \<open>The fault is the access to the head of an empty list of runs, which the caller excludes.\<close>

definition ucs_frag_list_pull_slow :: "'e frag_list \<Rightarrow> bool \<Rightarrow> ('e option \<times> 'e frag_list) option" where
  "ucs_frag_list_pull_slow fl force =
     (case fl_list fl of
        [] \<Rightarrow> None
      | h # rest \<Rightarrow>
          (if \<not> force \<and> sn_cmp (first_sn h) (head_sn fl + 1) \<noteq> 0 then Some (None, fl)
           else Some (Some (h_elem h),
                  fl\<lparr>head_sn := last_sn h, elem_count := elem_count fl - 1, list_count := list_count fl - 1,
                     fl_list := rest, ready_list := ready_list fl @ h_list h\<rparr>)))"

definition ucs_frag_list_remove :: "'e frag_list \<Rightarrow> bool \<Rightarrow> ('e option \<times> 'e frag_list) option" where
  "ucs_frag_list_remove fl force =
     (case ready_list fl of
        e # es \<Rightarrow> Some (Some e, fl\<lparr>elem_count := elem_count fl - 1, ready_list := es\<rparr>)
      | [] \<Rightarrow> (if fl_list fl \<noteq> [] then ucs_frag_list_pull_slow fl force else Some (None, fl)))"

definition ucs_frag_list_pull :: "'e frag_list \<Rightarrow> ('e option \<times> 'e frag_list) option" where
  "ucs_frag_list_pull fl = ucs_frag_list_remove fl False"

definition ucs_frag_list_sn :: "'e frag_list \<Rightarrow> sn" where
  "ucs_frag_list_sn fl = head_sn fl"

definition ucs_frag_list_sn_inc :: "'e frag_list \<Rightarrow> 'e frag_list" where
  "ucs_frag_list_sn_inc fl = fl\<lparr>head_sn := head_sn fl + 1\<rparr>"

definition ucs_frag_list_count :: "'e frag_list \<Rightarrow> u32" where
  "ucs_frag_list_count fl = elem_count fl"

definition ucs_frag_list_empty :: "'e frag_list \<Rightarrow> bool" where
  "ucs_frag_list_empty fl = (fl_list fl = [] \<and> ready_list fl = [])"

text \<open>\<open>ucs_frag_list_dump\<close> counts what is in the queues and asserts the two counters; the trace output is
  left out.\<close>

definition ucs_frag_list_dump :: "'e frag_list \<Rightarrow> unit option" where
  "ucs_frag_list_dump fl =
     (let n = length (ready_list fl) + (\<Sum>h \<leftarrow> fl_list fl. length (h_list h) + 1)
      in if elem_count fl = of_nat n \<and> list_count fl = of_nat (length (fl_list fl)) then Some () else None)"

section \<open>The receive path of SRD\<close>

text \<open>The loop \<open>while ((elem = ucs_frag_list_pull(...)) != NULL)\<close>, with the elements it processes.\<close>

partial_function (option) pull_loop :: "'e frag_list \<Rightarrow> 'e list \<Rightarrow> ('e list \<times> 'e frag_list) option" where
  "pull_loop fl acc =
     (case ucs_frag_list_pull fl of
        None \<Rightarrow> None
      | Some (None, fl') \<Rightarrow> Some (rev acc, fl')
      | Some (Some e, fl') \<Rightarrow> pull_loop fl' (e # acc))"

partial_function (option) remove_all_loop :: "'e frag_list \<Rightarrow> 'e list \<Rightarrow> ('e list \<times> 'e frag_list) option" where
  "remove_all_loop fl acc =
     (case ucs_frag_list_remove fl True of
        None \<Rightarrow> None
      | Some (None, fl') \<Rightarrow> Some (rev acc, fl')
      | Some (Some e, fl') \<Rightarrow> remove_all_loop fl' (e # acc))"

text \<open>The context hash of the interface: the reorder buffer of each sender, by the sender's uuid.
  Allocation of a context and insertion into the hash may fail.\<close>

type_synonym 'e srd_iface = "u64 \<rightharpoonup> 'e frag_list"

definition UCT_SRD_INITIAL_PSN :: sn where
  "UCT_SRD_INITIAL_PSN = 1"

definition uct_srd_rx_ctx_create ::
  "bool \<Rightarrow> bool \<Rightarrow> 'e srd_iface \<Rightarrow> u64 \<Rightarrow> ('e frag_list option \<times> 'e srd_iface) option" where
  "uct_srd_rx_ctx_create mem_ok put_ok iface uuid =
     (if \<not> mem_ok then Some (None, iface)
      else
        (case ucs_frag_list_init (UCT_SRD_INITIAL_PSN - 1) (-1) of
           None \<Rightarrow> None
         | Some (status, fl) \<Rightarrow>
             (if status \<noteq> UCS_OK then Some (None, iface)
              else if \<not> put_ok
              then (case ucs_frag_list_cleanup fl of None \<Rightarrow> None | Some _ \<Rightarrow> Some (None, iface))
              else Some (Some fl, iface(uuid \<mapsto> fl)))))"

text \<open>The outcome of one packet: the descriptors given to the active message handler, in order, the
  descriptors released to the memory pool, and the new state.\<close>

record 'e rx_out =
  processed :: "'e list"
  released :: "'e list"
  iface :: "'e srd_iface"

definition uct_srd_iface_process_rx ::
  "bool \<Rightarrow> bool \<Rightarrow> 'e srd_iface \<Rightarrow> u64 \<Rightarrow> sn \<Rightarrow> 'e \<Rightarrow> 'e rx_out option" where
  "uct_srd_iface_process_rx mem_ok put_ok ifc uuid psn desc =
     (case (case ifc uuid of
              None \<Rightarrow> uct_srd_rx_ctx_create mem_ok put_ok ifc uuid
            | Some ctx \<Rightarrow> Some (Some ctx, ifc)) of
        None \<Rightarrow> None
      | Some (None, ifc1) \<Rightarrow> Some \<lparr>processed = [], released = [desc], iface = ifc1\<rparr>
      | Some (Some ctx, ifc1) \<Rightarrow>
          (case ucs_frag_list_insert ctx desc psn of
             None \<Rightarrow> None
           | Some (ooo, ctx1) \<Rightarrow>
               (case ooo of
                  UCS_FRAG_LIST_INSERT_FAST \<Rightarrow>
                    Some \<lparr>processed = [desc], released = [], iface = ifc1(uuid \<mapsto> ctx1)\<rparr>
                | UCS_FRAG_LIST_INSERT_FIRST \<Rightarrow>
                    map_option (\<lambda>(es, ctx2). \<lparr>processed = desc # es, released = [], iface = ifc1(uuid \<mapsto> ctx2)\<rparr>)
                      (pull_loop ctx1 [])
                | UCS_FRAG_LIST_INSERT_SLOW \<Rightarrow>
                    Some \<lparr>processed = [], released = [], iface = ifc1(uuid \<mapsto> ctx1)\<rparr>
                | UCS_FRAG_LIST_INSERT_READY \<Rightarrow>
                    map_option (\<lambda>(es, ctx2). \<lparr>processed = es, released = [], iface = ifc1(uuid \<mapsto> ctx2)\<rparr>)
                      (pull_loop ctx1 [])
                | _ \<Rightarrow> Some \<lparr>processed = [], released = [desc], iface = ifc1(uuid \<mapsto> ctx1)\<rparr>)))"

text \<open>\<open>uct_iface_rx_ctx_cleanup\<close>: the descriptors it returns to the pool.\<close>

definition uct_iface_rx_ctx_cleanup :: "'e frag_list \<Rightarrow> 'e list option" where
  "uct_iface_rx_ctx_cleanup ctx =
     (case remove_all_loop ctx [] of
        None \<Rightarrow> None
      | Some (es, ctx') \<Rightarrow> (case ucs_frag_list_cleanup ctx' of None \<Rightarrow> None | Some _ \<Rightarrow> Some es))"

section \<open>Sequence numbers as positions in the stream\<close>

text \<open>
  A packet has a position in the stream of its sender, an unbounded number; its sequence number is the
  position modulo \<open>2 ^ 16\<close>. Positions less than \<open>2 ^ 15\<close> apart are compared correctly.
\<close>

lemma sn_cmp_of_nat:
  assumes "a < b + 2 ^ 15" and "b \<le> a + 2 ^ 15"
  shows "sn_cmp (of_nat a) (of_nat b) = int a - int b"
proof -
  have "sn_cmp (of_nat a) (of_nat b) = sint (word_of_int (int a - int b) :: sn)"
    by (simp add: sn_cmp_def)
  also have "\<dots> = signed_take_bit 15 (int a - int b)"
    by (simp add: signed_of_int del: of_int_diff)
  also have "\<dots> = int a - int b"
    using assms by (intro signed_take_bit_int_eq_self) auto
  finally show ?thesis .
qed

lemma sn_cmp_eq_0: "sn_cmp a b = 0 \<longleftrightarrow> a = b"
  by (simp add: sn_cmp_def signed_eq_0_iff)

lemma sn_Suc: "of_nat a + 1 = (of_nat (Suc a) :: sn)"
  by simp

text \<open>The run at position \<open>p\<close> is complete: its elements are those of the positions from \<open>p\<close> on.\<close>

definition run_elems :: "'e frag_run \<Rightarrow> 'e list" where
  "run_elems h = h_elem h # h_list h"

definition run_ok :: "('e \<Rightarrow> nat) \<Rightarrow> 'e frag_run \<Rightarrow> nat \<Rightarrow> nat \<Rightarrow> bool" where
  "run_ok idx h f l \<longleftrightarrow> f \<le> l \<and> first_sn h = of_nat f \<and> last_sn h = of_nat l \<and>
     map idx (run_elems h) = [f..<Suc l]"

definition stored :: "'e frag_run list \<Rightarrow> 'e list" where
  "stored hs = concat (map run_elems hs)"

text \<open>
  The runs are in order, after \<open>lo\<close> and up to \<open>hi\<close>, with a hole between any two, except that the code
  leaves two runs unmerged when the second begins at sequence number 0.
\<close>

fun runs_ok :: "('e \<Rightarrow> nat) \<Rightarrow> nat \<Rightarrow> nat \<Rightarrow> 'e frag_run list \<Rightarrow> bool" where
  "runs_ok idx lo hi [] = True"
| "runs_ok idx lo hi (h # hs) =
     (lo < idx (h_elem h) \<and> idx (h_elem h) + length (h_list h) \<le> hi \<and>
      run_ok idx h (idx (h_elem h)) (idx (h_elem h) + length (h_list h)) \<and>
      (Suc (idx (h_elem h) + length (h_list h)) \<in> idx ` set (stored hs) \<longrightarrow>
         2 ^ 16 dvd Suc (idx (h_elem h) + length (h_list h))) \<and>
      runs_ok idx (idx (h_elem h) + length (h_list h)) hi hs)"

lemma stored_simps [simp]:
  "stored [] = []" "stored (h # hs) = run_elems h @ stored hs" "stored (hs @ gs) = stored hs @ stored gs"
  by (simp_all add: stored_def)

lemma run_ok_shape:
  assumes "run_ok idx h f l"
  shows "idx (h_elem h) = f" and "f + length (h_list h) = l" and "idx ` set (run_elems h) = {f..l}"
proof -
  have m: "map idx (run_elems h) = [f..<Suc l]" "f \<le> l" using assms by (auto simp: run_ok_def)
  from m(1) have "length (run_elems h) = Suc l - f" by (metis length_map length_upt)
  then show "f + length (h_list h) = l" using m(2) by (simp add: run_elems_def)
  have "idx (h_elem h) = hd [f..<Suc l]" using m(1) by (metis hd_map list.discI list.sel(1) run_elems_def)
  then show "idx (h_elem h) = f" using m(2) by (simp del: upt_Suc)
  have "idx ` set (run_elems h) = set [f..<Suc l]" using m(1) by (metis list.set_map)
  then show "idx ` set (run_elems h) = {f..l}" by auto
qed

lemma runs_ok_Cons:
  "runs_ok idx lo hi (h # hs) \<longleftrightarrow>
     (\<exists>f l. lo < f \<and> l \<le> hi \<and> run_ok idx h f l \<and>
            (Suc l \<in> idx ` set (stored hs) \<longrightarrow> 2 ^ 16 dvd Suc l) \<and> runs_ok idx l hi hs)"
proof (intro iffI)
  assume "\<exists>f l. lo < f \<and> l \<le> hi \<and> run_ok idx h f l \<and>
            (Suc l \<in> idx ` set (stored hs) \<longrightarrow> 2 ^ 16 dvd Suc l) \<and> runs_ok idx l hi hs"
  then obtain f l where o: "lo < f" "l \<le> hi" "run_ok idx h f l"
    "Suc l \<in> idx ` set (stored hs) \<longrightarrow> 2 ^ 16 dvd Suc l" "runs_ok idx l hi hs" by blast
  from o show "runs_ok idx lo hi (h # hs)"
    unfolding runs_ok.simps run_ok_shape(1) [OF o(3)] run_ok_shape(2) [OF o(3)] by blast
qed (unfold runs_ok.simps, blast)

lemma runs_ok_ConsE:
  assumes "runs_ok idx lo hi (h # hs)"
  obtains f l where "lo < f" "f \<le> l" "l \<le> hi" "run_ok idx h f l" "runs_ok idx l hi hs"
    "Suc l \<in> idx ` set (stored hs) \<longrightarrow> 2 ^ 16 dvd Suc l"
  using assms unfolding runs_ok_Cons run_ok_def by blast

lemma runs_ok_ConsI:
  "lo < f \<Longrightarrow> l \<le> hi \<Longrightarrow> run_ok idx h f l \<Longrightarrow> (Suc l \<in> idx ` set (stored hs) \<Longrightarrow> 2 ^ 16 dvd Suc l) \<Longrightarrow>
     runs_ok idx l hi hs \<Longrightarrow> runs_ok idx lo hi (h # hs)"
  unfolding runs_ok_Cons by blast

lemma runs_ok_mono:
  "runs_ok idx lo hi hs \<Longrightarrow> hi \<le> hi' \<Longrightarrow> runs_ok idx lo hi' hs"
  by (induction hs arbitrary: lo) auto

lemma runs_ok_weaken_lo: "runs_ok idx lo hi hs \<Longrightarrow> lo' \<le> lo \<Longrightarrow> runs_ok idx lo' hi hs"
  by (cases hs) auto

lemma stored_bounds: "runs_ok idx lo hi hs \<Longrightarrow> idx ` set (stored hs) \<subseteq> {lo<..hi}"
proof (induction hs arbitrary: lo)
  case (Cons h hs)
  then obtain f l where o: "lo < f" "l \<le> hi" "run_ok idx h f l" "runs_ok idx l hi hs"
    by (auto elim: runs_ok_ConsE simp del: runs_ok.simps)
  have "f \<le> l" using o(3) by (simp add: run_ok_def)
  then have "{f..l} \<subseteq> {lo<..hi}" "{l<..hi} \<subseteq> {lo<..hi}" using o(1,2) by auto
  then show ?case using Cons.IH [OF o(4)] run_ok_shape(3) [OF o(3)] by (simp add: image_Un)
qed simp

lemma runs_ok_raise_lo:
  "runs_ok idx lo hi hs \<Longrightarrow> (\<And>j. j \<in> idx ` set (stored hs) \<Longrightarrow> lo' < j) \<Longrightarrow> runs_ok idx lo' hi hs"
  by (cases hs) (auto simp: run_elems_def)

lemma stored_length: "runs_ok idx lo hi hs \<Longrightarrow> lo \<le> hi \<Longrightarrow> length (stored hs) \<le> hi - lo"
proof (induction hs arbitrary: lo)
  case (Cons h hs)
  then obtain f l where o: "lo < f" "l \<le> hi" "run_ok idx h f l" "runs_ok idx l hi hs"
    unfolding runs_ok_Cons by blast
  have "length (run_elems h) = Suc l - f" using run_ok_shape(2) [OF o(3)] by (simp add: run_elems_def)
  then show ?case using Cons.IH [OF o(4) o(2)] o by (simp add: run_ok_def)
qed simp

subsection \<open>The helpers keep runs complete\<close>

lemma run_ok_new: "idx e = i \<Longrightarrow> run_ok idx (new_run e (of_nat i)) i i"
  by (simp add: run_ok_def new_run_def run_elems_def)

lemma run_ok_replace_head:
  assumes "run_ok idx h f l" and "idx e = i" and "Suc i = f"
  shows "run_ok idx \<lparr>h_elem = e, first_sn = first_sn h - 1, last_sn = last_sn h, h_list = h_elem h # h_list h\<rparr> i l"
proof -
  have "[i..<Suc l] = i # [f..<Suc l]" using assms(3) assms(1) by (simp add: run_ok_def upt_conv_Cons)
  then show ?thesis using assms by (auto simp: run_ok_def run_elems_def)
qed

lemma run_ok_add_tail:
  assumes "run_ok idx h f l" and "idx e = Suc l"
  shows "run_ok idx (frag_list_add_tail h e) f (Suc l)"
  using assms by (auto simp: run_ok_def run_elems_def frag_list_add_tail_def)

lemma run_ok_merge_heads:
  assumes "run_ok idx h1 f l" and "run_ok idx h2 (Suc l) k"
  shows "run_ok idx (frag_list_merge_heads h1 h2) f k"
proof -
  have "[f..<Suc k] = [f..<Suc l] @ [Suc l..<Suc k]"
    using assms upt_add_eq_append [of f "Suc l" "k - l"] by (simp add: run_ok_def)
  then show ?thesis
    using assms by (auto simp: run_ok_def run_elems_def frag_list_merge_heads_def simp del: upt_Suc)
qed

lemma merge_test:
  assumes "uint (of_nat g :: sn) = uint (of_nat i :: sn) + 1" and "i < g" and "g < i + 2 ^ 15"
  shows "g = Suc i"
proof -
  have "(of_nat g :: sn) = of_nat i + 1"
    by (rule word_uint_eqI) (use assms(1) uint_add_lem [of "of_nat i :: sn" 1] uint_lt2p [of "of_nat g :: sn"] in simp)
  then have "sn_cmp (of_nat g) (of_nat (Suc i)) = 0" by (simp add: sn_cmp_def)
  then show ?thesis using sn_cmp_of_nat [of g "Suc i"] assms(2,3) by simp
qed

lemma merge_test_wrap:
  assumes "uint (of_nat (Suc i) :: sn) \<noteq> uint (of_nat i :: sn) + 1"
  shows "2 ^ 16 dvd Suc i"
proof -
  have "int (Suc i mod 2 ^ 16) \<noteq> int (i mod 2 ^ 16) + 1"
    using assms by (simp only: uint_nat unat_of_nat) simp
  then show ?thesis by (simp add: mod_Suc dvd_eq_mod_eq_0 split: if_splits)
qed

subsection \<open>Insertion out of order\<close>

text \<open>What the search does to the runs \<open>hs\<close> that are left, with the runs \<open>prev\<close> before them untouched.\<close>

definition loop_post ::
  "('e \<Rightarrow> nat) \<Rightarrow> 'e \<Rightarrow> nat \<Rightarrow> nat \<Rightarrow> 'e frag_list \<Rightarrow> 'e frag_run list \<Rightarrow> 'e frag_run list \<Rightarrow>
     (ooo_type \<times> 'e frag_list) option \<Rightarrow> bool" where
  "loop_post idx e lo hi fl prev hs r \<longleftrightarrow>
     (if idx e \<in> idx ` set (stored hs) then r = Some (UCS_FRAG_LIST_INSERT_DUP, fl)
      else \<exists>hs'. r = Some (UCS_FRAG_LIST_INSERT_SLOW,
                         fl\<lparr>fl_list := prev @ hs', elem_count := elem_count fl + 1,
                            list_count := list_count fl + of_nat (length hs') - of_nat (length hs)\<rparr>) \<and>
                  runs_ok idx lo hi hs' \<and> set (stored hs') = insert e (set (stored hs)) \<and>
                  length (stored hs') = Suc (length (stored hs)))"

lemma loop_postI:
  assumes "idx e \<notin> idx ` set (stored hs)"
    and "r = Some (UCS_FRAG_LIST_INSERT_SLOW,
           fl\<lparr>fl_list := prev @ hs', elem_count := elem_count fl + 1,
              list_count := list_count fl + of_nat (length hs') - of_nat (length hs)\<rparr>)"
    and "runs_ok idx lo hi hs'" and "set (stored hs') = insert e (set (stored hs))"
    and "length (stored hs') = Suc (length (stored hs))"
  shows "loop_post idx e lo hi fl prev hs r"
  using assms by (auto simp: loop_post_def)

lemma loop_post_Cons:
  assumes "loop_post idx e l hi fl (prev @ [h]) hs r" and "run_ok idx h f l" and "lo < f" and "l \<le> hi"
    and "Suc l < idx e" and gap: "Suc l \<in> idx ` set (stored hs) \<longrightarrow> 2 ^ 16 dvd Suc l"
  shows "loop_post idx e lo hi fl prev (h # hs) r"
proof -
  have out: "idx e \<notin> idx ` set (run_elems h)" using run_ok_shape(3) [OF assms(2)] assms(5) by auto
  show ?thesis
  proof (cases "idx e \<in> idx ` set (stored hs)")
    case True
    then show ?thesis using assms(1) by (simp add: loop_post_def image_Un)
  next
    case False
    then obtain hs' where hs': "r = Some (UCS_FRAG_LIST_INSERT_SLOW,
        fl\<lparr>fl_list := (prev @ [h]) @ hs', elem_count := elem_count fl + 1,
           list_count := list_count fl + of_nat (length hs') - of_nat (length hs)\<rparr>)"
      "runs_ok idx l hi hs'" "set (stored hs') = insert e (set (stored hs))"
      "length (stored hs') = Suc (length (stored hs))"
      using assms(1) by (auto simp: loop_post_def)
    show ?thesis
    proof (rule loop_postI [where hs' = "h # hs'"])
      have "Suc l \<in> idx ` set (stored hs') \<longrightarrow> 2 ^ 16 dvd Suc l" using hs'(3) gap assms(5) by auto
      then show "runs_ok idx lo hi (h # hs')" unfolding runs_ok_Cons using hs'(2) assms by blast
    qed (use hs' out False in \<open>auto simp: image_Un\<close>)
  qed
qed

lemma insert_loop_tail:
  assumes h: "run_ok idx h f l" "lo < f" and hs: "runs_ok idx l hi hs" and i: "idx e = Suc l"
    and b: "idx e \<le> hi" "hi < lo + 2 ^ 15" and new: "idx e \<notin> idx ` set (stored hs)"
  shows "loop_post idx e lo hi fl prev (h # hs) (insert_loop fl e (of_nat (idx e)) prev (h # hs))"
proof -
  let ?sn = "of_nat (idx e) :: sn"
  let ?h = "frag_list_add_tail h e"
  have fl: "f \<le> l" and sn: "first_sn h = of_nat f" "last_sn h = of_nat l"
    using h(1) by (auto simp: run_ok_def)
  have cmp: "sn_cmp ?sn (of_nat f) = int (Suc l) - int f" "sn_cmp ?sn (of_nat l) = 1"
    "sn_cmp (?sn + 1) (of_nat f) = int (Suc (Suc l)) - int f" "sn_cmp (of_nat l + 1) ?sn = 0"
    "sn_cmp (of_nat f) (of_nat l) = int f - int l"
    unfolding sn_Suc i using h(2) b i fl by (simp_all add: sn_cmp_of_nat del: of_nat_Suc)
  have run: "idx ` set (run_elems h) = {f..l}" by (rule run_ok_shape(3) [OF h(1)])
  have t: "run_ok idx ?h f (Suc l)" by (rule run_ok_add_tail [OF h(1) i])
  have ni: "idx e \<notin> idx ` set (stored (h # hs))" using new run i by (simp add: image_Un)
  show ?thesis
  proof (cases "\<exists>n ns. hs = n # ns \<and> uint (first_sn n) = uint ?sn + 1")
    case True
    then obtain n ns where n: "hs = n # ns" "uint (first_sn n) = uint ?sn + 1" by blast
    obtain g k where g: "l < g" "k \<le> hi" "run_ok idx n g k" "runs_ok idx k hi ns"
      "Suc k \<in> idx ` set (stored ns) \<longrightarrow> 2 ^ 16 dvd Suc k"
      using hs n(1) by (auto elim: runs_ok_ConsE simp del: runs_ok.simps)
    have gk: "g \<le> k" "first_sn n = of_nat g" using g(3) by (auto simp: run_ok_def)
    have "g \<noteq> Suc l" using new i n(1) run_ok_shape(3) [OF g(3)] gk by (auto simp: image_Un)
    then have "g = Suc (Suc l)"
      using merge_test [of g "idx e"] n(2) gk g(1,2) i b h(2) fl by simp
    then have m: "run_ok idx (frag_list_merge_heads ?h n) f k"
      using run_ok_merge_heads [OF t, of n k] g(3) by simp
    show ?thesis
    proof (rule loop_postI [OF ni, where hs' = "frag_list_merge_heads ?h n # ns"])
      show "runs_ok idx lo hi (frag_list_merge_heads ?h n # ns)"
        by (rule runs_ok_ConsI [OF h(2) g(2) m]) (use g in blast)+
    qed (use n i fl sn cmp in \<open>auto simp: frag_list_merge_heads_def frag_list_add_tail_def
        count_elem_def run_elems_def Let_def\<close>)
  next
    case False
    have gap: "2 ^ 16 dvd Suc (Suc l)" if st: "Suc (Suc l) \<in> idx ` set (stored hs)"
    proof -
      obtain n ns where n: "hs = n # ns" using st by (cases hs) auto
      obtain g k where g: "l < g" "g \<le> k" "run_ok idx n g k" "runs_ok idx k hi ns"
        using hs n by (auto elim: runs_ok_ConsE simp del: runs_ok.simps)
      have "g \<noteq> Suc l" using new i n run_ok_shape(3) [OF g(3)] g(2) by (auto simp: image_Un)
      moreover have "g \<le> Suc (Suc l)"
        using st n run_ok_shape(3) [OF g(3)] stored_bounds [OF g(4)] g(2) by (auto simp: image_Un)
      ultimately have "g = Suc (Suc l)" using g(1) by simp
      then show ?thesis
        using False n g(3) i merge_test_wrap [of "Suc l"] by (auto simp: run_ok_def)
    qed
    have "Suc l < j" if "j \<in> idx ` set (stored hs)" for j
      using that stored_bounds [OF hs] new i by (metis Suc_lessI greaterThanAtMost_iff subsetD)
    then have hs2: "runs_ok idx (Suc l) hi hs" by (rule runs_ok_raise_lo [OF hs])
    show ?thesis
    proof (rule loop_postI [OF ni, where hs' = "?h # hs"])
      show "runs_ok idx lo hi (?h # hs)"
        by (rule runs_ok_ConsI [OF h(2) _ t gap hs2]) (use b i in auto)
    qed (use False i fl sn cmp in \<open>auto simp: frag_list_add_tail_def
        count_elem_def run_elems_def Let_def split: list.splits\<close>)
  qed
qed

lemma insert_loop_correct:
  assumes "runs_ok idx lo hi hs" and "Suc lo < idx e" and "idx e \<le> hi" and "hi < lo + 2 ^ 15"
    and "fl_list fl = prev @ hs" and "prev \<noteq> [] \<Longrightarrow> last_sn (last prev) = of_nat lo"
    and "idx e \<in> idx ` set (stored hs) \<Longrightarrow> \<not> 2 ^ 16 dvd idx e"
  shows "loop_post idx e lo hi fl prev hs (insert_loop fl e (of_nat (idx e)) prev hs)"
  using assms
proof (induction hs arbitrary: lo prev)
  case Nil
  then have "runs_ok idx lo hi [new_run e (of_nat (idx e))]"
    using run_ok_new [of idx e] by (intro runs_ok_ConsI [of _ "idx e" "idx e"]) auto
  then show ?case using Nil
    by (intro loop_postI [where hs' = "[new_run e (of_nat (idx e))]"])
      (auto simp: frag_list_insert_tail_def count_elem_def Let_def new_run_def run_elems_def)
next
  case (Cons h hs)
  let ?i = "idx e"
  let ?sn = "of_nat ?i :: sn"
  obtain f l where o: "lo < f" "l \<le> hi" "run_ok idx h f l" "runs_ok idx l hi hs"
    and fl: "f \<le> l" and gap: "Suc l \<in> idx ` set (stored hs) \<longrightarrow> 2 ^ 16 dvd Suc l"
    using Cons.prems(1) by (auto elim: runs_ok_ConsE simp del: runs_ok.simps)
  have sn: "first_sn h = of_nat f" "last_sn h = of_nat l"
    using o(3) by (auto simp: run_ok_def)
  have cmp: "sn_cmp ?sn (of_nat f) = int ?i - int f" "sn_cmp ?sn (of_nat l) = int ?i - int l"
    "sn_cmp (?sn + 1) (of_nat f) = int (Suc ?i) - int f" "sn_cmp (of_nat l + 1) ?sn = int (Suc l) - int ?i"
    "sn_cmp (of_nat f) (of_nat l) = int f - int l"
    unfolding sn_Suc using o(1,2) fl Cons.prems(2-4) by (simp_all add: sn_cmp_of_nat del: of_nat_Suc)
  have after: "idx ` set (stored hs) \<subseteq> {l<..hi}" by (rule stored_bounds [OF o(4)])
  have run: "idx ` set (run_elems h) = {f..l}" by (rule run_ok_shape(3) [OF o(3)])
  have ni: "?i \<notin> idx ` set (stored (h # hs))" if "?i < f"
    using that run after fl by (auto simp: image_Un)
  consider (dup) "f \<le> ?i" "?i \<le> l" | (front) "Suc ?i = f" | (tail) "?i = Suc l" | (hole) "Suc ?i < f"
    | (later) "Suc l < ?i" by linarith
  then show ?case
  proof cases
    case dup
    then show ?thesis using run sn cmp by (auto simp: loop_post_def image_Un)
  next
    case front
    let ?h = "\<lparr>h_elem = e, first_sn = first_sn h - 1, last_sn = last_sn h, h_list = h_elem h # h_list h\<rparr>"
    show ?thesis
    proof (rule loop_postI [OF ni, where hs' = "?h # hs"])
      show "runs_ok idx lo hi (?h # hs)"
        by (rule runs_ok_ConsI [OF _ o(2) run_ok_replace_head [OF o(3) refl front] _ o(4)])
          (use gap Cons.prems(2) in auto)
    qed (use front fl sn cmp in \<open>auto simp: frag_list_replace_head_def count_elem_def run_elems_def\<close>)
  next
    case tail
    have "?i \<notin> idx ` set (stored hs)"
      using gap Cons.prems(7) tail by (auto simp: image_Un)
    then show ?thesis using o tail Cons.prems(3,4) by (intro insert_loop_tail) auto
  next
    case hole
    show ?thesis
    proof (rule loop_postI [OF ni, where hs' = "new_run e ?sn # h # hs"])
      have "runs_ok idx ?i hi (h # hs)"
        by (rule runs_ok_ConsI [OF _ o(2,3) _ o(4)]) (use hole gap in auto)
      then show "runs_ok idx lo hi (new_run e ?sn # h # hs)"
        by (intro runs_ok_ConsI [OF _ Cons.prems(3) run_ok_new [of idx e, OF refl]])
          (use Cons.prems(2) hole run after fl in \<open>auto simp: image_Un\<close>)
      have "sn_cmp (of_nat lo + 1) ?sn < 0"
        using Cons.prems(2-4) unfolding sn_Suc by (simp add: sn_cmp_of_nat del: of_nat_Suc)
      then have "prev = [] \<or> sn_cmp (last_sn (last prev) + 1) ?sn < 0" using Cons.prems(6) by fastforce
      then show "insert_loop fl e ?sn prev (h # hs) = Some (UCS_FRAG_LIST_INSERT_SLOW,
          fl\<lparr>fl_list := prev @ new_run e ?sn # h # hs, elem_count := elem_count fl + 1,
             list_count := list_count fl + of_nat (length (new_run e ?sn # h # hs)) - of_nat (length (h # hs))\<rparr>)"
        using hole fl sn cmp by (auto simp: frag_list_insert_head_def count_elem_def Let_def)
    qed (use hole fl in \<open>auto simp: new_run_def run_elems_def\<close>)
  next
    case later
    have "loop_post idx e l hi fl (prev @ [h]) hs (insert_loop fl e ?sn (prev @ [h]) hs)"
      using Cons.prems later o fl sn by (intro Cons.IH) (auto simp: image_Un)
    moreover have "insert_loop fl e ?sn prev (h # hs) = insert_loop fl e ?sn (prev @ [h]) hs"
      using later fl sn cmp by auto
    ultimately show ?thesis using loop_post_Cons [OF _ o(3,1,2) later gap] by simp
  qed
qed

section \<open>The invariant of the reorder buffer\<close>

text \<open>
  \<open>M\<close> packets were taken out, \<open>N\<close> is the position of \<open>head_sn\<close>. The packets on the ready list are those
  from \<open>M + 1\<close> to \<open>N\<close>; the runs hold later ones, at most \<open>2 ^ 15 - 1\<close> ahead; the two counters are exact.
\<close>

definition frag_inv :: "('e \<Rightarrow> nat) \<Rightarrow> nat \<Rightarrow> nat \<Rightarrow> 'e frag_list \<Rightarrow> bool" where
  "frag_inv idx M N fl \<longleftrightarrow>
     head_sn fl = of_nat N \<and> M \<le> N \<and> map idx (ready_list fl) = [Suc M..<Suc N] \<and>
     runs_ok idx N (N + (2 ^ 15 - 1)) (fl_list fl) \<and>
     elem_count fl = of_nat (length (ready_list fl) + length (stored (fl_list fl))) \<and>
     list_count fl = of_nat (length (fl_list fl))"

text \<open>The packets in the buffer.\<close>

definition held :: "'e frag_list \<Rightarrow> 'e list" where
  "held fl = ready_list fl @ stored (fl_list fl)"

lemma held_after: "frag_inv idx M N fl \<Longrightarrow> idx ` set (held fl) \<subseteq> {M<..}"
proof -
  assume inv: "frag_inv idx M N fl"
  then have "idx ` set (ready_list fl) = set [Suc M..<Suc N]"
    by (metis frag_inv_def list.set_map)
  moreover have "idx ` set (stored (fl_list fl)) \<subseteq> {N<..N + (2 ^ 15 - 1)}"
    using inv by (intro stored_bounds) (simp add: frag_inv_def)
  moreover have "set [Suc M..<Suc N] \<subseteq> {M<..}" "{N<..N + (2 ^ 15 - 1)} \<subseteq> {M<..}"
    using inv unfolding frag_inv_def by auto
  ultimately show ?thesis unfolding held_def set_append image_Un by blast
qed

lemma first_run:
  assumes "runs_ok idx lo hi (h # hs)"
  shows "first_sn h = of_nat (idx (h_elem h))" and "lo < idx (h_elem h)" and "idx (h_elem h) \<le> hi"
    and "j \<in> idx ` set (stored (h # hs)) \<Longrightarrow> idx (h_elem h) \<le> j"
    and "idx (h_elem h) \<in> idx ` set (stored (h # hs))"
proof -
  obtain f l where o: "lo < f" "f \<le> l" "l \<le> hi" "run_ok idx h f l" "runs_ok idx l hi hs"
    by (rule runs_ok_ConsE [OF assms])
  have f: "idx (h_elem h) = f" "idx ` set (run_elems h) = {f..l}" using run_ok_shape [OF o(4)] by auto
  show "first_sn h = of_nat (idx (h_elem h))" using f o(4) by (simp add: run_ok_def)
  show "lo < idx (h_elem h)" "idx (h_elem h) \<le> hi" using f o by auto
  show "idx (h_elem h) \<in> idx ` set (stored (h # hs))" by (simp add: run_elems_def)
  show "j \<in> idx ` set (stored (h # hs)) \<Longrightarrow> idx (h_elem h) \<le> j"
    using f o(2) stored_bounds [OF o(5)] by (auto simp: image_Un)
qed

lemma next_run_test:
  assumes "runs_ok idx lo (lo + (2 ^ 15 - 1)) hs"
  shows "(hs \<noteq> [] \<and> sn_cmp (first_sn (hd hs)) (of_nat (Suc lo)) = 0) \<longleftrightarrow> Suc lo \<in> idx ` set (stored hs)"
proof (cases hs)
  case (Cons h hs')
  note r = first_run [OF assms [unfolded Cons]]
  have "sn_cmp (first_sn h) (of_nat (Suc lo)) = int (idx (h_elem h)) - int (Suc lo)"
    unfolding r(1) using r(2,3) by (intro sn_cmp_of_nat) auto
  then have "sn_cmp (first_sn h) (of_nat (Suc lo)) = 0 \<longleftrightarrow> idx (h_elem h) = Suc lo" by linarith
  also have "\<dots> \<longleftrightarrow> Suc lo \<in> idx ` set (stored (h # hs'))" using r(2,4,5) by (metis Suc_leI order.antisym)
  finally show ?thesis using Cons by (simp del: of_nat_Suc)
qed simp

subsection \<open>Taking packets out\<close>

lemma frag_pull_correct:
  assumes inv: "frag_inv idx M N fl" and "Suc M \<in> idx ` set (held fl)"
  shows "\<exists>e fl' N'. ucs_frag_list_pull fl = Some (Some e, fl') \<and> idx e = Suc M \<and> frag_inv idx (Suc M) N' fl' \<and>
           set (held fl) = insert e (set (held fl')) \<and> length (held fl) = Suc (length (held fl')) \<and>
           max_holes fl' = max_holes fl"
proof (cases "ready_list fl")
  case (Cons e es)
  have M: "M < N" and e: "idx e = Suc M" and es: "map idx es = [Suc (Suc M)..<Suc N]"
  proof -
    have m: "idx e # map idx es = [Suc M..<Suc N]" using inv Cons by (simp add: frag_inv_def)
    then show "M < N" by (cases "M < N") auto
    then have "[Suc M..<Suc N] = Suc M # [Suc (Suc M)..<Suc N]" by (simp add: upt_conv_Cons)
    with m show "idx e = Suc M" "map idx es = [Suc (Suc M)..<Suc N]" by auto
  qed
  let ?fl = "fl\<lparr>elem_count := elem_count fl - 1, ready_list := es\<rparr>"
  have "frag_inv idx (Suc M) N ?fl" using inv Cons M es by (simp add: frag_inv_def)
  then show ?thesis
    using Cons e by (intro exI [of _ e] exI [of _ ?fl] exI [of _ N])
      (simp add: ucs_frag_list_pull_def ucs_frag_list_remove_def held_def)
next
  case Nil
  have MN: "M = N" using inv Nil by (auto simp: frag_inv_def split: if_splits)
  have hd_sn: "head_sn fl = of_nat N" using inv by (simp add: frag_inv_def)
  have ro: "runs_ok idx N (N + (2 ^ 15 - 1)) (fl_list fl)" using inv by (simp add: frag_inv_def)
  have st: "Suc N \<in> idx ` set (stored (fl_list fl))" using assms(2) Nil MN by (simp add: held_def)
  then obtain h hs where h: "fl_list fl = h # hs" by (cases "fl_list fl") auto
  obtain f l where o: "N < f" "f \<le> l" "l \<le> N + (2 ^ 15 - 1)" "run_ok idx h f l" "runs_ok idx l (N + (2 ^ 15 - 1)) hs"
    by (rule runs_ok_ConsE [OF ro [unfolded h]])
  have f: "f = Suc N"
    using first_run(4) [OF ro [unfolded h], of "Suc N"] st h run_ok_shape(1) [OF o(4)] o(1) by simp
  let ?fl = "fl\<lparr>head_sn := last_sn h, elem_count := elem_count fl - 1, list_count := list_count fl - 1,
                 fl_list := hs, ready_list := h_list h\<rparr>"
  have "[Suc N..<Suc l] = Suc N # [Suc (Suc N)..<Suc l]" using o(2) f by (simp add: upt_conv_Cons)
  then have e: "idx (h_elem h) = Suc N" "map idx (h_list h) = [Suc (Suc N)..<Suc l]"
    using o(4) f by (auto simp: run_ok_def run_elems_def simp del: upt_Suc)
  have "frag_inv idx (Suc M) l ?fl"
    using inv h o f e MN Nil runs_ok_mono [OF o(5), of "l + (2 ^ 15 - 1)"]
    by (simp add: frag_inv_def run_ok_def run_elems_def)
  moreover have "ucs_frag_list_pull fl = Some (Some (h_elem h), ?fl)"
    using next_run_test [OF ro] st h Nil hd_sn
    by (simp add: ucs_frag_list_pull_def ucs_frag_list_remove_def ucs_frag_list_pull_slow_def sn_Suc
        del: of_nat_Suc)
  ultimately show ?thesis
    using e MN Nil h by (intro exI [of _ "h_elem h"] exI [of _ ?fl] exI [of _ l]) (auto simp: held_def run_elems_def)
qed

lemma pull_none:
  assumes inv: "frag_inv idx M N fl" and "Suc M \<notin> idx ` set (held fl)"
  shows "ucs_frag_list_pull fl = Some (None, fl)" and "M = N" and "ready_list fl = []"
proof -
  have m: "map idx (ready_list fl) = [Suc M..<Suc N]" "M \<le> N" using inv by (auto simp: frag_inv_def)
  have "Suc M \<notin> set (map idx (ready_list fl))" using assms(2) by (auto simp: held_def)
  then show MN: "M = N" using m by auto
  then show Nil: "ready_list fl = []" using m(1) by simp
  have "\<not> (fl_list fl \<noteq> [] \<and> sn_cmp (first_sn (hd (fl_list fl))) (of_nat (Suc N)) = 0)"
    using next_run_test [of idx N "fl_list fl"] assms(2) inv MN by (auto simp: frag_inv_def held_def)
  then show "ucs_frag_list_pull fl = Some (None, fl)"
    using Nil inv by (auto simp: ucs_frag_list_pull_def ucs_frag_list_remove_def ucs_frag_list_pull_slow_def
        frag_inv_def sn_Suc simp del: of_nat_Suc split: list.splits)
qed

text \<open>The loop of the receiver ends, and takes out the packets up to the first one that is missing.\<close>

lemma pull_loop_correct:
  "frag_inv idx M N fl \<Longrightarrow>
     \<exists>es fl' K. pull_loop fl acc = Some (rev acc @ es, fl') \<and> map idx es = [Suc M..<Suc K] \<and> M \<le> K \<and>
       frag_inv idx K K fl' \<and> Suc K \<notin> idx ` set (held fl') \<and> ready_list fl' = [] \<and>
       set (held fl) = set es \<union> set (held fl') \<and> max_holes fl' = max_holes fl"
proof (induction "length (held fl)" arbitrary: fl M N acc rule: less_induct)
  case less
  show ?case
  proof (cases "Suc M \<in> idx ` set (held fl)")
    case False
    then show ?thesis
      using pull_none [OF less.prems False] less.prems
      by (intro exI [of _ "[]"] exI [of _ fl] exI [of _ M]) (subst pull_loop.simps, simp)
  next
    case True
    obtain e fl1 N1 where e: "ucs_frag_list_pull fl = Some (Some e, fl1)" "idx e = Suc M"
      "frag_inv idx (Suc M) N1 fl1" "set (held fl) = insert e (set (held fl1))"
      "length (held fl) = Suc (length (held fl1))" "max_holes fl1 = max_holes fl"
      using frag_pull_correct [OF less.prems True] by blast
    obtain es fl' K where K: "pull_loop fl1 (e # acc) = Some (rev (e # acc) @ es, fl')"
      "map idx es = [Suc (Suc M)..<Suc K]" "Suc M \<le> K" "frag_inv idx K K fl'"
      "Suc K \<notin> idx ` set (held fl')" "ready_list fl' = []" "set (held fl1) = set es \<union> set (held fl')"
      "max_holes fl' = max_holes fl1"
      using less.hyps [OF _ e(3), of "e # acc"] e(5) by auto
    have "map idx (e # es) = [Suc M..<Suc K]" using K(2,3) e(2) by (simp add: upt_conv_Cons)
    moreover have "pull_loop fl acc = Some (rev acc @ e # es, fl')"
      using K(1) e(1) by (subst pull_loop.simps) simp
    ultimately show ?thesis
      using K e(4,6) by (intro exI [of _ "e # es"] exI [of _ fl'] exI [of _ K]) auto
  qed
qed

subsection \<open>Insertion\<close>

lemma elem_count_zero:
  assumes "frag_inv idx N N fl"
  shows "elem_count fl = 0 \<longleftrightarrow> held fl = []"
proof -
  have r: "ready_list fl = []" using assms by (simp add: frag_inv_def)
  have "length (stored (fl_list fl)) \<le> N + (2 ^ 15 - 1) - N"
    using assms by (intro stored_length) (auto simp: frag_inv_def)
  then have "length (held fl) < 2 ^ 32" using r by (simp add: held_def)
  moreover have "elem_count fl = of_nat (length (held fl))" using assms by (simp add: frag_inv_def held_def)
  ultimately show ?thesis by (auto simp: word_of_nat_eq_0_iff dest: nat_dvd_not_less [rotated])
qed

lemma frag_inv_advance:
  assumes "frag_inv idx N N fl" and "Suc N \<notin> idx ` set (held fl)"
  shows "frag_inv idx (Suc N) (Suc N) (fl\<lparr>head_sn := of_nat (Suc N)\<rparr>)"
proof -
  have r: "ready_list fl = []" "runs_ok idx N (N + (2 ^ 15 - 1)) (fl_list fl)"
    using assms(1) by (auto simp: frag_inv_def)
  have "Suc N < j" if "j \<in> idx ` set (stored (fl_list fl))" for j
    using that assms(2) r(1) stored_bounds [OF r(2)] by (metis Suc_lessI append_Nil greaterThanAtMost_iff held_def subsetD)
  then have "runs_ok idx (Suc N) (N + (2 ^ 15 - 1)) (fl_list fl)" by (rule runs_ok_raise_lo [OF r(2)])
  then have "runs_ok idx (Suc N) (Suc N + (2 ^ 15 - 1)) (fl_list fl)"
    by (rule runs_ok_mono) (simp only: add_Suc le_SucI order_refl)
  then show ?thesis using assms(1) by (simp add: frag_inv_def)
qed

lemma insert_old:
  assumes "frag_inv idx N N fl" and "idx e \<le> N" and "N \<le> idx e + 2 ^ 15"
  shows "ucs_frag_list_insert fl e (of_nat (idx e)) = Some (UCS_FRAG_LIST_INSERT_DUP, fl)"
proof -
  have h: "head_sn fl = of_nat N" using assms(1) by (simp add: frag_inv_def)
  have c: "sn_cmp (of_nat (idx e)) (of_nat N) = int (idx e) - int N"
    using assms by (intro sn_cmp_of_nat) auto
  have "(of_nat (idx e) :: sn) \<noteq> of_nat (Suc N)"
  proof
    assume eq: "(of_nat (idx e) :: sn) = of_nat (Suc N)"
    have "sn_cmp (of_nat (Suc N)) (of_nat N) = 1" by (subst sn_cmp_of_nat) auto
    then show False using c assms(2) eq by simp
  qed
  then have "sn_cmp (of_nat (idx e)) (of_nat (Suc N)) \<noteq> 0" by (simp add: sn_cmp_eq_0)
  then show ?thesis using h c assms(2)
    by (simp add: ucs_frag_list_insert_def ucs_frag_list_insert_slow_def sn_Suc del: of_nat_Suc)
qed

lemma insert_next:
  assumes inv: "frag_inv idx N N fl" and new: "Suc N \<notin> idx ` set (held fl)" and i: "idx e = Suc N"
  shows "ucs_frag_list_insert fl e (of_nat (idx e)) =
     Some (if Suc (Suc N) \<in> idx ` set (held fl) then UCS_FRAG_LIST_INSERT_FIRST else UCS_FRAG_LIST_INSERT_FAST,
           fl\<lparr>head_sn := of_nat (Suc N)\<rparr>)"
proof -
  let ?fl = "fl\<lparr>head_sn := of_nat (Suc N)\<rparr>"
  have h: "head_sn fl = of_nat N" and r: "ready_list fl = []" using inv by (auto simp: frag_inv_def)
  have c: "sn_cmp (of_nat (Suc N)) (of_nat (Suc N)) = 0" by (simp add: sn_cmp_def)
  have ro: "runs_ok idx (Suc N) (Suc N + (2 ^ 15 - 1)) (fl_list fl)"
    using frag_inv_advance [OF inv new] by (simp add: frag_inv_def)
  have t: "(fl_list fl \<noteq> [] \<and> sn_cmp (first_sn (hd (fl_list fl))) (of_nat (Suc (Suc N))) = 0) \<longleftrightarrow>
      Suc (Suc N) \<in> idx ` set (held fl)"
    using next_run_test [OF ro] r by (simp add: held_def del: of_nat_Suc)
  have d: "\<not> (fl_list fl \<noteq> [] \<and> 0 \<le> sn_cmp (of_nat (Suc N)) (first_sn (hd (fl_list fl))))"
  proof (cases "fl_list fl")
    case (Cons x xs)
    note f = first_run [OF ro [unfolded Cons]]
    have "sn_cmp (of_nat (Suc N)) (first_sn x) = int (Suc N) - int (idx (h_elem x))"
      unfolding f(1) using f(2,3) by (intro sn_cmp_of_nat) auto
    then show ?thesis using Cons f(2) by simp
  qed simp
  show ?thesis
  proof (cases "elem_count fl = 0")
    case True
    then have "held fl = []" using elem_count_zero [OF inv] by simp
    then show ?thesis using True c h i
      by (simp add: ucs_frag_list_insert_def sn_Suc del: of_nat_Suc)
  next
    case False
    then show ?thesis using c h i t d r
      by (simp add: ucs_frag_list_insert_def ucs_frag_list_insert_slow_def ucs_frag_list_insert_head_def sn_Suc
          Let_def del: of_nat_Suc)
  qed
qed

lemma insert_ahead:
  assumes inv: "frag_inv idx N N fl" and i: "Suc N < idx e" "idx e < N + 2 ^ 15" and m: "max_holes fl = -1"
    and dup: "idx e \<in> idx ` set (held fl) \<Longrightarrow> \<not> 2 ^ 16 dvd idx e"
  shows "if idx e \<in> idx ` set (held fl)
         then ucs_frag_list_insert fl e (of_nat (idx e)) = Some (UCS_FRAG_LIST_INSERT_DUP, fl)
         else \<exists>fl'. ucs_frag_list_insert fl e (of_nat (idx e)) = Some (UCS_FRAG_LIST_INSERT_SLOW, fl') \<and>
                    frag_inv idx N N fl' \<and> set (held fl') = insert e (set (held fl)) \<and> max_holes fl' = -1"
proof -
  let ?sn = "of_nat (idx e) :: sn"
  have h: "head_sn fl = of_nat N" and r: "ready_list fl = []" and ro: "runs_ok idx N (N + (2 ^ 15 - 1)) (fl_list fl)"
    using inv by (auto simp: frag_inv_def)
  have "sn_cmp ?sn (of_nat (Suc N)) = int (idx e) - int (Suc N)" "sn_cmp ?sn (of_nat N) = int (idx e) - int N"
    using i by (intro sn_cmp_of_nat; simp)+
  then have "ucs_frag_list_insert fl e ?sn = insert_loop fl e ?sn [] (fl_list fl)"
    using i m h by (simp add: ucs_frag_list_insert_def ucs_frag_list_insert_slow_def sn_Suc del: of_nat_Suc)
  moreover have "loop_post idx e N (N + (2 ^ 15 - 1)) fl [] (fl_list fl) (insert_loop fl e ?sn [] (fl_list fl))"
    using i dup r by (intro insert_loop_correct [OF ro]) (auto simp: held_def)
  ultimately show ?thesis
    using inv r m by (fastforce simp: loop_post_def held_def frag_inv_def)
qed

section \<open>The receiver\<close>

text \<open>The number of packets that can be delivered when the packets at the positions \<open>seen\<close> have arrived.\<close>

definition contig :: "nat list \<Rightarrow> nat" where
  "contig seen = length (takeWhile (\<lambda>k. k \<in> set seen) [1..<Suc (length seen)])"

lemma contig_eqI:
  assumes "{1..K} \<subseteq> set seen" and "Suc K \<notin> set seen"
  shows "contig seen = K"
proof -
  have "K \<le> length seen"
    using card_mono [OF _ assms(1)] card_length [of seen] by simp
  then have "[1..<Suc (length seen)] = [1..<Suc K] @ [Suc K..<Suc (length seen)]"
    using upt_add_eq_append [of 1 "Suc K" "length seen - K"] by simp
  moreover have "takeWhile (\<lambda>k. k \<in> set seen) [Suc K..<Suc (length seen)] = []"
    using assms(2) by (cases "K < length seen") (auto simp: upt_conv_Cons simp del: upt_Suc)
  moreover have "takeWhile (\<lambda>k. k \<in> set seen) ([1..<Suc K] @ ys) = [1..<Suc K] @ takeWhile (\<lambda>k. k \<in> set seen) ys"
    for ys by (rule takeWhile_append2) (use assms(1) in auto)
  ultimately show ?thesis by (simp add: contig_def del: upt_Suc)
qed

lemma contig_spec: "{1..contig seen} \<subseteq> set seen" "Suc (contig seen) \<notin> set seen"
proof -
  have "\<exists>k. Suc k \<notin> set seen"
    using ex_new_if_finite [of "insert 0 (set seen)"] by (metis finite_insert finite_set insert_iff infinite_UNIV_nat not0_implies_Suc)
  then have l: "Suc (LEAST k. Suc k \<notin> set seen) \<notin> set seen" by (rule LeastI_ex)
  moreover have "{1..LEAST k. Suc k \<notin> set seen} \<subseteq> set seen"
  proof
    fix k assume k: "k \<in> {1..LEAST k. Suc k \<notin> set seen}"
    then obtain j where "k = Suc j" "j < (LEAST k. Suc k \<notin> set seen)" by (cases k) auto
    then show "k \<in> set seen" using not_less_Least by blast
  qed
  ultimately show "{1..contig seen} \<subseteq> set seen" "Suc (contig seen) \<notin> set seen"
    using contig_eqI by auto
qed

text \<open>The state of a sender's context after the packets at the positions \<open>seen\<close>.\<close>

definition ctx_inv :: "('e \<Rightarrow> nat) \<Rightarrow> nat list \<Rightarrow> 'e frag_list \<Rightarrow> bool" where
  "ctx_inv idx seen fl \<longleftrightarrow>
     frag_inv idx (contig seen) (contig seen) fl \<and> max_holes fl = -1 \<and>
     idx ` set (held fl) = set seen \<inter> {contig seen<..}"

text \<open>
  What a packet must satisfy when it arrives: its position is within half the sequence space of the
  packets delivered, and a packet with sequence number 0 is not received twice while it is buffered.
\<close>

definition packet_ok :: "nat list \<Rightarrow> nat \<Rightarrow> bool" where
  "packet_ok seen i \<longleftrightarrow> contig seen \<le> i + 2 ^ 15 \<and> i < contig seen + 2 ^ 15 \<and>
     (2 ^ 16 dvd i \<and> contig seen < i \<longrightarrow> i \<notin> set seen)"

lemma ctx_inv_init:
  "\<exists>fl. ucs_frag_list_init (UCT_SRD_INITIAL_PSN - 1) (-1) = Some (UCS_OK, fl) \<and> ctx_inv idx [] fl"
  by (simp add: ucs_frag_list_init_def ctx_inv_def contig_def frag_inv_def held_def UCT_SRD_INITIAL_PSN_def)

lemma contig_dup:
  assumes "i \<le> contig seen \<or> i \<in> set seen"
  shows "contig (i # seen) = contig seen"
  using assms contig_spec [of seen] by (intro contig_eqI) auto

lemma contig_ahead:
  assumes "Suc (contig seen) < i"
  shows "contig (i # seen) = contig seen"
  using assms contig_spec [of seen] by (intro contig_eqI) auto

lemma contig_advance:
  assumes h: "idx ` set xs = set seen \<inter> {contig seen<..}" and es: "map idx es = [Suc (Suc (contig seen))..<Suc K]"
    and xs: "set xs = set es \<union> set ys" and nx: "Suc K \<notin> idx ` set ys" and ys: "idx ` set ys \<subseteq> {K<..}"
    and K: "Suc (contig seen) \<le> K"
  shows "idx ` set ys = set (Suc (contig seen) # seen) \<inter> {K<..}" and "contig (Suc (contig seen) # seen) = K"
proof -
  have "idx ` set es = set [Suc (Suc (contig seen))..<Suc K]" using es by (metis list.set_map)
  then have u: "set seen \<inter> {contig seen<..} = {Suc (Suc (contig seen))..K} \<union> idx ` set ys"
    using h xs by (auto simp: image_Un)
  have "idx ` set ys = (set seen \<inter> {contig seen<..}) \<inter> {K<..}" unfolding u using ys by auto
  also have "\<dots> = set (Suc (contig seen) # seen) \<inter> {K<..}" using K by auto
  finally show *: "idx ` set ys = set (Suc (contig seen) # seen) \<inter> {K<..}" .
  show "contig (Suc (contig seen) # seen) = K"
  proof (rule contig_eqI)
    show "Suc K \<notin> set (Suc (contig seen) # seen)" using * nx by auto
    show "{1..K} \<subseteq> set (Suc (contig seen) # seen)"
    proof
      fix k assume "k \<in> {1..K}"
      then consider "k \<in> {1..contig seen}" | "k = Suc (contig seen)" | "k \<in> {Suc (Suc (contig seen))..K}"
        by fastforce
      then show "k \<in> set (Suc (contig seen) # seen)" using contig_spec(1) [of seen] u by cases auto
    qed
  qed
qed

text \<open>The part of \<open>uct_srd_iface_process_rx\<close> after the context is found.\<close>

definition rx_ctx :: "'e frag_list \<Rightarrow> sn \<Rightarrow> 'e \<Rightarrow> ('e list \<times> 'e list \<times> 'e frag_list) option" where
  "rx_ctx ctx psn desc =
     (case ucs_frag_list_insert ctx desc psn of
        None \<Rightarrow> None
      | Some (ooo, ctx1) \<Rightarrow>
          (case ooo of
             UCS_FRAG_LIST_INSERT_FAST \<Rightarrow> Some ([desc], [], ctx1)
           | UCS_FRAG_LIST_INSERT_FIRST \<Rightarrow> map_option (\<lambda>(es, ctx2). (desc # es, [], ctx2)) (pull_loop ctx1 [])
           | UCS_FRAG_LIST_INSERT_SLOW \<Rightarrow> Some ([], [], ctx1)
           | UCS_FRAG_LIST_INSERT_READY \<Rightarrow> map_option (\<lambda>(es, ctx2). (es, [], ctx2)) (pull_loop ctx1 [])
           | _ \<Rightarrow> Some ([], [desc], ctx1)))"

lemma process_rx_ctx:
  assumes "case ifc u of None \<Rightarrow> ucs_frag_list_init (UCT_SRD_INITIAL_PSN - 1) (-1) = Some (UCS_OK, ctx)
                       | Some c \<Rightarrow> c = ctx"
    and "rx_ctx ctx psn e = Some (p, r, ctx')"
  shows "uct_srd_iface_process_rx True True ifc u psn e =
           Some \<lparr>processed = p, released = r, iface = ifc(u \<mapsto> ctx')\<rparr>"
  using assms
  by (auto simp: uct_srd_iface_process_rx_def uct_srd_rx_ctx_create_def rx_ctx_def
      split: option.splits prod.splits ooo_type.splits)

lemma rx_ctx_correct:
  assumes inv: "ctx_inv idx seen fl" and ok: "packet_ok seen (idx e)"
  shows "\<exists>p r fl'. rx_ctx fl (of_nat (idx e)) e = Some (p, r, fl') \<and> ctx_inv idx (idx e # seen) fl' \<and>
           contig seen \<le> contig (idx e # seen) \<and>
           map idx p = [Suc (contig seen)..<Suc (contig (idx e # seen))]"
proof -
  let ?i = "idx e" and ?K = "contig seen"
  have fi: "frag_inv idx ?K ?K fl" and m: "max_holes fl = -1" and h: "idx ` set (held fl) = set seen \<inter> {?K<..}"
    using inv by (auto simp: ctx_inv_def)
  have nx: "Suc ?K \<notin> idx ` set (held fl)" using h contig_spec(2) by auto
  consider (old) "?i \<le> ?K" | (nxt) "?i = Suc ?K" | (ahead) "Suc ?K < ?i" by linarith
  then show ?thesis
  proof cases
    case old
    then have "rx_ctx fl (of_nat ?i) e = Some ([], [e], fl)"
      using insert_old [OF fi old] ok by (simp add: rx_ctx_def packet_ok_def)
    then show ?thesis using inv old h contig_dup [of ?i seen] by (auto simp: ctx_inv_def)
  next
    case ahead
    note c = contig_ahead [OF ahead]
    have d: "?i \<in> idx ` set (held fl) \<longleftrightarrow> ?i \<in> set seen" using h ahead by auto
    have a: "if ?i \<in> idx ` set (held fl)
         then ucs_frag_list_insert fl e (of_nat ?i) = Some (UCS_FRAG_LIST_INSERT_DUP, fl)
         else \<exists>fl'. ucs_frag_list_insert fl e (of_nat ?i) = Some (UCS_FRAG_LIST_INSERT_SLOW, fl') \<and>
                    frag_inv idx ?K ?K fl' \<and> set (held fl') = insert e (set (held fl)) \<and> max_holes fl' = -1"
      by (rule insert_ahead [OF fi ahead _ m]) (use ok ahead d in \<open>auto simp: packet_ok_def\<close>)
    show ?thesis
    proof (cases "?i \<in> idx ` set (held fl)")
      case True
      then have "rx_ctx fl (of_nat ?i) e = Some ([], [e], fl)" using a by (simp add: rx_ctx_def)
      moreover have "set (?i # seen) = set seen" using True d by auto
      ultimately show ?thesis using inv c by (simp add: ctx_inv_def insert_absorb)
    next
      case False
      then obtain fl' where fl': "ucs_frag_list_insert fl e (of_nat ?i) = Some (UCS_FRAG_LIST_INSERT_SLOW, fl')"
        "frag_inv idx ?K ?K fl'" "set (held fl') = insert e (set (held fl))" "max_holes fl' = -1"
        using a by auto
      then have "rx_ctx fl (of_nat ?i) e = Some ([], [], fl')" by (simp add: rx_ctx_def)
      moreover have "ctx_inv idx (?i # seen) fl'" using fl' h ahead c by (auto simp: ctx_inv_def)
      ultimately show ?thesis using c by simp
    qed
  next
    case nxt
    let ?fl = "fl\<lparr>head_sn := of_nat (Suc ?K)\<rparr>"
    have fi1: "frag_inv idx (Suc ?K) (Suc ?K) ?fl" by (rule frag_inv_advance [OF fi nx])
    have hd1: "held ?fl = held fl" by (simp add: held_def)
    obtain es fl' K where K: "pull_loop ?fl [] = Some (es, fl')" "map idx es = [Suc (Suc ?K)..<Suc K]"
      "Suc ?K \<le> K" "frag_inv idx K K fl'" "Suc K \<notin> idx ` set (held fl')"
      "set (held fl) = set es \<union> set (held fl')" "max_holes fl' = -1"
      using pull_loop_correct [OF fi1, of "[]"] m hd1 by auto
    have "rx_ctx fl (of_nat ?i) e = Some (e # es, [], fl')"
    proof (cases "Suc (Suc ?K) \<in> idx ` set (held fl)")
      case True
      then show ?thesis using insert_next [OF fi nx nxt] K(1) by (simp add: rx_ctx_def)
    next
      case False
      then have "pull_loop ?fl [] = Some ([], ?fl)"
        using pull_none(1) [OF fi1] hd1 by (subst pull_loop.simps) simp
      then show ?thesis using insert_next [OF fi nx nxt] K(1) False by (simp add: rx_ctx_def)
    qed
    moreover have p: "map idx (e # es) = [Suc ?K..<Suc K]" using K(2,3) nxt by (simp add: upt_conv_Cons)
    moreover have new: "idx ` set (held fl') = set (?i # seen) \<inter> {K<..}" and c: "contig (?i # seen) = K"
      unfolding nxt by (rule contig_advance [OF h K(2,6,5) held_after [OF K(4)] K(3)])+
    ultimately show ?thesis using K(3,4,7) by (intro exI [of _ "e # es"] exI [of _ fl'] exI) (simp add: ctx_inv_def)
  qed
qed

subsection \<open>A stream of arrivals\<close>

text \<open>The packets of any number of senders arrive one after the other; the result are the packets given
  to the handler, in order, each with its sender.\<close>

fun srd_run :: "('e \<Rightarrow> nat) \<Rightarrow> 'e srd_iface \<Rightarrow> (u64 \<times> 'e) list \<Rightarrow> ((u64 \<times> 'e) list \<times> 'e srd_iface) option" where
  "srd_run idx ifc [] = Some ([], ifc)"
| "srd_run idx ifc ((u, e) # ps) =
     (case uct_srd_iface_process_rx True True ifc u (of_nat (idx e)) e of
        None \<Rightarrow> None
      | Some out \<Rightarrow> map_option (\<lambda>(ds, i). (map (Pair u) (processed out) @ ds, i)) (srd_run idx (iface out) ps))"

lemma upt_append_Suc: "a \<le> b \<Longrightarrow> b \<le> c \<Longrightarrow> [Suc a..<Suc b] @ [Suc b..<Suc c] = [Suc a..<Suc c]"
  using upt_add_eq_append [of "Suc a" "Suc b" "c - b"] by simp

text \<open>The positions of the packets of sender \<open>u\<close> in a sequence.\<close>

definition positions :: "('e \<Rightarrow> nat) \<Rightarrow> u64 \<Rightarrow> (u64 \<times> 'e) list \<Rightarrow> nat list" where
  "positions idx u ps = map (idx \<circ> snd) (filter (\<lambda>p. fst p = u) ps)"

fun arrivals_ok :: "nat list \<Rightarrow> nat list \<Rightarrow> bool" where
  "arrivals_ok seen [] = True"
| "arrivals_ok seen (i # is) = (packet_ok seen i \<and> arrivals_ok (i # seen) is)"

lemma positions_simps [simp]:
  "positions idx u [] = []"
  "positions idx u ((v, e) # ps) = (if v = u then idx e # positions idx u ps else positions idx u ps)"
  "positions idx u (map (Pair v) es @ ps) = (if v = u then map idx es @ positions idx u ps else positions idx u ps)"
  by (auto simp: positions_def comp_def)

definition iface_inv :: "('e \<Rightarrow> nat) \<Rightarrow> (u64 \<Rightarrow> nat list) \<Rightarrow> 'e srd_iface \<Rightarrow> bool" where
  "iface_inv idx seen ifc \<longleftrightarrow> (\<forall>u. case ifc u of None \<Rightarrow> seen u = [] | Some fl \<Rightarrow> ctx_inv idx (seen u) fl)"

lemma process_rx_correct:
  assumes inv: "iface_inv idx seen ifc" and ok: "packet_ok (seen u) (idx e)"
  shows "\<exists>out. uct_srd_iface_process_rx True True ifc u (of_nat (idx e)) e = Some out \<and>
           iface_inv idx (seen(u := idx e # seen u)) (iface out) \<and> contig (seen u) \<le> contig (idx e # seen u) \<and>
           map idx (processed out) = [Suc (contig (seen u))..<Suc (contig (idx e # seen u))]"
proof -
  obtain ctx where ctx: "case ifc u of None \<Rightarrow> ucs_frag_list_init (UCT_SRD_INITIAL_PSN - 1) (-1) = Some (UCS_OK, ctx)
      | Some c \<Rightarrow> c = ctx" and c: "ctx_inv idx (seen u) ctx"
  proof (cases "ifc u")
    case None
    then have "seen u = []" using inv by (auto simp: iface_inv_def dest: spec [of _ u])
    then show ?thesis using that ctx_inv_init [of idx] None by auto
  next
    case (Some fl)
    then have "ctx_inv idx (seen u) fl" using inv by (auto simp: iface_inv_def dest: spec [of _ u])
    then show ?thesis using that Some by auto
  qed
  obtain p r fl' where p: "rx_ctx ctx (of_nat (idx e)) e = Some (p, r, fl')" "ctx_inv idx (idx e # seen u) fl'"
    "contig (seen u) \<le> contig (idx e # seen u)" "map idx p = [Suc (contig (seen u))..<Suc (contig (idx e # seen u))]"
    using rx_ctx_correct [OF c ok] by blast
  have "iface_inv idx (seen(u := idx e # seen u)) (ifc(u \<mapsto> fl'))"
    unfolding iface_inv_def
  proof
    fix v
    show "case (ifc(u \<mapsto> fl')) v of None \<Rightarrow> (seen(u := idx e # seen u)) v = []
        | Some fl \<Rightarrow> ctx_inv idx ((seen(u := idx e # seen u)) v) fl"
      using inv p(2) by (cases "v = u") (simp_all add: iface_inv_def cong: option.case_cong)
  qed
  then show ?thesis using process_rx_ctx [where ifc = ifc and u = u, OF ctx p(1)] p(3,4) by simp
qed

lemma srd_run_correct:
  assumes "iface_inv idx seen ifc" and "\<And>u. arrivals_ok (seen u) (positions idx u ps)"
  shows "\<exists>ds ifc'. srd_run idx ifc ps = Some (ds, ifc') \<and>
           (\<forall>u. positions idx u ds =
                  [Suc (contig (seen u))..<Suc (contig (rev (positions idx u ps) @ seen u))] \<and>
                contig (seen u) \<le> contig (rev (positions idx u ps) @ seen u)) \<and>
           iface_inv idx (\<lambda>u. rev (positions idx u ps) @ seen u) ifc'"
  using assms
proof (induction ps arbitrary: ifc seen)
  case Nil
  then show ?case by simp
next
  case (Cons ue ps)
  obtain u e where ue: "ue = (u, e)" by fastforce
  have ok: "packet_ok (seen u) (idx e)" using Cons.prems(2) [of u] ue by simp
  let ?seen = "seen(u := idx e # seen u)"
  obtain out where out: "uct_srd_iface_process_rx True True ifc u (of_nat (idx e)) e = Some out"
    "iface_inv idx ?seen (iface out)" "contig (seen u) \<le> contig (idx e # seen u)"
    "map idx (processed out) = [Suc (contig (seen u))..<Suc (contig (idx e # seen u))]"
    using process_rx_correct [OF Cons.prems(1) ok] by blast
  have "arrivals_ok (?seen v) (positions idx v ps)" for v using Cons.prems(2) [of v] ue by auto
  from Cons.IH [OF out(2) this] obtain ds ifc' where ds: "srd_run idx (iface out) ps = Some (ds, ifc')"
    "\<And>v. positions idx v ds = [Suc (contig (?seen v))..<Suc (contig (rev (positions idx v ps) @ ?seen v))]"
    "\<And>v. contig (?seen v) \<le> contig (rev (positions idx v ps) @ ?seen v)"
    "iface_inv idx (\<lambda>v. rev (positions idx v ps) @ ?seen v) ifc'" by blast
  have seen: "rev (positions idx v ps) @ ?seen v = rev (positions idx v (ue # ps)) @ seen v" for v
    using ue by simp
  have "positions idx v (map (Pair u) (processed out) @ ds) =
      [Suc (contig (seen v))..<Suc (contig (rev (positions idx v (ue # ps)) @ seen v))]" for v
    using ds(2,3) [of v] out(3,4) ue upt_append_Suc by (auto simp del: upt_Suc)
  moreover have "contig (seen v) \<le> contig (rev (positions idx v (ue # ps)) @ seen v)" for v
    using ds(3) [of v] out(3) unfolding seen [symmetric] by (auto split: if_splits)
  ultimately show ?case using out(1) ds(1,4) ue unfolding seen by auto
qed

section \<open>Properties\<close>

text \<open>
  C5. The SRD receive path delivers in order. Packets of any number of senders arrive in any order, some
  more than once, each within half the sequence space of what its sender's context has delivered, and
  none with sequence number 0 twice while it is buffered. Allocations succeed. Then no assertion fails,
  every loop ends, and what each sender's packets are given to the handler as is the stream from its
  first packet on, each packet once and in order, up to the first packet that has not arrived:
  nothing is delivered early and nothing deliverable is kept back.
\<close>

theorem srd_delivers_in_order:
  assumes "\<And>u. arrivals_ok [] (positions idx u ps)"
  shows "\<exists>ds ifc. srd_run idx Map.empty ps = Some (ds, ifc) \<and>
           (\<forall>u. positions idx u ds = [1..<Suc (contig (positions idx u ps))])"
proof -
  have "iface_inv idx (\<lambda>_. []) Map.empty" by (simp add: iface_inv_def)
  moreover have "contig (rev xs) = contig xs" for xs by (simp add: contig_def)
  moreover have "contig [] = 0" by (simp add: contig_def)
  ultimately show ?thesis using srd_run_correct [of idx "\<lambda>_. []" Map.empty ps] assms by (auto simp del: upt_Suc)
qed

theorem srd_delivers_in_order_witness:
  "\<exists>ds ifc. srd_run id Map.empty [(7, 2 :: nat), (9, 1), (7, 4), (7, 2), (7, 1)] = Some (ds, ifc) \<and>
     positions id 7 ds = [1, 2] \<and> positions id 9 ds = [1]"
proof -
  let ?ps = "[(7, 2 :: nat), (9, 1), (7, 4), (7, 2), (7, 1)] :: (u64 \<times> nat) list"
  have "arrivals_ok [] (positions id u ?ps)" for u
    by (cases "u = 7"; cases "u = 9") (simp_all add: packet_ok_def contig_def)
  from srd_delivers_in_order [of id ?ps, OF this] obtain ds ifc
    where d: "srd_run id Map.empty ?ps = Some (ds, ifc)"
      "\<And>u. positions id u ds = [1..<Suc (contig (positions id u ?ps))]" by blast
  have "positions id 7 ds = [1, 2]" "positions id 9 ds = [1]" unfolding d(2) by (simp_all add: contig_def)
  with d(1) show ?thesis by blast
qed

lemma remove_all_loop_correct:
  "elem_count fl = of_nat (length (held fl)) \<Longrightarrow> list_count fl = of_nat (length (fl_list fl)) \<Longrightarrow>
     \<exists>fl'. remove_all_loop fl acc = Some (rev acc @ held fl, fl') \<and> ucs_frag_list_cleanup fl' = Some ()"
proof (induction "length (held fl)" arbitrary: fl acc)
  case 0
  then have "ready_list fl = []" "fl_list fl = []"
    by (cases "fl_list fl"; simp add: held_def run_elems_def)+
  then show ?case using 0
    by (subst remove_all_loop.simps) (simp add: ucs_frag_list_remove_def ucs_frag_list_cleanup_def held_def)
next
  case (Suc n)
  have "\<exists>e fl1. ucs_frag_list_remove fl True = Some (Some e, fl1) \<and> held fl = e # held fl1 \<and>
      elem_count fl1 = elem_count fl - 1 \<and> list_count fl1 = of_nat (length (fl_list fl1))"
  proof (cases "ready_list fl")
    case Nil
    with Suc.hyps(2) obtain h hs where "fl_list fl = h # hs" by (cases "fl_list fl") (auto simp: held_def)
    with Nil Suc.prems(2) show ?thesis
      by (simp add: ucs_frag_list_remove_def ucs_frag_list_pull_slow_def held_def run_elems_def)
  next
    case (Cons e es)
    with Suc.prems(2) show ?thesis by (simp add: ucs_frag_list_remove_def held_def)
  qed
  then obtain e fl1 where e: "ucs_frag_list_remove fl True = Some (Some e, fl1)" "held fl = e # held fl1"
    "elem_count fl1 = elem_count fl - 1" "list_count fl1 = of_nat (length (fl_list fl1))" by blast
  have "n = length (held fl1)" "elem_count fl1 = of_nat (length (held fl1))"
    using Suc.hyps(2) Suc.prems(1) e by auto
  from Suc.hyps(1) [OF this e(4), of "e # acc"] show ?case
    using e(1,2) by (subst remove_all_loop.simps) simp
qed

text \<open>The buffered packets are in the order of their positions.\<close>

lemma stored_sorted: "runs_ok idx lo hi hs \<Longrightarrow> sorted_wrt (<) (map idx (stored hs))"
proof (induction hs arbitrary: lo)
  case (Cons h hs)
  then obtain f l where o: "run_ok idx h f l" "runs_ok idx l hi hs" by (auto elim: runs_ok_ConsE simp del: runs_ok.simps)
  have m: "map idx (run_elems h) = [f..<Suc l]" using o(1) by (simp add: run_ok_def)
  have "x \<le> l" if "x \<in> set (map idx (run_elems h))" for x using that unfolding m by auto
  moreover have "l < y" if "y \<in> set (map idx (stored hs))" for y using that stored_bounds [OF o(2)] by auto
  moreover have "sorted_wrt (<) (map idx (run_elems h))" unfolding m by (rule sorted_wrt_upt)
  ultimately show ?case using Cons.IH [OF o(2)] unfolding stored_simps map_append sorted_wrt_append by fastforce
qed simp

lemma ctx_cleanup:
  assumes "ctx_inv idx seen fl"
  shows "uct_iface_rx_ctx_cleanup fl = Some (held fl)"
    and "map idx (held fl) = sorted_list_of_set {i \<in> set seen. contig seen < i}"
proof -
  have inv: "frag_inv idx (contig seen) (contig seen) fl" using assms by (simp add: ctx_inv_def)
  then have "elem_count fl = of_nat (length (held fl))" "list_count fl = of_nat (length (fl_list fl))"
    by (auto simp: frag_inv_def held_def)
  from remove_all_loop_correct [OF this, of "[]"] show "uct_iface_rx_ctx_cleanup fl = Some (held fl)"
    by (auto simp: uct_iface_rx_ctx_cleanup_def)
  have "ready_list fl = []" using inv by (simp add: frag_inv_def)
  then have "sorted_wrt (<) (map idx (held fl))" using inv stored_sorted by (auto simp: frag_inv_def held_def)
  then have "sorted_list_of_set (set (map idx (held fl))) = map idx (held fl)"
    unfolding strict_sorted_iff by (intro sorted_list_of_set.idem_if_sorted_distinct) auto
  moreover have "set (map idx (held fl)) = {i \<in> set seen. contig seen < i}" using assms by (auto simp: ctx_inv_def)
  ultimately show "map idx (held fl) = sorted_list_of_set {i \<in> set seen. contig seen < i}" by simp
qed



lemmas frag_eval = ucs_frag_list_init_def ucs_frag_list_insert_def ucs_frag_list_insert_slow_def
      ucs_frag_list_insert_head_def ucs_frag_list_pull_def ucs_frag_list_remove_def ucs_frag_list_pull_slow_def
      frag_list_insert_tail_def frag_list_insert_head_def frag_list_replace_head_def frag_list_add_tail_def
      frag_list_merge_heads_def new_run_def count_elem_def sn_cmp_def held_def run_elems_def Let_def

section \<open>A buffer that is stuck\<close>

text \<open>
  The first run begins at the number that was delivered last. Then no packet can be delivered any more, whatever
  arrives: the next number is taken for a duplicate, and later ones are stored behind that run.
\<close>

definition stalled :: "'e frag_list \<Rightarrow> bool" where
  "stalled fl \<longleftrightarrow> ready_list fl = [] \<and> fl_list fl \<noteq> [] \<and> first_sn (hd (fl_list fl)) = head_sn fl \<and>
     max_holes fl = -1 \<and> elem_count fl \<noteq> 0"

definition insert_kept :: "'e frag_list \<Rightarrow> 'e frag_list \<Rightarrow> bool" where
  "insert_kept fl fl' \<longleftrightarrow> head_sn fl' = head_sn fl \<and> ready_list fl' = ready_list fl \<and> max_holes fl' = max_holes fl \<and>
     (elem_count fl' = elem_count fl \<or> elem_count fl' = elem_count fl + 1)"

lemmas helper_defs = frag_list_replace_head_def frag_list_add_tail_def frag_list_merge_heads_def
  frag_list_insert_head_def frag_list_insert_tail_def count_elem_def new_run_def

text \<open>What one step of the search does at the run \<open>h\<close>: it ends there, in front of it, or goes on.\<close>

lemma insert_loop_step:
  assumes run: "insert_loop fl e s prev (h # hs) = Some (ooo, fl')"
  obtains (dup) "ooo = UCS_FRAG_LIST_INSERT_DUP" "fl' = fl"
  | (front) h1 rest where "ooo = UCS_FRAG_LIST_INSERT_SLOW" "insert_kept fl fl'" "fl_list fl' = prev @ h1 # rest"
      "s + 1 = first_sn h \<or> sn_cmp s (first_sn h) < 0"
  | (here) h1 rest where "ooo = UCS_FRAG_LIST_INSERT_SLOW" "insert_kept fl fl'" "fl_list fl' = prev @ h1 # rest"
      "first_sn h1 = first_sn h"
  | (later) "insert_loop fl e s (prev @ [h]) hs = Some (ooo, fl')"
proof (cases "sn_cmp s (first_sn h) \<ge> 0 \<and> sn_cmp s (last_sn h) \<le> 0")
  case True
  then show thesis using dup run by simp
next
  case c1: False
  show thesis
  proof (cases "sn_cmp (s + 1) (first_sn h) = 0")
    case True
    then have "s + 1 = first_sn h" by (simp only: sn_cmp_eq_0)
    then show thesis using front [of "hd (drop (length prev) (fl_list fl'))" hs] run c1 True
      by (simp add: insert_kept_def helper_defs) fastforce
  next
    case c2: False
    show thesis
    proof (cases "sn_cmp (last_sn h + 1) s = 0")
      case True
      let ?h1 = "frag_list_add_tail h e"
      show thesis
      proof (cases "hs \<noteq> [] \<and> uint (first_sn (hd hs)) = uint s + 1")
        case m: True
        then have "fl' = count_elem (fl\<lparr>fl_list := prev @ frag_list_merge_heads ?h1 (hd hs) # tl hs, list_count := list_count fl - 1\<rparr>)"
          "ooo = UCS_FRAG_LIST_INSERT_SLOW"
          using run c1 c2 True by (cases hs; simp split: if_splits)+
        then show thesis using here by (simp add: insert_kept_def helper_defs)
      next
        case m: False
        then have "fl' = count_elem (fl\<lparr>fl_list := prev @ ?h1 # hs\<rparr>)" "ooo = UCS_FRAG_LIST_INSERT_SLOW"
          using run c1 c2 True by (cases hs; simp split: if_splits)+
        then show thesis using here by (simp add: insert_kept_def helper_defs)
      qed
    next
      case c3: False
      show thesis
      proof (cases "sn_cmp s (first_sn h) < 0")
        case True
        then have "ooo = UCS_FRAG_LIST_INSERT_SLOW" "fl' = fl\<lparr>fl_list := prev @ new_run e s # h # hs,
            elem_count := elem_count fl + 1, list_count := list_count fl + 1\<rparr>"
          using run c1 c2 c3 by (simp_all add: frag_list_insert_head_def count_elem_def Let_def split: if_splits)
        then have "ooo = UCS_FRAG_LIST_INSERT_SLOW" "insert_kept fl fl'" "fl_list fl' = prev @ new_run e s # h # hs"
          by (simp_all add: insert_kept_def)
        then show thesis using front True by blast
      next
        case False
        then show thesis using later run c1 c2 c3 by (simp split: if_splits)
      qed
    qed
  qed
qed

lemma insert_loop_kept:
  assumes "insert_loop fl e s prev hs = Some (ooo, fl')" and "fl_list fl = prev @ hs"
  shows "(ooo = UCS_FRAG_LIST_INSERT_SLOW \<or> ooo = UCS_FRAG_LIST_INSERT_DUP) \<and> insert_kept fl fl' \<and>
    (prev \<noteq> [] \<longrightarrow> fl_list fl' \<noteq> [] \<and> hd (fl_list fl') = hd prev)"
  using assms
proof (induction hs arbitrary: prev)
  case Nil
  then show ?case by (auto simp: insert_kept_def helper_defs)
next
  case (Cons h hs)
  from Cons.prems(1) show ?case
  proof (cases rule: insert_loop_step)
    case dup
    then show ?thesis using Cons.prems(2) by (simp add: insert_kept_def)
  next
    case later
    from Cons.IH [OF this] Cons.prems(2) show ?thesis by simp
  qed simp_all
qed

lemma stalled_insert:
  assumes st: "stalled fl" and run: "ucs_frag_list_insert fl e s = Some (ooo, fl')"
  shows "(ooo = UCS_FRAG_LIST_INSERT_SLOW \<or> ooo = UCS_FRAG_LIST_INSERT_DUP) \<and> insert_kept fl fl' \<and>
    fl_list fl' \<noteq> [] \<and> first_sn (hd (fl_list fl')) = head_sn fl"
proof -
  obtain h hs where fl: "fl_list fl = h # hs" "first_sn h = head_sn fl" "ready_list fl = []" "max_holes fl = -1" "elem_count fl \<noteq> 0"
    using st by (cases "fl_list fl") (auto simp: stalled_def)
  have one: "sn_cmp (head_sn fl + 1) (head_sn fl) = 1" by (simp add: sn_cmp_def)
  consider (next_sn) "s = head_sn fl + 1" | (old) "s \<noteq> head_sn fl + 1" "sn_cmp s (head_sn fl) \<le> 0"
    | (ahead) "s \<noteq> head_sn fl + 1" "0 < sn_cmp s (head_sn fl)" by linarith
  then show ?thesis
  proof cases
    case next_sn
    then have "ucs_frag_list_insert fl e s = Some (UCS_FRAG_LIST_INSERT_DUP, fl)"
      using fl one by (simp add: ucs_frag_list_insert_def ucs_frag_list_insert_slow_def ucs_frag_list_insert_head_def sn_cmp_eq_0)
    then show ?thesis using run fl by (auto simp: insert_kept_def)
  next
    case old
    then have "ucs_frag_list_insert fl e s = Some (UCS_FRAG_LIST_INSERT_DUP, fl)"
      by (simp add: ucs_frag_list_insert_def ucs_frag_list_insert_slow_def sn_cmp_eq_0)
    then show ?thesis using run fl by (auto simp: insert_kept_def)
  next
    case ahead
    then have loop: "insert_loop fl e s [] (h # hs) = Some (ooo, fl')"
      using run fl by (simp add: ucs_frag_list_insert_def ucs_frag_list_insert_slow_def sn_cmp_eq_0)
    have ns: "sn_cmp (s + 1) (first_sn h) \<noteq> 0"
    proof
      assume "sn_cmp (s + 1) (first_sn h) = 0"
      then have "s = head_sn fl - 1" using fl(2) by (simp add: sn_cmp_eq_0 eq_diff_eq)
      then show False using ahead(2) by (simp add: sn_cmp_def)
    qed
    from loop show ?thesis
    proof (cases rule: insert_loop_step)
      case dup
      then show ?thesis using fl by (simp add: insert_kept_def)
    next
      case (front h1 rest)
      then show ?thesis using ns ahead(2) fl(2) by (simp add: sn_cmp_eq_0)
    next
      case (here h1 rest)
      then show ?thesis using fl(2) by simp
    next
      case later
      from insert_loop_kept [OF this] fl show ?thesis by simp
    qed
  qed
qed

lemma stalled_rx:
  assumes st: "stalled fl" and run: "rx_ctx fl s e = Some (p, r, fl')" and room: "unat (elem_count fl) + 1 < 2 ^ 32"
  shows "p = [] \<and> stalled fl' \<and> unat (elem_count fl') \<le> unat (elem_count fl) + 1"
proof -
  obtain ooo fl1 where ins: "ucs_frag_list_insert fl e s = Some (ooo, fl1)"
    using run by (auto simp: rx_ctx_def split: option.splits)
  note k = stalled_insert [OF st ins]
  then have "p = []" "fl' = fl1" using run ins by (auto simp: rx_ctx_def)
  moreover have "unat (elem_count fl + 1) = unat (elem_count fl) + 1" using room by (simp add: unat_word_ariths)
  moreover from this have "elem_count fl + 1 \<noteq> 0" by (metis add_is_0 unat_0 zero_neq_one)
  ultimately show ?thesis using st k by (auto simp: stalled_def insert_kept_def)
qed

lemma process_rx_Some:
  assumes "ifc u = Some fl" and "uct_srd_iface_process_rx m1 m2 ifc u psn e = Some out"
  shows "\<exists>r fl'. rx_ctx fl psn e = Some (processed out, r, fl') \<and> iface out = ifc(u \<mapsto> fl')"
  using assms by (auto simp: uct_srd_iface_process_rx_def rx_ctx_def split: option.splits prod.splits ooo_type.splits)

lemma process_rx_other:
  assumes "u \<noteq> v" and "uct_srd_iface_process_rx m1 m2 ifc v psn e = Some out"
  shows "iface out u = ifc u"
  using assms by (auto simp: uct_srd_iface_process_rx_def uct_srd_rx_ctx_create_def
      split: option.splits prod.splits ooo_type.splits if_splits)

lemma stalled_run:
  assumes "ifc u = Some fl" and "stalled fl" and "unat (elem_count fl) + length ps < 2 ^ 32"
    and "srd_run idx ifc ps = Some (ds, ifc')"
  shows "\<forall>(v, e) \<in> set ds. v \<noteq> u"
  using assms
proof (induction ps arbitrary: ifc fl ds)
  case (Cons ve ps)
  obtain v e where ve: "ve = (v, e)" by fastforce
  obtain out ds1 where out: "uct_srd_iface_process_rx True True ifc v (of_nat (idx e)) e = Some out"
    "srd_run idx (iface out) ps = Some (ds1, ifc')" "ds = map (Pair v) (processed out) @ ds1"
    using Cons.prems(4) ve by (auto split: option.splits)
  show ?case
  proof (cases "v = u")
    case True
    obtain r fl' where rx: "rx_ctx fl (of_nat (idx e)) e = Some (processed out, r, fl')" "iface out = ifc(u \<mapsto> fl')"
      using process_rx_Some [of ifc u fl] out(1) Cons.prems(1) True by blast
    have st: "processed out = []" "stalled fl'" "unat (elem_count fl') \<le> unat (elem_count fl) + 1"
      using stalled_rx [OF Cons.prems(2) rx(1)] Cons.prems(3) by auto
    have "\<forall>(v, e) \<in> set ds1. v \<noteq> u"
      by (rule Cons.IH [OF _ st(2) _ out(2)]) (use rx(2) st(3) Cons.prems(3) in auto)
    then show ?thesis using out(3) st(1) by simp
  next
    case False
    then have "iface out u = Some fl" using process_rx_other [of u v] out(1) Cons.prems(1) by metis
    from Cons.IH [OF this Cons.prems(2) _ out(2)] Cons.prems(3) show ?thesis using False out(3) by auto
  qed
qed simp

lemma pull_loop_ready:
  "pull_loop fl acc =
     pull_loop (fl\<lparr>ready_list := [], elem_count := elem_count fl - of_nat (length (ready_list fl))\<rparr>) (rev (ready_list fl) @ acc)"
proof (induction "ready_list fl" arbitrary: fl acc)
  case Nil
  then have "fl\<lparr>ready_list := [], elem_count := elem_count fl - of_nat (length (ready_list fl))\<rparr> = fl"
    "rev (ready_list fl) @ acc = acc" by simp_all
  then show ?case by (simp only:)
next
  case (Cons e es)
  let ?fl = "fl\<lparr>elem_count := elem_count fl - 1, ready_list := es\<rparr>"
  have "pull_loop fl acc = pull_loop ?fl (e # acc)"
    using Cons.hyps(2) by (subst pull_loop.simps) (simp add: ucs_frag_list_pull_def ucs_frag_list_remove_def flip: Cons.hyps(2))
  also have "\<dots> = pull_loop (?fl\<lparr>ready_list := [], elem_count := elem_count ?fl - of_nat (length (ready_list ?fl))\<rparr>)
      (rev (ready_list ?fl) @ e # acc)" by (rule Cons.hyps(1)) simp
  finally show ?case by (simp add: diff_diff_eq flip: Cons.hyps(2))
qed

text \<open>Two runs that are not merged: the first ends at number 0xFFFF, the second begins at number 0.\<close>

lemma wrap_positions:
  assumes inv: "frag_inv idx N N fl" and fl: "fl_list fl = h1 # h2 # rest" and h: "first_sn h1 = head_sn fl + 2"
    "last_sn h1 = 0xFFFF" "first_sn h2 = 0"
  shows "0 < sn_cmp 0 (head_sn fl)" and "sn_cmp 0 (head_sn fl + 1) \<noteq> 0" and "sn_cmp 1 (first_sn h1) \<noteq> 0"
    and "sn_cmp (first_sn h1) (last_sn h1) \<le> 0"
proof -
  let ?hi = "N + (2 ^ 15 - 1)"
  have ro: "runs_ok idx N ?hi (h1 # h2 # rest)" and N: "head_sn fl = of_nat N" using inv fl by (simp_all add: frag_inv_def)
  obtain f l where 1: "N < f" "f \<le> l" "l \<le> ?hi" "run_ok idx h1 f l" "runs_ok idx l ?hi (h2 # rest)"
    by (rule runs_ok_ConsE [OF ro])
  obtain f2 l2 where 2: "l < f2" "f2 \<le> l2" "l2 \<le> ?hi" "run_ok idx h2 f2 l2" by (rule runs_ok_ConsE [OF 1(5)])
  have sn: "first_sn h1 = of_nat f" "last_sn h1 = of_nat l" "(0 :: sn) = of_nat f2" "(1 :: sn) = of_nat (Suc f2)"
    using 1(4) 2(4) h(3) by (simp_all add: run_ok_def)
  have "sn_cmp (of_nat f2) (of_nat N) = int f2 - int N" using 1 2 by (intro sn_cmp_of_nat) auto
  then show "0 < sn_cmp 0 (head_sn fl)" unfolding N sn(3) using 1 2 by simp
  have "sn_cmp (of_nat f2) (of_nat (Suc N)) = int f2 - int (Suc N)" using 1 2 by (intro sn_cmp_of_nat) auto
  then show "sn_cmp 0 (head_sn fl + 1) \<noteq> 0" unfolding N sn(3) sn_Suc using 1 2 by linarith
  have "sn_cmp (of_nat (Suc f2)) (of_nat f) = int (Suc f2) - int f" using 1 2 by (intro sn_cmp_of_nat) auto
  then show "sn_cmp 1 (first_sn h1) \<noteq> 0" unfolding sn(1,4) using 1 2 by linarith
  have "sn_cmp (of_nat f) (of_nat l) = int f - int l" using 1 2 by (intro sn_cmp_of_nat) auto
  then show "sn_cmp (first_sn h1) (last_sn h1) \<le> 0" unfolding sn(1,2) using 1(2) by simp
qed

text \<open>Number 0 is then appended to the first run, although the second one has it.\<close>

lemma wrap_insert:
  assumes "frag_inv idx N N fl" and "max_holes fl = -1" and "fl_list fl = h1 # h2 # rest"
    and "first_sn h1 = head_sn fl + 2" "last_sn h1 = 0xFFFF" "first_sn h2 = 0"
  shows "rx_ctx fl 0 e = Some ([], [], count_elem (fl\<lparr>fl_list := frag_list_add_tail h1 e # h2 # rest\<rparr>))"
proof -
  note w = wrap_positions [OF assms(1,3-6)]
  have "sn_cmp 0 0xFFFF = 1" "sn_cmp (0xFFFF + 1) 0 = 0" by (simp_all add: sn_cmp_def)
  then have "insert_loop fl e 0 [] (h1 # h2 # rest) =
      Some (UCS_FRAG_LIST_INSERT_SLOW, count_elem (fl\<lparr>fl_list := frag_list_add_tail h1 e # h2 # rest\<rparr>))"
    using w(3,4) assms(5,6) by simp
  then show ?thesis
    using w(1,2) assms(2,3) by (simp add: rx_ctx_def ucs_frag_list_insert_def ucs_frag_list_insert_slow_def)
qed

text \<open>The packet that fills the hole in front of the first run makes the buffer deliver that run, and get stuck.\<close>

lemma wrap_deliver:
  assumes inv: "frag_inv idx N N fl" and m: "max_holes fl = -1" and fl: "fl_list fl = h1 # h2 # rest"
    and h: "first_sn h1 = head_sn fl + 2" "last_sn h1 = 0xFFFF" "first_sn h2 = 0"
    and fl1_def: "fl1 = count_elem (fl\<lparr>fl_list := frag_list_add_tail h1 e # h2 # rest\<rparr>)"
  shows "\<exists>fl2. rx_ctx fl1 (head_sn fl + 1) e1 = Some (e1 # run_elems h1 @ [e], [], fl2) \<and> stalled fl2 \<and>
           unat (elem_count fl2) < 2 ^ 15 \<and> head_sn fl2 = 0"
proof -
  have r: "ready_list fl = []" "elem_count fl = of_nat (length (stored (fl_list fl)))" using inv by (simp_all add: frag_inv_def)
  have len: "length (stored (fl_list fl)) \<le> 2 ^ 15 - 1"
    using stored_length [of idx N "N + (2 ^ 15 - 1)" "fl_list fl"] inv by (simp add: frag_inv_def)
  define k where "k = length (stored (h2 # rest))"
  have k: "0 < k" "k < 2 ^ 15" "elem_count fl = of_nat (Suc (length (h_list h1)) + k)" "Suc (length (h_list h1)) + k < 2 ^ 15"
    using len r(2) fl by (simp_all add: k_def run_elems_def)
  have "unat (of_nat (Suc (Suc (length (h_list h1)) + k)) :: u32) = Suc (Suc (length (h_list h1)) + k)"
    using k(4) by (simp only: unat_of_nat) simp
  moreover have "elem_count fl1 = of_nat (Suc (Suc (length (h_list h1)) + k))" using k(3) by (simp add: fl1_def count_elem_def)
  ultimately have c: "elem_count fl1 \<noteq> 0" by (metis nat.distinct(1) unat_0)
  have minus: "sn_cmp (head_sn fl + 1) (head_sn fl + 2) < 0" by (simp add: sn_cmp_def)
  have ins: "ucs_frag_list_insert fl1 e1 (head_sn fl + 1) = Some (UCS_FRAG_LIST_INSERT_FIRST, fl1\<lparr>head_sn := head_sn fl + 1\<rparr>)"
    using c r(1) h(1) minus
    by (simp add: fl1_def ucs_frag_list_insert_def ucs_frag_list_insert_slow_def ucs_frag_list_insert_head_def
        count_elem_def frag_list_add_tail_def sn_cmp_eq_0 add.assoc)
  let ?fl2 = "fl1\<lparr>head_sn := 0, list_count := list_count fl - 1, fl_list := h2 # rest, ready_list := [], elem_count := of_nat k\<rparr>"
  let ?mid = "fl1\<lparr>head_sn := 0, elem_count := elem_count fl1 - 1, list_count := list_count fl - 1, fl_list := h2 # rest,
      ready_list := h_list h1 @ [e]\<rparr>"
  have zero: "(65536 :: sn) = 0" by simp
  have "pull_loop (fl1\<lparr>head_sn := head_sn fl + 1\<rparr>) [] = pull_loop ?mid [h_elem h1]"
    using r(1) h by (subst pull_loop.simps) (simp add: zero fl1_def ucs_frag_list_pull_def ucs_frag_list_remove_def
        ucs_frag_list_pull_slow_def count_elem_def frag_list_add_tail_def sn_cmp_eq_0 add.assoc)
  also have "\<dots> = pull_loop ?fl2 (e # rev (h_list h1) @ [h_elem h1])"
    using pull_loop_ready [of ?mid "[h_elem h1]"] k(3) by (simp add: fl1_def count_elem_def)
  also have "\<dots> = Some (run_elems h1 @ [e], ?fl2)"
    using h(3) by (subst pull_loop.simps)
      (simp add: ucs_frag_list_pull_def ucs_frag_list_remove_def ucs_frag_list_pull_slow_def sn_cmp_eq_0 run_elems_def)
  finally have "rx_ctx fl1 (head_sn fl + 1) e1 = Some (e1 # run_elems h1 @ [e], [], ?fl2)"
    using ins by (simp add: rx_ctx_def)
  moreover have "unat (of_nat k :: u32) = k" using k(2) by (simp add: unat_of_nat)
  moreover from this have "(of_nat k :: u32) \<noteq> 0" using k(1) by (metis unat_0 less_irrefl)
  moreover have "max_holes fl1 = -1" using m by (simp add: fl1_def count_elem_def)
  ultimately show ?thesis using k(2) h(3) by (intro exI [of _ ?fl2]) (simp add: stalled_def)
qed

text \<open>
  C29. The merge test of \<open>ucs_frag_list_insert_slow\<close> compares sequence numbers as integers, so two runs are
  not merged when the second begins at number 0. Take any such buffer of a sender with one packet missing in front of its first run,
  which ends at number 0xFFFF. A packet with number 0 that arrives again is not recognised: it is appended to the first
  run. When the missing packet arrives, the first run and that duplicate are delivered, while the packet
  with number 0 that came first stays in the buffer. From then on the buffer is stuck: packet 1 is
  refused as a duplicate, and no packet of that sender is ever delivered again, whatever further packets arrive.
\<close>

theorem frag_list_wrap_duplicate_stalls:
  assumes "frag_inv idx N N fl" and "max_holes fl = -1" and "fl_list fl = h1 # h2 # rest"
    and "first_sn h1 = head_sn fl + 2" "last_sn h1 = 0xFFFF" "first_sn h2 = 0" and "ifc u = Some fl"
  shows "\<exists>ifc1 ifc2.
     uct_srd_iface_process_rx True True ifc u 0 e = Some \<lparr>processed = [], released = [], iface = ifc1\<rparr> \<and>
     uct_srd_iface_process_rx True True ifc1 u (head_sn fl + 1) e1 =
       Some \<lparr>processed = e1 # run_elems h1 @ [e], released = [], iface = ifc2\<rparr> \<and>
     uct_srd_iface_process_rx True True ifc2 u 1 e2 = Some \<lparr>processed = [], released = [e2], iface = ifc2\<rparr> \<and>
     (\<forall>idx ps ds ifc'. length ps < 2 ^ 31 \<and> srd_run idx ifc2 ps = Some (ds, ifc') \<longrightarrow> (\<forall>(v, e) \<in> set ds. v \<noteq> u))"
proof -
  let ?fl1 = "count_elem (fl\<lparr>fl_list := frag_list_add_tail h1 e # h2 # rest\<rparr>)"
  let ?ifc1 = "ifc(u \<mapsto> ?fl1)"
  obtain fl2 where fl2: "rx_ctx ?fl1 (head_sn fl + 1) e1 = Some (e1 # run_elems h1 @ [e], [], fl2)" "stalled fl2"
    "unat (elem_count fl2) < 2 ^ 15" "head_sn fl2 = 0"
    using wrap_deliver [OF assms(1-6) refl] by blast
  have s1: "uct_srd_iface_process_rx True True ifc u 0 e = Some \<lparr>processed = [], released = [], iface = ?ifc1\<rparr>"
    using process_rx_ctx [OF _ wrap_insert [OF assms(1-6)], of ifc u] assms(7) by simp
  have s2: "uct_srd_iface_process_rx True True ?ifc1 u (head_sn fl + 1) e1 =
      Some \<lparr>processed = e1 # run_elems h1 @ [e], released = [], iface = ifc(u \<mapsto> fl2)\<rparr>"
    using process_rx_ctx [OF _ fl2(1), of ?ifc1 u] by simp
  have "rx_ctx fl2 1 e2 = Some ([], [e2], fl2)"
    using fl2(2,4) by (simp add: rx_ctx_def stalled_def ucs_frag_list_insert_def ucs_frag_list_insert_slow_def
        ucs_frag_list_insert_head_def sn_cmp_def)
  then have s3: "uct_srd_iface_process_rx True True (ifc(u \<mapsto> fl2)) u 1 e2 =
      Some \<lparr>processed = [], released = [e2], iface = ifc(u \<mapsto> fl2)\<rparr>"
    using process_rx_ctx [where ifc = "ifc(u \<mapsto> fl2)" and u = u and ctx = fl2] by simp
  have "\<forall>(v, e) \<in> set ds. v \<noteq> u" if "length ps < 2 ^ 31" "srd_run idx (ifc(u \<mapsto> fl2)) ps = Some (ds, ifc')" for idx ps ds ifc'
    using stalled_run [OF _ fl2(2) _ that(2), where u = u] that(1) fl2(3) by simp
  then show ?thesis using s1 s2 s3 by blast
qed

theorem frag_list_wrap_duplicate_stalls_witness:
  "\<exists>fl0 fl1 fl2 fl. ucs_frag_list_init 0xFFFC (-1) = Some (UCS_OK, fl0) \<and>
     ucs_frag_list_insert fl0 (0xFFFE :: nat) 0xFFFE = Some (UCS_FRAG_LIST_INSERT_SLOW, fl1) \<and>
     ucs_frag_list_insert fl1 0x10000 0 = Some (UCS_FRAG_LIST_INSERT_SLOW, fl2) \<and>
     ucs_frag_list_insert fl2 0xFFFF 0xFFFF = Some (UCS_FRAG_LIST_INSERT_SLOW, fl) \<and>
     (\<exists>ifc1 ifc2. uct_srd_iface_process_rx True True [7 \<mapsto> fl] 7 0 0x10000 = Some \<lparr>processed = [], released = [], iface = ifc1\<rparr> \<and>
        uct_srd_iface_process_rx True True ifc1 7 0xFFFD 0xFFFD =
          Some \<lparr>processed = [0xFFFD, 0xFFFE, 0xFFFF, 0x10000], released = [], iface = ifc2\<rparr> \<and>
        uct_srd_iface_process_rx True True ifc2 7 1 0x10001 = Some \<lparr>processed = [], released = [0x10001], iface = ifc2\<rparr>)"
proof -
  let ?h1 = "\<lparr>h_elem = 0xFFFE, first_sn = 0xFFFE, last_sn = 0xFFFF, h_list = [0xFFFF]\<rparr> :: nat frag_run"
  let ?h2 = "\<lparr>h_elem = 0x10000, first_sn = 0, last_sn = 0, h_list = []\<rparr> :: nat frag_run"
  let ?fl = "\<lparr>fl_list = [?h1, ?h2], ready_list = [], head_sn = 0xFFFC, elem_count = 3, list_count = 2, max_holes = -1\<rparr>"
  have reached: "\<exists>fl0 fl1 fl2. ucs_frag_list_init 0xFFFC (-1) = Some (UCS_OK, fl0) \<and>
     ucs_frag_list_insert fl0 (0xFFFE :: nat) 0xFFFE = Some (UCS_FRAG_LIST_INSERT_SLOW, fl1) \<and>
     ucs_frag_list_insert fl1 0x10000 0 = Some (UCS_FRAG_LIST_INSERT_SLOW, fl2) \<and>
     ucs_frag_list_insert fl2 0xFFFF 0xFFFF = Some (UCS_FRAG_LIST_INSERT_SLOW, ?fl)"
    by (simp add: frag_eval)
  have "[0xFFFE..<Suc 0xFFFF] = [0xFFFE, 0xFFFF :: nat]" by (simp add: upt_rec)
  then have "frag_inv id 0xFFFC 0xFFFC ?fl" by (simp add: frag_inv_def run_ok_def run_elems_def)
  from frag_list_wrap_duplicate_stalls [OF this _ _ _ _ _, of ?h1 ?h2 "[]" "[7 \<mapsto> ?fl]" 7 "0x10000" "0xFFFD" "0x10001"]
  have "\<exists>ifc1 ifc2. uct_srd_iface_process_rx True True [7 \<mapsto> ?fl] 7 0 0x10000 = Some \<lparr>processed = [], released = [], iface = ifc1\<rparr> \<and>
        uct_srd_iface_process_rx True True ifc1 7 0xFFFD 0xFFFD =
          Some \<lparr>processed = [0xFFFD, 0xFFFE, 0xFFFF, 0x10000], released = [], iface = ifc2\<rparr> \<and>
        uct_srd_iface_process_rx True True ifc2 7 1 0x10001 = Some \<lparr>processed = [], released = [0x10001], iface = ifc2\<rparr>"
    by (auto simp: run_elems_def)
  with reached show ?thesis by blast
qed

section \<open>A packet that is not counted\<close>

text \<open>A number of calls of \<open>ucs_frag_list_pull\<close>, with the packets they return.\<close>

fun pull_times :: "nat \<Rightarrow> 'e frag_list \<Rightarrow> ('e option list \<times> 'e frag_list) option" where
  "pull_times 0 fl = Some ([], fl)"
| "pull_times (Suc n) fl =
     (case ucs_frag_list_pull fl of
        None \<Rightarrow> None
      | Some (p, fl') \<Rightarrow> map_option (\<lambda>(ps, fl''). (p # ps, fl'')) (pull_times n fl'))"

lemma pull_times_ready:
  "ready_list fl = es @ fs \<Longrightarrow>
     pull_times (length es) fl = Some (map Some es, fl\<lparr>ready_list := fs, elem_count := elem_count fl - of_nat (length es)\<rparr>)"
proof (induction es arbitrary: fl)
  case (Cons e es)
  let ?fl = "fl\<lparr>elem_count := elem_count fl - 1, ready_list := es @ fs\<rparr>"
  have "ucs_frag_list_pull fl = Some (Some e, ?fl)"
    using Cons.prems by (simp add: ucs_frag_list_pull_def ucs_frag_list_remove_def)
  with Cons.IH [of ?fl] show ?case by (simp add: diff_diff_eq)
qed simp

text \<open>
  C37. \<open>ucs_frag_list_insert_head\<close> does not count the packet it puts on a non-empty ready list. Take any
  buffer whose packets are all on the ready list, at least one, with the right count, and let the next packet
  arrive. It is put behind the others, but the count stays. Once the others are pulled the count is zero
  although the packet is still in the buffer, so the packet after it takes the fast path and is
  delivered first. Pulling the packet then leaves a count of \<open>2 ^ 32 - 1\<close> in an empty buffer, on which
  \<open>ucs_frag_list_cleanup\<close> fails its assertion.
\<close>

theorem frag_list_ready_miscounted:
  assumes "ready_list fl = es" and "es \<noteq> []" and "fl_list fl = []" and "elem_count fl = of_nat (length es)"
    and "length es < 2 ^ 32"
  shows "\<exists>fl1 fl2 fl3 fl4.
     ucs_frag_list_insert fl e (ucs_frag_list_sn fl + 1) = Some (UCS_FRAG_LIST_INSERT_READY, fl1) \<and>
     held fl1 = es @ [e] \<and> ucs_frag_list_count fl1 = of_nat (length es) \<and>
     pull_times (length es) fl1 = Some (map Some es, fl2) \<and> held fl2 = [e] \<and> ucs_frag_list_count fl2 = 0 \<and>
     ucs_frag_list_insert fl2 e2 (ucs_frag_list_sn fl2 + 1) = Some (UCS_FRAG_LIST_INSERT_FAST, fl3) \<and> held fl3 = [e] \<and>
     ucs_frag_list_pull fl3 = Some (Some e, fl4) \<and>
     ucs_frag_list_empty fl4 \<and> ucs_frag_list_count fl4 = 2 ^ 32 - 1 \<and> ucs_frag_list_cleanup fl4 = None"
proof -
  let ?fl1 = "fl\<lparr>head_sn := head_sn fl + 1, ready_list := es @ [e]\<rparr>"
  let ?fl2 = "fl\<lparr>head_sn := head_sn fl + 1, ready_list := [e], elem_count := 0\<rparr>"
  let ?fl3 = "?fl2\<lparr>head_sn := head_sn fl + 2\<rparr>"
  let ?fl4 = "?fl3\<lparr>ready_list := [], elem_count := -1\<rparr>"
  have "unat (elem_count fl) = length es" using assms(4,5) by (simp add: unat_of_nat)
  then have c: "elem_count fl \<noteq> 0" using assms(2) by auto
  have "ucs_frag_list_insert fl e (ucs_frag_list_sn fl + 1) = Some (UCS_FRAG_LIST_INSERT_READY, ?fl1)"
    using assms(1-3) c by (simp add: ucs_frag_list_insert_def ucs_frag_list_insert_slow_def ucs_frag_list_insert_head_def
        ucs_frag_list_sn_def sn_cmp_eq_0)
  moreover have "pull_times (length es) ?fl1 = Some (map Some es, ?fl2)"
    using pull_times_ready [of ?fl1 es "[e]"] assms(4) by simp
  moreover have "ucs_frag_list_insert ?fl2 e2 (ucs_frag_list_sn ?fl2 + 1) = Some (UCS_FRAG_LIST_INSERT_FAST, ?fl3)"
    by (simp add: ucs_frag_list_insert_def ucs_frag_list_sn_def sn_cmp_eq_0 add.assoc)
  moreover have "ucs_frag_list_pull ?fl3 = Some (Some e, ?fl4)"
    by (simp add: ucs_frag_list_pull_def ucs_frag_list_remove_def)
  moreover have "held ?fl1 = es @ [e]" "held ?fl2 = [e]" "held ?fl3 = [e]" using assms(3) by (simp_all add: held_def)
  moreover have "ucs_frag_list_empty ?fl4" "ucs_frag_list_count ?fl4 = 2 ^ 32 - 1" "ucs_frag_list_cleanup ?fl4 = None"
    "ucs_frag_list_count ?fl1 = of_nat (length es)" "ucs_frag_list_count ?fl2 = 0"
    using assms(3,4) by (simp_all add: ucs_frag_list_empty_def ucs_frag_list_count_def ucs_frag_list_cleanup_def)
  ultimately show ?thesis by blast
qed

theorem frag_list_ready_miscounted_witness:
  "\<exists>fl0 fl1 fl2 fl3 fl. ucs_frag_list_init 0 (-1) = Some (UCS_OK, fl0) \<and>
     ucs_frag_list_insert fl0 (2 :: nat) 2 = Some (UCS_FRAG_LIST_INSERT_SLOW, fl1) \<and>
     ucs_frag_list_insert fl1 3 3 = Some (UCS_FRAG_LIST_INSERT_SLOW, fl2) \<and>
     ucs_frag_list_insert fl2 1 1 = Some (UCS_FRAG_LIST_INSERT_FIRST, fl3) \<and>
     ucs_frag_list_pull fl3 = Some (Some 2, fl) \<and>
     (\<exists>fl4. ucs_frag_list_insert fl 4 (ucs_frag_list_sn fl + 1) = Some (UCS_FRAG_LIST_INSERT_READY, fl4) \<and>
        held fl4 = [3, 4] \<and> ucs_frag_list_count fl4 = 1)"
proof -
  let ?fl = "\<lparr>fl_list = [], ready_list = [3], head_sn = 3, elem_count = 1, list_count = 0, max_holes = -1\<rparr> :: nat frag_list"
  have "\<exists>fl0 fl1 fl2 fl3. ucs_frag_list_init 0 (-1) = Some (UCS_OK, fl0) \<and>
     ucs_frag_list_insert fl0 (2 :: nat) 2 = Some (UCS_FRAG_LIST_INSERT_SLOW, fl1) \<and>
     ucs_frag_list_insert fl1 3 3 = Some (UCS_FRAG_LIST_INSERT_SLOW, fl2) \<and>
     ucs_frag_list_insert fl2 1 1 = Some (UCS_FRAG_LIST_INSERT_FIRST, fl3) \<and>
     ucs_frag_list_pull fl3 = Some (Some 2, ?fl)"
    by (simp add: frag_eval)
  moreover have "\<exists>fl4. ucs_frag_list_insert ?fl 4 (ucs_frag_list_sn ?fl + 1) = Some (UCS_FRAG_LIST_INSERT_READY, fl4) \<and>
        held fl4 = [3, 4] \<and> ucs_frag_list_count fl4 = 1"
    using frag_list_ready_miscounted [of ?fl "[3]" 4] by auto
  ultimately show ?thesis by blast
qed

end
