(* ===== verification/Ompi_Proc.thy ===== *)
theory Ompi_Proc
  imports Mpi_Ucx_Prelude
begin

unbundle bit_operations_syntax

text \<open>
  Process names and process pointers of Open MPI (\<^verbatim>\<open>ompi/proc/proc.h\<close>, \<^verbatim>\<open>opal/util/proc.c\<close>,
  \<^verbatim>\<open>ompi/runtime/ompi_rte.h\<close>), for pointers of 64 bits. A slot of a process table is a pointer to an
  \<open>ompi_proc_t\<close> or, for a process that was never used, a sentinel: an odd word that encodes the name.
\<close>

section \<open>Names\<close>

record process_name =
  jobid :: u32
  vpid :: u32

definition OMPI_LOCAL_JOBID :: "u32 \<Rightarrow> u32" where
  "OMPI_LOCAL_JOBID n = n AND 0x0000ffff"

definition OMPI_JOB_FAMILY :: "u32 \<Rightarrow> u32" where
  "OMPI_JOB_FAMILY n = drop_bit 16 n AND 0x0000ffff"

definition OMPI_CONSTRUCT_JOB_FAMILY :: "u32 \<Rightarrow> u32" where
  "OMPI_CONSTRUCT_JOB_FAMILY n = push_bit 16 n AND 0xffff0000"

definition OMPI_CONSTRUCT_LOCAL_JOBID :: "u32 \<Rightarrow> u32 \<Rightarrow> u32" where
  "OMPI_CONSTRUCT_LOCAL_JOBID local job = (local AND 0xffff0000) OR (job AND 0x0000ffff)"

definition OMPI_CONSTRUCT_JOBID :: "u32 \<Rightarrow> u32 \<Rightarrow> u32" where
  "OMPI_CONSTRUCT_JOBID family local = OMPI_CONSTRUCT_LOCAL_JOBID (OMPI_CONSTRUCT_JOB_FAMILY family) local"

definition opal_compare_opal_procs :: "process_name \<Rightarrow> process_name \<Rightarrow> int" where
  "opal_compare_opal_procs p1 p2 =
     (if jobid p1 < jobid p2 then -1
      else if jobid p1 > jobid p2 then 1
      else if vpid p1 < vpid p2 then -1
      else if vpid p1 > vpid p2 then 1
      else 0)"

text \<open>
  The comparison that \<open>opal_compare_proc\<close> points to once an instance is initialised. A null pointer is
  \<open>None\<close>.
\<close>

definition OMPI_RTE_CMP_JOBID :: u8 where "OMPI_RTE_CMP_JOBID = 0x02"
definition OMPI_RTE_CMP_VPID :: u8 where "OMPI_RTE_CMP_VPID = 0x04"
definition OMPI_RTE_CMP_ALL :: u8 where "OMPI_RTE_CMP_ALL = 0x0f"
definition OMPI_RTE_CMP_WILD :: u8 where "OMPI_RTE_CMP_WILD = 0x10"

definition pmix_name_wildcard :: process_name where
  "pmix_name_wildcard = \<lparr>jobid = 0xfffffffe, vpid = 0xfffffffe\<rparr>"

definition compare_vpid :: "u8 \<Rightarrow> process_name \<Rightarrow> process_name \<Rightarrow> int" where
  "compare_vpid msk n1 n2 =
     (if OMPI_RTE_CMP_VPID AND msk \<noteq> 0 then
        (if OMPI_RTE_CMP_WILD AND msk \<noteq> 0 \<and>
            (vpid pmix_name_wildcard = vpid n1 \<or> vpid pmix_name_wildcard = vpid n2) then 0
         else if vpid n1 < vpid n2 then -1
         else if vpid n1 > vpid n2 then 1
         else 0)
      else 0)"

definition ompi_rte_compare_name_fields :: "u8 \<Rightarrow> process_name option \<Rightarrow> process_name option \<Rightarrow> int" where
  "ompi_rte_compare_name_fields msk name1 name2 =
     (case (name1, name2) of
        (None, None) \<Rightarrow> 0
      | (None, Some _) \<Rightarrow> -1
      | (Some _, None) \<Rightarrow> 1
      | (Some n1, Some n2) \<Rightarrow>
          (if OMPI_RTE_CMP_JOBID AND msk \<noteq> 0 then
             (if OMPI_RTE_CMP_WILD AND msk \<noteq> 0 \<and>
                 (jobid pmix_name_wildcard = jobid n1 \<or> jobid pmix_name_wildcard = jobid n2)
              then compare_vpid msk n1 n2
              else if jobid n1 < jobid n2 then -1
              else if jobid n1 > jobid n2 then 1
              else compare_vpid msk n1 n2)
           else compare_vpid msk n1 n2))"

definition opal_compare_proc :: "process_name \<Rightarrow> process_name \<Rightarrow> int" where
  "opal_compare_proc p1 p2 = ompi_rte_compare_name_fields OMPI_RTE_CMP_ALL (Some p1) (Some p2)"

lemma opal_compare_proc_default: "opal_compare_proc p1 p2 = opal_compare_opal_procs p1 p2"
  by (simp add: opal_compare_proc_def ompi_rte_compare_name_fields_def compare_vpid_def opal_compare_opal_procs_def
      OMPI_RTE_CMP_ALL_def OMPI_RTE_CMP_JOBID_def OMPI_RTE_CMP_VPID_def OMPI_RTE_CMP_WILD_def)

lemma opal_compare_proc_eq [simp]: "opal_compare_proc p1 p2 = 0 \<longleftrightarrow> p1 = p2"
  by (auto simp: opal_compare_proc_default opal_compare_opal_procs_def)

section \<open>Sentinels\<close>

text \<open>The assertion is that the local job id fits in 15 bits.\<close>

definition ompi_proc_name_to_sentinel :: "process_name \<Rightarrow> u64 option" where
  "ompi_proc_name_to_sentinel name =
     (if OMPI_LOCAL_JOBID (jobid name) AND 0x8000 \<noteq> 0 then None
      else
        (let s1 = 0 OR 0x1;
             s2 = s1 OR (push_bit 1 (ucast (OMPI_LOCAL_JOBID (jobid name))) AND 0xfffe);
             s3 = s2 OR (push_bit 16 (ucast (OMPI_JOB_FAMILY (jobid name))) AND 0xffff0000)
         in Some (s3 OR (push_bit 32 (ucast (vpid name)) AND 0xffffffff00000000))))"

definition ompi_proc_sentinel_to_name :: "u64 \<Rightarrow> process_name option" where
  "ompi_proc_sentinel_to_name sentinel =
     (if sentinel AND 0x1 = 0 then None
      else Some \<lparr>jobid = OMPI_CONSTRUCT_JOBID (ucast (drop_bit 16 sentinel AND 0xffff))
                                             (ucast (drop_bit 1 sentinel AND 0x7fff)),
                 vpid = ucast (drop_bit 32 sentinel AND 0xffffffff)\<rparr>)"

text \<open>A slot of a process table. There is one \<open>ompi_proc_t\<close> per name, so a pointer stands for its name.\<close>

datatype ompi_proc = Proc process_name | Sentinel u64

definition ompi_proc_is_sentinel :: "ompi_proc \<Rightarrow> bool" where
  "ompi_proc_is_sentinel p = (case p of Proc _ \<Rightarrow> False | Sentinel _ \<Rightarrow> True)"

text \<open>The name behind a slot, as \<open>ompi_group_get_proc_name\<close> reads it.\<close>

definition slot_name :: "ompi_proc \<Rightarrow> process_name option" where
  "slot_name p = (case p of Proc n \<Rightarrow> Some n | Sentinel s \<Rightarrow> ompi_proc_sentinel_to_name s)"

lemma masks:
  "(0x0000ffff :: u32) = mask 16" "(0xffff0000 :: u32) = push_bit 16 (mask 16)" "(0x7fff :: u32) = mask 15"
  "(0xfffe :: u64) = push_bit 1 (mask 15)" "(0xffff0000 :: u64) = push_bit 16 (mask 16)"
  "(0xffffffff00000000 :: u64) = push_bit 32 (mask 32)" "(0xffff :: u64) = mask 16" "(0x7fff :: u64) = mask 15"
  "(0xffffffff :: u64) = mask 32" "(0x1 :: u64) = mask 1"
  by (simp_all add: mask_eq_exp_minus_1 push_bit_eq_mult)

lemma jobid_parts:
  "OMPI_CONSTRUCT_JOBID (OMPI_JOB_FAMILY n) (OMPI_LOCAL_JOBID n) = n"
  unfolding OMPI_CONSTRUCT_JOBID_def OMPI_CONSTRUCT_LOCAL_JOBID_def OMPI_CONSTRUCT_JOB_FAMILY_def
    OMPI_JOB_FAMILY_def OMPI_LOCAL_JOBID_def masks
  by (rule bit_word_eqI) (auto simp: bit_simps simp del: push_bit_Suc)

text \<open>
  C34. Process names survive their encoding in a pointer. Every name whose local job id fits in 15 bits
  is encoded as an odd word, which no pointer to an \<open>ompi_proc_t\<close> is, and decoding gives the name
  back; so two such names with the same sentinel are equal.
\<close>

theorem sentinel_round_trip:
  assumes "OMPI_LOCAL_JOBID (jobid name) < 0x8000"
  shows "\<exists>s. ompi_proc_name_to_sentinel name = Some s \<and> s AND 1 = 1 \<and> ompi_proc_sentinel_to_name s = Some name"
proof -
  let ?l = "OMPI_LOCAL_JOBID (jobid name)" and ?f = "OMPI_JOB_FAMILY (jobid name)"
  have t: "take_bit 15 ?l = ?l" 
    by (rule unsigned_word_eqI [where 'a = nat])
      (use assms in \<open>simp add: unsigned_take_bit_eq take_bit_nat_eq_self word_less_nat_alt\<close>)
  have l: "bit ?l n \<Longrightarrow> n < 15" for n by (metis bit_take_bit_iff t)
  have f: "bit ?f n \<Longrightarrow> n < 16" for n
    unfolding OMPI_JOB_FAMILY_def masks by (simp add: bit_simps)
  have a: "?l AND 0x8000 = 0"
  proof -
    have "?l AND 0x8000 = (?l AND 0x7fff) AND 0x8000" using t unfolding take_bit_eq_mask masks by argo
    also have "\<dots> = ?l AND (0x7fff AND 0x8000)" by (rule and.assoc)
    finally show ?thesis by simp
  qed
  define s where "s = 0 OR 0x1 OR (push_bit 1 (ucast ?l) AND 0xfffe) OR (push_bit 16 (ucast ?f) AND 0xffff0000) OR
      (push_bit 32 (ucast (vpid name)) AND (0xffffffff00000000 :: u64))"
  have "ompi_proc_name_to_sentinel name = Some s"
    using a by (simp add: ompi_proc_name_to_sentinel_def s_def Let_def or.assoc)
  moreover have o: "s AND 0x1 = 1" unfolding s_def masks by (rule bit_word_eqI) (auto simp: bit_simps simp del: push_bit_Suc)
  moreover have "ucast (drop_bit 16 s AND 0xffff) = ?f" unfolding s_def masks
    by (rule bit_word_eqI) (use l f in \<open>auto simp: bit_simps simp del: push_bit_Suc drop_bit_Suc\<close>)
  moreover have "ucast (drop_bit 1 s AND 0x7fff) = ?l" unfolding s_def masks
    by (rule bit_word_eqI) (use l f in \<open>auto simp: bit_simps simp del: push_bit_Suc drop_bit_Suc\<close>)
  moreover have "ucast (drop_bit 32 s AND 0xffffffff) = vpid name" unfolding s_def masks
    by (rule bit_word_eqI) (use l f in \<open>auto simp: bit_simps simp del: push_bit_Suc drop_bit_Suc\<close>)
  ultimately show ?thesis by (simp add: ompi_proc_sentinel_to_name_def jobid_parts)
qed

theorem sentinel_round_trip_witness:
  "\<exists>s. ompi_proc_name_to_sentinel \<lparr>jobid = 0x12340001, vpid = 7\<rparr> = Some s \<and>
       ompi_proc_sentinel_to_name s = Some \<lparr>jobid = 0x12340001, vpid = 7\<rparr>"
  using sentinel_round_trip [of "\<lparr>jobid = 0x12340001, vpid = 7\<rparr>"]
  by (auto simp: OMPI_LOCAL_JOBID_def)


end
