(* ===== verification/Ompi_Group_Formats.thy ===== *)
theory Ompi_Group_Formats
  imports Mpi_Ucx_Prelude
begin

unbundle bit_operations_syntax

text \<open>
  The sparse storage formats of process groups: \<^verbatim>\<open>ompi/group/group_sporadic.c\<close>, \<^verbatim>\<open>group_strided.c\<close>
  and \<^verbatim>\<open>group_bitmap.c\<close>. A sparse group stores which ranks of its parent it contains: as ranges, as
  offset, stride and last element, or as a bitmap. Each format translates ranks in both directions. The
  locale states what a format promises; all three are interpretations of it. Ranks are C ints; \<open>None\<close> is
  undefined behaviour (an access outside an array, a division by zero, a shift by a negative amount).
\<close>

section \<open>Constants\<close>

definition MPI_UNDEFINED :: int where "MPI_UNDEFINED = -32766"
definition MPI_PROC_NULL :: int where "MPI_PROC_NULL = -2"

section \<open>The contract of a format\<close>

text \<open>The position of the first occurrence of \<open>x\<close>, or \<open>MPI_UNDEFINED\<close>.\<close>

definition rank_of :: "'a list \<Rightarrow> 'a \<Rightarrow> int" where
  "rank_of xs x = (if x \<in> set xs then int (length (takeWhile (\<lambda>y. y \<noteq> x) xs)) else MPI_UNDEFINED)"

lemma rank_of_in: "x \<in> set xs \<Longrightarrow> 0 \<le> rank_of xs x \<and> rank_of xs x < int (length xs) \<and> xs ! nat (rank_of xs x) = x"
proof -
  assume x: "x \<in> set xs"
  then have "length (takeWhile (\<lambda>y. y \<noteq> x) xs) < length xs \<and> xs ! length (takeWhile (\<lambda>y. y \<noteq> x) xs) = x"
    by (induction xs) auto
  with x show ?thesis by (simp add: rank_of_def)
qed

lemma rank_of_nth: "distinct xs \<Longrightarrow> i < length xs \<Longrightarrow> rank_of xs (xs ! i) = int i"
  using rank_of_in [of "xs ! i" xs] nth_eq_iff_index_eq [of xs "nat (rank_of xs (xs ! i))" i]
  by (simp add: nat_less_iff) linarith

lemma rank_of_notin [simp]: "x \<notin> set xs \<Longrightarrow> rank_of xs x = MPI_UNDEFINED"
  by (simp add: rank_of_def)

lemma rank_of_append:
  "rank_of (xs @ ys) x =
     (if x \<in> set xs then rank_of xs x
      else if x \<in> set ys then int (length xs) + rank_of ys x else MPI_UNDEFINED)"
proof (cases "x \<in> set xs")
  case True
  then show ?thesis by (auto simp: rank_of_def takeWhile_append1)
next
  case False
  then have "takeWhile (\<lambda>y. y \<noteq> x) (xs @ ys) = xs @ takeWhile (\<lambda>y. y \<noteq> x) ys"
    by (intro takeWhile_append2) auto
  with False show ?thesis by (simp add: rank_of_def)
qed

lemma rank_of_upto: "a \<le> x \<Longrightarrow> x \<le> b \<Longrightarrow> rank_of [a..b] x = x - a"
proof -
  assume x: "a \<le> x" "x \<le> b"
  then have "x = [a..b] ! nat (x - a)" "nat (x - a) < length [a..b]" by auto
  then have "rank_of [a..b] x = int (nat (x - a))" using rank_of_nth [of "[a..b]" "nat (x - a)"] by simp
  then show ?thesis using x by simp
qed

text \<open>
  \<open>fmt_ok d n\<close>: \<open>d\<close> is valid for a parent of \<open>n\<close> processes. \<open>ranks d\<close> lists the parent's ranks in the order
  of the group. The third argument of \<open>to_parent\<close> is what the output variable held before the call.
\<close>

locale sparse_format =
  fixes fmt_ok :: "'d \<Rightarrow> int \<Rightarrow> bool"
    and ranks :: "'d \<Rightarrow> int list"
    and to_child :: "'d \<Rightarrow> int \<Rightarrow> int option"
    and to_parent :: "'d \<Rightarrow> int \<Rightarrow> int \<Rightarrow> int option"
  assumes ranks_law: "fmt_ok d n \<Longrightarrow> distinct (ranks d) \<and> set (ranks d) \<subseteq> {0..<n}"
    and to_parent_law: "fmt_ok d n \<Longrightarrow> 0 \<le> i \<Longrightarrow> i < int (length (ranks d)) \<Longrightarrow>
      to_parent d i old = Some (ranks d ! nat i)"
    and to_child_law: "fmt_ok d n \<Longrightarrow> 0 \<le> r \<Longrightarrow> r < n \<Longrightarrow> to_child d r = Some (rank_of (ranks d) r)"
begin

lemma child_parent_child:
  assumes "fmt_ok d n" and "0 \<le> i" and "i < int (length (ranks d))"
  shows "\<exists>r. to_parent d i old = Some r \<and> 0 \<le> r \<and> r < n \<and> to_child d r = Some i"
proof -
  have "ranks d ! nat i \<in> set (ranks d)" using assms(2,3) by simp
  then have "0 \<le> ranks d ! nat i" "ranks d ! nat i < n" using ranks_law [OF assms(1)] by auto
  then show ?thesis
    using to_parent_law [OF assms] to_child_law [OF assms(1)] rank_of_nth [of "ranks d" "nat i"]
      ranks_law [OF assms(1)] assms(2,3) by simp
qed

lemma parent_child_parent:
  assumes "fmt_ok d n" and "r \<in> set (ranks d)"
  shows "\<exists>i. to_child d r = Some i \<and> to_parent d i old = Some r"
proof -
  have "0 \<le> r" "r < n" using ranks_law [OF assms(1)] assms(2) by auto
  then show ?thesis
    using to_child_law [OF assms(1)] to_parent_law [OF assms(1)] rank_of_in [OF assms(2)] by simp
qed

lemma outside_undefined:
  assumes "fmt_ok d n" and "0 \<le> r" and "r < n" and "r \<notin> set (ranks d)"
  shows "to_child d r = Some MPI_UNDEFINED"
  using to_child_law [OF assms(1-3)] assms(4) by simp

end

section \<open>Sporadic\<close>

text \<open>A range is its first rank and its length.\<close>

type_synonym sporadic_list = "(int \<times> int) list"

text \<open>\<open>ranks[i - 1]\<close> is read at \<open>i = 0\<close>; \<open>before\<close> is the value found there. The storage space is a \<open>size_t\<close>
  that is converted to \<open>int\<close>.\<close>

fun sporadic_count :: "int \<Rightarrow> int list \<Rightarrow> int \<Rightarrow> int" where
  "sporadic_count prev [] l = l"
| "sporadic_count prev (r # rs) l =
     sporadic_count r rs (if r = prev + 1 then (if l = 0 then l + 1 else l) else l + 1)"

definition ompi_group_calc_sporadic :: "int \<Rightarrow> int list \<Rightarrow> int" where
  "ompi_group_calc_sporadic before ranks = to_int (8 * sporadic_count before ranks 0)"

fun translate_sporadic :: "sporadic_list \<Rightarrow> int \<Rightarrow> int \<Rightarrow> int" where
  "translate_sporadic [] r count = MPI_UNDEFINED"
| "translate_sporadic ((f, len) # rs) r count =
     (if f \<le> r \<and> r \<le> f + len - 1 then r - f + count else translate_sporadic rs r (count + len))"

definition sporadic_to_child :: "sporadic_list \<Rightarrow> int \<Rightarrow> int option" where
  "sporadic_to_child d r = Some (if r = MPI_PROC_NULL then MPI_PROC_NULL else translate_sporadic d r 0)"

fun translate_sporadic_reverse :: "sporadic_list \<Rightarrow> int \<Rightarrow> int \<Rightarrow> int \<Rightarrow> int" where
  "translate_sporadic_reverse [] r count old = old"
| "translate_sporadic_reverse ((f, len) # rs) r count old =
     (if r > count + len - 1 then translate_sporadic_reverse rs r (count + len) old else f + (r - count))"

definition sporadic_to_parent :: "sporadic_list \<Rightarrow> int \<Rightarrow> int \<Rightarrow> int option" where
  "sporadic_to_parent d r old =
     Some (if r = MPI_PROC_NULL then MPI_PROC_NULL else translate_sporadic_reverse d r 0 old)"

text \<open>The ranges \<open>ompi_group_incl_spor\<close> builds; the current range is \<open>(f, len)\<close> and \<open>prev\<close> the last rank read.\<close>

fun sporadic_build :: "int \<Rightarrow> int \<Rightarrow> int \<Rightarrow> int list \<Rightarrow> sporadic_list" where
  "sporadic_build f len prev [] = [(f, len)]"
| "sporadic_build f len prev (r # rs) =
     (if r = prev + 1 then sporadic_build f (len + 1) r rs else (f, len) # sporadic_build r 1 r rs)"

definition sporadic_of :: "int list \<Rightarrow> sporadic_list" where
  "sporadic_of ranks = (case ranks of [] \<Rightarrow> [] | r # rs \<Rightarrow> sporadic_build r 1 r rs)"

definition sporadic_ranks :: "sporadic_list \<Rightarrow> int list" where
  "sporadic_ranks d = concat (map (\<lambda>(f, len). [f..f + len - 1]) d)"

definition sporadic_ok :: "sporadic_list \<Rightarrow> int \<Rightarrow> bool" where
  "sporadic_ok d n \<longleftrightarrow> (\<forall>(f, len) \<in> set d. 0 < len) \<and> distinct (sporadic_ranks d) \<and>
     (\<forall>r \<in> set (sporadic_ranks d). 0 \<le> r \<and> r < n)"

lemma sporadic_ranks_simps [simp]:
  "sporadic_ranks [] = []" "sporadic_ranks ((f, len) # d) = [f..f + len - 1] @ sporadic_ranks d"
  by (simp_all add: sporadic_ranks_def)

lemma translate_sporadic_rank:
  "\<forall>(f, len) \<in> set d. 0 < len \<Longrightarrow>
     translate_sporadic d r count =
       (if r \<in> set (sporadic_ranks d) then count + rank_of (sporadic_ranks d) r else MPI_UNDEFINED)"
  by (induction d arbitrary: count) (auto simp: rank_of_append rank_of_upto)

lemma translate_sporadic_reverse_nth:
  "\<forall>(f, len) \<in> set d. 0 < len \<Longrightarrow> count \<le> r \<Longrightarrow> r < count + int (length (sporadic_ranks d)) \<Longrightarrow>
     translate_sporadic_reverse d r count old = sporadic_ranks d ! nat (r - count)"
proof (induction d arbitrary: count)
  case (Cons a d)
  obtain f len where a: "a = (f, len)" by fastforce
  have len: "0 < len" using Cons.prems(1) a by auto
  show ?case
  proof (cases "r > count + len - 1")
    case True
    then have "translate_sporadic_reverse d r (count + len) old = sporadic_ranks d ! nat (r - (count + len))"
      using Cons.prems len a by (intro Cons.IH) auto
    moreover have "nat (r - count) - nat len = nat (r - (count + len))" using True len by linarith
    ultimately show ?thesis using True a len by (simp add: nth_append)
  next
    case False
    then show ?thesis using a len Cons.prems(2) by (simp add: nth_append)
  qed
qed simp

interpretation spor: sparse_format sporadic_ok sporadic_ranks sporadic_to_child sporadic_to_parent
proof
  fix d n assume "sporadic_ok d n"
  then show "distinct (sporadic_ranks d) \<and> set (sporadic_ranks d) \<subseteq> {0..<n}" by (auto simp: sporadic_ok_def)
next
  fix d n i old assume "sporadic_ok d n" "0 \<le> i" "i < int (length (sporadic_ranks d))"
  then show "sporadic_to_parent d i old = Some (sporadic_ranks d ! nat i)"
    using translate_sporadic_reverse_nth [of d 0 i old]
    by (simp add: sporadic_to_parent_def sporadic_ok_def MPI_PROC_NULL_def)
next
  fix d n r assume "sporadic_ok d n" "0 \<le> r" "r < n"
  then show "sporadic_to_child d r = Some (rank_of (sporadic_ranks d) r)"
    using translate_sporadic_rank [of d r 0]
    by (simp add: sporadic_to_child_def sporadic_ok_def MPI_PROC_NULL_def)
qed

lemma sporadic_build_ranks:
  "0 < len \<Longrightarrow> prev = f + len - 1 \<Longrightarrow>
     sporadic_ranks (sporadic_build f len prev rs) = [f..prev] @ rs \<and>
     (\<forall>(f, len) \<in> set (sporadic_build f len prev rs). 0 < len)"
proof (induction rs arbitrary: f len prev)
  case (Cons r rs)
  show ?case
  proof (cases "r = prev + 1")
    case True
    have "[f..prev + 1] = [f..prev] @ [prev + 1]" using Cons.prems upto_rec2 [of f "prev + 1"] by simp
    then show ?thesis using True Cons.IH [of "len + 1" r f] Cons.prems by simp
  next
    case False
    then show ?thesis using Cons.IH [of 1 r r] Cons.prems by auto
  qed
qed simp

lemma sporadic_of_ranks: "sporadic_ranks (sporadic_of ranks) = ranks"
  and sporadic_of_positive: "\<forall>(f, len) \<in> set (sporadic_of ranks). 0 < len"
proof -
  have "sporadic_ranks (sporadic_build r 1 r rs) = r # rs" "\<forall>(f, len) \<in> set (sporadic_build r 1 r rs). 0 < len"
    for r rs using sporadic_build_ranks [of 1 r r rs] by simp_all
  then show "sporadic_ranks (sporadic_of ranks) = ranks" "\<forall>(f, len) \<in> set (sporadic_of ranks). 0 < len"
    by (cases ranks; simp add: sporadic_of_def)+
qed

lemma sporadic_of_length: "ranks \<noteq> [] \<Longrightarrow> length (sporadic_of ranks) \<le> length ranks" "ranks \<noteq> [] \<Longrightarrow> sporadic_of ranks \<noteq> []"
proof -
  have "length (sporadic_build f len prev rs) \<le> Suc (length rs) \<and> sporadic_build f len prev rs \<noteq> []" for f len prev rs
    by (induction rs arbitrary: f len prev) (auto intro: le_SucI)
  then show "ranks \<noteq> [] \<Longrightarrow> length (sporadic_of ranks) \<le> length ranks" "ranks \<noteq> [] \<Longrightarrow> sporadic_of ranks \<noteq> []"
    by (cases ranks; simp add: sporadic_of_def)+
qed

text \<open>The array the ranges are written to is allocated with the length counted first: it is long enough.\<close>

lemma sporadic_count_build:
  "0 < l \<Longrightarrow> sporadic_count prev rs l = l - 1 + int (length (sporadic_build f len prev rs))"
proof (induction rs arbitrary: l prev f len)
  case (Cons r rs)
  show ?case
    using Cons.IH [of l r f "len + 1"] Cons.IH [of "l + 1" r r 1] Cons.prems
    by (cases "r = prev + 1") simp_all
qed simp

lemma sporadic_count_of: "sporadic_count before ranks 0 = int (length (sporadic_of ranks))"
  using sporadic_count_build [of 1] by (cases ranks) (force simp: sporadic_of_def)+

section \<open>Strided\<close>

record strided_data =
  strided_offset :: int
  strided_stride :: int
  strided_last :: int

fun stride_loop :: "int \<Rightarrow> int list \<Rightarrow> int" where
  "stride_loop s (a # b # rs) = (if b - a \<noteq> s then -1 else stride_loop s (b # rs))"
| "stride_loop s rs = s"

definition check_stride :: "int list \<Rightarrow> int" where
  "check_stride incl =
     (let s = (case incl of a # b # _ \<Rightarrow> b - a | _ \<Rightarrow> 1) in if s < 0 then -1 else stride_loop s incl)"

definition ompi_group_calc_strided :: "int list \<Rightarrow> int" where
  "ompi_group_calc_strided ranks = (if check_stride ranks = -1 then -1 else 4 * 3)"

text \<open>C's \<open>%\<close> and \<open>/\<close> are only applied to a difference that is not negative.\<close>

definition strided_to_child :: "strided_data \<Rightarrow> int \<Rightarrow> int option" where
  "strided_to_child d r =
     (let s = strided_stride d; off = strided_offset d; l = strided_last d in
      if r = MPI_PROC_NULL then Some MPI_PROC_NULL
      else if r - off \<ge> 0
      then (if s = 0 then None
            else if (r - off) mod s = 0 \<and> r \<le> l then Some ((r - off) div s) else Some MPI_UNDEFINED)
      else Some MPI_UNDEFINED)"

definition strided_to_parent :: "strided_data \<Rightarrow> int \<Rightarrow> int \<Rightarrow> int option" where
  "strided_to_parent d r old =
     Some (if r = MPI_PROC_NULL then MPI_PROC_NULL else strided_stride d * r + strided_offset d)"

definition strided_ranks :: "strided_data \<Rightarrow> int list" where
  "strided_ranks d =
     map (\<lambda>i. strided_stride d * i + strided_offset d)
       [0..(strided_last d - strided_offset d) div strided_stride d]"

definition strided_ok :: "strided_data \<Rightarrow> int \<Rightarrow> bool" where
  "strided_ok d n \<longleftrightarrow> 0 < strided_stride d \<and> 0 \<le> strided_offset d \<and> strided_offset d \<le> strided_last d \<and>
     strided_last d < n \<and> (strided_last d - strided_offset d) mod strided_stride d = 0"

lemma strided_member:
  assumes "strided_ok d n"
  shows "r \<in> set (strided_ranks d) \<longleftrightarrow>
    0 \<le> r - strided_offset d \<and> (r - strided_offset d) mod strided_stride d = 0 \<and> r \<le> strided_last d"
proof -
  let ?s = "strided_stride d" and ?o = "strided_offset d" and ?l = "strided_last d"
  have s: "0 < ?s" and l: "?s * ((?l - ?o) div ?s) = ?l - ?o"
    using assms by (auto simp: strided_ok_def mult_div_mod_eq [symmetric] mod_0_imp_dvd)
  show ?thesis
  proof
    assume "r \<in> set (strided_ranks d)"
    then obtain i where i: "r = ?s * i + ?o" "0 \<le> i" "i \<le> (?l - ?o) div ?s"
      unfolding strided_ranks_def set_map set_upto by (meson atLeastAtMost_iff imageE)
    have "?s * i \<le> ?s * ((?l - ?o) div ?s)" using i(3) s by simp
    then show "0 \<le> r - ?o \<and> (r - ?o) mod ?s = 0 \<and> r \<le> ?l" using i s l by simp
  next
    assume r: "0 \<le> r - ?o \<and> (r - ?o) mod ?s = 0 \<and> r \<le> ?l"
    then have "r = ?s * ((r - ?o) div ?s) + ?o" by (simp add: mod_0_imp_dvd)
    moreover have "0 \<le> (r - ?o) div ?s" "(r - ?o) div ?s \<le> (?l - ?o) div ?s"
      using r s by (auto simp: pos_imp_zdiv_nonneg_iff intro: zdiv_mono1)
    ultimately show "r \<in> set (strided_ranks d)" unfolding strided_ranks_def by (auto simp: image_iff)
  qed
qed

lemma strided_distinct: "strided_ok d n \<Longrightarrow> distinct (strided_ranks d)"
  by (auto simp: strided_ranks_def distinct_map strided_ok_def inj_on_def)

lemma strided_nth:
  assumes "0 \<le> i" and "i < int (length (strided_ranks d))"
  shows "strided_ranks d ! nat i = strided_stride d * i + strided_offset d"
proof -
  have "nat i < length [0..(strided_last d - strided_offset d) div strided_stride d]"
    using assms unfolding strided_ranks_def length_map by linarith
  then show ?thesis using assms(1) by (simp add: strided_ranks_def)
qed

interpretation strd: sparse_format strided_ok strided_ranks strided_to_child strided_to_parent
proof
  fix d n assume ok: "strided_ok d n"
  then show "distinct (strided_ranks d) \<and> set (strided_ranks d) \<subseteq> {0..<n}"
    using strided_distinct strided_member [OF ok] by (force simp: strided_ok_def)
next
  fix d n i old assume "strided_ok d n" "0 \<le> i" "i < int (length (strided_ranks d))"
  then show "strided_to_parent d i old = Some (strided_ranks d ! nat i)"
    using strided_nth [of i d] by (simp add: strided_to_parent_def MPI_PROC_NULL_def)
next
  fix d n r assume ok: "strided_ok d n" and r: "0 \<le> r" "r < n"
  show "strided_to_child d r = Some (rank_of (strided_ranks d) r)"
  proof (cases "r \<in> set (strided_ranks d)")
    case True
    let ?i = "(r - strided_offset d) div strided_stride d"
    have s: "0 < strided_stride d" using ok by (simp add: strided_ok_def)
    have m: "0 \<le> r - strided_offset d" "(r - strided_offset d) mod strided_stride d = 0" "r \<le> strided_last d"
      using True strided_member [OF ok] by auto
    have i: "0 \<le> ?i" "?i < int (length (strided_ranks d))"
      using m s zdiv_mono1 [of "r - strided_offset d" "strided_last d - strided_offset d" "strided_stride d"]
      by (auto simp: strided_ranks_def pos_imp_zdiv_nonneg_iff)
    have "r = strided_ranks d ! nat ?i"
      using strided_nth [OF i] m(2) by (simp add: mod_0_imp_dvd)
    then have "rank_of (strided_ranks d) r = ?i"
      using rank_of_nth [OF strided_distinct [OF ok], of "nat ?i"] i by (simp add: nat_less_iff)
    then show ?thesis using m s r by (simp add: strided_to_child_def Let_def MPI_PROC_NULL_def)
  next
    case False
    then show ?thesis using strided_member [OF ok] ok r
      by (auto simp: strided_to_child_def Let_def MPI_PROC_NULL_def strided_ok_def)
  qed
qed

text \<open>What \<open>check_stride\<close> accepts: the arithmetic progressions that do not decrease.\<close>

lemma stride_loop_correct:
  "0 \<le> s \<Longrightarrow> stride_loop s rs \<noteq> -1 \<Longrightarrow> stride_loop s rs = s \<and> rs = map (\<lambda>i. s * i + hd rs) [0..int (length rs) - 1]"
proof (induction s rs rule: stride_loop.induct)
  case (1 s a b rs)
  then have b: "b = a + s" and IH: "stride_loop s (b # rs) = s"
    "b # rs = map (\<lambda>i. s * i + b) [0..int (length (b # rs)) - 1]"
    by (auto split: if_splits)
  have shift: "map (\<lambda>i. s * i + b) [0..k - 1] = map (\<lambda>i. s * i + a) [1..k]" for k
  proof (rule nth_equalityI)
    fix i assume "i < length (map (\<lambda>i. s * i + b) [0..k - 1])"
    then show "map (\<lambda>i. s * i + b) [0..k - 1] ! i = map (\<lambda>i. s * i + a) [1..k] ! i"
      using b by (simp add: algebra_simps)
  qed simp
  have "map (\<lambda>i. s * i + a) [0..int (length (a # b # rs)) - 1] =
      a # map (\<lambda>i. s * i + a) [1..int (length (b # rs))]"
    by (subst upto_rec1) simp_all
  also have "\<dots> = a # b # rs" using IH(2) shift [of "int (length (b # rs))"] by simp
  finally show ?case using b IH(1) by simp
qed simp_all

definition strided_of :: "int list \<Rightarrow> strided_data" where
  "strided_of ranks =
     \<lparr>strided_offset = ranks ! 0, strided_stride = check_stride ranks, strided_last = ranks ! (length ranks - 1)\<rparr>"

lemma strided_of_correct:
  assumes "check_stride ranks \<noteq> -1" and "ranks \<noteq> []" and "distinct ranks" and "set ranks \<subseteq> {0..<n}"
  shows "strided_ok (strided_of ranks) n" and "strided_ranks (strided_of ranks) = ranks"
proof -
  let ?s = "check_stride ranks" and ?len = "int (length ranks)"
  have s: "0 < ?s" and p: "ranks = map (\<lambda>i. ?s * i + hd ranks) [0..?len - 1]"
  proof -
    define s where "s = (case ranks of a # b # _ \<Rightarrow> b - a | _ \<Rightarrow> 1)"
    have cs: "?s = stride_loop s ranks" "0 \<le> s"
      using assms(1) by (auto simp: check_stride_def Let_def s_def split: if_splits)
    then have l: "stride_loop s ranks = s" "ranks = map (\<lambda>i. s * i + hd ranks) [0..?len - 1]"
      using stride_loop_correct [of s ranks] assms(1) by auto
    show "0 < ?s" using assms(3) cs l(1) by (auto simp: s_def split: list.splits)
    show "ranks = map (\<lambda>i. ?s * i + hd ranks) [0..?len - 1]" using l cs by simp
  qed
  have len: "0 < ?len" using assms(2) by simp
  have nth: "ranks ! i = ?s * int i + hd ranks" if "i < length ranks" for i
    by (subst p) (use that in simp)
  have first: "ranks ! 0 = hd ranks" and last: "ranks ! (length ranks - 1) = ?s * (?len - 1) + hd ranks"
    using nth [of 0] nth [of "length ranks - 1"] len by (auto simp: of_nat_diff)
  have div: "(ranks ! (length ranks - 1) - ranks ! 0) div ?s = ?len - 1" using first last s by simp
  have "0 \<le> ranks ! 0" "ranks ! (length ranks - 1) < n"
    using assms(2,4) by (metis atLeastLessThan_iff diff_less length_greater_0_conv nth_mem subsetD zero_less_one)+
  then show "strided_ok (strided_of ranks) n"
    using s len first last by (simp add: strided_ok_def strided_of_def)
  show "strided_ranks (strided_of ranks) = ranks"
    using p div first by (simp add: strided_ranks_def strided_of_def)
qed

section \<open>Bitmap\<close>

declare push_bit_of_1 [simp del]

definition BSIZE :: int where "BSIZE = 8"

definition ompi_group_div_ceil :: "int \<Rightarrow> int \<Rightarrow> int" where
  "ompi_group_div_ceil num den = (if num mod den = 0 then num div den else num div den + 1)"

fun check_ranks :: "int list \<Rightarrow> bool" where
  "check_ranks (a # b # rs) = (if a > b then False else check_ranks (b # rs))"
| "check_ranks rs = True"

definition ompi_group_calc_bmap :: "int \<Rightarrow> int list \<Rightarrow> int" where
  "ompi_group_calc_bmap orig_size ranks =
     (if check_ranks ranks then ompi_group_div_ceil orig_size BSIZE else -1)"

text \<open>The test \<open>tmp == (array[j / BSIZE] & (1 << (j % BSIZE)))\<close> with \<open>tmp\<close> the mask of the bit.\<close>

definition bmap_test :: "u8 list \<Rightarrow> int \<Rightarrow> bool option" where
  "bmap_test arr j =
     (case arr_get arr (j div BSIZE) of
        None \<Rightarrow> None
      | Some a \<Rightarrow> Some (push_bit (nat (j mod BSIZE)) 1 = a AND push_bit (nat (j mod BSIZE)) 1))"

text \<open>The two nested loops over words and bits run over the positions in order; \<open>count\<close> is the number of
  bits seen set.\<close>

fun bmap_count_loop :: "u8 list \<Rightarrow> int \<Rightarrow> int list \<Rightarrow> int \<Rightarrow> int option" where
  "bmap_count_loop arr m [] count = Some MPI_UNDEFINED"
| "bmap_count_loop arr m (j # js) count =
     (case bmap_test arr j of
        None \<Rightarrow> None
      | Some b \<Rightarrow>
          (let count' = (if b then count + 1 else count)
           in if j = m then Some (count' - 1) else bmap_count_loop arr m js count'))"

definition bitmap_to_child :: "u8 list \<Rightarrow> int \<Rightarrow> int option" where
  "bitmap_to_child arr m =
     (if m = MPI_PROC_NULL then Some MPI_PROC_NULL
      else if m < 0 then None
      else
        (case bmap_test arr m of
           None \<Rightarrow> None
         | Some b \<Rightarrow>
             (if b then bmap_count_loop arr m [0..BSIZE * (m div BSIZE + 1) - 1] 0 else Some MPI_UNDEFINED)))"

fun bmap_find_loop :: "u8 list \<Rightarrow> int \<Rightarrow> int list \<Rightarrow> int \<Rightarrow> int \<Rightarrow> int option" where
  "bmap_find_loop arr m [] count old = Some old"
| "bmap_find_loop arr m (j # js) count old =
     (case bmap_test arr j of
        None \<Rightarrow> None
      | Some b \<Rightarrow>
          (let count' = (if b then count + 1 else count)
           in if m = count' - 1 then Some j else bmap_find_loop arr m js count' old))"

definition bitmap_to_parent :: "u8 list \<Rightarrow> int \<Rightarrow> int \<Rightarrow> int option" where
  "bitmap_to_parent arr m old =
     (if m = MPI_PROC_NULL then Some MPI_PROC_NULL
      else bmap_find_loop arr m [0..BSIZE * int (length arr) - 1] 0 old)"

text \<open>The loop of \<open>ompi_group_incl_bmap\<close> that sets the bits.\<close>

fun bmap_set_loop :: "u8 list \<Rightarrow> int list \<Rightarrow> u8 list option" where
  "bmap_set_loop arr [] = Some arr"
| "bmap_set_loop arr (r # rs) =
     (if r < 0 then None
      else
        (case arr_get arr (r div BSIZE) of
           None \<Rightarrow> None
         | Some a \<Rightarrow>
             (case arr_set arr (r div BSIZE) (a OR push_bit (nat (r mod BSIZE)) 1) of
                None \<Rightarrow> None
              | Some arr' \<Rightarrow> bmap_set_loop arr' rs)))"

definition bitmap_of :: "int \<Rightarrow> int list \<Rightarrow> u8 list option" where
  "bitmap_of orig_size ranks = bmap_set_loop (replicate (nat (ompi_group_div_ceil orig_size BSIZE)) 0) ranks"

definition bmap_bit :: "u8 list \<Rightarrow> int \<Rightarrow> bool" where
  "bmap_bit arr j = bit (arr ! nat (j div BSIZE)) (nat (j mod BSIZE))"

definition bitmap_ranks :: "u8 list \<Rightarrow> int list" where
  "bitmap_ranks arr = filter (bmap_bit arr) [0..BSIZE * int (length arr) - 1]"

definition bitmap_ok :: "u8 list \<Rightarrow> int \<Rightarrow> bool" where
  "bitmap_ok arr n \<longleftrightarrow> n \<le> BSIZE * int (length arr) \<and> (\<forall>r \<in> set (bitmap_ranks arr). r < n)"

lemma mask_test: "k < 8 \<Longrightarrow> push_bit k 1 = a AND push_bit k 1 \<longleftrightarrow> bit a k" for a :: u8
proof
  assume k: "k < 8" and "push_bit k 1 = a AND push_bit k 1"
  then have "bit (push_bit k 1 :: u8) k = bit (a AND push_bit k 1) k" by simp
  then show "bit a k" using k by (simp add: bit_simps)
next
  assume "k < 8" and "bit a k"
  then show "push_bit k 1 = a AND push_bit k 1"
    by (intro bit_word_eqI) (auto simp: bit_simps)
qed

lemma bmap_index:
  assumes "0 \<le> j" and "j < BSIZE * int (length arr)"
  shows "nat (j div BSIZE) < length arr" and "0 \<le> j div BSIZE" and "nat (j mod BSIZE) < 8"
  using assms by (auto simp: BSIZE_def)

lemma bmap_test_bit:
  assumes "0 \<le> j" and "j < BSIZE * int (length arr)"
  shows "bmap_test arr j = Some (bmap_bit arr j)"
  using bmap_index [OF assms] by (simp add: bmap_test_def bmap_bit_def arr_get_in mask_test)

lemma rank_of_Cons:
  "rank_of (y # ys) x = (if x = y then 0 else if x \<in> set ys then 1 + rank_of ys x else MPI_UNDEFINED)"
  by (auto simp: rank_of_def)

lemma bmap_count_loop_rank:
  "set js \<subseteq> {0..<BSIZE * int (length arr)} \<Longrightarrow> m \<in> set js \<Longrightarrow> bmap_bit arr m \<Longrightarrow>
     bmap_count_loop arr m js count = Some (count + rank_of (filter (bmap_bit arr) js) m)"
  by (induction js arbitrary: count) (auto simp: bmap_test_bit rank_of_Cons Let_def)

lemma bmap_find_loop_nth:
  "set js \<subseteq> {0..<BSIZE * int (length arr)} \<Longrightarrow> count \<le> m \<Longrightarrow>
     m - count < int (length (filter (bmap_bit arr) js)) \<Longrightarrow>
     bmap_find_loop arr m js count old = Some (filter (bmap_bit arr) js ! nat (m - count))"
proof (induction js arbitrary: count)
  case (Cons j js)
  show ?case
  proof (cases "bmap_bit arr j \<and> m \<noteq> count")
    case True
    then have "bmap_find_loop arr m js (count + 1) old = Some (filter (bmap_bit arr) js ! nat (m - (count + 1)))"
      using Cons.prems by (intro Cons.IH) auto
    moreover have "nat (m - count) = Suc (nat (m - (count + 1)))" using True Cons.prems(2) by linarith
    ultimately show ?thesis using True Cons.prems by (simp add: bmap_test_bit Let_def)
  next
    case False
    then show ?thesis using Cons by (auto simp: bmap_test_bit Let_def)
  qed
qed simp

interpretation bmap: sparse_format bitmap_ok bitmap_ranks bitmap_to_child bitmap_to_parent
proof
  fix d n assume "bitmap_ok d n"
  then show "distinct (bitmap_ranks d) \<and> set (bitmap_ranks d) \<subseteq> {0..<n}"
    by (auto simp: bitmap_ok_def bitmap_ranks_def)
next
  fix d n i old assume "bitmap_ok d n" "0 \<le> i" "i < int (length (bitmap_ranks d))"
  moreover have "set [0..BSIZE * int (length d) - 1] \<subseteq> {0..<BSIZE * int (length d)}" by auto
  ultimately show "bitmap_to_parent d i old = Some (bitmap_ranks d ! nat i)"
    using bmap_find_loop_nth [of "[0..BSIZE * int (length d) - 1]" d 0 i old]
    by (auto simp: bitmap_to_parent_def bitmap_ranks_def MPI_PROC_NULL_def)
next
  fix d n r assume ok: "bitmap_ok d n" and r: "0 \<le> r" "r < n"
  let ?a = "BSIZE * (r div BSIZE + 1)" and ?b = "BSIZE * int (length d)"
  have rb: "r < ?b" using ok r by (simp add: bitmap_ok_def)
  have a: "r < ?a" "?a \<le> ?b" "0 \<le> ?a" using r rb unfolding BSIZE_def by presburger+
  have js: "[0..?b - 1] = [0..?a - 1] @ [?a..?b - 1]"
    using upto_split1 [of 0 ?a "?b - 1"] a upto_Nil2 by (cases "?a = ?b") auto
  show "bitmap_to_child d r = Some (rank_of (bitmap_ranks d) r)"
  proof (cases "bmap_bit d r")
    case True
    have "set [0..?a - 1] \<subseteq> {0..<?b}" using a by auto
    then have "bmap_count_loop d r [0..?a - 1] 0 = Some (rank_of (filter (bmap_bit d) [0..?a - 1]) r)"
      using bmap_count_loop_rank [of "[0..?a - 1]" d r 0] a r True by auto
    moreover have "rank_of (bitmap_ranks d) r = rank_of (filter (bmap_bit d) [0..?a - 1]) r"
      unfolding bitmap_ranks_def js using True a r by (simp add: rank_of_append)
    ultimately show ?thesis using True r rb by (simp add: bitmap_to_child_def bmap_test_bit MPI_PROC_NULL_def)
  next
    case False
    then have "r \<notin> set (bitmap_ranks d)" by (simp add: bitmap_ranks_def)
    then show ?thesis using False r rb by (simp add: bitmap_to_child_def bmap_test_bit MPI_PROC_NULL_def)
  qed
qed

subsection \<open>Building the bitmap\<close>

lemma check_ranks_sorted: "check_ranks rs = sorted rs"
  by (induction rs rule: check_ranks.induct) auto

lemma bmap_set_loop_correct:
  "set rs \<subseteq> {0..<BSIZE * int (length arr)} \<Longrightarrow>
     \<exists>arr'. bmap_set_loop arr rs = Some arr' \<and> length arr' = length arr \<and>
       (\<forall>j \<in> {0..<BSIZE * int (length arr)}. bmap_bit arr' j \<longleftrightarrow> bmap_bit arr j \<or> j \<in> set rs)"
proof (induction rs arbitrary: arr)
  case (Cons r rs)
  then have r: "0 \<le> r" "r < BSIZE * int (length arr)" by auto
  note ri = bmap_index [OF r]
  let ?a = "arr[nat (r div BSIZE) := arr ! nat (r div BSIZE) OR push_bit (nat (r mod BSIZE)) 1]"
  have bit: "bmap_bit ?a j \<longleftrightarrow> bmap_bit arr j \<or> j = r" if "0 \<le> j" "j < BSIZE * int (length arr)" for j
  proof (cases "j div BSIZE = r div BSIZE")
    case True
    have "j = r \<longleftrightarrow> nat (j mod BSIZE) = nat (r mod BSIZE)"
      using True mult_div_mod_eq [of BSIZE j] mult_div_mod_eq [of BSIZE r] by (auto simp: BSIZE_def nat_eq_iff)
    then show ?thesis
      using True ri bmap_index [OF that] by (auto simp: bmap_bit_def bit_simps)
  next
    case False
    then have "nat (j div BSIZE) \<noteq> nat (r div BSIZE)" using ri(2) bmap_index(2) [OF that] by linarith
    then show ?thesis using False by (auto simp: bmap_bit_def)
  qed
  obtain arr' where arr': "bmap_set_loop ?a rs = Some arr'" "length arr' = length ?a"
    "\<forall>j \<in> {0..<BSIZE * int (length ?a)}. bmap_bit arr' j \<longleftrightarrow> bmap_bit ?a j \<or> j \<in> set rs"
    using Cons.IH [of ?a] Cons.prems by auto
  have "bmap_set_loop arr (r # rs) = Some arr'" using arr'(1) r ri by (simp add: arr_get_in arr_set_in)
  then show ?case using arr' bit by auto
qed simp

lemma bitmap_of_correct:
  assumes "check_ranks ranks" and "distinct ranks" and "set ranks \<subseteq> {0..<n}" and "0 \<le> n"
  shows "\<exists>arr. bitmap_of n ranks = Some arr \<and> bitmap_ok arr n \<and> bitmap_ranks arr = ranks"
proof -
  let ?z = "replicate (nat (ompi_group_div_ceil n BSIZE)) 0 :: u8 list"
  have c: "n \<le> BSIZE * int (length ?z)"
    using assms(4) by (simp add: ompi_group_div_ceil_def BSIZE_def split: if_splits) presburger
  obtain arr where arr: "bitmap_of n ranks = Some arr" "length arr = length ?z"
    "\<forall>j \<in> {0..<BSIZE * int (length ?z)}. bmap_bit arr j \<longleftrightarrow> bmap_bit ?z j \<or> j \<in> set ranks"
    using bmap_set_loop_correct [of ranks ?z] assms(3) c by (force simp: bitmap_of_def)
  have "\<not> bmap_bit ?z j" if "0 \<le> j" "j < BSIZE * int (length ?z)" for j
    using bmap_index [OF that] by (simp add: bmap_bit_def)
  then have s: "set (bitmap_ranks arr) = set ranks"
    using arr(2,3) assms(3) c by (auto simp: bitmap_ranks_def)
  moreover have "sorted (bitmap_ranks arr)" "distinct (bitmap_ranks arr)" by (simp_all add: bitmap_ranks_def sorted_wrt_filter)
  ultimately have "bitmap_ranks arr = ranks"
    using assms(1,2) by (intro sorted_distinct_set_unique) (simp_all add: check_ranks_sorted)
  moreover have "bitmap_ok arr n" using arr(2) c s assms(3) by (auto simp: bitmap_ok_def)
  ultimately show ?thesis using arr(1) by blast
qed

section \<open>Properties\<close>

text \<open>
  C14. The sparse formats store exactly the ranks they are given. For any list of distinct ranks of a
  parent with \<open>n\<close> processes: the ranges of the sporadic format, the stride of the strided format when
  the ranks are accepted by \<open>check_stride\<close>, and the bitmap when they are accepted by \<open>check_ranks\<close>
  translate the \<open>i\<close>-th rank of the child to the \<open>i\<close>-th given rank of the parent and back, and translate
  every other rank of the parent to \<open>MPI_UNDEFINED\<close>; the ranges fit in the array that was counted for
  them, whatever the word before the array of ranks holds.
\<close>

theorem sparse_formats_round_trip:
  assumes "distinct ranks" and "set ranks \<subseteq> {0..<n}" and "ranks \<noteq> []" and "i < length ranks"
    and "0 \<le> r" and "r < n" and "r \<notin> set ranks"
  shows "sporadic_to_parent (sporadic_of ranks) (int i) old = Some (ranks ! i) \<and>
         sporadic_to_child (sporadic_of ranks) (ranks ! i) = Some (int i) \<and>
         sporadic_to_child (sporadic_of ranks) r = Some MPI_UNDEFINED \<and>
         int (length (sporadic_of ranks)) = sporadic_count before ranks 0 \<and>
         ompi_group_calc_sporadic before ranks = to_int (8 * int (length (sporadic_of ranks))) \<and>
         (check_stride ranks \<noteq> -1 \<longrightarrow>
            strided_to_parent (strided_of ranks) (int i) old = Some (ranks ! i) \<and>
            strided_to_child (strided_of ranks) (ranks ! i) = Some (int i) \<and>
            strided_to_child (strided_of ranks) r = Some MPI_UNDEFINED) \<and>
         (check_ranks ranks \<longrightarrow>
            (\<exists>arr. bitmap_of n ranks = Some arr \<and>
               bitmap_to_parent arr (int i) old = Some (ranks ! i) \<and>
               bitmap_to_child arr (ranks ! i) = Some (int i) \<and>
               bitmap_to_child arr r = Some MPI_UNDEFINED))"
proof -
  have n: "0 \<le> ranks ! i" "ranks ! i < n" using assms(2,4) nth_mem by fastforce+
  have ri: "rank_of ranks (ranks ! i) = int i" by (rule rank_of_nth [OF assms(1,4)])
  have so: "sporadic_ok (sporadic_of ranks) n"
    using assms(1,2) sporadic_of_positive [of ranks] by (auto simp: sporadic_ok_def sporadic_of_ranks)
  have "sporadic_to_parent (sporadic_of ranks) (int i) old = Some (ranks ! i)"
    "sporadic_to_child (sporadic_of ranks) (ranks ! i) = Some (int i)"
    "sporadic_to_child (sporadic_of ranks) r = Some MPI_UNDEFINED"
    using spor.to_parent_law [OF so, of "int i" old] spor.to_child_law [OF so n] spor.outside_undefined [OF so assms(5,6)]
      assms(4,7) ri by (simp_all add: sporadic_of_ranks)
  moreover have "int (length (sporadic_of ranks)) = sporadic_count before ranks 0"
      "ompi_group_calc_sporadic before ranks = to_int (8 * int (length (sporadic_of ranks)))"
    by (simp_all add: ompi_group_calc_sporadic_def sporadic_count_of)
  moreover have "strided_to_parent (strided_of ranks) (int i) old = Some (ranks ! i) \<and>
      strided_to_child (strided_of ranks) (ranks ! i) = Some (int i) \<and>
      strided_to_child (strided_of ranks) r = Some MPI_UNDEFINED" if c: "check_stride ranks \<noteq> -1"
    using strd.to_parent_law [OF strided_of_correct(1) [OF c assms(3,1,2)], of "int i" old]
      strd.to_child_law [OF strided_of_correct(1) [OF c assms(3,1,2)] n]
      strd.outside_undefined [OF strided_of_correct(1) [OF c assms(3,1,2)] assms(5,6)]
      assms(4,7) ri by (simp add: strided_of_correct(2) [OF c assms(3,1,2)])
  moreover have "\<exists>arr. bitmap_of n ranks = Some arr \<and> bitmap_to_parent arr (int i) old = Some (ranks ! i) \<and>
      bitmap_to_child arr (ranks ! i) = Some (int i) \<and> bitmap_to_child arr r = Some MPI_UNDEFINED"
    if c: "check_ranks ranks"
  proof -
    obtain arr where arr: "bitmap_of n ranks = Some arr" "bitmap_ok arr n" "bitmap_ranks arr = ranks"
      using bitmap_of_correct [OF c assms(1,2)] assms(5,6) by auto
    show ?thesis
      using arr(1) bmap.to_parent_law [OF arr(2), of "int i" old] bmap.to_child_law [OF arr(2) n]
        bmap.outside_undefined [OF arr(2) assms(5,6)] assms(4,7) ri by (simp add: arr(3))
  qed
  ultimately show ?thesis by blast
qed

theorem sparse_formats_round_trip_witness:
  "sporadic_to_child (sporadic_of [2, 4, 6]) 6 = Some 2 \<and> strided_to_child (strided_of [2, 4, 6]) 6 = Some 2 \<and>
   (\<exists>arr. bitmap_of 20 [2, 4, 6] = Some arr \<and> bitmap_to_child arr 6 = Some 2 \<and>
          bitmap_to_child arr 5 = Some MPI_UNDEFINED)"
  using sparse_formats_round_trip [of "[2, 4, 6]" 20 2 5]
  by (simp add: check_stride_def numeral_2_eq_2) blast

end
