(* ===== verification/Ompi_Group.thy ===== *)
theory Ompi_Group
  imports Ompi_Proc Ompi_Group_Formats
begin

text \<open>
  Process groups of Open MPI: \<^verbatim>\<open>ompi/group/group.h\<close>, \<^verbatim>\<open>group.c\<close>, \<^verbatim>\<open>group_init.c\<close>, \<^verbatim>\<open>group_set_rank.c\<close> and the
  functions of \<^verbatim>\<open>group_plist.c\<close>, \<^verbatim>\<open>group_sporadic.c\<close>, \<^verbatim>\<open>group_strided.c\<close> and \<^verbatim>\<open>group_bitmap.c\<close> that make a group from
  ranks of another. The build modelled has sparse groups (\<open>OMPI_GROUP_SPARSE\<close>); whether they are used is
  the run-time parameter \<open>ompi_use_sparse_group_storage\<close>. A group is an immutable value with an address;
  reference counts, the Fortran handle table and the instance pointer are left out. \<open>mem_ok\<close> is the outcome
  of the allocations of a call.
\<close>

section \<open>Groups\<close>

datatype ompi_group =
  Group (grp_addr: nat) (grp_proc_count: int) (grp_my_rank: int) (grp_data: grp_data)
and grp_data =
    Dense "ompi_proc list"
  | Sporadic ompi_group sporadic_list
  | Strided ompi_group strided_data
  | Bitmap ompi_group "u8 list"

text \<open>The predefined empty group is the object at address 0.\<close>

definition MPI_GROUP_EMPTY :: ompi_group where
  "MPI_GROUP_EMPTY = Group 0 0 MPI_UNDEFINED (Dense [])"

definition is_group_empty :: "ompi_group \<Rightarrow> bool" where
  "is_group_empty g = (grp_addr g = 0)"

definition grp_parent :: "ompi_group \<Rightarrow> ompi_group option" where
  "grp_parent g =
     (case grp_data g of
        Dense _ \<Rightarrow> None | Sporadic p _ \<Rightarrow> Some p | Strided p _ \<Rightarrow> Some p | Bitmap p _ \<Rightarrow> Some p)"

definition ompi_group_size :: "ompi_group \<Rightarrow> int" where
  "ompi_group_size g = grp_proc_count g"

definition ompi_group_rank :: "ompi_group \<Rightarrow> int" where
  "ompi_group_rank g = grp_my_rank g"

section \<open>Looking up processes\<close>

text \<open>One rank from a sparse group to its parent, as \<open>ompi_group_translate_ranks\<close> does it; a dense group has
  no parent.\<close>

fun data_to_parent :: "grp_data \<Rightarrow> int \<Rightarrow> int \<Rightarrow> int option" where
  "data_to_parent (Dense _) r old = None"
| "data_to_parent (Sporadic _ d) r old = sporadic_to_parent d r old"
| "data_to_parent (Strided _ d) r old = strided_to_parent d r old"
| "data_to_parent (Bitmap _ d) r old = bitmap_to_parent d r old"

fun data_to_child :: "grp_data \<Rightarrow> int \<Rightarrow> int option" where
  "data_to_child (Dense _) r = None"
| "data_to_child (Sporadic _ d) r = sporadic_to_child d r"
| "data_to_child (Strided _ d) r = strided_to_child d r"
| "data_to_child (Bitmap _ d) r = bitmap_to_child d r"

text \<open>The loop over the parents. The output variable of each translation is the rank itself.\<close>

fun ompi_group_get_proc_ptr_raw :: "ompi_group \<Rightarrow> int \<Rightarrow> ompi_proc option"
  and raw_data :: "grp_data \<Rightarrow> int \<Rightarrow> ompi_proc option" where
  "ompi_group_get_proc_ptr_raw (Group _ _ _ d) rank = raw_data d rank"
| "raw_data (Dense ps) rank = arr_get ps rank"
| "raw_data (Sporadic p d) rank =
     (case sporadic_to_parent d rank rank of None \<Rightarrow> None | Some r \<Rightarrow> ompi_group_get_proc_ptr_raw p r)"
| "raw_data (Strided p d) rank =
     (case strided_to_parent d rank rank of None \<Rightarrow> None | Some r \<Rightarrow> ompi_group_get_proc_ptr_raw p r)"
| "raw_data (Bitmap p d) rank =
     (case bitmap_to_parent d rank rank of None \<Rightarrow> None | Some r \<Rightarrow> ompi_group_get_proc_ptr_raw p r)"

definition ompi_group_get_proc_name :: "ompi_group \<Rightarrow> int \<Rightarrow> process_name option" where
  "ompi_group_get_proc_name g rank =
     (case ompi_group_get_proc_ptr_raw g rank of None \<Rightarrow> None | Some p \<Rightarrow> slot_name p)"

text \<open>
  \<open>ompi_group_dense_lookup\<close> on a process table: without \<open>allocate\<close> a sentinel reads as a null pointer; with
  it the sentinel is replaced in the table by the \<open>ompi_proc_t\<close> of its name, which \<open>ompi_proc_for_name\<close>
  finds or makes.
\<close>

definition ompi_group_dense_lookup ::
  "ompi_proc list \<Rightarrow> int \<Rightarrow> bool \<Rightarrow> (process_name option \<times> ompi_proc list) option" where
  "ompi_group_dense_lookup ps peer allocate =
     (case arr_get ps peer of
        None \<Rightarrow> None
      | Some (Proc n) \<Rightarrow> Some (Some n, ps)
      | Some (Sentinel s) \<Rightarrow>
          (if \<not> allocate then Some (None, ps)
           else
             (case ompi_proc_sentinel_to_name s of
                None \<Rightarrow> None
              | Some n \<Rightarrow> map_option (\<lambda>ps'. (Some n, ps')) (arr_set ps peer (Proc n)))))"

fun ompi_group_get_proc_ptr :: "ompi_group \<Rightarrow> int \<Rightarrow> bool \<Rightarrow> (process_name option \<times> ompi_group) option"
  and ptr_data :: "grp_data \<Rightarrow> int \<Rightarrow> bool \<Rightarrow> (process_name option \<times> grp_data) option" where
  "ompi_group_get_proc_ptr (Group a c m d) rank allocate =
     map_option (\<lambda>(r, d'). (r, Group a c m d')) (ptr_data d rank allocate)"
| "ptr_data (Dense ps) rank allocate =
     map_option (\<lambda>(r, ps'). (r, Dense ps')) (ompi_group_dense_lookup ps rank allocate)"
| "ptr_data (Sporadic p d) rank allocate =
     (case sporadic_to_parent d rank rank of
        None \<Rightarrow> None
      | Some r \<Rightarrow> map_option (\<lambda>(x, p'). (x, Sporadic p' d)) (ompi_group_get_proc_ptr p r allocate))"
| "ptr_data (Strided p d) rank allocate =
     (case strided_to_parent d rank rank of
        None \<Rightarrow> None
      | Some r \<Rightarrow> map_option (\<lambda>(x, p'). (x, Strided p' d)) (ompi_group_get_proc_ptr p r allocate))"
| "ptr_data (Bitmap p d) rank allocate =
     (case bitmap_to_parent d rank rank of
        None \<Rightarrow> None
      | Some r \<Rightarrow> map_option (\<lambda>(x, p'). (x, Bitmap p' d)) (ompi_group_get_proc_ptr p r allocate))"

definition ompi_group_peer_lookup :: "ompi_group \<Rightarrow> int \<Rightarrow> (process_name option \<times> ompi_group) option" where
  "ompi_group_peer_lookup g peer = ompi_group_get_proc_ptr g peer True"

definition ompi_group_peer_lookup_existing :: "ompi_group \<Rightarrow> int \<Rightarrow> process_name option option" where
  "ompi_group_peer_lookup_existing g peer = map_option fst (ompi_group_get_proc_ptr g peer False)"

text \<open>The search loops: the first of the ranks that passes a test, \<open>MPI_UNDEFINED\<close> when there is none.\<close>

fun search_ranks :: "(int \<Rightarrow> bool option) \<Rightarrow> int list \<Rightarrow> int option" where
  "search_ranks test [] = Some MPI_UNDEFINED"
| "search_ranks test (r # rs) =
     (case test r of None \<Rightarrow> None | Some b \<Rightarrow> (if b then Some r else search_ranks test rs))"

text \<open>\<open>ompi_set_group_rank\<close>: the first rank whose slot points to the given process.\<close>

definition ompi_set_group_rank :: "ompi_group \<Rightarrow> process_name option \<Rightarrow> ompi_group option" where
  "ompi_set_group_rank g proc_pointer =
     (case proc_pointer of
        None \<Rightarrow> Some (Group (grp_addr g) (grp_proc_count g) MPI_UNDEFINED (grp_data g))
      | Some me \<Rightarrow>
          map_option (\<lambda>r. Group (grp_addr g) (grp_proc_count g) r (grp_data g))
            (search_ranks (\<lambda>r. map_option (\<lambda>p. p = Some me) (ompi_group_peer_lookup_existing g r))
              [0..grp_proc_count g - 1]))"

section \<open>Translating ranks\<close>

definition find_proc :: "ompi_group \<Rightarrow> process_name \<Rightarrow> int option" where
  "find_proc g name =
     search_ranks (\<lambda>r. map_option (\<lambda>n. opal_compare_proc name n = 0) (ompi_group_get_proc_name g r))
       [0..grp_proc_count g - 1]"

definition translate_generic :: "ompi_group \<Rightarrow> ompi_group \<Rightarrow> int \<Rightarrow> int option" where
  "translate_generic g1 g2 rank =
     (if rank = MPI_PROC_NULL then Some MPI_PROC_NULL
      else
        (case ompi_group_get_proc_name g1 rank of
           None \<Rightarrow> None
         | Some name \<Rightarrow> find_proc g2 name))"

definition same_group :: "ompi_group option \<Rightarrow> ompi_group \<Rightarrow> bool" where
  "same_group p g = (case p of None \<Rightarrow> False | Some q \<Rightarrow> grp_addr q = grp_addr g)"

text \<open>\<open>ranks2\<close> is the content of the output array before the call.\<close>

definition ompi_group_translate_ranks ::
  "ompi_group \<Rightarrow> int list \<Rightarrow> ompi_group \<Rightarrow> int list \<Rightarrow> int list option" where
  "ompi_group_translate_ranks g1 ranks1 g2 ranks2 =
     (if is_group_empty g1 \<or> is_group_empty g2 then Some (map (\<lambda>_. MPI_UNDEFINED) ranks1)
      else if same_group (grp_parent g1) g2
      then mapo (\<lambda>(r, old). data_to_parent (grp_data g1) r old) (zip ranks1 ranks2)
      else if same_group (grp_parent g2) g1 then mapo (data_to_child (grp_data g2)) ranks1
      else mapo (translate_generic g1 g2) ranks1)"

section \<open>Making a group from ranks of another\<close>

datatype mpi_error = MPI_ERR_GROUP | MPI_ERR_NO_MEM | OPAL_CODE opal_status

text \<open>The result of a constructor: undefined behaviour, an error code, or the new group.\<close>

type_synonym group_result = "(mpi_error + ompi_group) option"

definition ompi_group_calc_plist :: "int list \<Rightarrow> int" where
  "ompi_group_calc_plist ranks = to_int (8 * int (length ranks))"

text \<open>\<open>me\<close> is the local process, \<open>addr\<close> the address of the new object.\<close>

definition ompi_group_incl_plist ::
  "bool \<Rightarrow> process_name \<Rightarrow> nat \<Rightarrow> ompi_group \<Rightarrow> int list \<Rightarrow> group_result" where
  "ompi_group_incl_plist mem_ok me addr g ranks =
     (if ranks = [] then Some (Inr MPI_GROUP_EMPTY)
      else if \<not> mem_ok then Some (Inl MPI_ERR_GROUP)
      else
        (case mapo (ompi_group_get_proc_ptr_raw g) ranks of
           None \<Rightarrow> None
         | Some ps \<Rightarrow>
             (let ng = Group addr (int (length ranks)) MPI_UNDEFINED (Dense ps)
              in if grp_my_rank g \<noteq> MPI_UNDEFINED then map_option Inr (ompi_set_group_rank ng (Some me))
                 else Some (Inr ng))))"

text \<open>The end that the sparse constructors share: the new group's rank is the parent's, translated.\<close>

definition finish_sparse :: "ompi_group \<Rightarrow> nat \<Rightarrow> int \<Rightarrow> grp_data \<Rightarrow> group_result" where
  "finish_sparse g addr n d =
     (case ompi_group_translate_ranks g [grp_my_rank g] (Group addr n MPI_UNDEFINED d) [MPI_UNDEFINED] of
        Some [r] \<Rightarrow> Some (Inr (Group addr n r d))
      | _ \<Rightarrow> None)"

text \<open>\<open>before\<close> is the value found at \<open>ranks[-1]\<close>. A write past the ranges that were counted and allocated
  is a fault.\<close>

definition ompi_group_incl_spor :: "bool \<Rightarrow> int \<Rightarrow> nat \<Rightarrow> ompi_group \<Rightarrow> int list \<Rightarrow> group_result" where
  "ompi_group_incl_spor mem_ok before addr g ranks =
     (if ranks = [] then Some (Inr MPI_GROUP_EMPTY)
      else if \<not> mem_ok then Some (Inl MPI_ERR_GROUP)
      else if int (length (sporadic_of ranks)) > sporadic_count before ranks 0 then None
      else finish_sparse g addr (\<Sum>(f, len) \<leftarrow> sporadic_of ranks. len) (Sporadic g (sporadic_of ranks)))"

definition ompi_group_incl_strided :: "bool \<Rightarrow> nat \<Rightarrow> ompi_group \<Rightarrow> int list \<Rightarrow> group_result" where
  "ompi_group_incl_strided mem_ok addr g ranks =
     (if ranks = [] then Some (Inr MPI_GROUP_EMPTY)
      else if \<not> mem_ok then Some (Inl MPI_ERR_GROUP)
      else finish_sparse g addr (int (length ranks)) (Strided g (strided_of ranks)))"

definition ompi_group_incl_bmap :: "bool \<Rightarrow> nat \<Rightarrow> ompi_group \<Rightarrow> int list \<Rightarrow> group_result" where
  "ompi_group_incl_bmap mem_ok addr g ranks =
     (if ranks = [] then Some (Inr MPI_GROUP_EMPTY)
      else if \<not> mem_ok then Some (Inl MPI_ERR_GROUP)
      else
        (case bitmap_of (grp_proc_count g) ranks of
           None \<Rightarrow> None
         | Some arr \<Rightarrow> finish_sparse g addr (int (length ranks)) (Bitmap g arr)))"

fun minloc_loop :: "int list \<Rightarrow> nat \<Rightarrow> nat \<Rightarrow> int \<Rightarrow> nat" where
  "minloc_loop [] i index mn = index"
| "minloc_loop (x # xs) i index mn =
     (if mn > x \<and> x \<noteq> -1 then minloc_loop xs (Suc i) i x else minloc_loop xs (Suc i) index mn)"

definition ompi_group_minloc :: "int list \<Rightarrow> nat" where
  "ompi_group_minloc lst = minloc_loop lst 0 0 (lst ! 0)"

text \<open>The format \<open>ompi_group_incl\<close> chooses: 0 dense, 1 strided, 2 sporadic, 3 bitmap.\<close>

definition incl_method :: "bool \<Rightarrow> int \<Rightarrow> ompi_group \<Rightarrow> int list \<Rightarrow> nat" where
  "incl_method sparse before g ranks =
     (if sparse
      then ompi_group_minloc
             [ompi_group_calc_plist ranks, ompi_group_calc_strided ranks,
              ompi_group_calc_sporadic before ranks, ompi_group_calc_bmap (grp_proc_count g) ranks]
      else 0)"

definition ompi_group_incl ::
  "bool \<Rightarrow> bool \<Rightarrow> int \<Rightarrow> process_name \<Rightarrow> nat \<Rightarrow> ompi_group \<Rightarrow> int list \<Rightarrow> group_result" where
  "ompi_group_incl sparse mem_ok before me addr g ranks =
     (let method = incl_method sparse before g ranks
      in if method = 0 then ompi_group_incl_plist mem_ok me addr g ranks
         else if method = 1 then ompi_group_incl_strided mem_ok addr g ranks
         else if method = 2 then ompi_group_incl_spor mem_ok before addr g ranks
         else ompi_group_incl_bmap mem_ok addr g ranks)"

section \<open>The processes of a group\<close>

text \<open>The abstract value of a group is the list of its processes in rank order.\<close>

fun members :: "ompi_group \<Rightarrow> process_name list"
  and data_members :: "grp_data \<Rightarrow> process_name list" where
  "members (Group _ _ _ d) = data_members d"
| "data_members (Dense ps) = map (the \<circ> slot_name) ps"
| "data_members (Sporadic p d) = map (\<lambda>r. members p ! nat r) (sporadic_ranks d)"
| "data_members (Strided p d) = map (\<lambda>r. members p ! nat r) (strided_ranks d)"
| "data_members (Bitmap p d) = map (\<lambda>r. members p ! nat r) (bitmap_ranks d)"

text \<open>Well-formed groups.\<close>

fun group_ok :: "ompi_group \<Rightarrow> bool"
  and data_ok :: "grp_data \<Rightarrow> bool" where
  "group_ok (Group a c m d) = (data_ok d \<and> c = int (length (data_members d)) \<and> (a = 0 \<longrightarrow> c = 0))"
| "data_ok (Dense ps) = ((\<forall>p \<in> set ps. slot_name p \<noteq> None) \<and> distinct (map (the \<circ> slot_name) ps))"
| "data_ok (Sporadic p d) = (group_ok p \<and> sporadic_ok d (grp_proc_count p))"
| "data_ok (Strided p d) = (group_ok p \<and> strided_ok d (grp_proc_count p))"
| "data_ok (Bitmap p d) = (group_ok p \<and> bitmap_ok d (grp_proc_count p))"

text \<open>The slot of the local process is never a sentinel.\<close>

fun local_ok :: "process_name \<Rightarrow> ompi_group \<Rightarrow> bool"
  and data_local_ok :: "process_name \<Rightarrow> grp_data \<Rightarrow> bool" where
  "local_ok me (Group _ _ _ d) = data_local_ok me d"
| "data_local_ok me (Dense ps) = (\<forall>p \<in> set ps. slot_name p = Some me \<longrightarrow> p = Proc me)"
| "data_local_ok me (Sporadic p d) = local_ok me p"
| "data_local_ok me (Strided p d) = local_ok me p"
| "data_local_ok me (Bitmap p d) = local_ok me p"

definition rank_ok :: "process_name \<Rightarrow> ompi_group \<Rightarrow> bool" where
  "rank_ok me g \<longleftrightarrow> grp_my_rank g = rank_of (members g) me"

text \<open>What the three formats have in common, by the facts of their interpretations.\<close>

definition data_ranks :: "grp_data \<Rightarrow> int list" where
  "data_ranks d =
     (case d of Dense _ \<Rightarrow> [] | Sporadic _ x \<Rightarrow> sporadic_ranks x | Strided _ x \<Rightarrow> strided_ranks x
              | Bitmap _ x \<Rightarrow> bitmap_ranks x)"

definition data_parent :: "grp_data \<Rightarrow> ompi_group option" where
  "data_parent d = (case d of Dense _ \<Rightarrow> None | Sporadic p _ \<Rightarrow> Some p | Strided p _ \<Rightarrow> Some p | Bitmap p _ \<Rightarrow> Some p)"

lemma grp_parent_data: "grp_parent g = data_parent (grp_data g)"
  by (simp add: grp_parent_def data_parent_def)

lemma group_ok_count: "group_ok g \<Longrightarrow> grp_proc_count g = int (length (members g))"
  by (cases g) simp

lemma sparse_members:
  assumes "data_ok d" and "data_parent d = Some p"
  shows "group_ok p" and "data_members d = map (\<lambda>r. members p ! nat r) (data_ranks d)"
  using assms by (cases d; simp add: data_parent_def data_ranks_def)+

lemma sparse_ranks:
  assumes "data_ok d" and "data_parent d = Some p"
  shows "distinct (data_ranks d)" and "set (data_ranks d) \<subseteq> {0..<grp_proc_count p}"
proof -
  have "distinct (data_ranks d) \<and> set (data_ranks d) \<subseteq> {0..<grp_proc_count p}"
    using assms
    by (cases d)
      (use spor.ranks_law [of _ "grp_proc_count p"] strd.ranks_law [of _ "grp_proc_count p"]
        bmap.ranks_law [of _ "grp_proc_count p"] in \<open>simp_all add: data_parent_def data_ranks_def\<close>)
  then show "distinct (data_ranks d)" and "set (data_ranks d) \<subseteq> {0..<grp_proc_count p}" by auto
qed

lemma sparse_to_parent:
  assumes "data_ok d" and "data_parent d = Some p" and "0 \<le> i" and "i < int (length (data_ranks d))"
  shows "data_to_parent d i old = Some (data_ranks d ! nat i)"
  using assms
  by (cases d)
    (auto simp: data_parent_def data_ranks_def
      intro: spor.to_parent_law strd.to_parent_law bmap.to_parent_law)

lemma sparse_to_child:
  assumes "data_ok d" and "data_parent d = Some p" and "0 \<le> r" and "r < grp_proc_count p"
  shows "data_to_child d r = Some (rank_of (data_ranks d) r)"
  using assms
  by (cases d)
    (auto simp: data_parent_def data_ranks_def
      intro: spor.to_child_law strd.to_child_law bmap.to_child_law)

lemma sparse_raw:
  assumes "data_parent d = Some p"
  shows "raw_data d j = (case data_to_parent d j j of None \<Rightarrow> None | Some r \<Rightarrow> ompi_group_get_proc_ptr_raw p r)"
  using assms by (cases d) (simp_all add: data_parent_def)

lemma distinct_select:
  assumes "distinct ms" and "distinct rs" and "set rs \<subseteq> {0..<int (length ms)}"
  shows "distinct (map (\<lambda>r. ms ! nat r) rs)"
proof -
  have "inj_on (\<lambda>r. ms ! nat r) (set rs)"
  proof (rule inj_onI)
    fix x y assume "x \<in> set rs" "y \<in> set rs" and e: "ms ! nat x = ms ! nat y"
    then have "0 \<le> x" "0 \<le> y" "x < int (length ms)" "y < int (length ms)"
      using assms(3) by auto
    then show "x = y" using e nth_eq_iff_index_eq [OF assms(1), of "nat x" "nat y"] by (simp add: nat_less_iff)
  qed
  then show ?thesis using assms(2) by (simp add: distinct_map)
qed

lemma data_members_distinct:
  assumes "data_ok d" and "data_parent d = Some p" and "distinct (members p)"
  shows "distinct (data_members d)"
  using distinct_select [OF assms(3) sparse_ranks(1) [OF assms(1,2)]] sparse_ranks(2) [OF assms(1,2)]
    group_ok_count [OF sparse_members(1) [OF assms(1,2)]] sparse_members(2) [OF assms(1,2)] by simp

text \<open>Induction along the chain of parents.\<close>

lemma group_induct [case_names Dense Sparse]:
  assumes "\<And>a c m ps. P (Group a c m (Dense ps))"
    and "\<And>a c m d p. data_parent d = Some p \<Longrightarrow> P p \<Longrightarrow> P (Group a c m d)"
  shows "P g"
proof -
  have "P g" and "\<And>a c m. P (Group a c m d)" for d
    by (induction g and d) (auto intro: assms simp: data_parent_def)
  then show ?thesis by blast
qed

lemma members_distinct: "group_ok g \<Longrightarrow> distinct (members g)"
  by (induction g rule: group_induct) (auto intro: data_members_distinct dest: sparse_members(1))

lemma get_raw_member:
  "group_ok g \<Longrightarrow> 0 \<le> r \<Longrightarrow> r < grp_proc_count g \<Longrightarrow>
     \<exists>p. ompi_group_get_proc_ptr_raw g r = Some p \<and> slot_name p = Some (members g ! nat r)"
proof (induction g arbitrary: r rule: group_induct)
  case (Dense a c m ps)
  then have "nat r < length ps" by simp
  then have "slot_name (ps ! nat r) \<noteq> None" using Dense.prems(1) nth_mem by auto
  then show ?case using Dense.prems \<open>nat r < length ps\<close> by (auto simp: arr_get_in)
next
  case (Sparse a c m d p)
  have ok: "data_ok d" and c: "c = int (length (data_members d))" using Sparse.prems(1) by auto
  note sp = sparse_members [OF ok Sparse.hyps(1)] sparse_ranks [OF ok Sparse.hyps(1)]
  have r: "r < int (length (data_ranks d))" using Sparse.prems(3) c sp(2) by simp
  let ?q = "data_ranks d ! nat r"
  have "?q \<in> set (data_ranks d)" using r Sparse.prems(2) by simp
  then have "0 \<le> ?q" "?q < grp_proc_count p" using sp(4) by auto
  then obtain x where "ompi_group_get_proc_ptr_raw p ?q = Some x" "slot_name x = Some (members p ! nat ?q)"
    using Sparse.IH sp(1) by blast
  moreover have "data_members d ! nat r = members p ! nat ?q" using sp(2) r Sparse.prems(2) by simp
  ultimately show ?case
    using sparse_raw [OF Sparse.hyps(1)] sparse_to_parent [OF ok Sparse.hyps(1) Sparse.prems(2) r] by simp
qed

lemma get_name_member:
  "group_ok g \<Longrightarrow> 0 \<le> r \<Longrightarrow> r < grp_proc_count g \<Longrightarrow> ompi_group_get_proc_name g r = Some (members g ! nat r)"
  using get_raw_member [of g r] by (auto simp: ompi_group_get_proc_name_def)

section \<open>Searching and translating\<close>

lemma search_ranks_from:
  "(\<And>i. i < length ms \<Longrightarrow> test (k + int i) = Some (ms ! i = x)) \<Longrightarrow>
     search_ranks test [k..k + int (length ms) - 1] =
       Some (if x \<in> set ms then k + rank_of ms x else MPI_UNDEFINED)"
proof (induction ms arbitrary: k)
  case (Cons m ms)
  have t: "test k = Some (m = x)" using Cons.prems [of 0] by simp
  have "test (k + 1 + int i) = Some (ms ! i = x)" if "i < length ms" for i
    using Cons.prems [of "Suc i"] that by (simp add: add.assoc)
  from Cons.IH [OF this] have IH: "search_ranks test [k + 1..k + int (length ms)] =
      Some (if x \<in> set ms then k + 1 + rank_of ms x else MPI_UNDEFINED)" by (simp add: add.assoc)
  have "[k..k + int (length (m # ms)) - 1] = k # [k + 1..k + int (length ms)]"
    by (subst upto_rec1) (simp_all add: algebra_simps)
  then show ?case using t IH by (auto simp: rank_of_Cons)
qed simp

lemma search_ranks_correct:
  assumes "\<And>i. i < length ms \<Longrightarrow> test (int i) = Some (ms ! i = x)"
  shows "search_ranks test [0..int (length ms) - 1] = Some (rank_of ms x)"
  using search_ranks_from [of ms test 0 x] assms by (auto simp del: search_ranks.simps)

lemma find_proc_correct:
  assumes "group_ok g"
  shows "find_proc g name = Some (rank_of (members g) name)"
  unfolding find_proc_def group_ok_count [OF assms]
  by (rule search_ranks_correct)
    (use get_name_member [OF assms] group_ok_count [OF assms] in auto)

lemma translate_generic_correct:
  assumes "group_ok g1" and "group_ok g2" and "0 \<le> r" and "r < grp_proc_count g1"
  shows "translate_generic g1 g2 r = Some (rank_of (members g2) (members g1 ! nat r))"
  using get_name_member [OF assms(1,3,4)] find_proc_correct [OF assms(2)] assms(3)
  by (simp add: translate_generic_def MPI_PROC_NULL_def)

lemma rank_of_select:
  assumes "distinct ms" and "set rs \<subseteq> {0..<int (length ms)}" and "distinct rs" and "0 \<le> r" and "r < int (length ms)"
  shows "rank_of (map (\<lambda>q. ms ! nat q) rs) (ms ! nat r) = rank_of rs r"
proof (cases "r \<in> set rs")
  case True
  then obtain i where i: "i < length rs" "rs ! i = r" by (auto simp: in_set_conv_nth)
  then have "rank_of (map (\<lambda>q. ms ! nat q) rs) (map (\<lambda>q. ms ! nat q) rs ! i) = int i"
    using distinct_select [OF assms(1,3,2)] by (intro rank_of_nth) auto
  then show ?thesis using i rank_of_nth [OF assms(3) i(1)] by simp
next
  case False
  have "ms ! nat r \<notin> set (map (\<lambda>q. ms ! nat q) rs)"
  proof
    assume "ms ! nat r \<in> set (map (\<lambda>q. ms ! nat q) rs)"
    then obtain q where q: "q \<in> set rs" "ms ! nat q = ms ! nat r" by auto
    then have "0 \<le> q" "q < int (length ms)" using assms(2) by auto
    then have "q = r" using q(2) nth_eq_iff_index_eq [OF assms(1), of "nat q" "nat r"] assms(4,5) by (simp add: nat_less_iff)
    then show False using q(1) False by simp
  qed
  then show ?thesis using False by simp
qed

text \<open>Addresses identify groups.\<close>

definition no_alias :: "ompi_group \<Rightarrow> ompi_group \<Rightarrow> bool" where
  "no_alias g1 g2 \<longleftrightarrow> (\<forall>p. grp_parent g1 = Some p \<and> grp_addr p = grp_addr g2 \<longrightarrow> p = g2) \<and>
     (\<forall>p. grp_parent g2 = Some p \<and> grp_addr p = grp_addr g1 \<longrightarrow> p = g1)"

lemma to_parent_rank:
  assumes "group_ok g" and "grp_parent g = Some p" and "0 \<le> r" and "r < grp_proc_count g"
  shows "data_to_parent (grp_data g) r old = Some (rank_of (members p) (members g ! nat r))"
proof -
  obtain a c m d where g: "g = Group a c m d" by (cases g)
  have ok: "data_ok d" "data_parent d = Some p" using assms(1,2) g by (auto simp: grp_parent_data)
  note sp = sparse_members [OF ok] sparse_ranks [OF ok]
  have r: "r < int (length (data_ranks d))" using assms(1,4) g sp(2) by simp
  have q: "data_ranks d ! nat r \<in> set (data_ranks d)" using r assms(3) by simp
  then have "0 \<le> data_ranks d ! nat r" "data_ranks d ! nat r < int (length (members p))"
    using sp(4) group_ok_count [OF sp(1)] by auto
  then have "rank_of (members p) (members p ! nat (data_ranks d ! nat r)) = data_ranks d ! nat r"
    using rank_of_nth [OF members_distinct [OF sp(1)], of "nat (data_ranks d ! nat r)"] by (simp add: nat_less_iff)
  then show ?thesis using sparse_to_parent [OF ok assms(3) r] g sp(2) r assms(3) by simp
qed

lemma to_child_rank:
  assumes "group_ok g" and "grp_parent g = Some p" and "0 \<le> r" and "r < grp_proc_count p"
  shows "data_to_child (grp_data g) r = Some (rank_of (members g) (members p ! nat r))"
proof -
  obtain a c m d where g: "g = Group a c m d" by (cases g)
  have ok: "data_ok d" "data_parent d = Some p" using assms(1,2) g by (auto simp: grp_parent_data)
  note sp = sparse_members [OF ok] sparse_ranks [OF ok]
  have "rank_of (members g) (members p ! nat r) = rank_of (data_ranks d) r"
    using rank_of_select [OF members_distinct [OF sp(1)], of "data_ranks d" r] sp(2-4) group_ok_count [OF sp(1)]
      assms(3,4) g by simp
  then show ?thesis using sparse_to_child [OF ok assms(3,4)] g by simp
qed

lemma translate_ranks_correct:
  assumes "group_ok g1" and "group_ok g2" and "no_alias g1 g2" and "length ranks2 = length ranks1"
    and "\<not> is_group_empty g1" and "\<not> is_group_empty g2" and "set ranks1 \<subseteq> {0..<grp_proc_count g1}"
  shows "ompi_group_translate_ranks g1 ranks1 g2 ranks2 =
           Some (map (\<lambda>r. rank_of (members g2) (members g1 ! nat r)) ranks1)"
proof -
  let ?f = "\<lambda>r. rank_of (members g2) (members g1 ! nat r)"
  have r: "0 \<le> r \<and> r < grp_proc_count g1" if "r \<in> set ranks1" for r using that assms(7) by auto
  consider (up) "same_group (grp_parent g1) g2" | (down) "\<not> same_group (grp_parent g1) g2" "same_group (grp_parent g2) g1"
    | (other) "\<not> same_group (grp_parent g1) g2" "\<not> same_group (grp_parent g2) g1" by blast
  then show ?thesis
  proof cases
    case up
    then have p: "grp_parent g1 = Some g2"
      using assms(3) by (auto simp: same_group_def no_alias_def split: option.splits)
    have "mapo (\<lambda>(r, old). data_to_parent (grp_data g1) r old) (zip ranks1 ranks2) =
        Some (map (\<lambda>(r, old). ?f r) (zip ranks1 ranks2))"
      by (rule mapo_Some) (use to_parent_rank [OF assms(1) p] r in \<open>auto dest: set_zip_leftD\<close>)
    moreover have "map (\<lambda>(r, old). ?f r) (zip ranks1 ranks2) = map ?f ranks1"
      using assms(4) by (auto simp: list_eq_iff_nth_eq)
    ultimately show ?thesis using up assms(5,6) by (simp add: ompi_group_translate_ranks_def)
  next
    case down
    then have p: "grp_parent g2 = Some g1"
      using assms(3) by (auto simp: same_group_def no_alias_def split: option.splits)
    have "mapo (data_to_child (grp_data g2)) ranks1 = Some (map ?f ranks1)"
      by (rule mapo_Some) (use to_child_rank [OF assms(2) p] r in auto)
    then show ?thesis using down assms(5,6) by (simp add: ompi_group_translate_ranks_def)
  next
    case other
    have "mapo (translate_generic g1 g2) ranks1 = Some (map ?f ranks1)"
      by (rule mapo_Some) (use translate_generic_correct [OF assms(1,2)] r in auto)
    then show ?thesis using other assms(5,6) by (simp add: ompi_group_translate_ranks_def)
  qed
qed

section \<open>Inclusion\<close>

lemma raw_local:
  "local_ok me g \<Longrightarrow> ompi_group_get_proc_ptr_raw g r = Some p \<Longrightarrow> slot_name p = Some me \<Longrightarrow> p = Proc me"
proof (induction g arbitrary: r rule: group_induct)
  case (Dense a c m ps)
  then show ?case by (auto dest!: arr_get_SomeD)
next
  case (Sparse a c m d q)
  have "local_ok me q" using Sparse.hyps(1) Sparse.prems(1) by (cases d) (auto simp: data_parent_def)
  then show ?case using Sparse.IH Sparse.prems(2,3) sparse_raw [OF Sparse.hyps(1)] by (auto split: option.splits)
qed

lemma set_group_rank_dense:
  assumes "data_local_ok me (Dense ps)" and "\<forall>p \<in> set ps. slot_name p \<noteq> None"
  shows "ompi_set_group_rank (Group a (int (length ps)) m (Dense ps)) (Some me) =
           Some (Group a (int (length ps)) (rank_of (map (the \<circ> slot_name) ps) me) (Dense ps))"
proof -
  let ?g = "Group a (int (length ps)) m (Dense ps)"
  have "map_option (\<lambda>p. p = Some me) (ompi_group_peer_lookup_existing ?g (int i)) =
      Some (map (the \<circ> slot_name) ps ! i = me)" if i: "i < length (map (the \<circ> slot_name) ps)" for i
  proof (cases "ps ! i")
    case (Proc n)
    then show ?thesis using i
      by (simp add: ompi_group_peer_lookup_existing_def ompi_group_dense_lookup_def arr_get_in slot_name_def)
  next
    case (Sentinel x)
    then obtain n where n: "slot_name (ps ! i) = Some n" using assms(2) i by (metis length_map not_Some_eq nth_mem)
    then have "n \<noteq> me" using assms(1) Sentinel i nth_mem [of i ps] by auto
    then show ?thesis using i n Sentinel
      by (simp add: ompi_group_peer_lookup_existing_def ompi_group_dense_lookup_def arr_get_in)
  qed
  from search_ranks_correct [of "map (the \<circ> slot_name) ps", OF this]
  show ?thesis by (simp add: ompi_set_group_rank_def)
qed

lemma rank_of_undefined: "rank_of xs x = MPI_UNDEFINED \<longleftrightarrow> x \<notin> set xs"
  using rank_of_in [of x xs] by (auto simp: MPI_UNDEFINED_def)

text \<open>What a constructor promises: the new group holds the processes at the given ranks of the old one, in
  order, and knows the rank of the local process.\<close>

definition incl_spec :: "process_name \<Rightarrow> nat \<Rightarrow> ompi_group \<Rightarrow> int list \<Rightarrow> ompi_group \<Rightarrow> bool" where
  "incl_spec me addr g ranks ng \<longleftrightarrow>
     group_ok ng \<and> members ng = map (\<lambda>r. members g ! nat r) ranks \<and> rank_ok me ng \<and> local_ok me ng \<and>
     grp_addr ng = (if ranks = [] then 0 else addr)"

definition ranks_ok :: "ompi_group \<Rightarrow> int list \<Rightarrow> bool" where
  "ranks_ok g ranks \<longleftrightarrow> distinct ranks \<and> set ranks \<subseteq> {0..<grp_proc_count g}"

definition fresh :: "nat \<Rightarrow> ompi_group \<Rightarrow> bool" where
  "fresh addr g \<longleftrightarrow> addr \<noteq> 0 \<and> (\<forall>p. grp_parent g = Some p \<longrightarrow> grp_addr p \<noteq> addr)"

lemma incl_empty: "incl_spec me addr g [] MPI_GROUP_EMPTY"
  by (simp add: incl_spec_def MPI_GROUP_EMPTY_def rank_ok_def)

lemma ranks_ok_nonempty:
  assumes "group_ok g" and "ranks_ok g ranks" and "ranks \<noteq> []"
  shows "\<not> is_group_empty g"
proof -
  have "0 < grp_proc_count g" using assms(2,3) by (cases ranks) (auto simp: ranks_ok_def)
  then show ?thesis using assms(1) by (cases g) (auto simp: is_group_empty_def)
qed

lemma incl_plist_correct:
  assumes g: "group_ok g" "rank_ok me g" "local_ok me g" and ro: "ranks_ok g ranks" and addr: "fresh addr g"
  shows "\<exists>ng. ompi_group_incl_plist True me addr g ranks = Some (Inr ng) \<and> incl_spec me addr g ranks ng"
proof (cases "ranks = []")
  case True
  then show ?thesis using incl_empty by (auto simp: ompi_group_incl_plist_def)
next
  case False
  let ?f = "\<lambda>r. the (ompi_group_get_proc_ptr_raw g r)"
  let ?ps = "map ?f ranks"
  have raw: "ompi_group_get_proc_ptr_raw g r = Some (?f r) \<and> slot_name (?f r) = Some (members g ! nat r)"
    if "r \<in> set ranks" for r
    using get_raw_member [OF g(1), of r] that ro by (fastforce simp: ranks_ok_def)
  have mapo: "mapo (ompi_group_get_proc_ptr_raw g) ranks = Some ?ps"
    by (rule mapo_Some) (use raw in blast)
  have mem: "map (the \<circ> slot_name) ?ps = map (\<lambda>r. members g ! nat r) ranks" using raw by auto
  have slots: "\<forall>p \<in> set ?ps. slot_name p \<noteq> None" using raw by auto
  have loc: "data_local_ok me (Dense ?ps)" using raw raw_local [OF g(3)] by fastforce
  have dist: "distinct (map (\<lambda>r. members g ! nat r) ranks)"
    using distinct_select [OF members_distinct [OF g(1)]] ro group_ok_count [OF g(1)] by (simp add: ranks_ok_def)
  let ?ng = "\<lambda>m. Group addr (int (length ranks)) m (Dense ?ps)"
  have ok: "group_ok (?ng m)" for m using slots dist mem addr by (auto simp: fresh_def simp del: map_map)
  have "ompi_group_incl_plist True me addr g ranks = Some (Inr (?ng (rank_of (members (?ng 0)) me)))"
  proof (cases "grp_my_rank g = MPI_UNDEFINED")
    case True
    then have "me \<notin> set (members g)" using g(2) rank_of_undefined by (metis rank_ok_def)
    then have "me \<notin> set (map (\<lambda>r. members g ! nat r) ranks)"
      using ro group_ok_count [OF g(1)] by (force simp: ranks_ok_def dest: nth_mem)
    then have "rank_of (members (?ng 0)) me = MPI_UNDEFINED" using mem by simp
    then show ?thesis using True False mapo by (simp add: ompi_group_incl_plist_def Let_def)
  next
    case def: False
    then show ?thesis using False mapo set_group_rank_dense [OF loc slots]
      by (simp add: ompi_group_incl_plist_def Let_def)
  qed
  moreover have "incl_spec me addr g ranks (?ng (rank_of (members (?ng 0)) me))"
    using ok mem loc False by (simp add: incl_spec_def rank_ok_def del: map_map)
  ultimately show ?thesis by blast
qed

lemma data_to_child_undefined:
  assumes "data_ok d" and "data_parent d = Some p" and "\<forall>q x. d \<noteq> Bitmap q x"
  shows "data_to_child d MPI_UNDEFINED = Some MPI_UNDEFINED"
proof (cases d)
  case (Sporadic q x)
  have neg: "\<not> (0::int) \<le> MPI_UNDEFINED" "MPI_UNDEFINED \<noteq> MPI_PROC_NULL"
    by (simp_all add: MPI_UNDEFINED_def MPI_PROC_NULL_def)
  then have "MPI_UNDEFINED \<notin> set (sporadic_ranks x)" using assms(1) Sporadic by (auto simp: sporadic_ok_def)
  then show ?thesis using translate_sporadic_rank [of x MPI_UNDEFINED 0] assms(1) Sporadic neg
    by (simp add: sporadic_to_child_def sporadic_ok_def)
next
  case (Strided q x)
  then show ?thesis using assms(1)
    by (simp add: strided_to_child_def Let_def strided_ok_def MPI_UNDEFINED_def MPI_PROC_NULL_def)
qed (use assms in \<open>auto simp: data_parent_def\<close>)

lemma finish_sparse_correct:
  assumes g: "group_ok g" "rank_ok me g" "local_ok me g" and ne: "\<not> is_group_empty g" and addr: "fresh addr g"
    and d: "data_ok d" "data_parent d = Some g" "data_ranks d = ranks" and n: "n = int (length ranks)" "ranks \<noteq> []"
    and b: "grp_my_rank g \<noteq> MPI_UNDEFINED \<or> (\<forall>q x. d \<noteq> Bitmap q x)"
  shows "\<exists>ng. finish_sparse g addr n d = Some (Inr ng) \<and> incl_spec me addr g ranks ng"
proof -
  let ?ng = "\<lambda>m. Group addr n m d"
  have mem: "data_members d = map (\<lambda>r. members g ! nat r) ranks" using sparse_members(2) [OF d(1,2)] d(3) by simp
  have ok: "group_ok (?ng m)" for m using d n mem addr by (auto simp: fresh_def)
  have ne2: "\<not> is_group_empty (?ng m)" for m using addr by (simp add: is_group_empty_def fresh_def)
  have "ompi_group_translate_ranks g [grp_my_rank g] (?ng MPI_UNDEFINED) [MPI_UNDEFINED] =
      Some [rank_of (data_members d) me]"
  proof (cases "grp_my_rank g = MPI_UNDEFINED")
    case True
    then have "me \<notin> set (members g)" using g(2) rank_of_undefined by (metis rank_ok_def)
    then have "me \<notin> set (data_members d)"
      using sparse_ranks(2) [OF d(1,2)] mem d(3) group_ok_count [OF g(1)] by (force dest: nth_mem)
    moreover have "\<not> same_group (grp_parent g) (?ng MPI_UNDEFINED)" "same_group (grp_parent (?ng MPI_UNDEFINED)) g"
      using addr d(2) by (auto simp: same_group_def fresh_def grp_parent_data split: option.splits)
    ultimately show ?thesis
      using True ne ne2 data_to_child_undefined [OF d(1,2)] b
      by (simp add: ompi_group_translate_ranks_def)
  next
    case False
    then have "me \<in> set (members g)" using g(2) rank_of_undefined by (metis rank_ok_def)
    then have r: "0 \<le> grp_my_rank g" "grp_my_rank g < grp_proc_count g" "members g ! nat (grp_my_rank g) = me"
      using rank_of_in [of me "members g"] g(2) group_ok_count [OF g(1)] by (auto simp: rank_ok_def)
    have "no_alias g (?ng MPI_UNDEFINED)"
      using addr d(2) by (auto simp: no_alias_def fresh_def grp_parent_data)
    from translate_ranks_correct [OF g(1) ok this _ ne ne2, of "[MPI_UNDEFINED]" "[grp_my_rank g]"] r
    show ?thesis by simp
  qed
  then have "finish_sparse g addr n d = Some (Inr (?ng (rank_of (data_members d) me)))"
    by (simp add: finish_sparse_def)
  moreover have "local_ok me (?ng m)" for m using g(3) d(2) by (cases d) (auto simp: data_parent_def)
  ultimately show ?thesis
    using ok [of "rank_of (data_members d) me"] mem n(2) by (simp add: incl_spec_def rank_ok_def del: group_ok.simps)
qed

lemma minloc_cases:
  assumes "ompi_group_minloc [a, b, c, d] = k"
  shows "k < 4" and "k = 1 \<Longrightarrow> b \<noteq> -1" and "k = 3 \<Longrightarrow> d \<noteq> -1"
  using assms by (auto simp: ompi_group_minloc_def split: if_splits)

lemma sum_lengths: "\<forall>(f, len) \<in> set d. 0 < len \<Longrightarrow> (\<Sum>(f, len) \<leftarrow> d. len) = int (length (sporadic_ranks d))"
  by (induction d) auto

lemma incl_spor_correct:
  assumes g: "group_ok g" "rank_ok me g" "local_ok me g" and ro: "ranks_ok g ranks" and addr: "fresh addr g"
  shows "\<exists>ng. ompi_group_incl_spor True before addr g ranks = Some (Inr ng) \<and> incl_spec me addr g ranks ng"
proof (cases "ranks = []")
  case True
  then show ?thesis using incl_empty by (auto simp: ompi_group_incl_spor_def)
next
  case False
  have sum: "(\<Sum>(f, len) \<leftarrow> sporadic_of ranks. len) = int (length ranks)"
    using sum_lengths [OF sporadic_of_positive [of ranks]] by (simp add: sporadic_of_ranks)
  have ok: "data_ok (Sporadic g (sporadic_of ranks))"
    using g(1) ro sporadic_of_positive [of ranks] by (auto simp: sporadic_ok_def sporadic_of_ranks ranks_ok_def)
  have "\<exists>ng. finish_sparse g addr (int (length ranks)) (Sporadic g (sporadic_of ranks)) = Some (Inr ng) \<and>
      incl_spec me addr g ranks ng"
    by (rule finish_sparse_correct [OF g ranks_ok_nonempty [OF g(1) ro False] addr ok])
      (simp_all add: data_parent_def data_ranks_def sporadic_of_ranks False)
  then show ?thesis
    using False sporadic_count_of [of before ranks] sum by (simp add: ompi_group_incl_spor_def)
qed

lemma incl_strided_correct:
  assumes g: "group_ok g" "rank_ok me g" "local_ok me g" and ro: "ranks_ok g ranks" and addr: "fresh addr g"
    and c: "check_stride ranks \<noteq> -1"
  shows "\<exists>ng. ompi_group_incl_strided True addr g ranks = Some (Inr ng) \<and> incl_spec me addr g ranks ng"
proof (cases "ranks = []")
  case True
  then show ?thesis using incl_empty by (auto simp: ompi_group_incl_strided_def)
next
  case False
  note st = strided_of_correct [OF c False, of "grp_proc_count g"]
  have "\<exists>ng. finish_sparse g addr (int (length ranks)) (Strided g (strided_of ranks)) = Some (Inr ng) \<and>
      incl_spec me addr g ranks ng"
    by (rule finish_sparse_correct [OF g ranks_ok_nonempty [OF g(1) ro False] addr])
      (use st g(1) ro False in \<open>simp_all add: data_parent_def data_ranks_def ranks_ok_def\<close>)
  then show ?thesis using False by (simp add: ompi_group_incl_strided_def)
qed

lemma incl_bmap_correct:
  assumes g: "group_ok g" "rank_ok me g" "local_ok me g" and ro: "ranks_ok g ranks" and addr: "fresh addr g"
    and c: "check_ranks ranks" and my: "grp_my_rank g \<noteq> MPI_UNDEFINED"
  shows "\<exists>ng. ompi_group_incl_bmap True addr g ranks = Some (Inr ng) \<and> incl_spec me addr g ranks ng"
proof (cases "ranks = []")
  case True
  then show ?thesis using incl_empty by (auto simp: ompi_group_incl_bmap_def)
next
  case False
  obtain arr where arr: "bitmap_of (grp_proc_count g) ranks = Some arr" "bitmap_ok arr (grp_proc_count g)"
    "bitmap_ranks arr = ranks"
    using bitmap_of_correct [OF c, of "grp_proc_count g"] ro group_ok_count [OF g(1)] by (auto simp: ranks_ok_def)
  have "\<exists>ng. finish_sparse g addr (int (length ranks)) (Bitmap g arr) = Some (Inr ng) \<and>
      incl_spec me addr g ranks ng"
    by (rule finish_sparse_correct [OF g ranks_ok_nonempty [OF g(1) ro False] addr])
      (use arr g(1) my False in \<open>simp_all add: data_parent_def data_ranks_def\<close>)
  then show ?thesis using False arr(1) by (simp add: ompi_group_incl_bmap_def)
qed

text \<open>A process outside the group has rank \<open>MPI_UNDEFINED\<close> in it, which indexes a bitmap at a negative position.\<close>

lemma incl_bmap_nonmember:
  assumes g: "group_ok g" and ro: "ranks_ok g ranks" and addr: "fresh addr g"
    and c: "check_ranks ranks" and my: "grp_my_rank g = MPI_UNDEFINED" and ne: "ranks \<noteq> []"
  shows "ompi_group_incl_bmap True addr g ranks = None"
proof -
  obtain arr where arr: "bitmap_of (grp_proc_count g) ranks = Some arr"
    using bitmap_of_correct [OF c, of "grp_proc_count g"] ro group_ok_count [OF g] by (auto simp: ranks_ok_def)
  have "bitmap_to_child arr MPI_UNDEFINED = None"
    by (simp add: bitmap_to_child_def MPI_UNDEFINED_def MPI_PROC_NULL_def)
  moreover have "\<not> same_group (grp_parent g) (Group addr n MPI_UNDEFINED (Bitmap g arr))" for n
    using addr by (auto simp: same_group_def fresh_def split: option.splits)
  moreover have "addr \<noteq> 0" using addr by (simp add: fresh_def)
  ultimately show ?thesis
    using arr ne my ranks_ok_nonempty [OF g ro ne]
    by (simp add: ompi_group_incl_bmap_def finish_sparse_def ompi_group_translate_ranks_def is_group_empty_def
        grp_parent_def [of "Group addr _ _ _"] same_group_def [of "Some _"])
qed

text \<open>
  What \<open>ompi_group_incl\<close> does with given ranks: the new group, unless the bitmap is chosen and the calling process is
  not in the group.
\<close>

definition incl_faults :: "bool \<Rightarrow> int \<Rightarrow> ompi_group \<Rightarrow> int list \<Rightarrow> bool" where
  "incl_faults sparse before g ranks \<longleftrightarrow>
     incl_method sparse before g ranks = 3 \<and> ranks \<noteq> [] \<and> grp_my_rank g = MPI_UNDEFINED"

definition incl_outcome ::
  "bool \<Rightarrow> int \<Rightarrow> process_name \<Rightarrow> nat \<Rightarrow> ompi_group \<Rightarrow> int list \<Rightarrow> group_result \<Rightarrow> bool" where
  "incl_outcome sparse before me addr g ranks res \<longleftrightarrow>
     (if incl_faults sparse before g ranks then res = None
      else \<exists>ng. res = Some (Inr ng) \<and> incl_spec me addr g ranks ng)"

lemma incl_correct:
  assumes g: "group_ok g" "rank_ok me g" "local_ok me g" and ro: "ranks_ok g ranks" and addr: "fresh addr g"
  shows "incl_outcome sparse before me addr g ranks (ompi_group_incl sparse True before me addr g ranks)"
proof (cases sparse)
  case False
  then show ?thesis using incl_plist_correct [OF g ro addr]
    by (simp add: ompi_group_incl_def incl_outcome_def incl_faults_def incl_method_def)
next
  case True
  define k where "k = ompi_group_minloc [ompi_group_calc_plist ranks, ompi_group_calc_strided ranks,
      ompi_group_calc_sporadic before ranks, ompi_group_calc_bmap (grp_proc_count g) ranks]"
  have st: "check_stride ranks \<noteq> -1" if "k = 1"
    using minloc_cases(2) [OF k_def [symmetric]] that by (auto simp: ompi_group_calc_strided_def)
  have bm: "check_ranks ranks" if "k = 3"
    using minloc_cases(3) [OF k_def [symmetric]] that by (auto simp: ompi_group_calc_bmap_def split: if_splits)
  have "k < 4" by (rule minloc_cases(1) [OF k_def [symmetric]])
  then consider "k = 0" | "k = 1" | "k = 2" | "k = 3" by linarith
  then show ?thesis
  proof cases
    case 1
    then show ?thesis using incl_plist_correct [OF g ro addr] True
      by (simp add: ompi_group_incl_def incl_outcome_def incl_faults_def incl_method_def k_def)
  next
    case 2
    then show ?thesis using incl_strided_correct [OF g ro addr st] True
      by (simp add: ompi_group_incl_def incl_outcome_def incl_faults_def incl_method_def k_def)
  next
    case 3
    then show ?thesis using incl_spor_correct [OF g ro addr] True
      by (simp add: ompi_group_incl_def incl_outcome_def incl_faults_def incl_method_def k_def)
  next
    case 4
    have "incl_method sparse before g ranks = 3" using 4 True by (simp add: incl_method_def k_def)
    moreover have "ompi_group_incl_bmap True addr g [] = Some (Inr MPI_GROUP_EMPTY)" by (simp add: ompi_group_incl_bmap_def)
    ultimately show ?thesis
      using incl_bmap_correct [OF g ro addr bm [OF 4]] incl_bmap_nonmember [OF g(1) ro addr bm [OF 4]] incl_empty
      by (auto simp: ompi_group_incl_def incl_outcome_def incl_faults_def)
  qed
qed

text \<open>For at most 56 processes and increasing ranks the bitmap is the smallest of the formats.\<close>

lemma small_group_bitmap:
  assumes "group_ok g" and "grp_proc_count g \<le> 56" and "ranks \<noteq> []" and "sorted ranks" and "distinct ranks"
    and "set ranks \<subseteq> {0..<grp_proc_count g}"
  shows "incl_method True before g ranks = 3"
proof -
  have c: "0 \<le> grp_proc_count g" using group_ok_count [OF assms(1)] by simp
  have "length ranks = card (set ranks)" using assms(5) by (simp add: distinct_card)
  also have "\<dots> \<le> card {0..<grp_proc_count g}" by (rule card_mono [OF _ assms(6)]) simp
  finally have n: "1 \<le> int (length ranks)" "int (length ranks) \<le> 56"
    using assms(2,3) by (cases ranks; simp)+
  have "length (sporadic_of ranks) \<le> length ranks" "sporadic_of ranks \<noteq> []" by (rule sporadic_of_length [OF assms(3)])+
  then have l: "1 \<le> int (length (sporadic_of ranks))" "int (length (sporadic_of ranks)) \<le> 56"
    using n by (cases "sporadic_of ranks"; simp)+
  have "ompi_group_calc_plist ranks \<ge> 8" using n by (simp add: ompi_group_calc_plist_def)
  moreover have "ompi_group_calc_sporadic before ranks \<ge> 8"
    using l by (simp add: ompi_group_calc_sporadic_def sporadic_count_of)
  moreover have "ompi_group_calc_bmap (grp_proc_count g) ranks \<le> 7" "0 \<le> ompi_group_calc_bmap (grp_proc_count g) ranks"
    using assms(2,4) c
    unfolding ompi_group_calc_bmap_def check_ranks_sorted ompi_group_div_ceil_def BSIZE_def by (simp; presburger)+
  moreover have "ompi_group_calc_strided ranks = -1 \<or> ompi_group_calc_strided ranks = 12"
    by (simp add: ompi_group_calc_strided_def)
  ultimately show ?thesis by (auto simp: incl_method_def ompi_group_minloc_def)
qed

section \<open>Materialising a sentinel\<close>

definition with_parent :: "grp_data \<Rightarrow> ompi_group \<Rightarrow> grp_data" where
  "with_parent d q =
     (case d of Dense ps \<Rightarrow> Dense ps | Sporadic _ x \<Rightarrow> Sporadic q x | Strided _ x \<Rightarrow> Strided q x | Bitmap _ x \<Rightarrow> Bitmap q x)"

lemma sparse_ptr:
  assumes "data_parent d = Some p"
  shows "ptr_data d j al =
           (case data_to_parent d j j of
              None \<Rightarrow> None
            | Some r \<Rightarrow> map_option (\<lambda>(x, q). (x, with_parent d q)) (ompi_group_get_proc_ptr p r al))"
  using assms by (cases d) (auto simp: data_parent_def with_parent_def split: option.splits)

lemma with_parent_same:
  assumes "data_ok d" and "data_parent d = Some p" and "members q = members p" and "group_ok q"
    and "grp_proc_count q = grp_proc_count p"
  shows "data_ok (with_parent d q)" and "data_members (with_parent d q) = data_members d"
  using assms by (cases d; simp add: data_parent_def with_parent_def)+

lemma with_parent_ranks:
  "data_to_parent (with_parent d q) j old = data_to_parent d j old"
  by (cases d) (simp_all add: with_parent_def)

text \<open>The slot a lookup leaves behind, and the slots it does not touch.\<close>

lemma peer_lookup_slots:
  "group_ok g \<Longrightarrow> 0 \<le> r \<Longrightarrow> r < grp_proc_count g \<Longrightarrow> ompi_group_get_proc_ptr g r True = Some (x, g') \<Longrightarrow>
     ompi_group_get_proc_ptr_raw g' r = Some (Proc (members g ! nat r)) \<and>
     (\<forall>q. 0 \<le> q \<and> q < grp_proc_count g \<and> q \<noteq> r \<longrightarrow>
        ompi_group_get_proc_ptr_raw g' q = ompi_group_get_proc_ptr_raw g q)"
proof (induction g arbitrary: r g' rule: group_induct)
  case (Dense a c m ps)
  then have r: "nat r < length ps" "0 \<le> r" "r < int (length ps)" by auto
  then have i: "slot_name (ps ! nat r) \<noteq> None" using Dense.prems(1) nth_mem by auto
  show ?case
  proof (cases "ps ! nat r")
    case (Proc n)
    then show ?thesis using Dense.prems r by (auto simp: ompi_group_dense_lookup_def arr_get_in slot_name_def)
  next
    case (Sentinel y)
    then obtain n where n: "ompi_proc_sentinel_to_name y = Some n" using i by (auto simp: slot_name_def)
    then have "g' = Group a c m (Dense (ps[nat r := Proc n]))"
      using Dense.prems r Sentinel by (auto simp: ompi_group_dense_lookup_def arr_get_in arr_set_in)
    then show ?thesis using r n Sentinel Dense.prems(1) by (auto simp: arr_get_def nth_list_update slot_name_def)
  qed
next
  case (Sparse a c m d p)
  have ok: "data_ok d" and c: "c = int (length (data_members d))" using Sparse.prems(1) by auto
  note sp = sparse_members [OF ok Sparse.hyps(1)] sparse_ranks [OF ok Sparse.hyps(1)]
  let ?q = "\<lambda>i. data_ranks d ! nat i"
  have par: "data_to_parent d i i = Some (?q i) \<and> 0 \<le> ?q i \<and> ?q i < grp_proc_count p \<and>
      data_members d ! nat i = members p ! nat (?q i)" if "0 \<le> i" "i < c" for i
  proof -
    have i: "i < int (length (data_ranks d))" using that(2) c sp(2) by simp
    have "?q i \<in> set (data_ranks d)" using i that(1) by simp
    then have "0 \<le> ?q i" "?q i < grp_proc_count p" using sp(4) by auto
    then show ?thesis using sparse_to_parent [OF ok Sparse.hyps(1) that(1) i] sp(2) i that(1) by simp
  qed
  have r: "0 \<le> r" "r < c" using Sparse.prems(2,3) by auto
  obtain p' where p': "ompi_group_get_proc_ptr p (?q r) True = Some (x, p')" "g' = Group a c m (with_parent d p')"
    using Sparse.prems(4) par [OF r] sparse_ptr [OF Sparse.hyps(1)] by (auto split: option.splits)
  have dp: "data_parent (with_parent d p') = Some p'"
    using Sparse.hyps(1) by (cases d) (auto simp: data_parent_def with_parent_def)
  have raw: "ompi_group_get_proc_ptr_raw g' i = ompi_group_get_proc_ptr_raw p' (?q i)" if "0 \<le> i" "i < c" for i
    using par [OF that] sparse_raw [OF dp] by (simp add: p'(2) with_parent_ranks)
  have raw0: "ompi_group_get_proc_ptr_raw (Group a c m d) i = ompi_group_get_proc_ptr_raw p (?q i)"
    if "0 \<le> i" "i < c" for i
    using par [OF that] sparse_raw [OF Sparse.hyps(1)] by simp
  have inj: "?q i \<noteq> ?q r" if "0 \<le> i" "i < c" "i \<noteq> r" for i
    using that r nth_eq_iff_index_eq [OF sp(3), of "nat i" "nat r"] c sp(2) by simp
  note IH = Sparse.IH [OF sp(1) _ _ p'(1)]
  show ?case using IH par raw raw0 inj r by auto
qed

lemma existing_raw:
  "ompi_group_peer_lookup_existing g r =
     map_option (\<lambda>p. case p of Proc n \<Rightarrow> Some n | Sentinel _ \<Rightarrow> None) (ompi_group_get_proc_ptr_raw g r)"
proof (induction g arbitrary: r rule: group_induct)
  case (Dense a c m ps)
  show ?case
    by (cases "arr_get ps r")
      (auto simp: ompi_group_peer_lookup_existing_def ompi_group_dense_lookup_def split: ompi_proc.splits)
next
  case (Sparse a c m d p)
  show ?case using Sparse.IH sparse_ptr [OF Sparse.hyps(1)] sparse_raw [OF Sparse.hyps(1)]
    by (auto simp: ompi_group_peer_lookup_existing_def option.map_comp comp_def case_prod_beta split: option.splits)
qed

lemma peer_lookup_correct:
  "group_ok g \<Longrightarrow> 0 \<le> r \<Longrightarrow> r < grp_proc_count g \<Longrightarrow>
     \<exists>g'. ompi_group_get_proc_ptr g r True = Some (Some (members g ! nat r), g') \<and> group_ok g' \<and>
          members g' = members g \<and> grp_proc_count g' = grp_proc_count g \<and> grp_addr g' = grp_addr g"
proof (induction g arbitrary: r rule: group_induct)
  case (Dense a c m ps)
  then have r: "nat r < length ps" "0 \<le> r" "r < int (length ps)" by auto
  then have i: "ps ! nat r \<in> set ps" by simp
  show ?case
  proof (cases "ps ! nat r")
    case (Proc n)
    then show ?thesis using Dense.prems r by (auto simp: ompi_group_dense_lookup_def arr_get_in slot_name_def)
  next
    case (Sentinel x)
    obtain n where n: "ompi_proc_sentinel_to_name x = Some n"
      using Dense.prems(1) i Sentinel by (auto simp: slot_name_def)
    let ?ps = "ps[nat r := Proc n]"
    have m: "map (the \<circ> slot_name) ?ps = map (the \<circ> slot_name) ps"
      using r n Sentinel by (intro nth_equalityI) (auto simp: nth_list_update slot_name_def)
    have "\<forall>p \<in> set ?ps. slot_name p \<noteq> None"
      using Dense.prems(1) set_update_subset_insert [of ps "nat r" "Proc n"] by (auto simp: slot_name_def)
    then show ?thesis using Dense.prems r n Sentinel m
      by (auto simp: ompi_group_dense_lookup_def arr_get_in arr_set_in slot_name_def)
  qed
next
  case (Sparse a c m d p)
  have ok: "data_ok d" and c: "c = int (length (data_members d))" "a = 0 \<longrightarrow> c = 0" using Sparse.prems(1) by auto
  note sp = sparse_members [OF ok Sparse.hyps(1)] sparse_ranks [OF ok Sparse.hyps(1)]
  have r: "r < int (length (data_ranks d))" using Sparse.prems(3) c sp(2) by simp
  let ?q = "data_ranks d ! nat r"
  have "?q \<in> set (data_ranks d)" using r Sparse.prems(2) by simp
  then have "0 \<le> ?q" "?q < grp_proc_count p" using sp(4) by auto
  then obtain g' where g': "ompi_group_get_proc_ptr p ?q True = Some (Some (members p ! nat ?q), g')"
    "group_ok g'" "members g' = members p" "grp_proc_count g' = grp_proc_count p"
    using Sparse.IH [OF sp(1)] by blast
  note wp = with_parent_same [OF ok Sparse.hyps(1) g'(3,2,4)]
  have "data_members d ! nat r = members p ! nat ?q" using sp(2) r Sparse.prems(2) by simp
  then show ?case
    using sparse_ptr [OF Sparse.hyps(1)] sparse_to_parent [OF ok Sparse.hyps(1) Sparse.prems(2) r] g'(1) wp c by simp
qed

section \<open>Properties\<close>

text \<open>
  C6. Making a group from ranks of another. For a well-formed group of any storage format (dense, or
  sparse over any chain of parents) and distinct ranks within it, \<open>ompi_group_incl\<close> succeeds when
  memory is available, with or without sparse storage and whichever format is chosen, with one exception:
  the new group is well-formed, its processes are those at the given ranks in the given order, and its own
  rank is that of the local process, or \<open>MPI_UNDEFINED\<close>. The exception is a process that is not in the
  parent group when the bitmap format is chosen for at least one rank: the call then reads outside the bitmap.
\<close>

theorem group_incl_members:
  assumes "group_ok g" and "rank_ok me g" and "local_ok me g" and "fresh addr g"
    and "distinct ranks" and "set ranks \<subseteq> {0..<grp_proc_count g}"
  shows "if incl_method sparse before g ranks = 3 \<and> ranks \<noteq> [] \<and> grp_my_rank g = MPI_UNDEFINED
         then ompi_group_incl sparse True before me addr g ranks = None
         else \<exists>ng. ompi_group_incl sparse True before me addr g ranks = Some (Inr ng) \<and> group_ok ng \<and>
                members ng = map (\<lambda>r. members g ! nat r) ranks \<and> grp_my_rank ng = rank_of (members ng) me"
  using incl_correct [OF assms(1-3) _ assms(4), of ranks sparse before] assms(5,6)
  unfolding incl_outcome_def incl_faults_def incl_spec_def rank_ok_def ranks_ok_def by (auto split: if_splits)

theorem group_incl_members_witness:
  "\<exists>ng. ompi_group_incl True True 0 \<lparr>jobid = 1, vpid = 1\<rparr> 9
     (Group 5 3 1 (Dense [Proc \<lparr>jobid = 1, vpid = 0\<rparr>, Proc \<lparr>jobid = 1, vpid = 1\<rparr>, Proc \<lparr>jobid = 1, vpid = 2\<rparr>])) [2, 1] =
       Some (Inr ng) \<and> members ng = [\<lparr>jobid = 1, vpid = 2\<rparr>, \<lparr>jobid = 1, vpid = 1\<rparr>] \<and> grp_my_rank ng = 1"
proof -
  let ?g = "Group 5 3 1 (Dense [Proc \<lparr>jobid = 1, vpid = 0\<rparr>, Proc \<lparr>jobid = 1, vpid = 1\<rparr>, Proc \<lparr>jobid = 1, vpid = 2\<rparr>])"
  have "group_ok ?g" "rank_ok \<lparr>jobid = 1, vpid = 1\<rparr> ?g" "local_ok \<lparr>jobid = 1, vpid = 1\<rparr> ?g" "fresh 9 ?g"
    "distinct [2, 1 :: int]" "set [2, 1] \<subseteq> {0..<grp_proc_count ?g}"
    by (simp_all add: slot_name_def rank_ok_def rank_of_def fresh_def grp_parent_def MPI_UNDEFINED_def)
  from group_incl_members [OF this, of True 0] show ?thesis
    by (auto simp: slot_name_def rank_of_def numeral_2_eq_2 MPI_UNDEFINED_def)
qed

text \<open>
  C11. Translating ranks between groups. For well-formed groups, of any formats, and valid ranks of the
  first, \<open>ompi_group_translate_ranks\<close> returns for each rank the rank of the same process in the second
  group, or \<open>MPI_UNDEFINED\<close> when the process is not in it: the shortcuts between a sparse group and its
  parent agree with the search that compares process names.
\<close>

theorem group_translate_ranks_agree:
  assumes "group_ok g1" and "group_ok g2" and "no_alias g1 g2" and "length ranks2 = length ranks1"
    and "\<not> is_group_empty g1" and "\<not> is_group_empty g2" and "set ranks1 \<subseteq> {0..<grp_proc_count g1}"
  shows "ompi_group_translate_ranks g1 ranks1 g2 ranks2 =
           Some (map (\<lambda>r. rank_of (members g2) (members g1 ! nat r)) ranks1) \<and>
         ompi_group_translate_ranks g1 ranks1 g2 ranks2 = mapo (translate_generic g1 g2) ranks1"
proof -
  have "mapo (translate_generic g1 g2) ranks1 = Some (map (\<lambda>r. rank_of (members g2) (members g1 ! nat r)) ranks1)"
    by (rule mapo_Some) (use translate_generic_correct [OF assms(1,2)] assms(7) in auto)
  then show ?thesis using translate_ranks_correct [OF assms] by simp
qed

theorem group_translate_ranks_agree_witness:
  "ompi_group_translate_ranks
     (Group 5 3 1 (Dense [Proc \<lparr>jobid = 1, vpid = 0\<rparr>, Proc \<lparr>jobid = 1, vpid = 1\<rparr>, Proc \<lparr>jobid = 1, vpid = 2\<rparr>])) [2, 0]
     (Group 6 2 0 (Strided (Group 5 3 1 (Dense [Proc \<lparr>jobid = 1, vpid = 0\<rparr>, Proc \<lparr>jobid = 1, vpid = 1\<rparr>,
       Proc \<lparr>jobid = 1, vpid = 2\<rparr>])) \<lparr>strided_offset = 1, strided_stride = 1, strided_last = 2\<rparr>)) [7, 7] =
     Some [1, MPI_UNDEFINED]"
proof -
  let ?p = "Group 5 3 1 (Dense [Proc \<lparr>jobid = 1, vpid = 0\<rparr>, Proc \<lparr>jobid = 1, vpid = 1\<rparr>, Proc \<lparr>jobid = 1, vpid = 2\<rparr>])"
  let ?c = "Group 6 2 0 (Strided ?p \<lparr>strided_offset = 1, strided_stride = 1, strided_last = 2\<rparr>)"
  have u: "[0..1 :: int] = [0, 1]" by (simp add: upto_rec1)
  have "group_ok ?p" "group_ok ?c" "no_alias ?p ?c" "length [7, 7 :: int] = length [2, 0 :: int]"
    "\<not> is_group_empty ?p" "\<not> is_group_empty ?c" "set [2, 0] \<subseteq> {0..<grp_proc_count ?p}"
    by (simp_all add: slot_name_def strided_ok_def strided_ranks_def u no_alias_def grp_parent_def is_group_empty_def)
  from group_translate_ranks_agree [OF this] show ?thesis
    by (simp add: slot_name_def strided_ranks_def u rank_of_def numeral_2_eq_2)
qed

text \<open>
  C22. Looking up a peer may replace a sentinel by a process object, in the group or in the dense group its
  chain of parents ends in. It returns the process with the right name; the groups before and after have
  the same processes at the same ranks; the slot that was looked up holds the process object afterwards, so
  a lookup that allocates nothing finds it; and no other slot of the group changes.
\<close>

theorem group_peer_lookup_keeps_members:
  assumes "group_ok g" and "0 \<le> r" and "r < grp_proc_count g"
  shows "\<exists>g'. ompi_group_peer_lookup g r = Some (Some (members g ! nat r), g') \<and> group_ok g' \<and>
              members g' = members g \<and> ompi_group_get_proc_name g' r = ompi_group_get_proc_name g r \<and>
              ompi_group_get_proc_ptr_raw g' r = Some (Proc (members g ! nat r)) \<and>
              ompi_group_peer_lookup_existing g' r = Some (Some (members g ! nat r)) \<and>
              (\<forall>q. 0 \<le> q \<and> q < grp_proc_count g \<and> q \<noteq> r \<longrightarrow>
                 ompi_group_get_proc_ptr_raw g' q = ompi_group_get_proc_ptr_raw g q)"
proof -
  obtain g' where g': "ompi_group_get_proc_ptr g r True = Some (Some (members g ! nat r), g')" "group_ok g'"
    "members g' = members g" "grp_proc_count g' = grp_proc_count g"
    using peer_lookup_correct [OF assms] by blast
  show ?thesis
    using g' get_name_member [OF assms] get_name_member [OF g'(2) assms(2)] assms(3) peer_lookup_slots [OF assms g'(1)]
    by (simp add: ompi_group_peer_lookup_def existing_raw)
qed

theorem group_peer_lookup_keeps_members_witness:
  "\<exists>g' n. ompi_group_peer_lookup (Group 5 1 0 (Dense [Sentinel 0x700000003])) 0 = Some (Some n, g') \<and>
     members g' = members (Group 5 1 0 (Dense [Sentinel 0x700000003])) \<and>
     ompi_group_peer_lookup_existing (Group 5 1 0 (Dense [Sentinel 0x700000003])) 0 = Some None \<and>
     ompi_group_peer_lookup_existing g' 0 = Some (Some n)"
  using group_peer_lookup_keeps_members [of "Group 5 1 0 (Dense [Sentinel 0x700000003])" 0]
  by (auto simp: slot_name_def ompi_proc_sentinel_to_name_def existing_raw arr_get_def)

text \<open>
  C39. A process that is not in a group cannot make a subgroup of it in the bitmap format: its own rank,
  \<open>MPI_UNDEFINED\<close>, is translated like a rank and indexes the bitmap at a negative position. With sparse
  storage that is what happens for every group of at most 56 processes and every non-empty increasing list of its ranks, since
  the bitmap of 7 bytes is smaller than a pointer. Without sparse storage the same call makes the group.
\<close>

theorem group_incl_bmap_nonmember_faults:
  assumes "group_ok g" and "rank_ok me g" and "local_ok me g" and "fresh addr g"
    and "me \<notin> set (members g)" and "grp_proc_count g \<le> 56"
    and "ranks \<noteq> []" and "sorted ranks" and "distinct ranks" and "set ranks \<subseteq> {0..<grp_proc_count g}"
  shows "ompi_group_incl True True before me addr g ranks = None \<and>
         (\<exists>ng. ompi_group_incl False True before me addr g ranks = Some (Inr ng) \<and>
            members ng = map (\<lambda>r. members g ! nat r) ranks \<and> grp_my_rank ng = MPI_UNDEFINED)"
proof -
  have ro: "ranks_ok g ranks" using assms(9,10) by (simp add: ranks_ok_def)
  have my: "grp_my_rank g = MPI_UNDEFINED" using assms(2,5) by (simp add: rank_ok_def)
  have "incl_method True before g ranks = 3" by (rule small_group_bitmap [OF assms(1,6-10)])
  then have "ompi_group_incl True True before me addr g ranks = None"
    using incl_correct [OF assms(1-3) ro assms(4), of True before] my assms(7) by (simp add: incl_outcome_def incl_faults_def)
  moreover obtain ng where ng: "ompi_group_incl False True before me addr g ranks = Some (Inr ng)" "incl_spec me addr g ranks ng"
    using incl_correct [OF assms(1-3) ro assms(4), of False before] by (auto simp: incl_outcome_def incl_faults_def incl_method_def)
  moreover have "me \<notin> set (members ng)"
    using ng(2) assms(5,10) group_ok_count [OF assms(1)] by (force simp: incl_spec_def dest: nth_mem)
  ultimately show ?thesis by (auto simp: incl_spec_def rank_ok_def)
qed

theorem group_incl_bmap_nonmember_faults_witness:
  "ompi_group_incl True True 0 \<lparr>jobid = 1, vpid = 9\<rparr> 7
     (Group 5 3 MPI_UNDEFINED (Dense [Proc \<lparr>jobid = 1, vpid = 0\<rparr>, Proc \<lparr>jobid = 1, vpid = 1\<rparr>, Proc \<lparr>jobid = 1, vpid = 2\<rparr>]))
     [0, 1] = None"
proof -
  let ?g = "Group 5 3 MPI_UNDEFINED (Dense [Proc \<lparr>jobid = 1, vpid = 0\<rparr>, Proc \<lparr>jobid = 1, vpid = 1\<rparr>, Proc \<lparr>jobid = 1, vpid = 2\<rparr>])"
  let ?me = "\<lparr>jobid = 1, vpid = 9\<rparr>"
  have "group_ok ?g" "rank_ok ?me ?g" "local_ok ?me ?g" "fresh 7 ?g" "?me \<notin> set (members ?g)" "grp_proc_count ?g \<le> 56"
    "[0, 1 :: int] \<noteq> []" "sorted [0, 1 :: int]" "distinct [0, 1 :: int]" "set [0, 1] \<subseteq> {0..<grp_proc_count ?g}"
    by (simp_all add: slot_name_def rank_ok_def rank_of_def fresh_def grp_parent_def)
  from group_incl_bmap_nonmember_faults [OF this] show ?thesis by blast
qed

end
