(* ===== verification/Ompi_Group_Ops.thy ===== *)
theory Ompi_Group_Ops
  imports Ompi_Group Opal_Bitmap
begin

text \<open>
  The set operations on process groups and their comparison: the rest of \<^verbatim>\<open>ompi/group/group.c\<close>, union and
  difference of \<^verbatim>\<open>group_plist.c\<close>, and \<open>ompi_group_flatten\<close> of \<^verbatim>\<open>group_init.c\<close>. Union and difference mark the common
  processes in an \<open>opal_bitmap_t\<close>. A null pointer returned by an unchecked \<open>malloc\<close> and then written, a
  write past an allocated array, and the overflow of an \<open>int\<close> are faults.
\<close>

section \<open>Exclusion and ranges\<close>

definition ompi_group_excl ::
  "bool \<Rightarrow> bool \<Rightarrow> int \<Rightarrow> process_name \<Rightarrow> nat \<Rightarrow> ompi_group \<Rightarrow> int list \<Rightarrow> group_result" where
  "ompi_group_excl sparse mem_ok before me addr g ranks =
     (let room = grp_proc_count g - int (length ranks);
          included = (if 0 < room then filter (\<lambda>i. i \<notin> set ranks) [0..grp_proc_count g - 1] else [])
      in if included \<noteq> [] \<and> (\<not> mem_ok \<or> int (length included) > room) then None
         else ompi_group_incl sparse mem_ok before me addr g included)"

text \<open>The loops over a range. The index is an \<open>int\<close> that is increased once more behind the last rank.\<close>

partial_function (option) range_up :: "int \<Rightarrow> int \<Rightarrow> int \<Rightarrow> int list \<Rightarrow> int list option" where
  "range_up index last_rank stride acc =
     (if index \<le> last_rank
      then do { i \<leftarrow> c_int (index + stride); range_up i last_rank stride (index # acc) }
      else Some (rev acc))"

partial_function (option) range_down :: "int \<Rightarrow> int \<Rightarrow> int \<Rightarrow> int list \<Rightarrow> int list option" where
  "range_down index last_rank stride acc =
     (if index \<ge> last_rank
      then do { i \<leftarrow> c_int (index + stride); range_down i last_rank stride (index # acc) }
      else Some (rev acc))"

definition expand_range :: "int \<times> int \<times> int \<Rightarrow> int list option" where
  "expand_range t =
     (case t of (first_rank, last_rank, stride) \<Rightarrow>
        (if first_rank < last_rank then range_up first_rank last_rank stride []
         else if first_rank > last_rank then range_down first_rank last_rank stride []
         else Some [first_rank]))"

text \<open>The ranks are counted in an \<open>int\<close> before the array for them is allocated.\<close>

definition ompi_group_range_incl ::
  "bool \<Rightarrow> bool \<Rightarrow> int \<Rightarrow> process_name \<Rightarrow> nat \<Rightarrow> ompi_group \<Rightarrow> (int \<times> int \<times> int) list \<Rightarrow> group_result" where
  "ompi_group_range_incl sparse mem_ok before me addr g ranges =
     (case mapo expand_range ranges of
        None \<Rightarrow> None
      | Some rs \<Rightarrow>
          (let included = concat rs
           in if c_int (int (length included)) = None then None
              else if included \<noteq> [] \<and> \<not> mem_ok then None
              else ompi_group_incl sparse mem_ok before me addr g included))"

definition ompi_group_range_excl ::
  "bool \<Rightarrow> bool \<Rightarrow> int \<Rightarrow> process_name \<Rightarrow> nat \<Rightarrow> ompi_group \<Rightarrow> (int \<times> int \<times> int) list \<Rightarrow> group_result" where
  "ompi_group_range_excl sparse mem_ok before me addr g ranges =
     (case mapo expand_range ranges of
        None \<Rightarrow> None
      | Some rs \<Rightarrow>
          (let excluded = concat rs;
               room = grp_proc_count g - int (length excluded);
               included = filter (\<lambda>i. i \<notin> set excluded) [0..grp_proc_count g - 1]
           in if c_int (int (length excluded)) = None then None
              else if excluded \<noteq> [] \<and> \<not> mem_ok then None
              else if included \<noteq> [] \<and> (\<not> mem_ok \<or> int (length included) > room) then None
              else ompi_group_incl sparse mem_ok before me addr g included))"

section \<open>Intersection, union, difference\<close>

text \<open>Whether the process at a rank of the first group is in the second.\<close>

definition in_group :: "ompi_group \<Rightarrow> ompi_group \<Rightarrow> int \<Rightarrow> bool option" where
  "in_group g1 g2 r =
     (case ompi_group_get_proc_name g1 r of
        None \<Rightarrow> None
      | Some name \<Rightarrow> map_option (\<lambda>q. q \<noteq> MPI_UNDEFINED) (find_proc g2 name))"

definition ompi_group_intersection ::
  "bool \<Rightarrow> bool \<Rightarrow> int \<Rightarrow> process_name \<Rightarrow> nat \<Rightarrow> ompi_group \<Rightarrow> ompi_group \<Rightarrow> group_result" where
  "ompi_group_intersection sparse mem_ok before me addr g1 g2 =
     (if 0 < grp_proc_count g1 \<and> \<not> mem_ok then Some (Inl MPI_ERR_NO_MEM)
      else
        (case mapo (in_group g1 g2) [0..grp_proc_count g1 - 1] of
           None \<Rightarrow> None
         | Some bs \<Rightarrow>
             ompi_group_incl sparse mem_ok before me addr g1
               (map fst (filter snd (zip [0..grp_proc_count g1 - 1] bs)))))"

text \<open>The loop of \<open>ompi_group_dense_overlap\<close>: an error code of the bitmap, or the number of common processes.\<close>

fun overlap_loop ::
  "bool \<Rightarrow> ompi_group \<Rightarrow> ompi_group \<Rightarrow> int list \<Rightarrow> opal_bitmap \<Rightarrow> int \<Rightarrow> ((opal_status + int) \<times> opal_bitmap) option" where
  "overlap_loop mem_ok g1 g2 [] bm count = Some (Inr count, bm)"
| "overlap_loop mem_ok g1 g2 (r # rs) bm count =
     (case ompi_group_get_proc_name g1 r of
        None \<Rightarrow> None
      | Some name \<Rightarrow>
          (case find_proc g2 name of
             None \<Rightarrow> None
           | Some q \<Rightarrow>
               (if q = MPI_UNDEFINED then overlap_loop mem_ok g1 g2 rs bm count
                else
                  (case opal_bitmap_set_bit mem_ok bm q of
                     None \<Rightarrow> None
                   | Some (rc, bm') \<Rightarrow>
                       (if rc \<noteq> OPAL_SUCCESS then Some (Inl rc, bm')
                        else overlap_loop mem_ok g1 g2 rs bm' (count + 1))))))"

definition ompi_group_dense_overlap ::
  "bool \<Rightarrow> ompi_group \<Rightarrow> ompi_group \<Rightarrow> opal_bitmap \<Rightarrow> ((opal_status + int) \<times> opal_bitmap) option" where
  "ompi_group_dense_overlap mem_ok g1 g2 bm = overlap_loop mem_ok g1 g2 [0..grp_proc_count g1 - 1] bm 0"

text \<open>The slots of a group whose bit is not set.\<close>

definition unmarked_slots :: "ompi_group \<Rightarrow> opal_bitmap \<Rightarrow> ompi_proc list option" where
  "unmarked_slots g bm =
     map_option concat
       (mapo (\<lambda>r. case opal_bitmap_is_set_bit bm r of
                    None \<Rightarrow> None
                  | Some b \<Rightarrow> (if b then Some [] else map_option (\<lambda>p. [p]) (ompi_group_get_proc_ptr_raw g r)))
          [0..grp_proc_count g - 1])"

definition new_dense :: "nat \<Rightarrow> int \<Rightarrow> ompi_proc list \<Rightarrow> process_name option \<Rightarrow> group_result" where
  "new_dense addr new_size ps me =
     (if int (length ps) > new_size then None
      else map_option Inr (ompi_set_group_rank (Group addr new_size MPI_UNDEFINED (Dense ps)) me))"

definition ompi_group_union ::
  "bool \<Rightarrow> process_name \<Rightarrow> nat \<Rightarrow> ompi_group \<Rightarrow> ompi_group \<Rightarrow> group_result" where
  "ompi_group_union mem_ok me addr g1 g2 =
     (case opal_bitmap_init mem_ok opal_bitmap_construct 32 of (rc, bm) \<Rightarrow>
        (if rc \<noteq> OPAL_SUCCESS then Some (Inl (OPAL_CODE rc))
         else
           (case ompi_group_dense_overlap mem_ok g1 g2 bm of
              None \<Rightarrow> None
            | Some (Inl rc', _) \<Rightarrow> Some (Inl (OPAL_CODE rc'))
            | Some (Inr overlap_count, bm') \<Rightarrow>
                (case c_int (grp_proc_count g1 + grp_proc_count g2) of
                   None \<Rightarrow> None
                 | Some both \<Rightarrow>
                     (let new_size = both - overlap_count
                      in if new_size = 0 then Some (Inr MPI_GROUP_EMPTY)
                         else if \<not> mem_ok then Some (Inl MPI_ERR_GROUP)
                         else
                           (case mapo (ompi_group_get_proc_ptr_raw g1) [0..grp_proc_count g1 - 1] of
                              None \<Rightarrow> None
                            | Some ps1 \<Rightarrow>
                                (case unmarked_slots g2 bm' of
                                   None \<Rightarrow> None
                                 | Some ps2 \<Rightarrow>
                                     new_dense addr new_size (ps1 @ ps2)
                                       (if grp_my_rank g1 \<noteq> MPI_UNDEFINED \<or> grp_my_rank g2 \<noteq> MPI_UNDEFINED
                                        then Some me else None))))))))"

definition ompi_group_difference ::
  "bool \<Rightarrow> process_name \<Rightarrow> nat \<Rightarrow> ompi_group \<Rightarrow> ompi_group \<Rightarrow> group_result" where
  "ompi_group_difference mem_ok me addr g1 g2 =
     (case opal_bitmap_init mem_ok opal_bitmap_construct 32 of (rc, bm) \<Rightarrow>
        (if rc \<noteq> OPAL_SUCCESS then Some (Inl (OPAL_CODE rc))
         else
           (case ompi_group_dense_overlap mem_ok g2 g1 bm of
              None \<Rightarrow> None
            | Some (Inl rc', _) \<Rightarrow> Some (Inl (OPAL_CODE rc'))
            | Some (Inr overlap_count, bm') \<Rightarrow>
                (let new_size = grp_proc_count g1 - overlap_count
                 in if new_size = 0 then Some (Inr MPI_GROUP_EMPTY)
                    else if \<not> mem_ok then Some (Inl MPI_ERR_GROUP)
                    else
                      (case unmarked_slots g1 bm' of
                         None \<Rightarrow> None
                       | Some ps \<Rightarrow>
                           new_dense addr new_size ps
                             (if grp_my_rank g1 = MPI_UNDEFINED \<or> grp_my_rank g2 \<noteq> MPI_UNDEFINED
                              then None else Some me))))))"

section \<open>Comparison\<close>

datatype group_compare = MPI_IDENT | MPI_CONGRUENT | MPI_SIMILAR | MPI_UNEQUAL

text \<open>The result of the loop is \<open>(similar, identical)\<close>.\<close>

fun compare_loop :: "ompi_group \<Rightarrow> ompi_group \<Rightarrow> int list \<Rightarrow> bool \<Rightarrow> (bool \<times> bool) option" where
  "compare_loop g1 g2 [] identical = Some (True, identical)"
| "compare_loop g1 g2 (r # rs) identical =
     (case ompi_group_get_proc_name g1 r of
        None \<Rightarrow> None
      | Some name \<Rightarrow>
          (case find_proc g2 name of
             None \<Rightarrow> None
           | Some q \<Rightarrow>
               (if q = MPI_UNDEFINED then Some (False, False)
                else compare_loop g1 g2 rs (identical \<and> r = q))))"

definition ompi_group_compare :: "ompi_group \<Rightarrow> ompi_group \<Rightarrow> group_compare option" where
  "ompi_group_compare g1 g2 =
     (if grp_addr g1 = grp_addr g2 then Some MPI_IDENT
      else if is_group_empty g1 \<or> is_group_empty g2 then Some MPI_UNEQUAL
      else if grp_proc_count g1 \<noteq> grp_proc_count g2 then Some MPI_UNEQUAL
      else
        (case compare_loop g1 g2 [0..grp_proc_count g1 - 1] True of
           None \<Rightarrow> None
         | Some (similar, identical) \<Rightarrow>
             Some (if identical then MPI_IDENT else if similar then MPI_SIMILAR else MPI_UNEQUAL)))"

definition ompi_group_overlap :: "ompi_group \<Rightarrow> ompi_group \<Rightarrow> bool option" where
  "ompi_group_overlap g1 g2 =
     map_option (\<lambda>r. r \<noteq> MPI_UNDEFINED) (search_ranks (in_group g1 g2) [0..grp_proc_count g1 - 1])"

definition ompi_group_to_proc_name_array :: "bool \<Rightarrow> ompi_group \<Rightarrow> (opal_status + process_name list) option" where
  "ompi_group_to_proc_name_array mem_ok g =
     (if \<not> mem_ok then Some (Inl OPAL_ERR_OUT_OF_RESOURCE)
      else map_option Inr (mapo (ompi_group_get_proc_name g) [0..grp_proc_count g - 1]))"

section \<open>Flattening and locality\<close>

text \<open>Peer lookups one after the other; each may materialise a sentinel.\<close>

fun lookup_all :: "ompi_group \<Rightarrow> int list \<Rightarrow> (ompi_proc list \<times> ompi_group) option" where
  "lookup_all g [] = Some ([], g)"
| "lookup_all g (r # rs) =
     (case ompi_group_peer_lookup g r of
        Some (Some n, g') \<Rightarrow> map_option (\<lambda>(ps, h). (Proc n # ps, h)) (lookup_all g' rs)
      | _ \<Rightarrow> None)"

definition ompi_group_flatten ::
  "bool \<Rightarrow> nat \<Rightarrow> ompi_group \<Rightarrow> int \<Rightarrow> (ompi_group option \<times> ompi_group) option" where
  "ompi_group_flatten mem_ok addr g max_procs =
     (let proc_count = (if max_procs > grp_proc_count g then grp_proc_count g else max_procs);
          my_rank = (if grp_my_rank g \<ge> max_procs then MPI_UNDEFINED else grp_my_rank g)
      in if \<not> mem_ok then Some (None, g)
         else
           (case grp_data g of
              Dense ps \<Rightarrow> Some (Some (Group addr proc_count my_rank (Dense (take (nat proc_count) ps))), g)
            | _ \<Rightarrow>
                map_option (\<lambda>(ps, h). (Some (Group addr proc_count my_rank (Dense ps)), h))
                  (lookup_all g [0..proc_count - 1])))"

text \<open>\<open>OPAL_PROC_ON_LOCAL_NODE\<close> reads a flag of the process object, given here by \<open>is_local\<close>.\<close>

fun have_remote_loop :: "(process_name \<Rightarrow> bool) \<Rightarrow> ompi_group \<Rightarrow> int list \<Rightarrow> (bool \<times> ompi_group) option" where
  "have_remote_loop is_local g [] = Some (False, g)"
| "have_remote_loop is_local g (r # rs) =
     (case ompi_group_peer_lookup g r of
        Some (Some n, g') \<Rightarrow> (if \<not> is_local n then Some (True, g') else have_remote_loop is_local g' rs)
      | _ \<Rightarrow> None)"

definition ompi_group_have_remote_peers :: "(process_name \<Rightarrow> bool) \<Rightarrow> ompi_group \<Rightarrow> (bool \<times> ompi_group) option" where
  "ompi_group_have_remote_peers is_local g = have_remote_loop is_local g [0..grp_proc_count g - 1]"

definition ompi_group_count_local_peers :: "(process_name \<Rightarrow> bool) \<Rightarrow> ompi_group \<Rightarrow> (int \<times> ompi_group) option" where
  "ompi_group_count_local_peers is_local g =
     map_option (\<lambda>(ps, h). (int (length (filter (\<lambda>p. \<exists>n. p = Proc n \<and> is_local n) ps)), h))
       (lookup_all g [0..grp_proc_count g - 1])"

text \<open>
  \<open>ompi_group_proc_lookup_rank\<close> tries the ranks from the number of the process in its job on. The sum of the
  loop counter and the \<open>uint32_t\<close> \<open>vpid\<close> is unsigned.
\<close>

definition lookup_rank :: "u32 \<Rightarrow> int \<Rightarrow> int \<Rightarrow> int" where
  "lookup_rank v np i = uint ((word_of_int i + v) mod word_of_int np)"

definition slot_is :: "ompi_group \<Rightarrow> process_name \<Rightarrow> int \<Rightarrow> bool option" where
  "slot_is g name r =
     (case ompi_group_get_proc_ptr_raw g r of
        None \<Rightarrow> None
      | Some (Proc n) \<Rightarrow> Some (n = name)
      | Some (Sentinel s) \<Rightarrow>
          map_option (\<lambda>n. ompi_rte_compare_name_fields OMPI_RTE_CMP_ALL (Some name) (Some n) = 0)
            (ompi_proc_sentinel_to_name s))"

definition ompi_group_proc_lookup_rank :: "ompi_group \<Rightarrow> process_name \<Rightarrow> int option" where
  "ompi_group_proc_lookup_rank g name =
     (let np = ompi_group_size g
      in if np = 0 then Some MPI_PROC_NULL
         else map_option (\<lambda>r. if r = MPI_UNDEFINED then MPI_PROC_NULL else r)
                (search_ranks (slot_is g name) (map (lookup_rank (vpid name) np) [0..np - 1])))"

section \<open>Correctness of the loops\<close>

lemma range_up_correct:
  assumes "0 < s" and "first \<le> last_rank + s" and "last_rank < 2 ^ 31" and "- (2 ^ 31) \<le> first"
  shows "range_up first last_rank s acc =
           (if first \<le> last_rank \<and> 2 ^ 31 \<le> first + s * ((last_rank - first) div s + 1) then None
            else Some (rev acc @ map (\<lambda>i. first + s * i) [0..(last_rank - first) div s]))"
  using assms
proof (induction "nat (last_rank - first + s)" arbitrary: first acc rule: less_induct)
  case less
  show ?case
  proof (cases "first \<le> last_rank")
    case True
    let ?k = "(last_rank - first) div s"
    have k0: "0 \<le> ?k" using True less.prems(1) by (simp add: pos_imp_zdiv_nonneg_iff)
    have k1: "(last_rank - (first + s)) div s = ?k - 1"
      using less.prems(1) div_add_self2 [of s "last_rank - (first + s)"] by simp
    have e: "first + s + s * ((last_rank - (first + s)) div s + 1) = first + s * (?k + 1)"
      unfolding k1 by (simp add: algebra_simps)
    have u: "[0..?k] = 0 # [1..?k]" using k0 by (simp add: upto_rec1)
    have m: "map (\<lambda>i. first + s + s * i) [0..?k - 1] = map (\<lambda>i. first + s * i) [1..?k]"
      by (rule nth_equalityI) (auto simp: algebra_simps)
    show ?thesis
    proof (cases "2 ^ 31 \<le> first + s")
      case True
      have "0 \<le> s * ?k" using k0 less.prems(1) by simp
      then have "2 ^ 31 \<le> first + s * (?k + 1)" using True by (simp add: algebra_simps)
      then show ?thesis using \<open>first \<le> last_rank\<close> c_int_out [OF True] by (subst range_up.simps) simp
    next
      case False
      have c: "c_int (first + s) = Some (first + s)" using False less.prems(1,4) by (simp add: c_int_def)
      have "range_up (first + s) last_rank s (first # acc) =
          (if first + s \<le> last_rank \<and> 2 ^ 31 \<le> first + s * (?k + 1) then None
           else Some (rev (first # acc) @ map (\<lambda>i. first + s + s * i) [0..?k - 1]))"
        using less.hyps [of "first + s" "first # acc"] less.prems True unfolding e k1 by (simp add: algebra_simps)
      moreover have "first + s * (?k + 1) = first + s" if "\<not> first + s \<le> last_rank"
      proof -
        have "last_rank - first < s" using that by linarith
        then have "?k = 0" using True by (simp add: div_pos_pos_trivial)
        then show ?thesis by simp
      qed
      ultimately show ?thesis using True False c u m by (subst range_up.simps) auto
    qed
  next
    case False
    then have "(last_rank - first) div s < 0" using less.prems(1) by (simp add: neg_imp_zdiv_neg_iff pos_imp_zdiv_neg_iff)
    then show ?thesis using False by (subst range_up.simps) simp
  qed
qed

text \<open>A range that goes down is one that goes up, with the signs changed, except that the least \<open>int\<close> has no negative.\<close>

lemma range_down_correct:
  assumes "s < 0" and "last_rank + s \<le> first" and "- (2 ^ 31) \<le> last_rank" and "first < 2 ^ 31"
  shows "range_down first last_rank s acc =
           (if last_rank \<le> first \<and> first + s * ((first - last_rank) div (- s) + 1) < - (2 ^ 31) then None
            else Some (rev acc @ map (\<lambda>i. first + s * i) [0..(first - last_rank) div (- s)]))"
  using assms
proof (induction "nat (first - last_rank - s)" arbitrary: first acc rule: less_induct)
  case less
  note [simp del] = div_minus_right
  show ?case
  proof (cases "first \<ge> last_rank")
    case True
    let ?k = "(first - last_rank) div (- s)"
    have k0: "0 \<le> ?k" using True less.prems(1) by (simp add: pos_imp_zdiv_nonneg_iff)
    have k1: "(first + s - last_rank) div (- s) = ?k - 1"
      using less.prems(1) div_add_self2 [of "- s" "first + s - last_rank"] by simp
    have e: "first + s + s * ((first + s - last_rank) div (- s) + 1) = first + s * (?k + 1)"
      unfolding k1 by (simp add: algebra_simps)
    have u: "[0..?k] = 0 # [1..?k]" using k0 by (simp add: upto_rec1)
    have m: "map (\<lambda>i. first + s + s * i) [0..?k - 1] = map (\<lambda>i. first + s * i) [1..?k]"
      by (rule nth_equalityI) (auto simp: algebra_simps)
    show ?thesis
    proof (cases "first + s < - (2 ^ 31)")
      case True
      have "s * ?k \<le> 0" using k0 less.prems(1) by (simp add: mult_nonpos_nonneg)
      then have "first + s * (?k + 1) < - (2 ^ 31)" using True by (simp add: algebra_simps)
      moreover have "c_int (first + s) = None" using True by (simp add: c_int_def)
      ultimately show ?thesis using \<open>first \<ge> last_rank\<close> by (subst range_down.simps) simp
    next
      case False
      have c: "c_int (first + s) = Some (first + s)" using False less.prems(1,4) by (simp add: c_int_def)
      have "range_down (first + s) last_rank s (first # acc) =
          (if last_rank \<le> first + s \<and> first + s * (?k + 1) < - (2 ^ 31) then None
           else Some (rev (first # acc) @ map (\<lambda>i. first + s + s * i) [0..?k - 1]))"
        using less.hyps [of "first + s" "first # acc"] less.prems True unfolding e k1 by (simp add: algebra_simps)
      moreover have "first + s * (?k + 1) = first + s" if "\<not> last_rank \<le> first + s"
      proof -
        have "first - last_rank < - s" using that by linarith
        then have "?k = 0" using True by (simp add: div_pos_pos_trivial)
        then show ?thesis by simp
      qed
      ultimately show ?thesis using True False c u m by (subst range_down.simps) auto
    qed
  next
    case False
    then have "(first - last_rank) div (- s) < 0" using less.prems(1) by (simp add: pos_imp_zdiv_neg_iff)
    then show ?thesis using False by (subst range_down.simps) simp
  qed
qed

text \<open>With a stride of zero or of the wrong sign a loop does not end, or its index overflows.\<close>

lemma range_up_stuck: "stride \<le> 0 \<Longrightarrow> index \<le> last_rank \<Longrightarrow> range_up index last_rank stride acc = None"
proof -
  have "range_up index last_rank stride acc = Some ys \<Longrightarrow> \<not> (stride \<le> 0 \<and> index \<le> last_rank)" for ys
    by (erule range_up.raw_induct [rotated]) (fastforce simp: c_int_def Option.bind_eq_Some_conv split: if_splits)
  then show "stride \<le> 0 \<Longrightarrow> index \<le> last_rank \<Longrightarrow> ?thesis" by (meson not_None_eq)
qed

lemma range_down_stuck: "0 \<le> stride \<Longrightarrow> last_rank \<le> index \<Longrightarrow> range_down index last_rank stride acc = None"
proof -
  have "range_down index last_rank stride acc = Some ys \<Longrightarrow> \<not> (0 \<le> stride \<and> last_rank \<le> index)" for ys
    by (erule range_down.raw_induct [rotated]) (fastforce simp: c_int_def Option.bind_eq_Some_conv split: if_splits)
  then show "0 \<le> stride \<Longrightarrow> last_rank \<le> index \<Longrightarrow> ?thesis" by (meson not_None_eq)
qed

text \<open>
  The ranks of a triplet as the MPI standard defines them, and the triplets of \<open>int\<close>s it allows. A triplet fits when
  the index one stride behind its last rank is still an \<open>int\<close>.
\<close>

definition range_ranks :: "int \<times> int \<times> int \<Rightarrow> int list" where
  "range_ranks t = (case t of (f, l, s) \<Rightarrow> map (\<lambda>i. f + s * i) [0..(l - f) div s])"

definition range_ok :: "int \<times> int \<times> int \<Rightarrow> bool" where
  "range_ok t \<longleftrightarrow>
     (case t of (f, l, s) \<Rightarrow>
        s \<noteq> 0 \<and> (f < l \<longrightarrow> 0 < s) \<and> (l < f \<longrightarrow> s < 0) \<and> f \<in> {- (2 ^ 31)..<2 ^ 31} \<and> l \<in> {- (2 ^ 31)..<2 ^ 31})"

definition range_fits :: "int \<times> int \<times> int \<Rightarrow> bool" where
  "range_fits t \<longleftrightarrow>
     (case t of (f, l, s) \<Rightarrow> f = l \<or> f + s * ((l - f) div s + 1) \<in> {- (2 ^ 31)..<2 ^ 31})"

lemma range_end:
  fixes f l s :: int
  assumes "0 < s" and "f < l"
  shows "l < f + s * ((l - f) div s + 1)"
proof -
  have "l - f = s * ((l - f) div s) + (l - f) mod s" by simp
  moreover have "(l - f) mod s < s" using assms(1) by simp
  moreover have "s * ((l - f) div s + 1) = s * ((l - f) div s) + s" by (simp add: algebra_simps)
  ultimately show ?thesis by linarith
qed

lemma expand_range_correct:
  assumes "range_ok t"
  shows "expand_range t = (if range_fits t then Some (range_ranks t) else None)"
proof -
  obtain f l s where t: "t = (f, l, s)" by (cases t)
  have d: "(f - l) div (- s) = (l - f) div s" using div_minus_minus [of "l - f" s] by simp
  have b: "f \<in> {- (2 ^ 31)..<2 ^ 31}" "l \<in> {- (2 ^ 31)..<2 ^ 31}" "s \<noteq> 0" "f < l \<longrightarrow> 0 < s" "l < f \<longrightarrow> s < 0"
    using assms t by (auto simp: range_ok_def)
  consider "f = l" | "f < l" | "l < f" by linarith
  then show ?thesis
  proof cases
    case 1
    then show ?thesis using t b(3) by (simp add: expand_range_def range_fits_def range_ranks_def)
  next
    case 2
    have "l < f + s * ((l - f) div s + 1)" using range_end 2 b(4) by blast
    then have "- (2 ^ 31) \<le> f + s * ((l - f) div s + 1)" using b(2) by auto
    then show ?thesis using 2 t b range_up_correct [of s f l "[]"]
      by (auto simp: expand_range_def range_fits_def range_ranks_def)
  next
    case 3
    have "- l < - f + - s * ((- l - - f) div (- s) + 1)" using range_end [of "- s" "- f" "- l"] 3 b(5) by simp
    moreover have "- l - - f = f - l" by simp
    ultimately have "- l < - f - s * ((l - f) div s + 1)" unfolding d [symmetric] by (simp del: div_minus_right)
    then have "f + s * ((l - f) div s + 1) < 2 ^ 31" using b(2) by auto
    then show ?thesis using 3 t b range_down_correct [of s l f "[]"] unfolding d
      by (auto simp: expand_range_def range_fits_def range_ranks_def)
  qed
qed

lemma expand_range_stuck:
  assumes "f \<noteq> l" and "(f < l \<and> s \<le> 0) \<or> (l < f \<and> 0 \<le> s)"
  shows "expand_range (f, l, s) = None"
  using assms range_up_stuck [of s f l "[]"] range_down_stuck [of s l f "[]"] by (auto simp: expand_range_def)

subsection \<open>Selecting members\<close>

lemma upto_range_subset: "set [0..n - 1] \<subseteq> {0..<n :: int}"
  by auto

lemma upto_members: "map (\<lambda>r. ms ! nat r) [0..int (length ms) - 1] = ms"
  by (rule nth_equalityI) auto

lemma select_filter:
  "map (\<lambda>r. ms ! nat r) (filter (\<lambda>r. P (ms ! nat r)) [0..int (length ms) - 1]) = filter P ms"
proof -
  have "map (\<lambda>r. ms ! nat r) (filter (\<lambda>r. P (ms ! nat r)) [0..int (length ms) - 1]) =
      filter P (map (\<lambda>r. ms ! nat r) [0..int (length ms) - 1])"
    by (simp add: filter_map comp_def)
  then show ?thesis by (simp only: upto_members)
qed

lemma ranks_ok_filter: "ranks_ok g (filter P [0..grp_proc_count g - 1])"
  by (auto simp: ranks_ok_def)

lemma length_excluded:
  assumes "distinct ranks" and "set ranks \<subseteq> {0..<n}" and "0 \<le> n"
  shows "int (length (filter (\<lambda>i. i \<notin> set ranks) [0..n - 1])) = n - int (length ranks)"
proof -
  have "length (filter (\<lambda>i. i \<notin> set ranks) [0..n - 1]) = card ({0..<n} - set ranks)"
    by (subst distinct_card [symmetric]) (auto intro!: arg_cong [where f = card])
  also have "\<dots> = nat n - length ranks"
    using assms distinct_card [OF assms(1)] by (simp add: card_Diff_subset)
  finally show ?thesis
    using assms card_mono [OF _ assms(2)] distinct_card [OF assms(1)] by simp
qed

lemma in_group_correct:
  assumes "group_ok g1" and "group_ok g2" and "0 \<le> r" and "r < grp_proc_count g1"
  shows "in_group g1 g2 r = Some (members g1 ! nat r \<in> set (members g2))"
  using get_name_member [OF assms(1,3,4)] find_proc_correct [OF assms(2)]
  by (simp add: in_group_def rank_of_undefined)

subsection \<open>The overlap of two groups\<close>

text \<open>The overlap loop sets the bits of the common processes: it is the loop of the bit-set interface.\<close>

lemma overlap_loop_set_all:
  assumes "group_ok g1" and "group_ok g2" and "set rs \<subseteq> {0..<grp_proc_count g1}"
    and "set_all bitmap_set bm
           (map (\<lambda>r. rank_of (members g2) (members g1 ! nat r))
              (filter (\<lambda>r. members g1 ! nat r \<in> set (members g2)) rs)) = Some bm'"
  shows "overlap_loop True g1 g2 rs bm cnt =
           Some (Inr (cnt + int (length (filter (\<lambda>r. members g1 ! nat r \<in> set (members g2)) rs))), bm')"
  using assms(3,4)
proof (induction rs arbitrary: bm cnt)
  case (Cons r rs)
  have name: "ompi_group_get_proc_name g1 r = Some (members g1 ! nat r)"
    using get_name_member [OF assms(1)] Cons.prems(1) by simp
  note fp = find_proc_correct [OF assms(2), of "members g1 ! nat r"]
  show ?case
  proof (cases "members g1 ! nat r \<in> set (members g2)")
    case True
    then obtain bm1 where b: "bitmap_set bm (rank_of (members g2) (members g1 ! nat r)) = Some bm1"
      "set_all bitmap_set bm1 (map (\<lambda>r. rank_of (members g2) (members g1 ! nat r))
              (filter (\<lambda>r. members g1 ! nat r \<in> set (members g2)) rs)) = Some bm'"
      using Cons.prems(2) by (auto split: option.splits)
    have sb: "opal_bitmap_set_bit True bm (rank_of (members g2) (members g1 ! nat r)) = Some (OPAL_SUCCESS, bm1)"
      using b(1) by (auto simp: bitmap_set_def split: option.splits prod.splits opal_status.splits)
    show ?thesis
      using Cons.IH [OF _ b(2), of "cnt + 1"] Cons.prems(1) True name fp sb
      by (simp add: rank_of_undefined)
  next
    case False
    then show ?thesis using Cons.IH [of bm cnt] Cons.prems name fp by simp
  qed
qed simp

lemma dense_overlap_correct:
  assumes "group_ok g1" and "group_ok g2" and "bitmap_inv bm" and "\<forall>b. \<not> bits_of bm b" and "0 < max_size bm"
    and "grp_proc_count g2 \<le> max_size bm" and "array_size bm < 2 ^ 25" and "grp_proc_count g2 \<le> 2 ^ 31 - 64"
  shows "\<exists>bm'. ompi_group_dense_overlap True g1 g2 bm =
             Some (Inr (int (length (filter (\<lambda>n. n \<in> set (members g2)) (members g1)))), bm') \<and> bitmap_inv bm' \<and>
           array_size bm' < 2 ^ 25 \<and>
           (\<forall>q. 0 \<le> q \<longrightarrow> q < grp_proc_count g2 \<longrightarrow> bits_of bm' q \<longleftrightarrow> members g2 ! nat q \<in> set (members g1))"
proof -
  let ?rs = "[0..grp_proc_count g1 - 1]"
  let ?common = "filter (\<lambda>r. members g1 ! nat r \<in> set (members g2)) ?rs"
  let ?bs = "map (\<lambda>r. rank_of (members g2) (members g1 ! nat r)) ?common"
  note c = group_ok_count [OF assms(1)] group_ok_count [OF assms(2)]
  have "\<forall>b \<in> set ?bs. 0 \<le> b \<and> b \<le> min (max_size bm) (2 ^ 31 - 65)"
    using rank_of_in [of _ "members g2"] assms(6,8) c(2) by fastforce
  then obtain bm' where bm': "set_all bitmap_set bm ?bs = Some bm'" "bitmap_inv bm'"
    "\<forall>b. bits_of bm' b \<longleftrightarrow> bits_of bm b \<or> b \<in> set ?bs" "array_size bm' < 2 ^ 25"
    using bitmap_bits.set_all_step [of bm ?bs] assms(3,5,7) by blast
  have len: "length ?common = length (filter (\<lambda>n. n \<in> set (members g2)) (members g1))"
    using arg_cong [OF select_filter [of "members g1" "\<lambda>n. n \<in> set (members g2)"], of length] c(1) by simp
  have "bits_of bm' q \<longleftrightarrow> members g2 ! nat q \<in> set (members g1)" if q: "0 \<le> q" "q < grp_proc_count g2" for q
  proof
    assume "bits_of bm' q"
    then obtain r where r: "r \<in> set ?common" "q = rank_of (members g2) (members g1 ! nat r)"
      using bm'(3) assms(4) by auto
    then have "members g2 ! nat q = members g1 ! nat r" using rank_of_in by fastforce
    moreover have "nat r < length (members g1)" using r(1) c(1) by auto
    ultimately show "members g2 ! nat q \<in> set (members g1)" by simp
  next
    assume m: "members g2 ! nat q \<in> set (members g1)"
    then obtain i where i: "i < length (members g1)" "members g1 ! i = members g2 ! nat q" by (auto simp: in_set_conv_nth)
    have q2: "nat q < length (members g2)" using q c(2) by simp
    have "rank_of (members g2) (members g1 ! i) = q"
      using rank_of_nth [OF members_distinct [OF assms(2)] q2] i(2) q(1) by simp
    moreover have "int i \<in> set ?common" using i q2 c(1) by simp
    ultimately have "q \<in> set ?bs" by (metis (no_types, lifting) image_eqI list.set_map nat_int)
    then show "bits_of bm' q" using bm'(3) by blast
  qed
  moreover have "ompi_group_dense_overlap True g1 g2 bm = Some (Inr (int (length ?common)), bm')"
    using overlap_loop_set_all [OF assms(1,2) _ bm'(1), of 0]
    by (simp add: ompi_group_dense_overlap_def subset_iff)
  ultimately show ?thesis using bm'(2,4) len by auto
qed

subsection \<open>Building a dense group\<close>

text \<open>What union and difference promise of the group they build.\<close>

definition group_spec :: "process_name \<Rightarrow> nat \<Rightarrow> process_name list \<Rightarrow> ompi_group \<Rightarrow> bool" where
  "group_spec me addr ms ng \<longleftrightarrow>
     group_ok ng \<and> members ng = ms \<and> rank_ok me ng \<and> local_ok me ng \<and> grp_addr ng = (if ms = [] then 0 else addr)"

lemma group_spec_empty: "group_spec me addr [] MPI_GROUP_EMPTY"
  by (simp add: group_spec_def MPI_GROUP_EMPTY_def rank_ok_def)

lemma incl_spec_group: "incl_spec me addr g ranks ng \<longleftrightarrow> group_spec me addr (map (\<lambda>r. members g ! nat r) ranks) ng"
  by (auto simp: incl_spec_def group_spec_def)

definition slots_for :: "process_name \<Rightarrow> process_name list \<Rightarrow> ompi_proc list \<Rightarrow> bool" where
  "slots_for me ms ps \<longleftrightarrow> map slot_name ps = map Some ms \<and> (\<forall>p \<in> set ps. slot_name p = Some me \<longrightarrow> p = Proc me)"

lemma slots_for_append: "slots_for me ms ps \<Longrightarrow> slots_for me ns qs \<Longrightarrow> slots_for me (ms @ ns) (ps @ qs)"
  by (auto simp: slots_for_def)

lemma slots_for_length: "slots_for me ms ps \<Longrightarrow> length ps = length ms"
  by (metis length_map slots_for_def)

lemma map_slot_names:
  assumes eq: "map slot_name ps = map Some ms"
  shows "map (the \<circ> slot_name) ps = ms" and "\<forall>p \<in> set ps. slot_name p \<noteq> None"
proof -
  have "map the (map slot_name ps) = map the (map Some ms)" using eq by simp
  then show "map (the \<circ> slot_name) ps = ms" by (simp add: comp_def)
  have "slot_name p \<in> set (map Some ms)" if "p \<in> set ps" for p
    using that eq by (metis image_eqI list.set_map)
  then show "\<forall>p \<in> set ps. slot_name p \<noteq> None" by auto
qed

lemma new_dense_correct:
  assumes "slots_for me ms ps" and "distinct ms" and "ms \<noteq> []" and "addr \<noteq> 0"
    and "who = Some me \<or> (who = None \<and> me \<notin> set ms)"
  shows "\<exists>ng. new_dense addr (int (length ms)) ps who = Some (Inr ng) \<and> group_spec me addr ms ng"
proof -
  note n = map_slot_names [OF conjunct1 [OF assms(1) [unfolded slots_for_def]]] slots_for_length [OF assms(1)]
  have loc: "data_local_ok me (Dense ps)" using assms(1) by (auto simp: slots_for_def)
  have set_rank: "ompi_set_group_rank (Group addr (int (length ps)) MPI_UNDEFINED (Dense ps)) who =
      Some (Group addr (int (length ps)) (rank_of ms me) (Dense ps))"
    using assms(5) set_group_rank_dense [OF loc n(2)] n(1) rank_of_undefined [of ms me]
    by (auto simp: ompi_set_group_rank_def)
  then show ?thesis
    using n loc assms(2-4) by (auto simp: new_dense_def group_spec_def rank_ok_def)
qed

lemma raw_slots:
  assumes "group_ok g" and "local_ok me g" and "set rs \<subseteq> {0..<grp_proc_count g}"
  shows "\<exists>ps. mapo (ompi_group_get_proc_ptr_raw g) rs = Some ps \<and> slots_for me (map (\<lambda>r. members g ! nat r) rs) ps"
  using assms(3)
proof (induction rs)
  case (Cons r rs)
  then obtain ps where ps: "mapo (ompi_group_get_proc_ptr_raw g) rs = Some ps"
    "slots_for me (map (\<lambda>r. members g ! nat r) rs) ps" by auto
  obtain p where p: "ompi_group_get_proc_ptr_raw g r = Some p" "slot_name p = Some (members g ! nat r)"
    using get_raw_member [OF assms(1), of r] Cons.prems by auto
  have "slots_for me [members g ! nat r] [p]"
    using p raw_local [OF assms(2) p(1)] by (simp add: slots_for_def)
  then show ?case using slots_for_append [OF _ ps(2)] p(1) ps(1) by fastforce
qed (simp add: slots_for_def)

lemma unmarked_slots_correct:
  assumes "group_ok g" and "local_ok me g" and "bitmap_inv bm" and "array_size bm < 2 ^ 25"
    and "\<And>q. 0 \<le> q \<Longrightarrow> q < grp_proc_count g \<Longrightarrow> bits_of bm q \<longleftrightarrow> P (members g ! nat q)"
  shows "\<exists>ps. unmarked_slots g bm = Some ps \<and> slots_for me (filter (\<lambda>n. \<not> P n) (members g)) ps"
proof -
  have step: "\<exists>pss. mapo (\<lambda>r. case opal_bitmap_is_set_bit bm r of
                    None \<Rightarrow> None
                  | Some b \<Rightarrow> (if b then Some [] else map_option (\<lambda>p. [p]) (ompi_group_get_proc_ptr_raw g r))) rs =
                Some pss \<and> slots_for me (map (\<lambda>r. members g ! nat r) (filter (\<lambda>r. \<not> P (members g ! nat r)) rs)) (concat pss)"
    if "set rs \<subseteq> {0..<grp_proc_count g}" for rs
    using that
  proof (induction rs)
    case (Cons r rs)
    then obtain p where p: "ompi_group_get_proc_ptr_raw g r = Some p" "slot_name p = Some (members g ! nat r)"
      using get_raw_member [OF assms(1), of r] by auto
    have one: "slots_for me [members g ! nat r] [p]"
      using p raw_local [OF assms(2) p(1)] by (simp add: slots_for_def)
    show ?case
      using Cons assms(5) [of r] is_set_bit_eq [OF assms(3,4), of r] p(1) slots_for_append [OF one] by fastforce
  qed (simp add: slots_for_def)
  have sel: "map (\<lambda>r. members g ! nat r) (filter (\<lambda>r. \<not> P (members g ! nat r)) [0..grp_proc_count g - 1]) =
      filter (\<lambda>n. \<not> P n) (members g)"
    using select_filter [of "members g" "\<lambda>n. \<not> P n"] group_ok_count [OF assms(1)] by simp
  show ?thesis
    using step [OF upto_range_subset] unfolding sel by (auto simp: unmarked_slots_def)
qed

lemma length_common:
  assumes "distinct xs" and "distinct ys"
  shows "length (filter (\<lambda>n. n \<in> set ys) xs) = length (filter (\<lambda>n. n \<in> set xs) ys)"
proof -
  have "set (filter (\<lambda>n. n \<in> set ys) xs) = set (filter (\<lambda>n. n \<in> set xs) ys)" by auto
  then show ?thesis using assms distinct_card distinct_filter by metis
qed

subsection \<open>The operations\<close>

lemma excl_correct:
  assumes "group_ok g" "rank_ok me g" "local_ok me g" "ranks_ok g ranks" "fresh addr g"
  shows "incl_outcome sparse before me addr g (filter (\<lambda>i. i \<notin> set ranks) [0..grp_proc_count g - 1])
           (ompi_group_excl sparse True before me addr g ranks)"
proof -
  have c: "0 \<le> grp_proc_count g" using group_ok_count [OF assms(1)] by simp
  let ?inc = "filter (\<lambda>i. i \<notin> set ranks) [0..grp_proc_count g - 1]"
  have len: "int (length ?inc) = grp_proc_count g - int (length ranks)"
    using length_excluded [of ranks "grp_proc_count g"] c assms(4) by (simp add: ranks_ok_def)
  have "?inc = []" if "\<not> 0 < grp_proc_count g - int (length ranks)"
  proof -
    have "length ?inc = 0" using len that by linarith
    then show ?thesis by (simp only: length_0_conv)
  qed
  then have "ompi_group_excl sparse True before me addr g ranks = ompi_group_incl sparse True before me addr g ?inc"
    using len by (simp only: ompi_group_excl_def Let_def) auto
  then show ?thesis
    using incl_correct [OF assms(1-3) ranks_ok_filter assms(5)] by metis
qed

lemma mapo_ranges:
  assumes "\<forall>t \<in> set ranges. range_ok t"
  shows "mapo expand_range ranges =
           (if \<forall>t \<in> set ranges. range_fits t then Some (map range_ranks ranges) else None)"
proof (cases "\<forall>t \<in> set ranges. range_fits t")
  case True
  then show ?thesis using assms mapo_Some [of ranges expand_range range_ranks] by (simp add: expand_range_correct)
next
  case False
  then obtain t where "t \<in> set ranges" "expand_range t = None" using assms expand_range_correct by auto
  then show ?thesis using False mapo_None [of t ranges expand_range] by simp
qed

lemma ranks_ok_count:
  assumes "ranks_ok g ranks" and "group_ok g" and "grp_proc_count g \<le> INT_MAX"
  shows "c_int (int (length ranks)) = Some (int (length ranks))"
proof -
  have "length ranks = card (set ranks)" using assms(1) by (simp add: ranks_ok_def distinct_card)
  also have "\<dots> \<le> card {0..<grp_proc_count g}" using assms(1) by (intro card_mono) (auto simp: ranks_ok_def)
  finally show ?thesis using assms(3) by (simp add: INT_MAX_def)
qed

lemma range_incl_correct:
  assumes "\<forall>t \<in> set ranges. range_ok t" and "\<forall>t \<in> set ranges. range_fits t"
    and "group_ok g" "rank_ok me g" "local_ok me g" "ranks_ok g (concat (map range_ranks ranges))" "fresh addr g"
    and "grp_proc_count g \<le> INT_MAX"
  shows "incl_outcome sparse before me addr g (concat (map range_ranks ranges))
           (ompi_group_range_incl sparse True before me addr g ranges)"
  using incl_correct [OF assms(3-7)] ranks_ok_count [OF assms(6,3,8)]
  by (simp add: ompi_group_range_incl_def mapo_ranges [OF assms(1)] assms(2))

lemma range_excl_correct:
  assumes "\<forall>t \<in> set ranges. range_ok t" and "\<forall>t \<in> set ranges. range_fits t"
    and "group_ok g" "rank_ok me g" "local_ok me g" "ranks_ok g (concat (map range_ranks ranges))" "fresh addr g"
    and "grp_proc_count g \<le> INT_MAX"
  shows "incl_outcome sparse before me addr g
           (filter (\<lambda>i. i \<notin> set (concat (map range_ranks ranges))) [0..grp_proc_count g - 1])
           (ompi_group_range_excl sparse True before me addr g ranges)"
proof -
  let ?x = "concat (map range_ranks ranges)"
  have c: "0 \<le> grp_proc_count g" using group_ok_count [OF assms(3)] by simp
  have "\<not> int (length (filter (\<lambda>i. i \<notin> set ?x) [0..grp_proc_count g - 1])) > grp_proc_count g - int (length ?x)"
    using length_excluded [of ?x "grp_proc_count g"] c assms(6) by (simp add: ranks_ok_def)
  moreover have "(c_int (int (length ?x)) = None) = False" using ranks_ok_count [OF assms(6,3,8)] by simp
  ultimately have "ompi_group_range_excl sparse True before me addr g ranges =
      ompi_group_incl sparse True before me addr g (filter (\<lambda>i. i \<notin> set ?x) [0..grp_proc_count g - 1])"
    using assms(2) by (simp only: ompi_group_range_excl_def mapo_ranges [OF assms(1)] Let_def option.case if_True if_False) auto
  then show ?thesis
    using incl_correct [OF assms(3-5) ranks_ok_filter assms(7)] by metis
qed

lemma range_overflow:
  assumes "\<forall>t \<in> set ranges. range_ok t" and "\<not> (\<forall>t \<in> set ranges. range_fits t)"
  shows "ompi_group_range_incl sparse mem_ok before me addr g ranges = None"
    and "ompi_group_range_excl sparse mem_ok before me addr g ranges = None"
  unfolding ompi_group_range_incl_def ompi_group_range_excl_def mapo_ranges [OF assms(1)] if_not_P [OF assms(2)] option.case
  by (rule refl)+

lemma zip_map_filter: "map fst (filter snd (zip xs (map P xs))) = filter P xs"
  by (induction xs) auto

lemma intersection_correct:
  assumes "group_ok g1" "rank_ok me g1" "local_ok me g1" "fresh addr g1" "group_ok g2"
  shows "incl_outcome sparse before me addr g1
           (filter (\<lambda>r. members g1 ! nat r \<in> set (members g2)) [0..grp_proc_count g1 - 1])
           (ompi_group_intersection sparse True before me addr g1 g2)"
proof -
  let ?rs = "[0..grp_proc_count g1 - 1]"
  let ?in = "\<lambda>r. members g1 ! nat r \<in> set (members g2)"
  have "mapo (in_group g1 g2) ?rs = Some (map ?in ?rs)"
    by (rule mapo_Some) (simp add: in_group_correct [OF assms(1,5)])
  then have "ompi_group_intersection sparse True before me addr g1 g2 =
      ompi_group_incl sparse True before me addr g1 (filter ?in ?rs)"
    by (simp add: ompi_group_intersection_def zip_map_filter)
  then show ?thesis using incl_correct [OF assms(1-3) ranks_ok_filter assms(4)] by metis
qed

lemma fresh_bitmap:
  "\<exists>bm. opal_bitmap_init True opal_bitmap_construct 32 = (OPAL_SUCCESS, bm) \<and> bitmap_inv bm \<and>
     (\<forall>b. \<not> bits_of bm b) \<and> 0 < max_size bm \<and> INT_MAX \<le> max_size bm \<and> array_size bm < 2 ^ 25"
  using init_ok [of 32 opal_bitmap_construct] by (auto simp: opal_bitmap_construct_def INT_MAX_def words_for_def)

lemma union_correct:
  assumes "group_ok g1" "rank_ok me g1" "local_ok me g1" "group_ok g2" "rank_ok me g2" "local_ok me g2"
    and "grp_proc_count g1 + grp_proc_count g2 \<le> INT_MAX" and "grp_proc_count g2 \<le> 2 ^ 31 - 64" and "addr \<noteq> 0"
  shows "\<exists>ng. ompi_group_union True me addr g1 g2 = Some (Inr ng) \<and>
           group_spec me addr (members g1 @ filter (\<lambda>n. n \<notin> set (members g1)) (members g2)) ng"
proof -
  let ?ms = "members g1 @ filter (\<lambda>n. n \<notin> set (members g1)) (members g2)"
  let ?common = "filter (\<lambda>n. n \<in> set (members g2)) (members g1)"
  obtain bm where bm: "opal_bitmap_init True opal_bitmap_construct 32 = (OPAL_SUCCESS, bm)" "bitmap_inv bm"
    "\<forall>b. \<not> bits_of bm b" "0 < max_size bm" "INT_MAX \<le> max_size bm" "array_size bm < 2 ^ 25" using fresh_bitmap by blast
  obtain bm' where bm': "ompi_group_dense_overlap True g1 g2 bm = Some (Inr (int (length ?common)), bm')" "bitmap_inv bm'" "array_size bm' < 2 ^ 25"
    "\<forall>q. 0 \<le> q \<longrightarrow> q < grp_proc_count g2 \<longrightarrow> bits_of bm' q \<longleftrightarrow> members g2 ! nat q \<in> set (members g1)"
    using dense_overlap_correct [OF assms(1,4) bm(2-4) _ bm(6) assms(8)] bm(5) assms(8) by (auto simp: INT_MAX_def)
  note c = group_ok_count [OF assms(1)] group_ok_count [OF assms(4)]
    and d = members_distinct [OF assms(1)] members_distinct [OF assms(4)]
  have len: "grp_proc_count g1 + grp_proc_count g2 - int (length ?common) = int (length ?ms)"
    using length_common [OF d] sum_length_filter_compl [of "\<lambda>n. n \<in> set (members g1)" "members g2"] c by simp
  have both: "c_int (grp_proc_count g1 + grp_proc_count g2) = Some (grp_proc_count g1 + grp_proc_count g2)"
    using assms(7) c by (intro c_int_Some) (simp_all add: INT_MAX_def)
  obtain ps1 where ps1: "mapo (ompi_group_get_proc_ptr_raw g1) [0..grp_proc_count g1 - 1] = Some ps1"
    "slots_for me (members g1) ps1"
    using raw_slots [OF assms(1,3) upto_range_subset] upto_members [of "members g1"] c(1) by auto
  obtain ps2 where ps2: "unmarked_slots g2 bm' = Some ps2"
    "slots_for me (filter (\<lambda>n. n \<notin> set (members g1)) (members g2)) ps2"
    using unmarked_slots_correct [OF assms(4,6) bm'(2,3), of "\<lambda>n. n \<in> set (members g1)"] bm'(4) by auto
  let ?who = "if grp_my_rank g1 \<noteq> MPI_UNDEFINED \<or> grp_my_rank g2 \<noteq> MPI_UNDEFINED then Some me else None"
  have who: "?who = Some me \<or> (?who = None \<and> me \<notin> set ?ms)"
    using assms(2,5) by (auto simp: rank_ok_def rank_of_undefined)
  have run: "ompi_group_union True me addr g1 g2 =
      (if int (length ?ms) = 0 then Some (Inr MPI_GROUP_EMPTY) else new_dense addr (int (length ?ms)) (ps1 @ ps2) ?who)"
    unfolding len [symmetric] using both by (simp add: ompi_group_union_def bm(1) bm'(1) ps1(1) ps2(1) Let_def)
  show ?thesis
  proof (cases "?ms = []")
    case True
    then show ?thesis using run group_spec_empty [of me addr] by (simp only:) auto
  next
    case False
    have "distinct ?ms" using d by auto
    moreover have "ompi_group_union True me addr g1 g2 = new_dense addr (int (length ?ms)) (ps1 @ ps2) ?who"
      using run False by (simp only: of_nat_eq_0_iff length_0_conv if_False)
    ultimately show ?thesis
      using new_dense_correct [OF slots_for_append [OF ps1(2) ps2(2)] _ False assms(9) who] by (simp only:)
  qed
qed

lemma difference_correct:
  assumes "group_ok g1" "rank_ok me g1" "local_ok me g1" "group_ok g2" "rank_ok me g2"
    and "grp_proc_count g1 \<le> 2 ^ 31 - 64" and "addr \<noteq> 0"
  shows "\<exists>ng. ompi_group_difference True me addr g1 g2 = Some (Inr ng) \<and>
           group_spec me addr (filter (\<lambda>n. n \<notin> set (members g2)) (members g1)) ng"
proof -
  let ?ms = "filter (\<lambda>n. n \<notin> set (members g2)) (members g1)"
  let ?common = "filter (\<lambda>n. n \<in> set (members g1)) (members g2)"
  obtain bm where bm: "opal_bitmap_init True opal_bitmap_construct 32 = (OPAL_SUCCESS, bm)" "bitmap_inv bm"
    "\<forall>b. \<not> bits_of bm b" "0 < max_size bm" "INT_MAX \<le> max_size bm" "array_size bm < 2 ^ 25" using fresh_bitmap by blast
  obtain bm' where bm': "ompi_group_dense_overlap True g2 g1 bm = Some (Inr (int (length ?common)), bm')" "bitmap_inv bm'" "array_size bm' < 2 ^ 25"
    "\<forall>q. 0 \<le> q \<longrightarrow> q < grp_proc_count g1 \<longrightarrow> bits_of bm' q \<longleftrightarrow> members g1 ! nat q \<in> set (members g2)"
    using dense_overlap_correct [OF assms(4,1) bm(2-4) _ bm(6) assms(6)] bm(5) assms(6) by (auto simp: INT_MAX_def)
  note d = members_distinct [OF assms(1)] members_distinct [OF assms(4)]
  have len: "grp_proc_count g1 - int (length ?common) = int (length ?ms)"
    using length_common [OF d] sum_length_filter_compl [of "\<lambda>n. n \<in> set (members g2)" "members g1"]
      group_ok_count [OF assms(1)] by simp
  obtain ps where ps: "unmarked_slots g1 bm' = Some ps" "slots_for me ?ms ps"
    using unmarked_slots_correct [OF assms(1,3) bm'(2,3), of "\<lambda>n. n \<in> set (members g2)"] bm'(4) by auto
  let ?who = "if grp_my_rank g1 = MPI_UNDEFINED \<or> grp_my_rank g2 \<noteq> MPI_UNDEFINED then None else Some me"
  have who: "?who = Some me \<or> (?who = None \<and> me \<notin> set ?ms)"
    using assms(2,5) by (auto simp: rank_ok_def rank_of_undefined)
  have run: "ompi_group_difference True me addr g1 g2 =
      (if int (length ?ms) = 0 then Some (Inr MPI_GROUP_EMPTY) else new_dense addr (int (length ?ms)) ps ?who)"
    unfolding len [symmetric] by (simp add: ompi_group_difference_def bm(1) bm'(1) ps(1) Let_def)
  show ?thesis
  proof (cases "?ms = []")
    case True
    then show ?thesis using run group_spec_empty [of me addr] by (simp only:) auto
  next
    case False
    have "distinct ?ms" using d by auto
    moreover have "ompi_group_difference True me addr g1 g2 = new_dense addr (int (length ?ms)) ps ?who"
      using run False by (simp only: of_nat_eq_0_iff length_0_conv if_False)
    ultimately show ?thesis using new_dense_correct [OF ps(2) _ False assms(7) who] by (simp only:)
  qed
qed

lemma compare_loop_correct:
  assumes "group_ok g1" "group_ok g2" and "set rs \<subseteq> {0..<grp_proc_count g1}"
  shows "\<exists>similar identical. compare_loop g1 g2 rs b = Some (similar, identical) \<and>
      (similar \<longleftrightarrow> (\<forall>r \<in> set rs. members g1 ! nat r \<in> set (members g2))) \<and>
      (identical \<longleftrightarrow> similar \<and> b \<and> (\<forall>r \<in> set rs. rank_of (members g2) (members g1 ! nat r) = r))"
  using assms(3)
proof (induction rs arbitrary: b)
  case (Cons r rs)
  then show ?case
    using get_name_member [OF assms(1), of r] find_proc_correct [OF assms(2)]
    by (fastforce simp: rank_of_undefined)
qed auto

definition compare_members :: "process_name list \<Rightarrow> process_name list \<Rightarrow> group_compare" where
  "compare_members xs ys = (if xs = ys then MPI_IDENT else if set xs = set ys then MPI_SIMILAR else MPI_UNEQUAL)"

lemma same_length_similar:
  assumes "distinct xs" "distinct ys" "length xs = length ys"
  shows "set xs \<subseteq> set ys \<longleftrightarrow> set xs = set ys"
  using assms card_subset_eq [of "set ys" "set xs"] distinct_card [of xs] distinct_card [of ys] by auto

lemma empty_handle: "group_ok g \<Longrightarrow> is_group_empty g \<Longrightarrow> members g = []"
  by (cases g) (auto simp: is_group_empty_def)

lemma compare_correct:
  assumes g: "group_ok g1" "group_ok g2" and h: "grp_addr g1 = grp_addr g2 \<longrightarrow> members g1 = members g2"
  shows "ompi_group_compare g1 g2 =
           Some (if is_group_empty g1 = is_group_empty g2 then compare_members (members g1) (members g2) else MPI_UNEQUAL)"
proof -
  note c = group_ok_count [OF g(1)] group_ok_count [OF g(2)]
    and d = members_distinct [OF g(1)] members_distinct [OF g(2)]
  obtain similar identical where loop: "compare_loop g1 g2 [0..grp_proc_count g1 - 1] True = Some (similar, identical)"
    "similar \<longleftrightarrow> (\<forall>r \<in> set [0..grp_proc_count g1 - 1]. members g1 ! nat r \<in> set (members g2))"
    "identical \<longleftrightarrow> similar \<and> (\<forall>r \<in> set [0..grp_proc_count g1 - 1]. rank_of (members g2) (members g1 ! nat r) = r)"
    using compare_loop_correct [OF g upto_range_subset, of True] by auto
  have sim: "similar \<longleftrightarrow> set (members g1) \<subseteq> set (members g2)"
  proof -
    have "set (members g1) = (\<lambda>r. members g1 ! nat r) ` set [0..grp_proc_count g1 - 1]"
      using arg_cong [OF upto_members [of "members g1"], of set] c(1) by simp
    then show ?thesis unfolding loop(2) by (simp only: image_subset_iff)
  qed
  have ident: "identical \<longleftrightarrow> members g1 = members g2" if len: "length (members g1) = length (members g2)"
  proof
    assume i: "identical"
    show "members g1 = members g2"
    proof (rule nth_equalityI [OF len])
      fix k assume k: "k < length (members g1)"
      then have "int k \<in> set [0..grp_proc_count g1 - 1]" using c(1) by simp
      then have "members g1 ! k \<in> set (members g2)" "rank_of (members g2) (members g1 ! k) = int k"
        using i loop(2,3) nat_int [of k] by metis+
      then show "members g1 ! k = members g2 ! k" using rank_of_in [of "members g1 ! k" "members g2"] by simp
    qed
  next
    assume "members g1 = members g2"
    moreover have "rank_of (members g1) (members g1 ! nat r) = r" if "r \<in> set [0..grp_proc_count g1 - 1]" for r
      using that rank_of_nth [OF d(1), of "nat r"] c(1) by (simp add: nat_less_iff)
    ultimately show identical unfolding loop(3) sim by simp
  qed
  have diff: "compare_members (members g1) (members g2) = MPI_UNEQUAL" if "length (members g1) \<noteq> length (members g2)"
    using that distinct_card [OF d(1)] distinct_card [OF d(2)] by (auto simp: compare_members_def)
  consider (same) "grp_addr g1 = grp_addr g2" | (one) "grp_addr g1 \<noteq> grp_addr g2" "is_group_empty g1 \<or> is_group_empty g2"
    | (size) "grp_addr g1 \<noteq> grp_addr g2" "\<not> is_group_empty g1" "\<not> is_group_empty g2" "length (members g1) \<noteq> length (members g2)"
    | (loop) "grp_addr g1 \<noteq> grp_addr g2" "\<not> is_group_empty g1" "\<not> is_group_empty g2" "length (members g1) = length (members g2)"
    by blast
  then show ?thesis
  proof cases
    case same
    then show ?thesis using h by (simp add: ompi_group_compare_def compare_members_def is_group_empty_def)
  next
    case one
    then show ?thesis by (auto simp: ompi_group_compare_def is_group_empty_def)
  next
    case size
    then show ?thesis using diff c by (simp add: ompi_group_compare_def)
  next
    case loop
    then show ?thesis using \<open>compare_loop g1 g2 [0..grp_proc_count g1 - 1] True = Some (similar, identical)\<close>
        sim ident [OF loop(4)] same_length_similar [OF d loop(4)] c
      by (simp add: ompi_group_compare_def compare_members_def)
  qed
qed

lemma lookup_all_correct:
  assumes "group_ok g" and "set rs \<subseteq> {0..<grp_proc_count g}"
  shows "\<exists>h. lookup_all g rs = Some (map (\<lambda>r. Proc (members g ! nat r)) rs, h) \<and> group_ok h \<and> members h = members g"
  using assms
proof (induction rs arbitrary: g)
  case (Cons r rs)
  then obtain g' where g': "ompi_group_peer_lookup g r = Some (Some (members g ! nat r), g')" "group_ok g'"
    "members g' = members g" "grp_proc_count g' = grp_proc_count g"
    using peer_lookup_correct [of g r] by (auto simp: ompi_group_peer_lookup_def)
  then show ?case using Cons.IH [of g'] Cons.prems by auto
qed simp

lemma rank_of_take:
  assumes "distinct ms" and "0 \<le> k"
  shows "rank_of (take (nat k) ms) x = (if rank_of ms x \<ge> k then MPI_UNDEFINED else rank_of ms x)"
proof (cases "x \<in> set (take (nat k) ms)")
  case True
  then have "rank_of ms x = rank_of (take (nat k) ms) x" "rank_of (take (nat k) ms) x < k"
    using rank_of_append [of "take (nat k) ms" "drop (nat k) ms" x] rank_of_in [OF True] assms(2) by auto
  then show ?thesis by simp
next
  case False
  have "rank_of ms x \<ge> k" if "x \<in> set ms"
  proof (rule ccontr)
    assume "\<not> rank_of ms x \<ge> k"
    then have "take (nat k) ms ! nat (rank_of ms x) = x" "nat (rank_of ms x) < length (take (nat k) ms)"
      using rank_of_in [OF that] by (auto simp: nat_less_iff)
    then show False using False nth_mem by metis
  qed
  then show ?thesis using False by (cases "x \<in> set ms") simp_all
qed

lemma flatten_correct:
  assumes "group_ok g" and "rank_ok me g" and "0 \<le> max_procs" and "addr \<noteq> 0"
  shows "\<exists>ng h. ompi_group_flatten True addr g max_procs = Some (Some ng, h) \<and> group_ok ng \<and> group_ok h \<and>
           members ng = take (nat max_procs) (members g) \<and> rank_ok me ng \<and> members h = members g \<and>
           (\<exists>n m ps. ng = Group addr n m (Dense ps))"
proof -
  let ?n = "if max_procs > grp_proc_count g then grp_proc_count g else max_procs"
  note c = group_ok_count [OF assms(1)]
  have take_n: "take (nat ?n) (members g) = take (nat max_procs) (members g)" using c by auto
  have len: "?n = int (length (take (nat max_procs) (members g)))" using c assms(3) by auto
  let ?m = "if grp_my_rank g \<ge> max_procs then MPI_UNDEFINED else grp_my_rank g"
  have rank: "?m = rank_of (take (nat max_procs) (members g)) me"
    using assms(2) rank_of_take [OF members_distinct [OF assms(1)] assms(3)] by (simp add: rank_ok_def)
  have dense: "\<exists>ng h. ompi_group_flatten True addr g max_procs = Some (Some ng, h) \<and> group_ok ng \<and> group_ok h \<and>
           members ng = take (nat max_procs) (members g) \<and> rank_ok me ng \<and> members h = members g \<and>
           (\<exists>n m ps. ng = Group addr n m (Dense ps))"
    if run: "ompi_group_flatten True addr g max_procs = Some (Some (Group addr ?n ?m (Dense ps)), h)"
      and "map slot_name ps = map Some (take (nat max_procs) (members g))" and "group_ok h" "members h = members g" for ps h
  proof -
    let ?ng = "Group addr ?n ?m (Dense ps)"
    note n = map_slot_names [OF that(2)]
    have ng: "group_ok ?ng" "members ?ng = take (nat max_procs) (members g)"
      using n len assms(4) members_distinct [OF assms(1)] by simp_all
    then have "rank_ok me ?ng" unfolding rank_ok_def using rank by (simp only: ompi_group.sel)
    then show ?thesis using run ng that(3,4) by blast
  qed
  show ?thesis
  proof (cases "\<exists>ps. grp_data g = Dense ps")
    case True
    then obtain ps where ps: "grp_data g = Dense ps" by blast
    have "map slot_name ps = map Some (members g)" using ps assms(1) by (cases g) auto
    then have "map slot_name (take (nat ?n) ps) = map Some (take (nat max_procs) (members g))"
      using take_n by (metis take_map)
    moreover have "ompi_group_flatten True addr g max_procs = Some (Some (Group addr ?n ?m (Dense (take (nat ?n) ps))), g)"
      using ps by (simp add: ompi_group_flatten_def Let_def)
    ultimately show ?thesis using dense assms(1) by blast
  next
    case False
    let ?ps = "map (\<lambda>r. Proc (members g ! nat r)) [0..?n - 1]"
    have sub: "set [0..?n - 1] \<subseteq> {0..<grp_proc_count g}" by auto
    obtain h where h: "lookup_all g [0..?n - 1] = Some (?ps, h)" "group_ok h" "members h = members g"
      using lookup_all_correct [OF assms(1) sub] by blast
    have "map slot_name ?ps = map Some (take (nat max_procs) (members g))"
      by (rule nth_equalityI) (use len c assms(3) in \<open>auto simp: slot_name_def\<close>)
    moreover have "ompi_group_flatten True addr g max_procs = Some (Some (Group addr ?n ?m (Dense ?ps)), h)"
      using False h(1) by (cases "grp_data g") (simp_all add: ompi_group_flatten_def Let_def)
    ultimately show ?thesis using dense h by blast
  qed
qed

subsection \<open>Looking a process up from its own number\<close>

lemma search_ranks_any:
  assumes "\<And>r. r \<in> set rs \<Longrightarrow> 0 \<le> r \<and> r < int (length ms) \<and> test r = Some (ms ! nat r = x)" and "distinct ms"
  shows "search_ranks test rs = Some (if rank_of ms x \<in> set rs then rank_of ms x else MPI_UNDEFINED)"
  using assms(1)
proof (induction rs)
  case (Cons r rs)
  have r: "0 \<le> r" "r < int (length ms)" "test r = Some (ms ! nat r = x)" using Cons.prems [of r] by auto
  have "r = rank_of ms x" if "ms ! nat r = x"
    using that rank_of_nth [OF assms(2), of "nat r"] r(1,2) by (auto simp: nat_less_iff)
  moreover have "ms ! nat r = x" if "rank_of ms x = r"
    using that rank_of_in [of x ms] r(1) rank_of_notin [of x ms] by (cases "x \<in> set ms") (auto simp: MPI_UNDEFINED_def)
  ultimately show ?case using Cons r(3) by auto
qed simp

lemma slot_is_correct:
  assumes "group_ok g" and "0 \<le> r" and "r < grp_proc_count g"
  shows "slot_is g name r = Some (members g ! nat r = name)"
proof -
  obtain p where p: "ompi_group_get_proc_ptr_raw g r = Some p" "slot_name p = Some (members g ! nat r)"
    using get_raw_member [OF assms] by blast
  have "opal_compare_proc name (members g ! nat r) = 0 \<longleftrightarrow> members g ! nat r = name" by auto
  then show ?thesis using p by (cases p) (simp_all add: slot_is_def slot_name_def opal_compare_proc_def)
qed

lemma lookup_rank_int:
  assumes "0 \<le> i" and "i < np" and "np \<le> INT_MAX" and "uint v + np \<le> 2 ^ 32"
  shows "lookup_rank v np i = (i + uint v) mod np"
proof -
  have v: "0 \<le> uint v" by simp
  have n: "uint (word_of_int np :: u32) = np" "uint (word_of_int i :: u32) = i"
    using assms by (simp_all add: uint_word_of_int INT_MAX_def)
  have "uint (word_of_int i + v) = i + uint v"
    using assms v n(2) by (simp add: uint_word_ariths)
  then show ?thesis using n(1) by (simp add: lookup_rank_def uint_mod_distrib)
qed

text \<open>The visited ranks are all ranks of the group.\<close>

lemma lookup_ranks_all:
  assumes "0 < np" and "np \<le> INT_MAX" and "uint v + np \<le> 2 ^ 32"
  shows "set (map (lookup_rank v np) [0..np - 1]) = {0..<np}"
proof -
  have "lookup_rank v np ` {0..np - 1} = (\<lambda>i. (i + uint v) mod np) ` {0..np - 1}"
    using assms by (intro image_cong) (auto simp: lookup_rank_int)
  moreover have "r \<in> (\<lambda>i. (i + uint v) mod np) ` {0..np - 1}" if "0 \<le> r" "r < np" for r
  proof (rule image_eqI [where x = "(r - uint v) mod np"])
    show "r = ((r - uint v) mod np + uint v) mod np" using that by (simp add: mod_simps)
    show "(r - uint v) mod np \<in> {0..np - 1}" using assms(1) pos_mod_bound [of np "r - uint v"] by simp
  qed
  ultimately show ?thesis using assms(1) by auto
qed

lemma proc_lookup_rank_correct:
  assumes "group_ok g" and "grp_proc_count g \<le> INT_MAX" and "uint (vpid name) + grp_proc_count g \<le> 2 ^ 32"
  shows "ompi_group_proc_lookup_rank g name =
           Some (if name \<in> set (members g) then rank_of (members g) name else MPI_PROC_NULL)"
proof (cases "grp_proc_count g = 0")
  case True
  then show ?thesis
    using group_ok_count [OF assms(1)] by (simp add: ompi_group_proc_lookup_rank_def ompi_group_size_def)
next
  case False
  note c = group_ok_count [OF assms(1)]
  have np: "0 < grp_proc_count g" using False c by simp
  have "search_ranks (slot_is g name) (map (lookup_rank (vpid name) (grp_proc_count g)) [0..grp_proc_count g - 1]) =
      Some (if rank_of (members g) name \<in> {0..<grp_proc_count g} then rank_of (members g) name else MPI_UNDEFINED)"
    unfolding lookup_ranks_all [OF np assms(2,3), symmetric]
    by (rule search_ranks_any [OF _ members_distinct [OF assms(1)]])
      (use lookup_ranks_all [OF np assms(2,3)] slot_is_correct [OF assms(1)] c in auto)
  moreover have "rank_of (members g) name \<in> {0..<grp_proc_count g} \<longleftrightarrow> name \<in> set (members g)"
    using rank_of_in [of name "members g"] c by (cases "name \<in> set (members g)") (auto simp: MPI_UNDEFINED_def)
  ultimately show ?thesis
    using False by (auto simp: ompi_group_proc_lookup_rank_def ompi_group_size_def rank_of_undefined)
qed

section \<open>Properties\<close>

text \<open>
  C12. Union and difference. For well-formed groups that know the rank of the local process, and when memory is
  available, the union has the processes of the first group followed by those of the second that are not in the
  first, and the difference has the processes of the first that are not in the second, in the order of the
  first. Both are well-formed, their own rank is that of the local process or \<open>MPI_UNDEFINED\<close>, and a result
  with no process is the predefined empty group. The two counts add up to an \<open>int\<close>, which the code computes
  before it subtracts the common processes, and neither group has one of the last 64 possible sizes, for
  which the number of bits of the bitmap is no \<open>int\<close>.
\<close>

theorem group_union_difference:
  assumes "group_ok g1" "rank_ok me g1" "local_ok me g1" and "group_ok g2" "rank_ok me g2" "local_ok me g2"
    and "grp_proc_count g1 + grp_proc_count g2 \<le> INT_MAX"
    and "grp_proc_count g1 \<le> 2 ^ 31 - 64" and "grp_proc_count g2 \<le> 2 ^ 31 - 64" and "addr \<noteq> 0"
  shows "\<exists>u d. ompi_group_union True me addr g1 g2 = Some (Inr u) \<and>
           group_spec me addr (members g1 @ filter (\<lambda>n. n \<notin> set (members g1)) (members g2)) u \<and>
           ompi_group_difference True me addr g1 g2 = Some (Inr d) \<and>
           group_spec me addr (filter (\<lambda>n. n \<notin> set (members g2)) (members g1)) d"
  using union_correct [OF assms(1-7) assms(9,10)] difference_correct [OF assms(1-5) assms(8,10)] by blast

theorem group_union_difference_witness:
  "\<exists>u d. ompi_group_union True \<lparr>jobid = 1, vpid = 1\<rparr> 9
       (Group 5 2 1 (Dense [Proc \<lparr>jobid = 1, vpid = 0\<rparr>, Proc \<lparr>jobid = 1, vpid = 1\<rparr>]))
       (Group 6 2 0 (Dense [Proc \<lparr>jobid = 1, vpid = 1\<rparr>, Proc \<lparr>jobid = 1, vpid = 2\<rparr>])) = Some (Inr u) \<and>
     members u = [\<lparr>jobid = 1, vpid = 0\<rparr>, \<lparr>jobid = 1, vpid = 1\<rparr>, \<lparr>jobid = 1, vpid = 2\<rparr>] \<and> grp_my_rank u = 1 \<and>
     ompi_group_difference True \<lparr>jobid = 1, vpid = 1\<rparr> 9
       (Group 5 2 1 (Dense [Proc \<lparr>jobid = 1, vpid = 0\<rparr>, Proc \<lparr>jobid = 1, vpid = 1\<rparr>]))
       (Group 6 2 0 (Dense [Proc \<lparr>jobid = 1, vpid = 1\<rparr>, Proc \<lparr>jobid = 1, vpid = 2\<rparr>])) = Some (Inr d) \<and>
     members d = [\<lparr>jobid = 1, vpid = 0\<rparr>] \<and> grp_my_rank d = MPI_UNDEFINED"
proof -
  let ?me = "\<lparr>jobid = 1, vpid = 1\<rparr>"
  let ?g = "Group 5 2 1 (Dense [Proc \<lparr>jobid = 1, vpid = 0\<rparr>, Proc ?me])"
  let ?h = "Group 6 2 0 (Dense [Proc ?me, Proc \<lparr>jobid = 1, vpid = 2\<rparr>])"
  have "group_ok ?g" "rank_ok ?me ?g" "local_ok ?me ?g" "group_ok ?h" "rank_ok ?me ?h" "local_ok ?me ?h"
    "grp_proc_count ?g + grp_proc_count ?h \<le> INT_MAX" "grp_proc_count ?g \<le> 2 ^ 31 - 64" "grp_proc_count ?h \<le> 2 ^ 31 - 64"
    "(9 :: nat) \<noteq> 0"
    by (simp_all add: slot_name_def rank_ok_def rank_of_def INT_MAX_def)
  from group_union_difference [OF this] show ?thesis
    by (auto simp: group_spec_def rank_ok_def slot_name_def rank_of_def)
qed

text \<open>
  C21. Intersection and exclusion. With or without sparse storage, the intersection has the processes of the first
  group that are in the second, in the order of the first, and \<open>ompi_group_excl\<close> gives the processes at the
  ranks that are not listed, in their order. Both end in \<open>ompi_group_incl\<close>, so there is the same exception: a
  process outside the first group faults when the bitmap format is chosen for at least one rank.
\<close>

theorem group_intersection_exclusion:
  assumes "group_ok g1" "rank_ok me g1" "local_ok me g1" and "fresh addr g1" and "group_ok g2"
    and "distinct ranks" and "set ranks \<subseteq> {0..<grp_proc_count g1}"
  defines "common \<equiv> filter (\<lambda>r. members g1 ! nat r \<in> set (members g2)) [0..grp_proc_count g1 - 1]"
    and "others \<equiv> filter (\<lambda>r. r \<notin> set ranks) [0..grp_proc_count g1 - 1]"
  shows "(if incl_faults sparse before g1 common
          then ompi_group_intersection sparse True before me addr g1 g2 = None
          else \<exists>i. ompi_group_intersection sparse True before me addr g1 g2 = Some (Inr i) \<and>
                 group_spec me addr (filter (\<lambda>n. n \<in> set (members g2)) (members g1)) i) \<and>
         (if incl_faults sparse before g1 others
          then ompi_group_excl sparse True before me addr g1 ranks = None
          else \<exists>e. ompi_group_excl sparse True before me addr g1 ranks = Some (Inr e) \<and>
                 group_spec me addr (map (\<lambda>r. members g1 ! nat r) others) e)"
proof -
  have ro: "ranks_ok g1 ranks" using assms(6,7) by (simp add: ranks_ok_def)
  have sel: "map (\<lambda>r. members g1 ! nat r) common = filter (\<lambda>n. n \<in> set (members g2)) (members g1)"
    using select_filter [of "members g1" "\<lambda>n. n \<in> set (members g2)"] group_ok_count [OF assms(1)] by (simp add: common_def)
  show ?thesis
    using intersection_correct [OF assms(1-5), of sparse before] excl_correct [OF assms(1-3) ro assms(4), of sparse before]
    unfolding common_def [symmetric] others_def [symmetric] incl_outcome_def incl_spec_group sel by (rule conjI)
qed

theorem group_intersection_exclusion_witness:
  "\<exists>i e. ompi_group_intersection True True 0 \<lparr>jobid = 1, vpid = 1\<rparr> 9
       (Group 5 2 1 (Dense [Proc \<lparr>jobid = 1, vpid = 0\<rparr>, Proc \<lparr>jobid = 1, vpid = 1\<rparr>]))
       (Group 6 1 0 (Dense [Proc \<lparr>jobid = 1, vpid = 1\<rparr>])) = Some (Inr i) \<and> members i = [\<lparr>jobid = 1, vpid = 1\<rparr>] \<and>
     ompi_group_excl True True 0 \<lparr>jobid = 1, vpid = 1\<rparr> 9
       (Group 5 2 1 (Dense [Proc \<lparr>jobid = 1, vpid = 0\<rparr>, Proc \<lparr>jobid = 1, vpid = 1\<rparr>])) [1] = Some (Inr e) \<and>
     members e = [\<lparr>jobid = 1, vpid = 0\<rparr>]"
proof -
  let ?me = "\<lparr>jobid = 1, vpid = 1\<rparr>"
  let ?g = "Group 5 2 1 (Dense [Proc \<lparr>jobid = 1, vpid = 0\<rparr>, Proc ?me])"
  let ?h = "Group 6 1 0 (Dense [Proc ?me])"
  have u: "[0..1 :: int] = [0, 1]" by (simp add: upto_rec1)
  have "group_ok ?g" "rank_ok ?me ?g" "local_ok ?me ?g" "fresh 9 ?g" "group_ok ?h"
    "distinct [1 :: int]" "set [1] \<subseteq> {0..<grp_proc_count ?g}"
    by (simp_all add: slot_name_def rank_ok_def rank_of_def fresh_def grp_parent_def MPI_UNDEFINED_def)
  from group_intersection_exclusion [OF this, of True 0] show ?thesis
    by (auto simp: incl_faults_def MPI_UNDEFINED_def group_spec_def slot_name_def u)
qed

text \<open>
  C20. Ranges. Take triplets of \<open>int\<close>s whose stride is not zero and points from the first to the last rank, and
  whose ranks are distinct ranks of the group. When each triplet fits, so that the index one stride behind its last
  rank is an \<open>int\<close>, each is expanded to the ranks the MPI standard gives it, in loops that end, and the
  groups by range inclusion and exclusion have the processes at those ranks, and at the other ranks, with the
  exception \<open>ompi_group_incl\<close> has for processes outside the group. When one of them does not fit, both calls overflow.
  With different first and last ranks and a stride that is zero or of the wrong sign the expansion has no result.
\<close>

theorem group_ranges:
  assumes "\<forall>t \<in> set ranges. range_ok t" and "group_ok g" "rank_ok me g" "local_ok me g" and "fresh addr g"
    and "distinct (concat (map range_ranks ranges))"
    and "set (concat (map range_ranks ranges)) \<subseteq> {0..<grp_proc_count g}" and "grp_proc_count g \<le> INT_MAX"
  defines "listed \<equiv> concat (map range_ranks ranges)"
    and "others \<equiv> filter (\<lambda>r. r \<notin> set (concat (map range_ranks ranges))) [0..grp_proc_count g - 1]"
  shows "(if \<forall>t \<in> set ranges. range_fits t
          then incl_outcome sparse before me addr g listed (ompi_group_range_incl sparse True before me addr g ranges) \<and>
               incl_outcome sparse before me addr g others (ompi_group_range_excl sparse True before me addr g ranges)
          else ompi_group_range_incl sparse True before me addr g ranges = None \<and>
               ompi_group_range_excl sparse True before me addr g ranges = None) \<and>
         (f < l \<and> s \<le> 0 \<or> l < f \<and> 0 \<le> s \<longrightarrow> expand_range (f, l, s) = None)"
proof -
  have ok: "ranks_ok g (concat (map range_ranks ranges))" using assms(6,7) by (simp only: ranks_ok_def)
  show ?thesis
    using range_incl_correct [OF assms(1) _ assms(2-4) ok assms(5,8), of sparse before]
      range_excl_correct [OF assms(1) _ assms(2-4) ok assms(5,8), of sparse before]
      range_overflow [OF assms(1)] expand_range_stuck [of f l s]
    unfolding listed_def others_def by auto
qed

theorem group_ranges_witness:
  "\<exists>i e. ompi_group_range_incl False True 0 \<lparr>jobid = 1, vpid = 1\<rparr> 9
       (Group 5 2 1 (Dense [Proc \<lparr>jobid = 1, vpid = 0\<rparr>, Proc \<lparr>jobid = 1, vpid = 1\<rparr>])) [(1, 0, -1)] = Some (Inr i) \<and>
     members i = [\<lparr>jobid = 1, vpid = 1\<rparr>, \<lparr>jobid = 1, vpid = 0\<rparr>] \<and>
     ompi_group_range_excl False True 0 \<lparr>jobid = 1, vpid = 1\<rparr> 9
       (Group 5 2 1 (Dense [Proc \<lparr>jobid = 1, vpid = 0\<rparr>, Proc \<lparr>jobid = 1, vpid = 1\<rparr>])) [(1, 0, -1)] = Some (Inr e) \<and>
     members e = []"
proof -
  let ?me = "\<lparr>jobid = 1, vpid = 1\<rparr>"
  let ?g = "Group 5 2 1 (Dense [Proc \<lparr>jobid = 1, vpid = 0\<rparr>, Proc ?me])"
  have u: "[0..1 :: int] = [0, 1]" by (simp add: upto_rec1)
  have r: "concat (map range_ranks [(1, 0, -1)]) = [1, 0]" by (simp add: range_ranks_def u)
  have "\<forall>t \<in> set [(1, 0, -1)]. range_ok t" "group_ok ?g" "rank_ok ?me ?g" "local_ok ?me ?g" "fresh 9 ?g"
    "distinct (concat (map range_ranks [(1, 0, -1)]))"
    "set (concat (map range_ranks [(1, 0, -1)])) \<subseteq> {0..<grp_proc_count ?g}" "grp_proc_count ?g \<le> INT_MAX"
    unfolding r by (simp_all add: range_ok_def slot_name_def rank_ok_def rank_of_def fresh_def grp_parent_def INT_MAX_def)
  from group_ranges [OF this, of False 0 0 1 0] show ?thesis
    unfolding r incl_outcome_def incl_spec_group
    by (auto simp: range_fits_def incl_faults_def incl_method_def group_spec_def slot_name_def u)
qed



text \<open>
  C40. Looking a process up by pointer or name, starting at the rank equal to its number in the job, gives its
  rank in a group of any format, or \<open>MPI_PROC_NULL\<close>: starting in the middle misses no rank as long as the
  unsigned sum of the start and the loop counter does not wrap.
\<close>

theorem group_proc_lookup_rank_finds:
  assumes "group_ok g" and "grp_proc_count g \<le> INT_MAX" and "uint (vpid name) + grp_proc_count g \<le> 2 ^ 32"
  shows "ompi_group_proc_lookup_rank g name =
           Some (if name \<in> set (members g) then rank_of (members g) name else MPI_PROC_NULL)"
  using proc_lookup_rank_correct [OF assms] .

theorem group_proc_lookup_rank_finds_witness:
  "ompi_group_proc_lookup_rank
     (Group 6 2 0 (Dense [Proc \<lparr>jobid = 1, vpid = 1\<rparr>, Proc \<lparr>jobid = 1, vpid = 7\<rparr>])) \<lparr>jobid = 1, vpid = 7\<rparr> = Some 1"
proof -
  let ?g = "Group 6 2 0 (Dense [Proc \<lparr>jobid = 1, vpid = 1\<rparr>, Proc \<lparr>jobid = 1, vpid = 7\<rparr>])"
  have "group_ok ?g" "grp_proc_count ?g \<le> INT_MAX" "uint (vpid \<lparr>jobid = 1, vpid = 7\<rparr>) + grp_proc_count ?g \<le> 2 ^ 32"
    by (simp_all add: slot_name_def INT_MAX_def)
  from group_proc_lookup_rank_finds [OF this] show ?thesis by (simp add: slot_name_def rank_of_def)
qed

end
