(* ===== verification/Opal_Hash_Table.thy ===== *)
theory Opal_Hash_Table
  imports Mpi_Ucx_Prelude
begin

unbundle bit_operations_syntax

text \<open>
  The hash table of \<^verbatim>\<open>opal/class/opal_hash_table.c\<close> and \<^verbatim>\<open>.h\<close>: open addressing with linear probing
  in one array, growth by re-insertion and removal by re-insertion of the elements behind the gap. The
  table stores keys of three kinds, one kind at a time.

  The functions for the three kinds have the same text up to the member of the key union they use. That
  text is \<open>hash_get\<close>, \<open>hash_set\<close> and \<open>hash_remove\<close>, which the functions of the API instantiate. Reading a
  member of the union other than the one written is a fault. \<open>debug\<close> is \<open>OPAL_ENABLE_DEBUG\<close>. The probe
  loops have no bound in the code, so a probe that never ends has the value \<open>None\<close> as well.
\<close>

section \<open>State\<close>

text \<open>A pointer key is a private copy of the bytes of the key.\<close>

datatype hash_key = U32 u32 | U64 u64 | Ptr "u8 list"

datatype hash_methods = Methods_uint32 | Methods_uint64 | Methods_ptr

record 'v hash_elt =
  valid :: bool
  elt_key :: hash_key
  elt_value :: "'v option"

record 'v hash_table =
  ht_table :: "'v hash_elt list"
  ht_capacity :: nat
  ht_size :: nat
  ht_growth_trigger :: nat
  ht_density_numer :: int
  ht_density_denom :: int
  ht_growth_numer :: int
  ht_growth_denom :: int
  ht_type_methods :: "hash_methods option"

definition opal_hash_table_construct :: "'v hash_table" where
  "opal_hash_table_construct =
     \<lparr>ht_table = [], ht_capacity = 0, ht_size = 0, ht_growth_trigger = 0, ht_density_numer = 0,
      ht_density_denom = 0, ht_growth_numer = 0, ht_growth_denom = 0, ht_type_methods = None\<rparr>"

section \<open>Hashing\<close>

definition opal_hash_hash_key_ptr :: "u8 list \<Rightarrow> u64" where
  "opal_hash_hash_key_ptr key = foldl (\<lambda>hash c. 31 * hash + ucast c) 0 key"

fun opal_hash_hash_elt_uint32 :: "hash_key \<Rightarrow> u64 option" where
  "opal_hash_hash_elt_uint32 (U32 k) = Some (ucast k)"
| "opal_hash_hash_elt_uint32 _ = None"

fun opal_hash_hash_elt_uint64 :: "hash_key \<Rightarrow> u64 option" where
  "opal_hash_hash_elt_uint64 (U64 k) = Some k"
| "opal_hash_hash_elt_uint64 _ = None"

fun opal_hash_hash_elt_ptr :: "hash_key \<Rightarrow> u64 option" where
  "opal_hash_hash_elt_ptr (Ptr k) = Some (opal_hash_hash_key_ptr k)"
| "opal_hash_hash_elt_ptr _ = None"

fun hash_elt_method :: "hash_methods \<Rightarrow> hash_key \<Rightarrow> u64 option" where
  "hash_elt_method Methods_uint32 k = opal_hash_hash_elt_uint32 k"
| "hash_elt_method Methods_uint64 k = opal_hash_hash_elt_uint64 k"
| "hash_elt_method Methods_ptr k = opal_hash_hash_elt_ptr k"

text \<open>The methods a function for a key installs, and the hash it starts probing at.\<close>

fun methods_of :: "hash_key \<Rightarrow> hash_methods" where
  "methods_of (U32 _) = Methods_uint32"
| "methods_of (U64 _) = Methods_uint64"
| "methods_of (Ptr _) = Methods_ptr"

fun key_hash :: "hash_key \<Rightarrow> u64" where
  "key_hash (U32 k) = ucast k"
| "key_hash (U64 k) = k"
| "key_hash (Ptr k) = opal_hash_hash_key_ptr k"

text \<open>Comparing the key of an element with a given key.\<close>

fun key_eq :: "hash_key \<Rightarrow> hash_key \<Rightarrow> bool option" where
  "key_eq (U32 a) (U32 b) = Some (a = b)"
| "key_eq (U64 a) (U64 b) = Some (a = b)"
| "key_eq (Ptr a) (Ptr b) = Some (length a = length b \<and> a = b)"
| "key_eq _ _ = None"

definition opal_hash_destruct_elt_ptr :: "'v hash_elt \<Rightarrow> 'v hash_elt" where
  "opal_hash_destruct_elt_ptr elt = elt\<lparr>elt_key := Ptr []\<rparr>"

definition elt_destructor :: "hash_methods \<Rightarrow> 'v hash_elt \<Rightarrow> 'v hash_elt" where
  "elt_destructor m elt = (if m = Methods_ptr then opal_hash_destruct_elt_ptr elt else elt)"

section \<open>Creation and removal of all entries\<close>

definition opal_hash_round_capacity_up :: "nat \<Rightarrow> nat" where
  "opal_hash_round_capacity_up capacity = size_add capacity 29 div 30 * 30 + 1"

definition empty_elt :: "'v hash_elt" where
  "empty_elt = \<lparr>valid = False, elt_key = U32 0, elt_value = None\<rparr>"

definition sizeof_elt :: nat where
  "sizeof_elt = 32"

definition opal_hash_table_init2 ::
  "bool \<Rightarrow> 'v hash_table \<Rightarrow> nat \<Rightarrow> int \<Rightarrow> int \<Rightarrow> int \<Rightarrow> int \<Rightarrow> (opal_status \<times> 'v hash_table) option" where
  "opal_hash_table_init2 mem_ok ht estimated_max_size density_numer density_denom growth_numer growth_denom =
     (if to_size density_numer = 0 then None
      else
        (let est_capacity = size_mul estimated_max_size (to_size density_denom) div to_size density_numer;
             capacity = opal_hash_round_capacity_up est_capacity
         in if \<not> calloc_ok mem_ok capacity sizeof_elt then Some (OPAL_ERR_OUT_OF_RESOURCE, ht\<lparr>ht_table := []\<rparr>)
            else if to_size density_denom = 0 then None
            else
              Some (OPAL_SUCCESS,
                ht\<lparr>ht_table := replicate capacity empty_elt, ht_capacity := capacity,
                   ht_density_numer := density_numer, ht_density_denom := density_denom,
                   ht_growth_numer := growth_numer, ht_growth_denom := growth_denom,
                   ht_growth_trigger := size_mul capacity (to_size density_numer) div to_size density_denom,
                   ht_type_methods := None\<rparr>)))"

definition opal_hash_table_init :: "bool \<Rightarrow> 'v hash_table \<Rightarrow> nat \<Rightarrow> (opal_status \<times> 'v hash_table) option" where
  "opal_hash_table_init mem_ok ht table_size = opal_hash_table_init2 mem_ok ht table_size 1 2 2 1"

definition clear_elt :: "hash_methods option \<Rightarrow> 'v hash_elt \<Rightarrow> 'v hash_elt" where
  "clear_elt methods elt =
     (case methods of
        Some m \<Rightarrow> (if valid elt then elt_destructor m elt else elt)
      | None \<Rightarrow> elt)\<lparr>valid := False, elt_value := None\<rparr>"

definition opal_hash_table_remove_all :: "'v hash_table \<Rightarrow> (opal_status \<times> 'v hash_table) option" where
  "opal_hash_table_remove_all ht =
     (if ht_capacity ht > length (ht_table ht) then None
      else
        Some (OPAL_SUCCESS,
          ht\<lparr>ht_table := map (clear_elt (ht_type_methods ht)) (take (ht_capacity ht) (ht_table ht)) @
                         drop (ht_capacity ht) (ht_table ht),
             ht_size := 0, ht_type_methods := None\<rparr>))"

text \<open>The array is freed and the pointer left as it is: every later access is one to freed memory.\<close>

definition opal_hash_table_destruct :: "'v hash_table \<Rightarrow> 'v hash_table option" where
  "opal_hash_table_destruct ht = map_option (\<lambda>(rc, ht). ht\<lparr>ht_table := []\<rparr>) (opal_hash_table_remove_all ht)"

definition opal_hash_table_get_size :: "'v hash_table \<Rightarrow> nat" where
  "opal_hash_table_get_size ht = ht_size ht"

section \<open>Probing\<close>

text \<open>All probe loops go up from a start, wrap at the capacity, and end at the first index that passes a test.\<close>

partial_function (option) scan :: "(nat \<Rightarrow> bool option) \<Rightarrow> nat \<Rightarrow> nat \<Rightarrow> nat option" where
  "scan test capacity ii =
     (let ii = (if ii = capacity then 0 else ii)
      in case test ii of
           None \<Rightarrow> None
         | Some b \<Rightarrow> (if b then Some ii else scan test capacity (ii + 1)))"

text \<open>
  The same loop with its rounds counted, which tells a probe that goes on from one that faults: the state after a
  number of rounds.
\<close>

datatype probe = Probing nat | Found nat | Fault

fun scan_rounds :: "(nat \<Rightarrow> bool option) \<Rightarrow> nat \<Rightarrow> nat \<Rightarrow> nat \<Rightarrow> probe" where
  "scan_rounds test capacity 0 ii = Probing ii"
| "scan_rounds test capacity (Suc n) ii =
     (let ii = (if ii = capacity then 0 else ii)
      in case test ii of
           None \<Rightarrow> Fault
         | Some b \<Rightarrow> (if b then Found ii else scan_rounds test capacity n (ii + 1)))"

definition is_free :: "'v hash_elt list \<Rightarrow> nat \<Rightarrow> bool option" where
  "is_free elts ii = map_option (\<lambda>e. \<not> valid e) (arr_get elts (int ii))"

definition stop_at :: "'v hash_elt list \<Rightarrow> hash_key \<Rightarrow> nat \<Rightarrow> bool option" where
  "stop_at elts key ii =
     (case arr_get elts (int ii) of
        None \<Rightarrow> None
      | Some e \<Rightarrow> (if \<not> valid e then Some True else key_eq (elt_key e) key))"

text \<open>Re-insertion of the elements of the old table in the new one.\<close>

fun rehash_loop :: "hash_methods option \<Rightarrow> nat \<Rightarrow> 'v hash_elt list \<Rightarrow> 'v hash_elt list \<Rightarrow> 'v hash_elt list option" where
  "rehash_loop methods new_capacity [] new_table = Some new_table"
| "rehash_loop methods new_capacity (e # es) new_table =
     (if \<not> valid e then rehash_loop methods new_capacity es new_table
      else
        (case methods of
           None \<Rightarrow> None
         | Some m \<Rightarrow>
             (case hash_elt_method m (elt_key e) of
                None \<Rightarrow> None
              | Some h \<Rightarrow>
                  (case scan (is_free new_table) new_capacity (unat h mod new_capacity) of
                     None \<Rightarrow> None
                   | Some ii \<Rightarrow> rehash_loop methods new_capacity es (new_table[ii := e])))))"

definition opal_hash_grow :: "bool \<Rightarrow> 'v hash_table \<Rightarrow> (opal_status \<times> 'v hash_table) option" where
  "opal_hash_grow mem_ok ht =
     (if to_size (ht_growth_denom ht) = 0 \<or> ht_capacity ht > length (ht_table ht) then None
      else
        (let new_capacity = opal_hash_round_capacity_up
               (size_mul (ht_capacity ht) (to_size (ht_growth_numer ht)) div to_size (ht_growth_denom ht))
         in if \<not> calloc_ok mem_ok new_capacity sizeof_elt then Some (OPAL_ERR_OUT_OF_RESOURCE, ht)
            else if to_size (ht_density_denom ht) = 0 then None
            else
              map_option (\<lambda>new_table.
                (OPAL_SUCCESS,
                 ht\<lparr>ht_table := new_table, ht_capacity := new_capacity,
                    ht_growth_trigger := size_mul new_capacity (to_size (ht_density_numer ht)) div
                                         to_size (ht_density_denom ht)\<rparr>))
                (rehash_loop (ht_type_methods ht) new_capacity (take (ht_capacity ht) (ht_table ht))
                   (replicate new_capacity empty_elt))))"

text \<open>The loop over the elements behind a gap, and the removal of the element at an index.\<close>

definition home_or_free :: "'v hash_elt list \<Rightarrow> nat \<Rightarrow> nat \<Rightarrow> bool option" where
  "home_or_free elts ii jj = (if jj = ii then Some True else is_free elts jj)"

partial_function (option) close_gap ::
  "hash_methods \<Rightarrow> nat \<Rightarrow> 'v hash_elt list \<Rightarrow> nat \<Rightarrow> 'v hash_elt list option" where
  "close_gap m capacity elts ii =
     (let ii = (if ii = capacity then 0 else ii)
      in case arr_get elts (int ii) of
           None \<Rightarrow> None
         | Some e \<Rightarrow>
             (if \<not> valid e then Some elts
              else
                (case hash_elt_method m (elt_key e) of
                   None \<Rightarrow> None
                 | Some h \<Rightarrow>
                     (case scan (home_or_free elts ii) capacity (unat h mod capacity) of
                        None \<Rightarrow> None
                      | Some jj \<Rightarrow>
                          close_gap m capacity
                            (if jj = ii then elts else elts[jj := e, ii := e\<lparr>valid := False\<rparr>]) (ii + 1)))))"

definition opal_hash_table_remove_elt_at :: "'v hash_table \<Rightarrow> nat \<Rightarrow> (opal_status \<times> 'v hash_table) option" where
  "opal_hash_table_remove_elt_at ht ii =
     (case arr_get (ht_table ht) (int ii) of
        None \<Rightarrow> None
      | Some e \<Rightarrow>
          (if \<not> valid e then Some (OPAL_ERROR, ht)
           else
             (case ht_type_methods ht of
                None \<Rightarrow> None
              | Some m \<Rightarrow>
                  map_option (\<lambda>elts. (OPAL_SUCCESS, ht\<lparr>ht_table := elts, ht_size := size_add (ht_size ht) (2 ^ 64 - 1)\<rparr>))
                    (close_gap m (ht_capacity ht)
                       ((ht_table ht)[ii := elt_destructor m (e\<lparr>valid := False\<rparr>)]) (ii + 1)))))"

section \<open>Lookup, insertion, removal\<close>

text \<open>The checks of a debug build: no table, or a table for another kind of key.\<close>

definition wrong_type :: "hash_key \<Rightarrow> 'v hash_table \<Rightarrow> bool" where
  "wrong_type key ht = (ht_type_methods ht \<noteq> None \<and> ht_type_methods ht \<noteq> Some (methods_of key))"

definition start_at :: "hash_key \<Rightarrow> 'v hash_table \<Rightarrow> nat" where
  "start_at key ht = unat (key_hash key) mod ht_capacity ht"

definition hash_get :: "bool \<Rightarrow> 'v hash_table \<Rightarrow> hash_key \<Rightarrow> ((opal_status + 'v option) \<times> 'v hash_table) option" where
  "hash_get debug ht key =
     (if debug \<and> (ht_capacity ht = 0 \<or> wrong_type key ht) then Some (Inl OPAL_ERROR, ht)
      else if ht_capacity ht = 0 then None
      else
        (case scan (stop_at (ht_table ht) key) (ht_capacity ht) (start_at key ht) of
           None \<Rightarrow> None
         | Some ii \<Rightarrow>
             map_option (\<lambda>e. (if valid e then Inr (elt_value e) else Inl OPAL_ERR_NOT_FOUND,
                              ht\<lparr>ht_type_methods := Some (methods_of key)\<rparr>))
               (arr_get (ht_table ht) (int ii))))"

text \<open>The copy of a pointer key is written without a check of its allocation.\<close>

definition key_copy :: "bool \<Rightarrow> hash_key \<Rightarrow> hash_key option" where
  "key_copy key_mem key = (case key of Ptr bs \<Rightarrow> (if key_mem \<or> bs = [] then Some key else None) | _ \<Rightarrow> Some key)"

definition hash_set ::
  "bool \<Rightarrow> bool \<Rightarrow> bool \<Rightarrow> 'v hash_table \<Rightarrow> hash_key \<Rightarrow> 'v option \<Rightarrow> (opal_status \<times> 'v hash_table) option" where
  "hash_set debug key_mem grow_mem ht key v =
     (if debug \<and> ht_capacity ht = 0 then Some (OPAL_ERR_BAD_PARAM, ht)
      else if debug \<and> wrong_type key ht then Some (OPAL_ERROR, ht)
      else if ht_capacity ht = 0 then None
      else
        (let ht = ht\<lparr>ht_type_methods := Some (methods_of key)\<rparr>
         in case scan (stop_at (ht_table ht) key) (ht_capacity ht) (start_at key ht) of
              None \<Rightarrow> None
            | Some ii \<Rightarrow>
                (case arr_get (ht_table ht) (int ii) of
                   None \<Rightarrow> None
                 | Some e \<Rightarrow>
                     (if valid e then Some (OPAL_SUCCESS, ht\<lparr>ht_table := (ht_table ht)[ii := e\<lparr>elt_value := v\<rparr>]\<rparr>)
                      else
                        (case key_copy key_mem key of
                           None \<Rightarrow> None
                         | Some key' \<Rightarrow>
                             (let ht = ht\<lparr>ht_table := (ht_table ht)[ii := e\<lparr>elt_key := key', elt_value := v, valid := True\<rparr>],
                                          ht_size := size_add (ht_size ht) 1\<rparr>
                              in if ht_size ht \<ge> ht_growth_trigger ht then opal_hash_grow grow_mem ht
                                 else Some (OPAL_SUCCESS, ht)))))))"

definition hash_remove :: "bool \<Rightarrow> 'v hash_table \<Rightarrow> hash_key \<Rightarrow> (opal_status \<times> 'v hash_table) option" where
  "hash_remove debug ht key =
     (if debug \<and> (ht_capacity ht = 0 \<or> wrong_type key ht) then Some (OPAL_ERROR, ht)
      else if ht_capacity ht = 0 then None
      else
        (let ht = ht\<lparr>ht_type_methods := Some (methods_of key)\<rparr>
         in case scan (stop_at (ht_table ht) key) (ht_capacity ht) (start_at key ht) of
              None \<Rightarrow> None
            | Some ii \<Rightarrow>
                (case arr_get (ht_table ht) (int ii) of
                   None \<Rightarrow> None
                 | Some e \<Rightarrow>
                     (if valid e then opal_hash_table_remove_elt_at ht ii else Some (OPAL_ERR_NOT_FOUND, ht)))))"

definition opal_hash_table_get_value_uint32 ::
  "bool \<Rightarrow> 'v hash_table \<Rightarrow> u32 \<Rightarrow> ((opal_status + 'v option) \<times> 'v hash_table) option" where
  "opal_hash_table_get_value_uint32 debug ht key = hash_get debug ht (U32 key)"

definition opal_hash_table_set_value_uint32 ::
  "bool \<Rightarrow> bool \<Rightarrow> 'v hash_table \<Rightarrow> u32 \<Rightarrow> 'v option \<Rightarrow> (opal_status \<times> 'v hash_table) option" where
  "opal_hash_table_set_value_uint32 debug grow_mem ht key v = hash_set debug True grow_mem ht (U32 key) v"

definition opal_hash_table_remove_value_uint32 ::
  "bool \<Rightarrow> 'v hash_table \<Rightarrow> u32 \<Rightarrow> (opal_status \<times> 'v hash_table) option" where
  "opal_hash_table_remove_value_uint32 debug ht key = hash_remove debug ht (U32 key)"

definition opal_hash_table_get_value_uint64 ::
  "bool \<Rightarrow> 'v hash_table \<Rightarrow> u64 \<Rightarrow> ((opal_status + 'v option) \<times> 'v hash_table) option" where
  "opal_hash_table_get_value_uint64 debug ht key = hash_get debug ht (U64 key)"

definition opal_hash_table_set_value_uint64 ::
  "bool \<Rightarrow> bool \<Rightarrow> 'v hash_table \<Rightarrow> u64 \<Rightarrow> 'v option \<Rightarrow> (opal_status \<times> 'v hash_table) option" where
  "opal_hash_table_set_value_uint64 debug grow_mem ht key v = hash_set debug True grow_mem ht (U64 key) v"

definition opal_hash_table_remove_value_uint64 ::
  "bool \<Rightarrow> 'v hash_table \<Rightarrow> u64 \<Rightarrow> (opal_status \<times> 'v hash_table) option" where
  "opal_hash_table_remove_value_uint64 debug ht key = hash_remove debug ht (U64 key)"

definition opal_hash_table_get_value_ptr ::
  "bool \<Rightarrow> 'v hash_table \<Rightarrow> u8 list \<Rightarrow> ((opal_status + 'v option) \<times> 'v hash_table) option" where
  "opal_hash_table_get_value_ptr debug ht key = hash_get debug ht (Ptr key)"

definition opal_hash_table_set_value_ptr ::
  "bool \<Rightarrow> bool \<Rightarrow> bool \<Rightarrow> 'v hash_table \<Rightarrow> u8 list \<Rightarrow> 'v option \<Rightarrow> (opal_status \<times> 'v hash_table) option" where
  "opal_hash_table_set_value_ptr debug key_mem grow_mem ht key v = hash_set debug key_mem grow_mem ht (Ptr key) v"

definition opal_hash_table_remove_value_ptr ::
  "bool \<Rightarrow> 'v hash_table \<Rightarrow> u8 list \<Rightarrow> (opal_status \<times> 'v hash_table) option" where
  "opal_hash_table_remove_value_ptr debug ht key = hash_remove debug ht (Ptr key)"

section \<open>Traversal\<close>

fun find_valid :: "'v hash_elt list \<Rightarrow> nat list \<Rightarrow> nat option option" where
  "find_valid elts [] = Some None"
| "find_valid elts (ii # rest) =
     (case arr_get elts (int ii) of
        None \<Rightarrow> None
      | Some e \<Rightarrow> (if valid e then Some (Some ii) else find_valid elts rest))"

text \<open>A node of a traversal is the index of an element; \<open>None\<close> is the null pointer a traversal starts from.\<close>

definition opal_hash_table_get_next_elt :: "'v hash_table \<Rightarrow> nat option \<Rightarrow> nat option option" where
  "opal_hash_table_get_next_elt ht prev_elt =
     find_valid (ht_table ht) [(case prev_elt of None \<Rightarrow> 0 | Some i \<Rightarrow> i + 1)..<ht_capacity ht]"

definition get_next_key :: "(hash_key \<Rightarrow> 'k option) \<Rightarrow> 'v hash_table \<Rightarrow> nat option \<Rightarrow>
    (opal_status + 'k \<times> 'v option \<times> nat) option" where
  "get_next_key member ht in_node =
     (case opal_hash_table_get_next_elt ht in_node of
        None \<Rightarrow> None
      | Some None \<Rightarrow> Some (Inl OPAL_ERROR)
      | Some (Some ii) \<Rightarrow>
          (case arr_get (ht_table ht) (int ii) of
             None \<Rightarrow> None
           | Some e \<Rightarrow> map_option (\<lambda>k. Inr (k, elt_value e, ii)) (member (elt_key e))))"

fun u32_member :: "hash_key \<Rightarrow> u32 option" where
  "u32_member (U32 k) = Some k"
| "u32_member _ = None"

fun u64_member :: "hash_key \<Rightarrow> u64 option" where
  "u64_member (U64 k) = Some k"
| "u64_member _ = None"

fun ptr_member :: "hash_key \<Rightarrow> u8 list option" where
  "ptr_member (Ptr k) = Some k"
| "ptr_member _ = None"

definition opal_hash_table_get_next_key_uint32 ::
  "'v hash_table \<Rightarrow> nat option \<Rightarrow> (opal_status + u32 \<times> 'v option \<times> nat) option" where
  "opal_hash_table_get_next_key_uint32 ht in_node = get_next_key u32_member ht in_node"

definition opal_hash_table_get_first_key_uint32 ::
  "'v hash_table \<Rightarrow> (opal_status + u32 \<times> 'v option \<times> nat) option" where
  "opal_hash_table_get_first_key_uint32 ht = opal_hash_table_get_next_key_uint32 ht None"

definition opal_hash_table_get_next_key_uint64 ::
  "'v hash_table \<Rightarrow> nat option \<Rightarrow> (opal_status + u64 \<times> 'v option \<times> nat) option" where
  "opal_hash_table_get_next_key_uint64 ht in_node = get_next_key u64_member ht in_node"

definition opal_hash_table_get_first_key_uint64 ::
  "'v hash_table \<Rightarrow> (opal_status + u64 \<times> 'v option \<times> nat) option" where
  "opal_hash_table_get_first_key_uint64 ht = opal_hash_table_get_next_key_uint64 ht None"

definition opal_hash_table_get_next_key_ptr ::
  "'v hash_table \<Rightarrow> nat option \<Rightarrow> (opal_status + u8 list \<times> 'v option \<times> nat) option" where
  "opal_hash_table_get_next_key_ptr ht in_node = get_next_key ptr_member ht in_node"

definition opal_hash_table_get_first_key_ptr ::
  "'v hash_table \<Rightarrow> (opal_status + u8 list \<times> 'v option \<times> nat) option" where
  "opal_hash_table_get_first_key_ptr ht = opal_hash_table_get_next_key_ptr ht None"

text \<open>\<open>OPAL_HASH_TABLE_FOREACH\<close> with a body that records the keys and values it is given.\<close>

partial_function (option) foreach_loop ::
  "('v hash_table \<Rightarrow> nat option \<Rightarrow> (opal_status + 'k \<times> 'v option \<times> nat) option) \<Rightarrow> 'v hash_table \<Rightarrow>
   nat option \<Rightarrow> ('k \<times> 'v option) list \<Rightarrow> ('k \<times> 'v option) list option" where
  "foreach_loop get_next ht node seen =
     (case get_next ht node of
        None \<Rightarrow> None
      | Some (Inl rc) \<Rightarrow> Some (rev seen)
      | Some (Inr (k, v, node')) \<Rightarrow> foreach_loop get_next ht (Some node') ((k, v) # seen))"

definition OPAL_HASH_TABLE_FOREACH ::
  "('v hash_table \<Rightarrow> nat option \<Rightarrow> (opal_status + 'k \<times> 'v option \<times> nat) option) \<Rightarrow> 'v hash_table \<Rightarrow>
   ('k \<times> 'v option) list option" where
  "OPAL_HASH_TABLE_FOREACH get_next ht = foreach_loop get_next ht None []"

text \<open>The macro for pointer keys is one of its own, since its \<open>get_next_key\<close> has the size of the key as a further result.\<close>

definition OPAL_HASH_TABLE_FOREACH_PTR :: "'v hash_table \<Rightarrow> (u8 list \<times> 'v option) list option" where
  "OPAL_HASH_TABLE_FOREACH_PTR ht = foreach_loop opal_hash_table_get_next_key_ptr ht None []"

section \<open>Cyclic distance\<close>

text \<open>How many steps a probe needs from one index to another.\<close>

definition dist :: "nat \<Rightarrow> nat \<Rightarrow> nat \<Rightarrow> nat" where
  "dist cap a b = (if a \<le> b then b - a else b + cap - a)"

lemma dist_self [simp]: "dist cap a a = 0"
  by (simp add: dist_def)

lemma dist_less: "a < cap \<Longrightarrow> b < cap \<Longrightarrow> dist cap a b < cap"
  by (auto simp: dist_def)

lemma dist_inj: "a < cap \<Longrightarrow> b < cap \<Longrightarrow> c < cap \<Longrightarrow> dist cap a b = dist cap a c \<longleftrightarrow> b = c"
  by (auto simp: dist_def split: if_splits)

lemma dist_0: "a < cap \<Longrightarrow> b < cap \<Longrightarrow> dist cap a b = 0 \<longleftrightarrow> a = b"
  by (auto simp: dist_def split: if_splits)

definition next_slot :: "nat \<Rightarrow> nat \<Rightarrow> nat" where
  "next_slot cap a = (if a + 1 = cap then 0 else a + 1)"

lemma next_slot_less: "a < cap \<Longrightarrow> next_slot cap a < cap"
  by (auto simp: next_slot_def)

lemma dist_next: "a < cap \<Longrightarrow> b < cap \<Longrightarrow> a \<noteq> b \<Longrightarrow> dist cap a b = Suc (dist cap (next_slot cap a) b)"
  by (auto simp: dist_def next_slot_def split: if_splits)

lemma dist_next_from: "e < cap \<Longrightarrow> a < cap \<Longrightarrow>
    dist cap e (next_slot cap a) = (if Suc (dist cap e a) = cap then 0 else Suc (dist cap e a))"
  by (auto simp: dist_def next_slot_def split: if_splits)

text \<open>A cyclic interval that does not contain \<open>e\<close> is an interval of distances from \<open>e\<close>.\<close>

lemma dist_int:
  "a < cap \<Longrightarrow> b < cap \<Longrightarrow> int (dist cap a b) = (if a \<le> b then int b - int a else int b + int cap - int a)"
  by (auto simp: dist_def)

lemma between_from:
  assumes "e < cap" "w < cap" "i < cap" "j < cap" "i \<noteq> e" and "\<not> dist cap w e < dist cap w i"
  shows "dist cap w j < dist cap w i \<longleftrightarrow> dist cap e w \<le> dist cap e j \<and> dist cap e j < dist cap e i"
  using dist_int [OF assms(2,1)] dist_int [OF assms(2,3)] dist_int [OF assms(2,4)] dist_int [OF assms(1,2)]
    dist_int [OF assms(1,4)] dist_int [OF assms(1,3)] assms
  by (simp split: if_splits) linarith+

lemma before_from:
  assumes "e < cap" "w < cap" "i < cap" "i \<noteq> e" and "\<not> dist cap w e < dist cap w i"
  shows "0 < dist cap e w \<and> dist cap e w \<le> dist cap e i"
  using assms unfolding dist_def by (auto split: if_splits)

lemma not_between_from:
  assumes "e < cap" "w < cap" "i < cap" and "0 < dist cap e w" "dist cap e w \<le> dist cap e i"
  shows "\<not> dist cap w e < dist cap w i"
  using assms unfolding dist_def by (auto split: if_splits)

lemma after_from:
  assumes "e < cap" "p < cap" "j < cap" "p \<noteq> e" and "dist cap e p < dist cap e j"
  shows "dist cap p j < dist cap p e"
  using dist_int [OF assms(2,3)] dist_int [OF assms(2,1)] dist_int [OF assms(1,2)] dist_int [OF assms(1,3)] assms
  by (simp split: if_splits)

section \<open>Probes end\<close>

lemma scan_wrap: "cap \<noteq> 0 \<Longrightarrow> a < cap \<Longrightarrow> scan test cap (a + 1) = scan test cap (next_slot cap a)"
  by (subst (1 2) scan.simps) (simp add: next_slot_def)

lemma scan_finds:
  assumes "a < cap" "b < cap" and "test b = Some True"
    and "\<And>j. j < cap \<Longrightarrow> dist cap a j < dist cap a b \<Longrightarrow> test j = Some False"
  shows "scan test cap a = Some b"
  using assms
proof (induction "dist cap a b" arbitrary: a)
  case 0
  then have "a = b" by (simp add: dist_0)
  then show ?case using 0 by (subst scan.simps) simp
next
  case (Suc n)
  have ne: "a \<noteq> b" using Suc.hyps(2) by auto
  let ?a = "next_slot cap a"
  note d = dist_next [OF Suc.prems(1,2) ne]
  have here: "test a = Some False" using Suc.prems(4) [OF Suc.prems(1)] d by simp
  have rest: "test j = Some False" if "j < cap" "dist cap ?a j < dist cap ?a b" for j
  proof (cases "j = a")
    case False
    then show ?thesis
      using Suc.prems(4) [OF that(1)] that(2) d dist_next [OF Suc.prems(1) that(1)] by simp
  qed (use here in simp)
  have "scan test cap ?a = Some b"
    using Suc.hyps(1) [OF _ next_slot_less [OF Suc.prems(1)] Suc.prems(2,3) rest] d Suc.hyps(2) by simp
  then show ?case using here Suc.prems(1) scan_wrap [of cap a test] by (subst scan.simps) simp
qed

text \<open>The counted loop is the loop.\<close>

lemma scan_ends: "scan test cap ii = Some r \<Longrightarrow> \<exists>n. scan_rounds test cap n ii = Found r"
proof (erule scan.raw_induct [rotated])
  fix f and test :: "nat \<Rightarrow> bool option" and cap ii y :: nat
  assume IH: "\<And>test cap ii y. f test cap ii = Some y \<Longrightarrow> \<exists>n. scan_rounds test cap n ii = Found y"
  let ?i = "if ii = cap then 0 else ii"
  assume "(let ii = ?i in case test ii of None \<Rightarrow> None | Some b \<Rightarrow> if b then Some ii else f test cap (ii + 1)) = Some y"
  then consider "test ?i = Some True" "y = ?i" | "test ?i = Some False" "f test cap (?i + 1) = Some y"
    by (auto simp: Let_def split: option.splits if_splits)
  then show "\<exists>n. scan_rounds test cap n ii = Found y"
  proof cases
    case 1
    then show ?thesis by (intro exI [of _ "Suc 0"]) (simp add: Let_def)
  next
    case 2
    then obtain n where "scan_rounds test cap n (?i + 1) = Found y" using IH by blast
    then show ?thesis using 2(1) by (intro exI [of _ "Suc n"]) (simp add: Let_def)
  qed
qed

lemma scan_counted: "scan test cap ii = Some r \<longleftrightarrow> (\<exists>n. scan_rounds test cap n ii = Found r)"
proof
  show "scan test cap ii = Some r \<Longrightarrow> \<exists>n. scan_rounds test cap n ii = Found r" by (rule scan_ends)
next
  assume "\<exists>n. scan_rounds test cap n ii = Found r"
  then obtain n where "scan_rounds test cap n ii = Found r" ..
  then show "scan test cap ii = Some r"
  proof (induction n arbitrary: ii)
    case (Suc n)
    then show ?case by (subst scan.simps) (auto simp: Let_def split: option.splits if_splits)
  qed simp
qed

section \<open>Well-formed tables\<close>

definition home :: "'v hash_elt list \<Rightarrow> hash_key \<Rightarrow> nat" where
  "home elts k = unat (key_hash k) mod length elts"

text \<open>All slots a probe from \<open>w\<close> passes before it reaches \<open>i\<close> are taken.\<close>

definition reach :: "'v hash_elt list \<Rightarrow> nat \<Rightarrow> nat \<Rightarrow> bool" where
  "reach elts w i \<longleftrightarrow> (\<forall>j < length elts. dist (length elts) w j < dist (length elts) w i \<longrightarrow> valid (elts ! j))"

definition keys_inj :: "'v hash_elt list \<Rightarrow> bool" where
  "keys_inj elts \<longleftrightarrow>
     (\<forall>i < length elts. \<forall>j < length elts.
        valid (elts ! i) \<longrightarrow> valid (elts ! j) \<longrightarrow> elt_key (elts ! i) = elt_key (elts ! j) \<longrightarrow> i = j)"

definition tbl_wf :: "hash_methods \<Rightarrow> 'v hash_elt list \<Rightarrow> bool" where
  "tbl_wf m elts \<longleftrightarrow>
     elts \<noteq> [] \<and> keys_inj elts \<and>
     (\<forall>i < length elts. valid (elts ! i) \<longrightarrow>
        methods_of (elt_key (elts ! i)) = m \<and> reach elts (home elts (elt_key (elts ! i))) i)"

definition nvalid :: "'v hash_elt list \<Rightarrow> nat" where
  "nvalid elts = length (filter valid elts)"

definition entries :: "'v hash_elt list \<Rightarrow> (hash_key \<times> 'v option) list" where
  "entries elts = map (\<lambda>e. (elt_key e, elt_value e)) (filter valid elts)"

text \<open>The map a table stands for.\<close>

definition contents :: "'v hash_table \<Rightarrow> hash_key \<rightharpoonup> 'v option" where
  "contents ht = map_of (entries (ht_table ht))"

lemma home_less: "elts \<noteq> [] \<Longrightarrow> home elts k < length elts"
  by (simp add: home_def)

lemma home_update [simp]: "home (elts[i := e]) k = home elts k"
  by (simp add: home_def)

lemma nvalid_card: "nvalid elts = card {i. i < length elts \<and> valid (elts ! i)}"
  by (simp add: nvalid_def length_filter_conv_card)

lemma nvalid_le: "nvalid elts \<le> length elts"
  by (simp add: nvalid_def)

lemma nvalid_free: "nvalid elts < length elts \<longleftrightarrow> (\<exists>i < length elts. \<not> valid (elts ! i))"
proof
  assume "nvalid elts < length elts"
  then have "filter valid elts \<noteq> elts" by (auto simp: nvalid_def)
  then show "\<exists>i < length elts. \<not> valid (elts ! i)" by (auto simp: filter_id_conv in_set_conv_nth)
next
  assume "\<exists>i < length elts. \<not> valid (elts ! i)"
  then show "nvalid elts < length elts" unfolding nvalid_def using length_filter_less nth_mem by metis
qed

lemma nvalid_set:
  assumes "i < length elts" "\<not> valid (elts ! i)" "valid e"
  shows "nvalid (elts[i := e]) = Suc (nvalid elts)"
proof -
  have "{j. j < length elts \<and> valid (elts[i := e] ! j)} = insert i {j. j < length elts \<and> valid (elts ! j)}"
    using assms by (auto simp: nth_list_update)
  then show ?thesis using assms(2) by (simp add: nvalid_card)
qed

lemma nvalid_clear:
  assumes "i < length elts" "valid (elts ! i)" "\<not> valid e"
  shows "Suc (nvalid (elts[i := e])) = nvalid elts"
  using nvalid_set [of i "elts[i := e]" "elts ! i"] assms by simp

lemma nvalid_replace:
  assumes "i < length elts" "valid (elts ! i)" "valid e"
  shows "nvalid (elts[i := e]) = nvalid elts"
proof -
  have "{j. j < length elts \<and> valid (elts[i := e] ! j)} = {j. j < length elts \<and> valid (elts ! j)}"
    using assms by (auto simp: nth_list_update)
  then show ?thesis by (simp add: nvalid_card)
qed

lemma distinct_entries: "keys_inj elts \<Longrightarrow> distinct (map fst (entries elts))"
proof (induction elts)
  case (Cons e es)
  have "keys_inj es"
    unfolding keys_inj_def
  proof (intro allI impI)
    fix i j assume "i < length es" "j < length es" "valid (es ! i)" "valid (es ! j)" "elt_key (es ! i) = elt_key (es ! j)"
    then show "i = j" using Cons.prems unfolding keys_inj_def by (metis Suc_inject Suc_mono length_Cons nth_Cons_Suc)
  qed
  moreover have "elt_key e \<notin> elt_key ` {x \<in> set es. valid x}" if "valid e"
  proof
    assume "elt_key e \<in> elt_key ` {x \<in> set es. valid x}"
    then obtain i where "i < length es" "valid (es ! i)" "elt_key (es ! i) = elt_key e"
      by (auto simp: in_set_conv_nth)
    then show False
      using Cons.prems that unfolding keys_inj_def by (metis Suc_mono Zero_neq_Suc length_Cons nth_Cons_0 nth_Cons_Suc zero_less_Suc)
  qed
  ultimately show ?case using Cons.IH by (auto simp: entries_def image_iff)
qed (simp add: entries_def)

lemma entries_Some:
  "keys_inj elts \<Longrightarrow> map_of (entries elts) k = Some v \<longleftrightarrow>
     (\<exists>i < length elts. valid (elts ! i) \<and> elt_key (elts ! i) = k \<and> elt_value (elts ! i) = v)"
  by (simp add: map_of_eq_Some_iff distinct_entries) (auto simp: entries_def in_set_conv_nth)

lemma entries_None:
  "map_of (entries elts) k = None \<longleftrightarrow> (\<forall>i < length elts. valid (elts ! i) \<longrightarrow> elt_key (elts ! i) \<noteq> k)"
  by (simp add: map_of_eq_None_iff entries_def image_image) (fastforce simp: image_iff in_set_conv_nth)

lemma map_eqI_Some: "(\<And>k v. m k = Some v \<longleftrightarrow> m' k = Some v) \<Longrightarrow> m = m'"
  by (rule ext) (metis not_Some_eq)

lemma keys_injD:
  "keys_inj elts \<Longrightarrow> i < length elts \<Longrightarrow> j < length elts \<Longrightarrow> valid (elts ! i) \<Longrightarrow> valid (elts ! j) \<Longrightarrow>
     elt_key (elts ! i) = elt_key (elts ! j) \<Longrightarrow> i = j"
  unfolding keys_inj_def by blast

lemma tbl_wfD:
  assumes "tbl_wf m elts"
  shows "elts \<noteq> []" and "keys_inj elts"
    and "i < length elts \<Longrightarrow> valid (elts ! i) \<Longrightarrow> methods_of (elt_key (elts ! i)) = m"
    and "i < length elts \<Longrightarrow> valid (elts ! i) \<Longrightarrow> reach elts (home elts (elt_key (elts ! i))) i"
  using assms unfolding tbl_wf_def by blast+

lemma tbl_wfI:
  assumes "elts \<noteq> []" and "keys_inj elts"
    and "\<And>i. i < length elts \<Longrightarrow> valid (elts ! i) \<Longrightarrow>
           methods_of (elt_key (elts ! i)) = m \<and> reach elts (home elts (elt_key (elts ! i))) i"
  shows "tbl_wf m elts"
  using assms unfolding tbl_wf_def by blast

lemma reachD: "reach elts w i \<Longrightarrow> j < length elts \<Longrightarrow> dist (length elts) w j < dist (length elts) w i \<Longrightarrow> valid (elts ! j)"
  unfolding reach_def by blast

section \<open>Finding a key\<close>

lemma key_eq_typed: "methods_of a = methods_of b \<Longrightarrow> key_eq a b = Some (a = b)"
  by (cases a; cases b) auto

lemma hash_method_typed: "methods_of k = m \<Longrightarrow> hash_elt_method m k = Some (key_hash k)"
  by (cases k) auto

lemma first_free:
  assumes "nvalid elts < length elts" and "w < length elts"
  obtains i where "i < length elts" "\<not> valid (elts ! i)" "reach elts w i"
proof -
  let ?free = "\<lambda>i. i < length elts \<and> \<not> valid (elts ! i)"
  obtain i where i: "?free i" "\<And>j. ?free j \<Longrightarrow> dist (length elts) w i \<le> dist (length elts) w j"
    using assms(1) ex_has_least_nat [of ?free _ "dist (length elts) w"] unfolding nvalid_free by blast
  have "reach elts w i"
    unfolding reach_def
  proof (intro allI impI)
    fix j assume "j < length elts" "dist (length elts) w j < dist (length elts) w i"
    then show "valid (elts ! j)" using i(2) [of j] by auto
  qed
  then show ?thesis using that i(1) by blast
qed

lemma scan_free:
  assumes "i < length elts" "\<not> valid (elts ! i)" "reach elts w i" "w < length elts"
  shows "scan (is_free elts) (length elts) w = Some i"
  by (rule scan_finds) (use assms in \<open>auto simp: is_free_def arr_get_nat reach_def\<close>)

lemma probe_found:
  assumes wf: "tbl_wf m elts" and i: "i < length elts" "valid (elts ! i)"
  shows "scan (stop_at elts (elt_key (elts ! i))) (length elts) (home elts (elt_key (elts ! i))) = Some i"
proof (rule scan_finds)
  let ?k = "elt_key (elts ! i)"
  show "home elts ?k < length elts" using tbl_wfD(1) [OF wf] by (rule home_less)
  show "stop_at elts ?k i = Some True"
    using i by (simp add: stop_at_def arr_get_nat key_eq_typed)
  fix j assume j: "j < length elts" "dist (length elts) (home elts ?k) j < dist (length elts) (home elts ?k) i"
  then have v: "valid (elts ! j)" "j \<noteq> i" using reachD [OF tbl_wfD(4) [OF wf i]] by auto
  have "elt_key (elts ! j) \<noteq> ?k" using keys_injD [OF tbl_wfD(2) [OF wf] j(1) i(1) v(1) i(2)] v(2) by blast
  moreover have "methods_of (elt_key (elts ! j)) = methods_of ?k"
    using tbl_wfD(3) [OF wf i] tbl_wfD(3) [OF wf j(1) v(1)] by simp
  ultimately show "stop_at elts ?k j = Some False"
    using v j(1) by (simp add: stop_at_def arr_get_nat key_eq_typed)
qed (use i in simp)

lemma probe_missing:
  assumes wf: "tbl_wf m elts" and k: "methods_of k = m" "map_of (entries elts) k = None"
    and i: "i < length elts" "\<not> valid (elts ! i)" "reach elts (home elts k) i"
  shows "scan (stop_at elts k) (length elts) (home elts k) = Some i"
proof (rule scan_finds)
  show "home elts k < length elts" using tbl_wfD(1) [OF wf] by (rule home_less)
  show "stop_at elts k i = Some True" using i by (simp add: stop_at_def arr_get_nat)
  fix j assume j: "j < length elts" "dist (length elts) (home elts k) j < dist (length elts) (home elts k) i"
  then have v: "valid (elts ! j)" using reachD [OF i(3)] by blast
  have "elt_key (elts ! j) \<noteq> k" using k(2) j(1) v unfolding entries_None by blast
  moreover have "methods_of (elt_key (elts ! j)) = methods_of k" using tbl_wfD(3) [OF wf j(1) v] k(1) by simp
  ultimately show "stop_at elts k j = Some False"
    using v j(1) by (simp add: stop_at_def arr_get_nat key_eq_typed)
qed (use i in simp)

section \<open>Inserting and replacing\<close>

lemma ex_nth_update:
  "i < length xs \<Longrightarrow> (\<exists>j < length xs. P (xs[i := e] ! j)) \<longleftrightarrow> P e \<or> (\<exists>j < length xs. j \<noteq> i \<and> P (xs ! j))"
  by (metis nth_list_update_eq nth_list_update_neq)

lemma entries_update:
  assumes "keys_inj (elts[i := e])" and "i < length elts"
  shows "map_of (entries (elts[i := e])) k = Some v \<longleftrightarrow>
    (valid e \<and> elt_key e = k \<and> elt_value e = v) \<or>
    (\<exists>j < length elts. j \<noteq> i \<and> valid (elts ! j) \<and> elt_key (elts ! j) = k \<and> elt_value (elts ! j) = v)"
  using ex_nth_update [OF assms(2), of "\<lambda>e. valid e \<and> elt_key e = k \<and> elt_value e = v"]
  by (simp add: entries_Some [OF assms(1)])

lemma reach_more:
  "reach elts w i \<Longrightarrow> valid e \<Longrightarrow> reach (elts[j := e]) w i"
  by (auto simp: reach_def nth_update_if)

lemma insert_wf:
  assumes wf: "tbl_wf m elts" and i: "i < length elts" "\<not> valid (elts ! i)" "reach elts (home elts k) i"
    and k: "methods_of k = m" "map_of (entries elts) k = None" and e: "valid e" "elt_key e = k" "elt_value e = v"
  shows "tbl_wf m (elts[i := e])" and "map_of (entries (elts[i := e])) = (map_of (entries elts))(k \<mapsto> v)"
proof -
  have new: "elt_key (elts ! j) \<noteq> k" if "j < length elts" "valid (elts ! j)" for j
    using k(2) that unfolding entries_None by blast
  have inj: "keys_inj (elts[i := e])"
    unfolding keys_inj_def
  proof (intro allI impI)
    fix a b assume "a < length (elts[i := e])" "b < length (elts[i := e])" "valid (elts[i := e] ! a)" "valid (elts[i := e] ! b)"
      "elt_key (elts[i := e] ! a) = elt_key (elts[i := e] ! b)"
    then show "a = b"
      using keys_injD [OF tbl_wfD(2) [OF wf], of a b] new [of a] new [of b] i(1) e(2)
      by (cases "a = i"; cases "b = i"; simp)
  qed
  show "tbl_wf m (elts[i := e])"
  proof (rule tbl_wfI)
    fix j assume j: "j < length (elts[i := e])" "valid (elts[i := e] ! j)"
    show "methods_of (elt_key (elts[i := e] ! j)) = m \<and>
        reach (elts[i := e]) (home (elts[i := e]) (elt_key (elts[i := e] ! j))) j"
    proof (cases "j = i")
      case True
      then show ?thesis using i k(1) e reach_more [OF i(3) e(1)] by simp
    next
      case False
      then show ?thesis using j tbl_wfD(3,4) [OF wf] reach_more [OF _ e(1)] by simp
    qed
  qed (use wf inj in \<open>auto dest: tbl_wfD(1)\<close>)
  show "map_of (entries (elts[i := e])) = (map_of (entries elts))(k \<mapsto> v)"
  proof (rule map_eqI_Some)
    fix k' v'
    show "map_of (entries (elts[i := e])) k' = Some v' \<longleftrightarrow> ((map_of (entries elts))(k \<mapsto> v)) k' = Some v'"
      using new i(1,2) e unfolding entries_update [OF inj i(1)]
      by (cases "k' = k") (auto simp: entries_Some [OF tbl_wfD(2) [OF wf]])
  qed
qed

lemma replace_wf:
  assumes wf: "tbl_wf m elts" and i: "i < length elts" "valid (elts ! i)" "elt_key (elts ! i) = k"
  shows "tbl_wf m (elts[i := (elts ! i)\<lparr>elt_value := v\<rparr>])"
    and "map_of (entries (elts[i := (elts ! i)\<lparr>elt_value := v\<rparr>])) = (map_of (entries elts))(k \<mapsto> v)"
proof -
  let ?e = "(elts ! i)\<lparr>elt_value := v\<rparr>"
  note old = tbl_wfD(2) [OF wf]
  have same: "valid (elts[i := ?e] ! j) = valid (elts ! j)" "elt_key (elts[i := ?e] ! j) = elt_key (elts ! j)" for j
    using i by (auto simp: nth_update_if)
  have inj: "keys_inj (elts[i := ?e])" unfolding keys_inj_def same using keys_injD [OF old] by simp
  show "tbl_wf m (elts[i := ?e])"
    using tbl_wfD [OF wf] inj i(2) unfolding tbl_wf_def same by (simp add: reach_more)
  show "map_of (entries (elts[i := ?e])) = (map_of (entries elts))(k \<mapsto> v)"
  proof (rule map_eqI_Some)
    fix k' v'
    have "\<forall>j < length elts. j \<noteq> i \<longrightarrow> valid (elts ! j) \<longrightarrow> elt_key (elts ! j) \<noteq> k"
      using keys_injD [OF old _ i(1) _ i(2)] i(3) by metis
    then show "map_of (entries (elts[i := ?e])) k' = Some v' \<longleftrightarrow> ((map_of (entries elts))(k \<mapsto> v)) k' = Some v'"
      using i unfolding entries_update [OF inj i(1)] by (cases "k' = k") (auto simp: entries_Some [OF old])
  qed
qed

section \<open>Growing\<close>

lemma empty_table:
  "0 < cap \<Longrightarrow> tbl_wf m (replicate cap empty_elt)"
  "nvalid (replicate cap (empty_elt :: 'v hash_elt)) = 0"
  "entries (replicate cap (empty_elt :: 'v hash_elt)) = []"
  by (auto simp: tbl_wf_def keys_inj_def empty_elt_def nvalid_def entries_def filter_replicate)

lemma rehash_correct:
  assumes "tbl_wf m new" and "nvalid new + nvalid es < length new"
    and "\<forall>e \<in> set es. valid e \<longrightarrow> methods_of (elt_key e) = m \<and> map_of (entries new) (elt_key e) = None"
    and "distinct (map fst (entries es))"
  shows "\<exists>t. rehash_loop (Some m) (length new) es new = Some t \<and> tbl_wf m t \<and> length t = length new \<and>
           nvalid t = nvalid new + nvalid es \<and> map_of (entries t) = map_of (entries es) ++ map_of (entries new)"
  using assms
proof (induction es arbitrary: new)
  case Nil
  then show ?case by (auto simp: nvalid_def entries_def)
next
  case (Cons e es)
  show ?case
  proof (cases "valid e")
    case False
    then have "nvalid (e # es) = nvalid es" "entries (e # es) = entries es" by (simp_all add: nvalid_def entries_def)
    then show ?thesis using Cons False by simp
  next
    case True
    let ?k = "elt_key e"
    have split: "nvalid (e # es) = Suc (nvalid es)" "entries (e # es) = (?k, elt_value e) # entries es"
      using True by (simp_all add: nvalid_def entries_def)
    have k: "methods_of ?k = m" "map_of (entries new) ?k = None" using Cons.prems(3) True by auto
    have w: "home new ?k < length new" using Cons.prems(1) by (simp add: tbl_wf_def home_less)
    obtain i where i: "i < length new" "\<not> valid (new ! i)" "reach new (home new ?k) i"
      using first_free [OF _ w] Cons.prems(2) by auto
    let ?new = "new[i := e]"
    note ins = insert_wf [OF Cons.prems(1) i k True refl refl]
    have fresh: "?k \<notin> fst ` set (entries es)" using Cons.prems(4) split(2) by simp
    have "\<forall>x \<in> set es. valid x \<longrightarrow> methods_of (elt_key x) = m \<and> map_of (entries ?new) (elt_key x) = None"
    proof (intro ballI impI)
      fix x assume x: "x \<in> set es" "valid x"
      have "elt_key x \<in> fst ` set (entries es)" unfolding entries_def using x by (auto simp: image_image)
      then have "elt_key x \<noteq> ?k" using fresh by metis
      then show "methods_of (elt_key x) = m \<and> map_of (entries ?new) (elt_key x) = None"
        using Cons.prems(3) x unfolding ins(2) by simp
    qed
    from Cons.IH [OF ins(1) _ this] obtain t where t: "rehash_loop (Some m) (length new) es ?new = Some t"
      "tbl_wf m t" "length t = length new" "nvalid t = Suc (nvalid new + nvalid es)"
      "map_of (entries t) = map_of (entries es) ++ map_of (entries ?new)"
      using nvalid_set [OF i(1,2) True] Cons.prems(2,4) split by auto
    have run: "rehash_loop (Some m) (length new) (e # es) new = Some t"
      using True t(1) hash_method_typed [OF k(1)] scan_free [OF i w] by (simp add: home_def)
    have "map_of (entries t) = map_of (entries (e # es)) ++ map_of (entries new)"
      unfolding t(5) ins(2) split(2) using k(2)
      by (simp add: fun_eq_iff map_add_def split: option.splits)
    then show ?thesis using run t(2-4) split(1) by (metis add_Suc_right)
  qed
qed

section \<open>Closing the gap of a removed element\<close>

text \<open>
  The loop keeps one hole \<open>h\<close> between the removed element and the current index. With distances taken from
  the first free slot \<open>e\<close> behind the removed element, the elements from distance \<open>n\<close> on have not been looked at;
  only their probes may still cross the hole.
\<close>

definition gap_inv :: "hash_methods \<Rightarrow> nat \<Rightarrow> nat \<Rightarrow> nat \<Rightarrow> 'v hash_elt list \<Rightarrow> bool" where
  "gap_inv m e h n t \<longleftrightarrow>
     (let cap = length t; d = dist cap e
      in e < cap \<and> h < cap \<and> h \<noteq> e \<and> \<not> valid (t ! e) \<and> \<not> valid (t ! h) \<and> d h < n \<and> n \<le> cap \<and> keys_inj t \<and>
         (\<forall>j < cap. d h < d j \<longrightarrow> valid (t ! j)) \<and>
         (\<forall>i < cap. valid (t ! i) \<longrightarrow>
            methods_of (elt_key (t ! i)) = m \<and> 0 < d (home t (elt_key (t ! i))) \<and>
            d (home t (elt_key (t ! i))) \<le> d i \<and>
            (\<forall>j < cap. d (home t (elt_key (t ! i))) \<le> d j \<longrightarrow> d j < d i \<longrightarrow>
               valid (t ! j) \<or> j = h \<and> n \<le> d i)))"

lemma gap_invD:
  assumes "gap_inv m e h n t"
  shows "e < length t" "h < length t" "h \<noteq> e" "\<not> valid (t ! e)" "\<not> valid (t ! h)"
    and "dist (length t) e h < n" "n \<le> length t" "keys_inj t"
    and "\<And>j. j < length t \<Longrightarrow> dist (length t) e h < dist (length t) e j \<Longrightarrow> valid (t ! j)"
    and "\<And>i. i < length t \<Longrightarrow> valid (t ! i) \<Longrightarrow> methods_of (elt_key (t ! i)) = m"
    and "\<And>i. i < length t \<Longrightarrow> valid (t ! i) \<Longrightarrow> 0 < dist (length t) e (home t (elt_key (t ! i)))"
    and "\<And>i. i < length t \<Longrightarrow> valid (t ! i) \<Longrightarrow>
           dist (length t) e (home t (elt_key (t ! i))) \<le> dist (length t) e i"
    and "\<And>i j. i < length t \<Longrightarrow> valid (t ! i) \<Longrightarrow> j < length t \<Longrightarrow>
           dist (length t) e (home t (elt_key (t ! i))) \<le> dist (length t) e j \<Longrightarrow>
           dist (length t) e j < dist (length t) e i \<Longrightarrow> valid (t ! j) \<or> j = h \<and> n \<le> dist (length t) e i"
  using assms unfolding gap_inv_def Let_def by blast+

lemma gap_invI:
  assumes "e < length t" "h < length t" "h \<noteq> e" "\<not> valid (t ! e)" "\<not> valid (t ! h)"
    and "dist (length t) e h < n" "n \<le> length t" "keys_inj t"
    and "\<And>j. j < length t \<Longrightarrow> dist (length t) e h < dist (length t) e j \<Longrightarrow> valid (t ! j)"
    and "\<And>i. i < length t \<Longrightarrow> valid (t ! i) \<Longrightarrow>
           methods_of (elt_key (t ! i)) = m \<and> 0 < dist (length t) e (home t (elt_key (t ! i))) \<and>
           dist (length t) e (home t (elt_key (t ! i))) \<le> dist (length t) e i"
    and "\<And>i j. i < length t \<Longrightarrow> valid (t ! i) \<Longrightarrow> j < length t \<Longrightarrow>
           dist (length t) e (home t (elt_key (t ! i))) \<le> dist (length t) e j \<Longrightarrow>
           dist (length t) e j < dist (length t) e i \<Longrightarrow> valid (t ! j) \<or> j = h \<and> n \<le> dist (length t) e i"
  shows "gap_inv m e h n t"
  using assms unfolding gap_inv_def Let_def by blast

text \<open>When the loop ends, the table is well-formed.\<close>

lemma gap_closed:
  assumes g: "gap_inv m e h (length t) t"
  shows "tbl_wf m t"
proof (rule tbl_wfI)
  note D = gap_invD [OF g]
  show ne: "t \<noteq> []" using D(1) by auto
  fix i assume i: "i < length t" "valid (t ! i)"
  let ?w = "home t (elt_key (t ! i))"
  have w: "?w < length t" using ne by (rule home_less)
  have ie: "i \<noteq> e" using i D(4) by auto
  have nb: "\<not> dist (length t) ?w e < dist (length t) ?w i"
    using not_between_from [OF D(1) w i(1) D(11) [OF i] D(12) [OF i]] .
  have "reach t ?w i"
    unfolding reach_def
  proof (intro allI impI)
    fix j assume j: "j < length t" "dist (length t) ?w j < dist (length t) ?w i"
    then have "dist (length t) e ?w \<le> dist (length t) e j" "dist (length t) e j < dist (length t) e i"
      using between_from [OF D(1) w i(1) j(1) ie nb] by auto
    then show "valid (t ! j)" using D(13) [OF i j(1)] dist_less [OF D(1) i(1)] by auto
  qed
  then show "methods_of (elt_key (t ! i)) = m \<and> reach t ?w i" using D(10) [OF i] by blast
qed (use gap_invD(8) [OF g] in auto)

text \<open>Moving an element into the hole.\<close>

definition move_elt :: "'v hash_elt list \<Rightarrow> nat \<Rightarrow> nat \<Rightarrow> 'v hash_elt list" where
  "move_elt t h i = t[h := t ! i, i := (t ! i)\<lparr>valid := False\<rparr>]"

lemma move_nth:
  assumes "h < length t" "i < length t" "h \<noteq> i" "valid (t ! i)"
  shows "valid (move_elt t h i ! j) \<longleftrightarrow> j \<noteq> i \<and> (j = h \<or> valid (t ! j))"
    and "j \<noteq> i \<Longrightarrow> j \<noteq> h \<Longrightarrow> move_elt t h i ! j = t ! j" and "move_elt t h i ! h = t ! i"
  using assms by (auto simp: move_elt_def nth_update_if)

lemma move_length [simp]: "length (move_elt t h i) = length t"
  by (simp add: move_elt_def)

lemma move_home [simp]: "home (move_elt t h i) k = home t k"
  by (simp add: home_def)

lemma move_contents:
  fixes t :: "'v hash_elt list"
  assumes mv: "h < length t" "i < length t" "h \<noteq> i" "valid (t ! i)" and h: "\<not> valid (t ! h)" and inj: "keys_inj t"
  shows "keys_inj (move_elt t h i)" and "map_of (entries (move_elt t h i)) = map_of (entries t)"
    and "nvalid (move_elt t h i) = nvalid t"
proof -
  note nth = move_nth [OF mv]
  show inj': "keys_inj (move_elt t h i)"
    unfolding keys_inj_def move_length
  proof (intro allI impI)
    fix a b assume ab: "a < length t" "b < length t" "valid (move_elt t h i ! a)" "valid (move_elt t h i ! b)"
      "elt_key (move_elt t h i ! a) = elt_key (move_elt t h i ! b)"
    show "a = b"
      using ab keys_injD [OF inj ab(1,2)] keys_injD [OF inj mv(2) ab(2) mv(4)] keys_injD [OF inj ab(1) mv(2) _ mv(4)] nth
      by (cases "a = h"; cases "b = h") auto
  qed
  show "map_of (entries (move_elt t h i)) = map_of (entries t)"
  proof (rule map_eqI_Some)
    fix k v
    let ?P = "\<lambda>x :: 'v hash_elt. valid x \<and> elt_key x = k \<and> elt_value x = v"
    have "(\<exists>j < length t. ?P (move_elt t h i ! j)) \<longleftrightarrow> (\<exists>j < length t. ?P (t ! j))"
    proof
      assume "\<exists>j < length t. ?P (move_elt t h i ! j)"
      then show "\<exists>j < length t. ?P (t ! j)" using nth mv(2,4) by metis
    next
      assume "\<exists>j < length t. ?P (t ! j)"
      then obtain j where j: "j < length t" "?P (t ! j)" by blast
      then have "j \<noteq> h" using h by auto
      then show "\<exists>j < length t. ?P (move_elt t h i ! j)" using j nth mv(1,4) by (cases "j = i") metis+
    qed
    then show "map_of (entries (move_elt t h i)) k = Some v \<longleftrightarrow> map_of (entries t) k = Some v"
      by (simp add: entries_Some [OF inj] entries_Some [OF inj'])
  qed
  have "Suc (nvalid (move_elt t h i)) = nvalid (t[h := t ! i])"
    unfolding move_elt_def by (rule nvalid_clear) (use mv in auto)
  then show "nvalid (move_elt t h i) = nvalid t" using nvalid_set [OF mv(1) h mv(4)] by simp
qed

end
