(* ===== verification/Key_Table.thy ===== *)
theory Key_Table
  imports Mpi_Ucx_Prelude
begin

text \<open>
  The interface of the tables that map a key to a pointer: \<open>opal_hash_table_t\<close> with its three kinds of keys
  and \<open>opal_proc_table_t\<close>. A client looks keys up, stores values under keys of its own choice and removes
  them; what it relies on is that the table behaves as a finite map for as long as storing succeeds. The
  locale states these laws once and derives the refinement of whole sequences of operations; the theories
  of the tables interpret it.
\<close>

section \<open>Sequences of operations\<close>

datatype ('k, 'v) table_op = Get 'k | Set 'k 'v | Remove 'k

datatype 'v table_out = Value 'v | Status opal_status

text \<open>A sequence ends early when storing a value reports an error.\<close>

fun table_run ::
  "('s \<Rightarrow> 'k \<Rightarrow> ((opal_status + 'v) \<times> 's) option) \<Rightarrow> ('s \<Rightarrow> 'k \<Rightarrow> 'v \<Rightarrow> (opal_status \<times> 's) option) \<Rightarrow>
   ('s \<Rightarrow> 'k \<Rightarrow> (opal_status \<times> 's) option) \<Rightarrow> 's \<Rightarrow> ('k, 'v) table_op list \<Rightarrow> ('v table_out list \<times> 's) option" where
  "table_run get put rem s [] = Some ([], s)"
| "table_run get put rem s (Get k # ops) =
     (case get s k of
        None \<Rightarrow> None
      | Some (r, s') \<Rightarrow>
          map_option (\<lambda>(outs, s''). ((case r of Inl rc \<Rightarrow> Status rc | Inr v \<Rightarrow> Value v) # outs, s''))
            (table_run get put rem s' ops))"
| "table_run get put rem s (Set k v # ops) =
     (case put s k v of
        None \<Rightarrow> None
      | Some (rc, s') \<Rightarrow>
          (if rc \<noteq> OPAL_SUCCESS then Some ([Status rc], s')
           else map_option (\<lambda>(outs, s''). (Status rc # outs, s'')) (table_run get put rem s' ops)))"
| "table_run get put rem s (Remove k # ops) =
     (case rem s k of
        None \<Rightarrow> None
      | Some (rc, s') \<Rightarrow> map_option (\<lambda>(outs, s''). (Status rc # outs, s'')) (table_run get put rem s' ops))"

text \<open>The same sequence on a map, with its results.\<close>

fun map_outs :: "('k \<rightharpoonup> 'v) \<Rightarrow> ('k, 'v) table_op list \<Rightarrow> 'v table_out list" where
  "map_outs m [] = []"
| "map_outs m (Get k # ops) =
     (case m k of None \<Rightarrow> Status OPAL_ERR_NOT_FOUND | Some v \<Rightarrow> Value v) # map_outs m ops"
| "map_outs m (Set k v # ops) = Status OPAL_SUCCESS # map_outs (m(k \<mapsto> v)) ops"
| "map_outs m (Remove k # ops) =
     Status (if m k = None then OPAL_ERR_NOT_FOUND else OPAL_SUCCESS) # map_outs (m(k := None)) ops"

fun map_after :: "('k \<rightharpoonup> 'v) \<Rightarrow> ('k, 'v) table_op list \<Rightarrow> 'k \<rightharpoonup> 'v" where
  "map_after m [] = m"
| "map_after m (Get k # ops) = map_after m ops"
| "map_after m (Set k v # ops) = map_after (m(k \<mapsto> v)) ops"
| "map_after m (Remove k # ops) = map_after (m(k := None)) ops"

text \<open>The results of a run agree with the map, up to the first value that could not be stored.\<close>

definition run_agrees ::
  "('s \<Rightarrow> bool) \<Rightarrow> ('s \<Rightarrow> 'k \<rightharpoonup> 'v) \<Rightarrow> 's \<Rightarrow> ('k, 'v) table_op list \<Rightarrow> 'v table_out list \<Rightarrow> 's \<Rightarrow> bool" where
  "run_agrees ok lookup s ops outs s' \<longleftrightarrow>
     (outs = map_outs (lookup s) ops \<and> ok s' \<and> lookup s' = map_after (lookup s) ops) \<or>
     (\<exists>n rc. n < length ops \<and> rc \<noteq> OPAL_SUCCESS \<and> outs = take n (map_outs (lookup s) ops) @ [Status rc])"

section \<open>The interface\<close>

locale key_table =
  fixes inv :: "'s \<Rightarrow> bool"
    and lookup :: "'s \<Rightarrow> 'k \<rightharpoonup> 'v"
    and get :: "'s \<Rightarrow> 'k \<Rightarrow> ((opal_status + 'v) \<times> 's) option"
    and put :: "'s \<Rightarrow> 'k \<Rightarrow> 'v \<Rightarrow> (opal_status \<times> 's) option"
    and remove :: "'s \<Rightarrow> 'k \<Rightarrow> (opal_status \<times> 's) option"
  assumes get_step: "inv s \<Longrightarrow>
      \<exists>s'. get s k = Some (case lookup s k of None \<Rightarrow> Inl OPAL_ERR_NOT_FOUND | Some v \<Rightarrow> Inr v, s') \<and>
           inv s' \<and> lookup s' = lookup s"
    and put_step: "inv s \<Longrightarrow>
      \<exists>rc s'. put s k v = Some (rc, s') \<and> (rc = OPAL_SUCCESS \<longrightarrow> inv s' \<and> lookup s' = (lookup s)(k \<mapsto> v))"
    and remove_step: "inv s \<Longrightarrow>
      \<exists>s'. remove s k = Some (if lookup s k = None then OPAL_ERR_NOT_FOUND else OPAL_SUCCESS, s') \<and>
           inv s' \<and> lookup s' = (lookup s)(k := None)"
begin

lemma agrees_Cons:
  assumes "run_agrees inv lookup s1 ops outs s'" and "map_outs (lookup s) (x # ops) = y # map_outs (lookup s1) ops"
    and "map_after (lookup s) (x # ops) = map_after (lookup s1) ops"
  shows "run_agrees inv lookup s (x # ops) (y # outs) s'"
  using assms(1) unfolding run_agrees_def
proof (elim disjE exE conjE)
  fix n rc assume n: "n < length ops" "rc \<noteq> OPAL_SUCCESS" "outs = take n (map_outs (lookup s1) ops) @ [Status rc]"
  have "Suc n < length (x # ops)" "y # outs = take (Suc n) (map_outs (lookup s) (x # ops)) @ [Status rc]"
    using n by (simp_all add: assms(2))
  then show "(y # outs = map_outs (lookup s) (x # ops) \<and> inv s' \<and> lookup s' = map_after (lookup s) (x # ops)) \<or>
      (\<exists>n rc. n < length (x # ops) \<and> rc \<noteq> OPAL_SUCCESS \<and> y # outs = take n (map_outs (lookup s) (x # ops)) @ [Status rc])"
    using n(2) by blast
qed (use assms(2,3) in simp)

lemma run_refines: "inv s \<Longrightarrow> \<exists>outs s'. table_run get put remove s ops = Some (outs, s') \<and> run_agrees inv lookup s ops outs s'"
proof (induction ops arbitrary: s)
  case Nil
  then show ?case by (simp add: run_agrees_def)
next
  case (Cons x ops)
  show ?case
  proof (cases x)
    case (Get k)
    obtain s1 where s1: "get s k = Some (case lookup s k of None \<Rightarrow> Inl OPAL_ERR_NOT_FOUND | Some v \<Rightarrow> Inr v, s1)"
      "inv s1" "lookup s1 = lookup s" using get_step [OF Cons.prems] by blast
    obtain outs s' where r: "table_run get put remove s1 ops = Some (outs, s')" "run_agrees inv lookup s1 ops outs s'"
      using Cons.IH [OF s1(2)] by blast
    have "run_agrees inv lookup s (x # ops)
        ((case lookup s k of None \<Rightarrow> Status OPAL_ERR_NOT_FOUND | Some v \<Rightarrow> Value v) # outs) s'"
      by (rule agrees_Cons [OF r(2)]) (simp_all add: Get s1(3))
    then show ?thesis using Get s1(1) r(1) by (cases "lookup s k") auto
  next
    case (Set k v)
    obtain rc s1 where s1: "put s k v = Some (rc, s1)" "rc = OPAL_SUCCESS \<longrightarrow> inv s1 \<and> lookup s1 = (lookup s)(k \<mapsto> v)"
      using put_step [OF Cons.prems] by blast
    show ?thesis
    proof (cases "rc = OPAL_SUCCESS")
      case True
      then obtain outs s' where r: "table_run get put remove s1 ops = Some (outs, s')" "run_agrees inv lookup s1 ops outs s'"
        using Cons.IH s1(2) by blast
      have "run_agrees inv lookup s (x # ops) (Status OPAL_SUCCESS # outs) s'"
        by (rule agrees_Cons [OF r(2)]) (use Set s1(2) True in simp_all)
      then show ?thesis using Set s1(1) r(1) True by auto
    next
      case False
      then have "run_agrees inv lookup s (x # ops) [Status rc] s1" unfolding run_agrees_def by fastforce
      then show ?thesis using Set s1(1) False by auto
    qed
  next
    case (Remove k)
    obtain s1 where s1: "remove s k = Some (if lookup s k = None then OPAL_ERR_NOT_FOUND else OPAL_SUCCESS, s1)"
      "inv s1" "lookup s1 = (lookup s)(k := None)" using remove_step [OF Cons.prems] by blast
    obtain outs s' where r: "table_run get put remove s1 ops = Some (outs, s')" "run_agrees inv lookup s1 ops outs s'"
      using Cons.IH [OF s1(2)] by blast
    have "run_agrees inv lookup s (x # ops)
        (Status (if lookup s k = None then OPAL_ERR_NOT_FOUND else OPAL_SUCCESS) # outs) s'"
      by (rule agrees_Cons [OF r(2)]) (simp_all add: Remove s1(3))
    then show ?thesis using Remove s1(1) r(1) by auto
  qed
qed

end

end
