(* ===== verification/Opal_Hash_Map.thy ===== *)
theory Opal_Hash_Map
  imports Opal_Hash_Table Key_Table
begin

text \<open>
  The operations of \<open>opal_hash_table_t\<close> implement a finite map: the loops of removal and traversal, the
  invariant of tables and its preservation, and the properties.
\<close>

section \<open>The removal loop\<close>

lemma close_gap_wrap:
  "cap \<noteq> 0 \<Longrightarrow> a < cap \<Longrightarrow> close_gap m cap t (a + 1) = close_gap m cap t (next_slot cap a)"
  by (subst (1 2) close_gap.simps) (simp add: next_slot_def)

text \<open>The inner probe ends at the hole when the element's home lies at or before it, else at the element.\<close>

lemma gap_probe:
  assumes g: "gap_inv m e h n t" and i: "i < length t" "dist (length t) e i = n"
  shows "valid (t ! i)" and
    "scan (home_or_free t i) (length t) (home t (elt_key (t ! i))) =
       Some (if dist (length t) e (home t (elt_key (t ! i))) \<le> dist (length t) e h then h else i)"
proof -
  note D = gap_invD [OF g]
  show v: "valid (t ! i)" using D(9) [OF i(1)] D(6) i(2) by simp
  let ?d = "dist (length t)"
  let ?w = "home t (elt_key (t ! i))"
  let ?goal = "if ?d e ?w \<le> ?d e h then h else i"
  have ne: "t \<noteq> []" using D(1) by auto
  then have w: "?w < length t" by (rule home_less)
  have le: "0 < ?d e ?w" "?d e ?w \<le> ?d e i" using D(11,12) [OF i(1) v] by auto
  have goal: "?goal < length t" "?goal \<noteq> e" "?d e ?w \<le> ?d e ?goal" using i(1) v D(2,3,4) le by auto
  show "scan (home_or_free t i) (length t) ?w = Some ?goal"
  proof (rule scan_finds [OF w goal(1)])
    show "home_or_free t i ?goal = Some True"
      using D(2,5) by (simp add: home_or_free_def is_free_def arr_get_nat)
    fix j assume j: "j < length t" "?d ?w j < ?d ?w ?goal"
    have nb: "\<not> ?d ?w e < ?d ?w ?goal" using not_between_from [OF D(1) w goal(1) le(1) goal(3)] .
    have btw: "?d e ?w \<le> ?d e j" "?d e j < ?d e ?goal"
      using between_from [OF D(1) w goal(1) j(1) goal(2) nb] j(2) by auto
    have lt: "?d e j < ?d e i" using btw(2) D(6) i(2) by (auto split: if_splits)
    have "j \<noteq> h" using btw by (auto split: if_splits)
    then have "valid (t ! j)" using D(13) [OF i(1) v j(1) btw(1) lt] by blast
    moreover have "j \<noteq> i" using lt by auto
    ultimately show "home_or_free t i j = Some False"
      using j(1) by (simp add: home_or_free_def is_free_def arr_get_nat)
  qed
qed

lemma gap_stay:
  assumes g: "gap_inv m e h n t" and i: "i < length t" "dist (length t) e i = n"
    and far: "\<not> dist (length t) e (home t (elt_key (t ! i))) \<le> dist (length t) e h"
  shows "gap_inv m e h (Suc n) t"
proof (rule gap_invI)
  note D = gap_invD [OF g]
  show "Suc n \<le> length t" using dist_less [OF D(1) i(1)] i(2) by simp
  fix a j assume a: "a < length t" "valid (t ! a)" "j < length t"
    "dist (length t) e (home t (elt_key (t ! a))) \<le> dist (length t) e j" "dist (length t) e j < dist (length t) e a"
  have "a \<noteq> i" if "j = h" using a(4) far that by auto
  then have "dist (length t) e a \<noteq> n" if "j = h" using dist_inj [OF D(1) a(1) i(1)] i(2) that by auto
  then show "valid (t ! j) \<or> j = h \<and> Suc n \<le> dist (length t) e a" using D(13) [OF a] by auto
qed (use gap_invD [OF g] in auto)

lemma gap_move:
  assumes g: "gap_inv m e h n t" and i: "i < length t" "dist (length t) e i = n"
    and near: "dist (length t) e (home t (elt_key (t ! i))) \<le> dist (length t) e h"
  shows "gap_inv m e i (Suc n) (move_elt t h i)"
proof -
  note D = gap_invD [OF g] and v = gap_probe(1) [OF g i]
  let ?d = "dist (length t) e"
  have ne: "h \<noteq> i" "i \<noteq> e" using v D(4,5) by auto
  note mv = D(2) i(1) ne(1) v
  note nth = move_nth [OF mv]
  have valid_iff: "valid (move_elt t h i ! j) \<longleftrightarrow> j \<noteq> i \<and> (j = h \<or> valid (t ! j))" for j by (rule nth(1))
  have old: "\<exists>b. b < length t \<and> valid (t ! b) \<and> move_elt t h i ! a = t ! b \<and> (a = h \<and> b = i \<or> a = b \<and> b \<noteq> i)"
    if "a < length t" "valid (move_elt t h i ! a)" for a
    using that nth mv valid_iff by (cases "a = h") auto
  show ?thesis
  proof (rule gap_invI; (unfold move_length move_home)?)
    show "Suc n \<le> length t" using dist_less [OF D(1) i(1)] i(2) by simp
    show "keys_inj (move_elt t h i)" using move_contents(1) [OF mv D(5,8)] .
    show "\<not> valid (move_elt t h i ! e)" "\<not> valid (move_elt t h i ! i)" using valid_iff D(3,4) by auto
    show "valid (move_elt t h i ! j)" if "j < length t" "?d i < ?d j" for j
      using that valid_iff D(6) D(9) [OF that(1)] i(2) by auto
    show "methods_of (elt_key (move_elt t h i ! a)) = m \<and> 0 < ?d (home t (elt_key (move_elt t h i ! a))) \<and>
        ?d (home t (elt_key (move_elt t h i ! a))) \<le> ?d a" if "a < length t" "valid (move_elt t h i ! a)" for a
      using old [OF that] D(10-12) near by auto
    show "valid (move_elt t h i ! j) \<or> j = i \<and> Suc n \<le> ?d a"
      if a: "a < length t" "valid (move_elt t h i ! a)" "j < length t"
        and btw: "?d (home t (elt_key (move_elt t h i ! a))) \<le> ?d j" "?d j < ?d a" for a j
    proof -
      obtain b where b: "b < length t" "valid (t ! b)" "move_elt t h i ! a = t ! b" "a = h \<and> b = i \<or> a = b \<and> b \<noteq> i"
        using old [OF a(1,2)] by blast
      have "?d a \<le> ?d b" using b(4) D(6) i(2) by auto
      then have "valid (t ! j) \<or> j = h" using D(13) [OF b(1,2) a(3)] btw b(3) by auto
      moreover have "Suc n \<le> ?d a" if "j = i" using btw(2) that i(2) by simp
      ultimately show ?thesis using valid_iff by auto
    qed
  qed (use D(1) i ne in auto)
qed

lemma close_gap_correct:
  assumes "gap_inv m e h n t" and "i < length t" and "dist (length t) e i = (if n = length t then 0 else n)"
  shows "\<exists>t'. close_gap m (length t) t i = Some t' \<and> tbl_wf m t' \<and> length t' = length t \<and>
           nvalid t' = nvalid t \<and> map_of (entries t') = map_of (entries t)"
  using assms
proof (induction "length t - n" arbitrary: h n t i)
  case 0
  then have n: "n = length t" using gap_invD(7) by fastforce
  note D = gap_invD [OF 0(2)]
  have "i = e" using 0(4) n dist_0 [OF D(1) 0(3)] by simp
  then have "close_gap m (length t) t i = Some t"
    using D(1,4) by (subst close_gap.simps) (simp add: arr_get_nat)
  then show ?case using gap_closed [of m e h t] 0(2) n by auto
next
  case (Suc k)
  note D = gap_invD [OF Suc.prems(1)]
  have n: "n < length t" using Suc.hyps(2) by simp
  then have i: "i < length t" "dist (length t) e i = n" using Suc.prems(2,3) by auto
  note P = gap_probe [OF Suc.prems(1) i]
  let ?i = "next_slot (length t) i"
  have next_i: "?i < length t" "dist (length t) e ?i = (if Suc n = length t then 0 else Suc n)"
    using next_slot_less [OF i(1)] dist_next_from [OF D(1) i(1)] i(2) by auto
  have hash: "hash_elt_method m (elt_key (t ! i)) = Some (key_hash (elt_key (t ! i)))"
    using hash_method_typed [OF D(10) [OF i(1) P(1)]] .
  have cap: "length t \<noteq> 0" using i(1) by auto
  show ?case
  proof (cases "dist (length t) e (home t (elt_key (t ! i))) \<le> dist (length t) e h")
    case True
    have ne: "h \<noteq> i" using P(1) D(5) by auto
    note mc = move_contents [OF D(2) i(1) ne P(1) D(5,8)]
    have "k = length (move_elt t h i) - Suc n" using Suc.hyps(2) by simp
    from Suc.hyps(1) [OF this gap_move [OF Suc.prems(1) i True], of ?i] next_i
    obtain t' where t': "close_gap m (length t) (move_elt t h i) ?i = Some t'" "tbl_wf m t'" "length t' = length t"
      "nvalid t' = nvalid t" "map_of (entries t') = map_of (entries t)"
      unfolding mc(2,3) by auto
    have "close_gap m (length t) t i = close_gap m (length t) (move_elt t h i) (i + 1)"
      using P True hash i(1) ne by (subst close_gap.simps) (simp add: arr_get_nat home_def move_elt_def)
    then show ?thesis using t' close_gap_wrap [OF cap i(1)] by metis
  next
    case False
    have "k = length t - Suc n" using Suc.hyps(2) by simp
    from Suc.hyps(1) [OF this gap_stay [OF Suc.prems(1) i False] next_i]
    obtain t' where t': "close_gap m (length t) t ?i = Some t'" "tbl_wf m t'" "length t' = length t"
      "nvalid t' = nvalid t" "map_of (entries t') = map_of (entries t)" by auto
    have "close_gap m (length t) t i = close_gap m (length t) t (i + 1)"
      using P False hash i(1) by (subst close_gap.simps) (simp add: arr_get_nat home_def)
    then show ?thesis using t' close_gap_wrap [OF cap i(1)] by metis
  qed
qed

lemma gap_init:
  assumes wf: "tbl_wf m t" and p: "p < length t" "valid (t ! p)" and e: "e < length t" "\<not> valid (t ! e)" "reach t p e"
    and x: "\<not> valid x"
  shows "gap_inv m e p (Suc (dist (length t) e p)) (t[p := x])"
proof (rule gap_invI; (unfold length_list_update home_update)?)
  let ?d = "dist (length t)"
  have ne: "p \<noteq> e" using p e by auto
  have v: "valid (t[p := x] ! j) \<longleftrightarrow> j \<noteq> p \<and> valid (t ! j)" for j using p(1) x by (auto simp: nth_update_if)
  have key: "elt_key (t[p := x] ! j) = elt_key (t ! j)" if "j \<noteq> p" for j using that by simp
  show "p \<noteq> e" "\<not> valid (t[p := x] ! e)" "\<not> valid (t[p := x] ! p)" using ne v e by auto
  show "Suc (?d e p) \<le> length t" using dist_less [OF e(1) p(1)] by simp
  show "keys_inj (t[p := x])"
    unfolding keys_inj_def v using keys_injD [OF tbl_wfD(2) [OF wf]] key by (metis length_list_update)
  show "valid (t[p := x] ! j)" if "j < length t" "?d e p < ?d e j" for j
  proof -
    have "valid (t ! j)" using reachD [OF e(3) that(1)] after_from [OF e(1) p(1) that(1) ne that(2)] by blast
    moreover have "j \<noteq> p" using that(2) by blast
    ultimately show ?thesis using v by simp
  qed
  fix i assume i: "i < length t" "valid (t[p := x] ! i)"
  then have vi: "valid (t ! i)" "i \<noteq> p" "i \<noteq> e" using v e(2) by auto
  let ?w = "home t (elt_key (t ! i))"
  have w: "?w < length t" using tbl_wfD(1) [OF wf] by (rule home_less)
  note r = tbl_wfD(4) [OF wf i(1) vi(1)]
  have nb: "\<not> ?d ?w e < ?d ?w i" using reachD [OF r e(1)] e(2) by blast
  show "methods_of (elt_key (t[p := x] ! i)) = m \<and> 0 < ?d e (home t (elt_key (t[p := x] ! i))) \<and>
      ?d e (home t (elt_key (t[p := x] ! i))) \<le> ?d e i"
    using before_from [OF e(1) w i(1) vi(3) nb] tbl_wfD(3) [OF wf i(1) vi(1)] vi(2) by simp
  fix j assume j: "j < length t" "?d e (home t (elt_key (t[p := x] ! i))) \<le> ?d e j" "?d e j < ?d e i"
  then have "valid (t ! j)"
    using between_from [OF e(1) w i(1) j(1) vi(3) nb] reachD [OF r j(1)] key [OF vi(2)] by simp
  then show "valid (t[p := x] ! j) \<or> j = p \<and> Suc (?d e p) \<le> ?d e i" using v [of j] j(3) by (cases "j = p") simp_all
qed (use p(1) e(1) in simp_all)

lemma clear_contents:
  assumes inj: "keys_inj t" and p: "p < length t" "valid (t ! p)" and x: "\<not> valid x"
  shows "map_of (entries (t[p := x])) = (map_of (entries t))(elt_key (t ! p) := None)"
proof (rule map_eqI_Some)
  fix k v
  have inj': "keys_inj (t[p := x])"
    unfolding keys_inj_def using keys_injD [OF inj] x p(1) by (metis length_list_update nth_list_update_eq nth_list_update_neq)
  have "\<forall>j < length t. j \<noteq> p \<longrightarrow> valid (t ! j) \<longrightarrow> elt_key (t ! j) \<noteq> elt_key (t ! p)"
    using keys_injD [OF inj _ p(1) _ p(2)] by metis
  then show "map_of (entries (t[p := x])) k = Some v \<longleftrightarrow> ((map_of (entries t))(elt_key (t ! p) := None)) k = Some v"
    using x unfolding entries_update [OF inj' p(1)] by (cases "k = elt_key (t ! p)") (auto simp: entries_Some [OF inj])
qed

section \<open>The invariant of tables\<close>

definition params_ok :: "'v hash_table \<Rightarrow> bool" where
  "params_ok ht \<longleftrightarrow>
     0 < ht_density_numer ht \<and> ht_density_numer ht \<le> ht_density_denom ht \<and> ht_density_denom ht < 2 ^ 31 \<and>
     0 < ht_growth_denom ht \<and> ht_growth_denom ht \<le> ht_growth_numer ht \<and> ht_growth_numer ht \<le> 32"

definition ht_ok :: "hash_methods \<Rightarrow> 'v hash_table \<Rightarrow> bool" where
  "ht_ok m ht \<longleftrightarrow>
     length (ht_table ht) = ht_capacity ht \<and> tbl_wf m (ht_table ht) \<and> nvalid (ht_table ht) < ht_capacity ht \<and>
     ht_size ht = nvalid (ht_table ht) \<and> (ht_type_methods ht = None \<or> ht_type_methods ht = Some m) \<and>
     ht_capacity ht * sizeof_elt < 2 ^ 63 \<and> ht_growth_trigger ht \<le> ht_capacity ht \<and> params_ok ht"

lemma size_add_one: "a < 2 ^ 63 \<Longrightarrow> size_add a 1 = Suc a"
  by (simp add: size_add_def)

lemma size_sub_one: "0 < a \<Longrightarrow> a < 2 ^ 63 \<Longrightarrow> size_add a (2 ^ 64 - 1) = a - 1"
proof -
  assume a: "0 < a" "a < 2 ^ 63"
  then have "a + (2 ^ 64 - 1) = 2 ^ 64 + (a - 1)" by simp
  then have "size_add a (2 ^ 64 - 1) = (2 ^ 64 + (a - 1)) mod 2 ^ 64" unfolding size_add_def by (simp only:)
  also have "\<dots> = (a - 1) mod 2 ^ 64" by (rule mod_add_self1)
  also have "\<dots> = a - 1" using a by simp
  finally show ?thesis .
qed

lemma round_up_bounds: "c < 2 ^ 63 \<Longrightarrow> c < opal_hash_round_capacity_up c \<and> opal_hash_round_capacity_up c \<le> c + 30"
proof -
  assume "c < 2 ^ 63"
  then have "size_add c 29 = c + 29" by (simp add: size_add_def)
  then show ?thesis unfolding opal_hash_round_capacity_up_def by presburger
qed

definition grown_capacity :: "'v hash_table \<Rightarrow> nat" where
  "grown_capacity ht = opal_hash_round_capacity_up
     (size_mul (ht_capacity ht) (to_size (ht_growth_numer ht)) div to_size (ht_growth_denom ht))"

lemma grown_capacity_bounds:
  assumes "params_ok ht" and "ht_capacity ht * sizeof_elt < 2 ^ 63"
  shows "ht_capacity ht < grown_capacity ht" and "grown_capacity ht \<le> ht_capacity ht * 32 + 30"
proof -
  define gn gd where "gn = nat (ht_growth_numer ht)" and "gd = nat (ht_growth_denom ht)"
  then have g: "ht_growth_numer ht = int gn" "ht_growth_denom ht = int gd" "0 < gd" "gd \<le> gn" "gn \<le> 32"
    using assms(1) unfolding params_ok_def by auto
  let ?c = "ht_capacity ht"
  have c: "?c * 32 < 2 ^ 63" using assms(2) by (simp only: sizeof_elt_def)
  have p: "(2 :: nat) ^ 63 < 2 ^ 64" by simp
  have le32: "?c * gn \<le> ?c * 32" using g(5) by (rule mult_le_mono2)
  then have lt: "?c * gn < 2 ^ 63" using c by linarith
  then have mul: "size_mul ?c gn = ?c * gn" using p by (intro size_mul_small) linarith
  have "?c * gd \<le> ?c * gn" using g(4) by simp
  then have "?c \<le> ?c * gn div gd" using g(3) by (simp add: less_eq_div_iff_mult_less_eq)
  moreover have "?c * gn div gd \<le> ?c * 32" using le32 div_le_dividend le_trans by blast
  moreover have "grown_capacity ht = opal_hash_round_capacity_up (?c * gn div gd)"
    using g(1,2,4,5) mul by (simp add: grown_capacity_def to_size_small)
  ultimately show "?c < grown_capacity ht" "grown_capacity ht \<le> ?c * 32 + 30"
    using round_up_bounds [of "?c * gn div gd"] c by linarith+
qed

lemma trigger_le:
  assumes "params_ok ht"
  shows "size_mul c (to_size (ht_density_numer ht)) div to_size (ht_density_denom ht) \<le> c"
proof -
  have le: "to_size (ht_density_numer ht) \<le> to_size (ht_density_denom ht)"
    using assms by (auto simp: params_ok_def to_size_small)
  have "size_mul c (to_size (ht_density_numer ht)) \<le> c * to_size (ht_density_denom ht)"
    using size_mul_le [of c "to_size (ht_density_numer ht)"] mult_le_mono2 [OF le, of c] by linarith
  then have "size_mul c (to_size (ht_density_numer ht)) div to_size (ht_density_denom ht) \<le>
      c * to_size (ht_density_denom ht) div to_size (ht_density_denom ht)" by (rule div_le_mono)
  then show ?thesis by (cases "to_size (ht_density_denom ht) = 0") auto
qed

section \<open>The operations\<close>

lemma grow_correct:
  assumes wf: "tbl_wf m (ht_table ht)" "length (ht_table ht) = ht_capacity ht" "ht_size ht = nvalid (ht_table ht)"
    and ht: "ht_type_methods ht = Some m" "ht_capacity ht * sizeof_elt < 2 ^ 63" "params_ok ht"
  shows "\<exists>rc ht'. opal_hash_grow mem_ok ht = Some (rc, ht') \<and> contents ht' = contents ht \<and>
           (rc = OPAL_SUCCESS \<and> ht_ok m ht' \<or>
            rc = OPAL_ERR_OUT_OF_RESOURCE \<and> ht' = ht \<and> \<not> calloc_ok mem_ok (grown_capacity ht) sizeof_elt)"
proof -
  let ?new = "replicate (grown_capacity ht) empty_elt :: 'a hash_elt list"
  have d: "to_size (ht_growth_denom ht) \<noteq> 0" "to_size (ht_density_denom ht) \<noteq> 0"
    using ht(3) by (auto simp: params_ok_def to_size_small)
  note gc = grown_capacity_bounds [OF ht(3,2)]
  have n: "tbl_wf m ?new" "nvalid ?new = 0" "entries ?new = []" using gc(1) by (simp_all add: empty_table)
  have le: "nvalid (ht_table ht) < length ?new" using nvalid_le [of "ht_table ht"] wf(2) gc(1) by simp
  have typed: "\<forall>e \<in> set (ht_table ht). valid e \<longrightarrow> methods_of (elt_key e) = m \<and> map_of (entries ?new) (elt_key e) = None"
    using tbl_wfD(3) [OF wf(1)] n(3) by (auto simp: in_set_conv_nth)
  obtain t where t: "rehash_loop (Some m) (length ?new) (ht_table ht) ?new = Some t" "tbl_wf m t" "length t = length ?new"
    "nvalid t = nvalid ?new + nvalid (ht_table ht)" "map_of (entries t) = map_of (entries (ht_table ht)) ++ map_of (entries ?new)"
    using rehash_correct [OF n(1) _ typed distinct_entries [OF tbl_wfD(2) [OF wf(1)]]] le n(2) by auto
  show ?thesis
  proof (cases "calloc_ok mem_ok (grown_capacity ht) sizeof_elt")
    case False
    then have "opal_hash_grow mem_ok ht = Some (OPAL_ERR_OUT_OF_RESOURCE, ht)"
      using d wf(2) by (simp add: opal_hash_grow_def grown_capacity_def)
    then show ?thesis using False by blast
  next
    case True
    let ?ht = "ht\<lparr>ht_table := t, ht_capacity := grown_capacity ht,
                  ht_growth_trigger := size_mul (grown_capacity ht) (to_size (ht_density_numer ht)) div to_size (ht_density_denom ht)\<rparr>"
    have run: "opal_hash_grow mem_ok ht = Some (OPAL_SUCCESS, ?ht)"
      using True d wf(2) t(1) ht(1) by (simp add: opal_hash_grow_def Let_def flip: grown_capacity_def)
    have "ht_ok m ?ht"
      using t(2-4) n(2) wf(3) ht(1,3) gc(1) le True trigger_le [OF ht(3)]
      by (simp add: ht_ok_def calloc_ok_def params_ok_def)
    then show ?thesis using run t(5) n(3) by (auto simp: contents_def)
  qed
qed

lemma ht_okD:
  assumes "ht_ok m ht"
  shows "length (ht_table ht) = ht_capacity ht" "tbl_wf m (ht_table ht)" "nvalid (ht_table ht) < length (ht_table ht)"
    "ht_size ht = nvalid (ht_table ht)" "ht_capacity ht * sizeof_elt < 2 ^ 63" "params_ok ht" "0 < ht_capacity ht"
    "ht_growth_trigger ht \<le> ht_capacity ht" "ht_size ht < 2 ^ 63"
  using assms by (auto simp: ht_ok_def sizeof_elt_def)

lemma ht_ok_methods: "ht_ok m ht \<Longrightarrow> ht_ok m (ht\<lparr>ht_type_methods := Some m\<rparr>)"
  by (simp add: ht_ok_def params_ok_def)

lemma ht_ok_type: "ht_ok m ht \<Longrightarrow> methods_of k = m \<Longrightarrow> \<not> wrong_type k ht"
  by (auto simp: ht_ok_def wrong_type_def)

lemma contents_methods [simp]: "contents (ht\<lparr>ht_type_methods := x\<rparr>) = contents ht"
  by (simp add: contents_def)

text \<open>Where the probe for a key ends.\<close>

lemma probe_cases:
  assumes ok: "ht_ok m ht" and k: "methods_of k = m"
  obtains (found) i where "scan (stop_at (ht_table ht) k) (ht_capacity ht) (start_at k ht) = Some i"
      "i < length (ht_table ht)" "valid (ht_table ht ! i)" "elt_key (ht_table ht ! i) = k"
      "contents ht k = Some (elt_value (ht_table ht ! i))"
  | (missing) i where "scan (stop_at (ht_table ht) k) (ht_capacity ht) (start_at k ht) = Some i"
      "i < length (ht_table ht)" "\<not> valid (ht_table ht ! i)" "reach (ht_table ht) (home (ht_table ht) k) i"
      "contents ht k = None"
proof -
  let ?t = "ht_table ht"
  note D = ht_okD [OF ok]
  have start: "start_at k ht = home ?t k" using D(1) by (simp add: start_at_def home_def)
  show thesis
  proof (cases "contents ht k")
    case (Some v)
    then obtain i where i: "i < length ?t" "valid (?t ! i)" "elt_key (?t ! i) = k" "elt_value (?t ! i) = v"
      using entries_Some [OF tbl_wfD(2) [OF D(2)]] by (auto simp: contents_def)
    then show thesis using found [of i] probe_found [OF D(2) i(1,2)] Some start D(1) by auto
  next
    case None
    have w: "home ?t k < length ?t" using tbl_wfD(1) [OF D(2)] by (rule home_less)
    obtain i where i: "i < length ?t" "\<not> valid (?t ! i)" "reach ?t (home ?t k) i" using first_free [OF D(3) w] .
    then show thesis
      using missing [of i] probe_missing [OF D(2) k _ i] None start D(1) by (simp add: contents_def)
  qed
qed

lemma get_correct:
  assumes ok: "ht_ok m ht" and k: "methods_of k = m"
  shows "hash_get debug ht k =
           Some (case contents ht k of None \<Rightarrow> Inl OPAL_ERR_NOT_FOUND | Some v \<Rightarrow> Inr v, ht\<lparr>ht_type_methods := Some m\<rparr>)"
proof -
  note D = ht_okD [OF ok] and ty = ht_ok_type [OF ok k]
  show ?thesis
    by (rule probe_cases [OF ok k]) (use D(7) ty k in \<open>simp_all add: hash_get_def arr_get_nat\<close>)
qed

lemma set_correct:
  assumes ok: "ht_ok m ht" and k: "methods_of k = m" and key: "key_copy key_mem k = Some k"
  shows "\<exists>rc ht'. hash_set debug key_mem mem_ok ht k v = Some (rc, ht') \<and> contents ht' = (contents ht)(k \<mapsto> v) \<and>
           (rc = OPAL_SUCCESS \<and> ht_ok m ht' \<or>
            rc = OPAL_ERR_OUT_OF_RESOURCE \<and> \<not> calloc_ok mem_ok (grown_capacity ht) sizeof_elt)"
proof -
  note D = ht_okD [OF ok] and ty = ht_ok_type [OF ok k]
  let ?ht = "ht\<lparr>ht_type_methods := Some m\<rparr>"
  show ?thesis
  proof (rule probe_cases [OF ok k])
    fix i assume i: "scan (stop_at (ht_table ht) k) (ht_capacity ht) (start_at k ht) = Some i"
      "i < length (ht_table ht)" "valid (ht_table ht ! i)" "elt_key (ht_table ht ! i) = k"
    let ?t = "(ht_table ht)[i := (ht_table ht ! i)\<lparr>elt_value := v\<rparr>]"
    have run: "hash_set debug key_mem mem_ok ht k v = Some (OPAL_SUCCESS, ?ht\<lparr>ht_table := ?t\<rparr>)"
      using i D(7) ty k by (simp add: hash_set_def start_at_def arr_get_nat Let_def)
    note R = replace_wf [OF D(2) i(2-4), of v]
    have "nvalid ?t = nvalid (ht_table ht)" by (rule nvalid_replace) (use i in auto)
    then have "ht_ok m (?ht\<lparr>ht_table := ?t\<rparr>)" using ok R(1) by (simp add: ht_ok_def params_ok_def)
    then show ?thesis using run R(2) by (auto simp: contents_def)
  next
    fix i assume i: "scan (stop_at (ht_table ht) k) (ht_capacity ht) (start_at k ht) = Some i"
      "i < length (ht_table ht)" "\<not> valid (ht_table ht ! i)" "reach (ht_table ht) (home (ht_table ht) k) i"
      and none: "contents ht k = None"
    let ?e = "(ht_table ht ! i)\<lparr>elt_key := k, elt_value := v, valid := True\<rparr>"
    let ?ht2 = "?ht\<lparr>ht_table := (ht_table ht)[i := ?e], ht_size := Suc (ht_size ht)\<rparr>"
    have none': "map_of (entries (ht_table ht)) k = None" using none by (simp add: contents_def)
    have e: "valid ?e" "elt_key ?e = k" "elt_value ?e = v" by simp_all
    note I = insert_wf [OF D(2) i(2-4) k none' e] and nv = nvalid_set [OF i(2,3) e(1)]
    have run: "hash_set debug key_mem mem_ok ht k v =
        (if ht_growth_trigger ht \<le> Suc (ht_size ht) then opal_hash_grow mem_ok ?ht2 else Some (OPAL_SUCCESS, ?ht2))"
      using i D(7) ty k key size_add_one [OF D(9)] by (simp add: hash_set_def start_at_def arr_get_nat Let_def)
    have cont: "contents ?ht2 = (contents ht)(k \<mapsto> v)" using I(2) by (simp add: contents_def)
    show ?thesis
    proof (cases "ht_growth_trigger ht \<le> Suc (ht_size ht)")
      case True
      have "params_ok ?ht2" "grown_capacity ?ht2 = grown_capacity ht"
        using D(6) by (simp_all add: params_ok_def grown_capacity_def)
      then show ?thesis
        using grow_correct [of m ?ht2 mem_ok] I(1) D(1,4,5) nv run True cont by (auto simp del: fun_upd_apply)
    next
      case False
      then have "ht_ok m ?ht2" using ok I(1) nv D(8) by (simp add: ht_ok_def params_ok_def)
      then show ?thesis using run False cont by auto
    qed
  qed
qed

lemma remove_elt_correct:
  assumes ok: "ht_ok m ht" and i: "i < length (ht_table ht)" "valid (ht_table ht ! i)" and m: "ht_type_methods ht = Some m"
  shows "\<exists>ht'. opal_hash_table_remove_elt_at ht i = Some (OPAL_SUCCESS, ht') \<and> ht_ok m ht' \<and>
           contents ht' = (contents ht)(elt_key (ht_table ht ! i) := None) \<and> ht_type_methods ht' = Some m"
proof -
  note D = ht_okD [OF ok]
  let ?t = "ht_table ht"
  let ?x = "elt_destructor m ((?t ! i)\<lparr>valid := False\<rparr>)"
  have x: "\<not> valid ?x" by (simp add: elt_destructor_def opal_hash_destruct_elt_ptr_def)
  obtain e where e: "e < length ?t" "\<not> valid (?t ! e)" "reach ?t i e" using first_free [OF D(3) i(1)] .
  let ?n = "next_slot (length ?t) i"
  note g = gap_init [OF D(2) i e x]
  have n: "?n < length ?t" "dist (length ?t) e ?n = (if Suc (dist (length ?t) e i) = length ?t then 0 else Suc (dist (length ?t) e i))"
    using next_slot_less [OF i(1)] dist_next_from [OF e(1) i(1)] by auto
  from close_gap_correct [OF g, of ?n] n obtain t' where
    t': "close_gap m (length ?t) (?t[i := ?x]) ?n = Some t'" "tbl_wf m t'" "length t' = length ?t"
      "nvalid t' = nvalid (?t[i := ?x])" "map_of (entries t') = map_of (entries (?t[i := ?x]))" by auto
  have cg: "close_gap m (ht_capacity ht) (?t[i := ?x]) (i + 1) = Some t'"
    using t'(1) close_gap_wrap [of "length ?t" i m "?t[i := ?x]"] i(1) D(1,7) by simp
  have nv: "Suc (nvalid t') = nvalid ?t" using t'(4) nvalid_clear [OF i x] by simp
  then have sz: "size_add (ht_size ht) (2 ^ 64 - 1) = nvalid t'"
    using size_sub_one [of "ht_size ht"] D(4,9) by simp
  let ?ht = "ht\<lparr>ht_table := t', ht_size := nvalid t'\<rparr>"
  have "opal_hash_table_remove_elt_at ht i = Some (OPAL_SUCCESS, ?ht)"
    using i m cg unfolding opal_hash_table_remove_elt_at_def sz by (simp add: arr_get_nat)
  moreover have "ht_ok m ?ht" using ok t'(2,3) nv by (simp add: ht_ok_def params_ok_def)
  moreover have "contents ?ht = (contents ht)(elt_key (?t ! i) := None)"
    using t'(5) clear_contents [OF tbl_wfD(2) [OF D(2)] i x] by (simp add: contents_def)
  ultimately show ?thesis using m by auto
qed

lemma remove_correct:
  assumes ok: "ht_ok m ht" and k: "methods_of k = m"
  shows "\<exists>ht'. hash_remove debug ht k =
             Some (if contents ht k = None then OPAL_ERR_NOT_FOUND else OPAL_SUCCESS, ht') \<and>
           ht_ok m ht' \<and> contents ht' = (contents ht)(k := None)"
proof -
  note D = ht_okD [OF ok] and ty = ht_ok_type [OF ok k]
  let ?ht = "ht\<lparr>ht_type_methods := Some m\<rparr>"
  show ?thesis
  proof (rule probe_cases [OF ok k])
    fix i assume i: "scan (stop_at (ht_table ht) k) (ht_capacity ht) (start_at k ht) = Some i"
      "i < length (ht_table ht)" "valid (ht_table ht ! i)" "elt_key (ht_table ht ! i) = k"
      and c: "contents ht k = Some (elt_value (ht_table ht ! i))"
    have "hash_remove debug ht k = opal_hash_table_remove_elt_at ?ht i"
      using i D(7) ty k by (simp add: hash_remove_def start_at_def arr_get_nat Let_def)
    then show ?thesis using remove_elt_correct [OF ht_ok_methods [OF ok], of i] i(2-4) c by auto
  next
    fix i assume i: "scan (stop_at (ht_table ht) k) (ht_capacity ht) (start_at k ht) = Some i"
      "i < length (ht_table ht)" "\<not> valid (ht_table ht ! i)" and c: "contents ht k = None"
    have "hash_remove debug ht k = Some (OPAL_ERR_NOT_FOUND, ?ht)"
      using i D(7) ty k by (simp add: hash_remove_def start_at_def arr_get_nat Let_def)
    then show ?thesis using ht_ok_methods [OF ok] c by (auto simp: fun_eq_iff)
  qed
qed

lemma init_correct:
  assumes "opal_hash_table_init mem_ok ht n = Some (OPAL_SUCCESS, ht')" and "ht_size ht = 0"
  shows "ht_ok m ht'" and "contents ht' = Map.empty"
proof -
  have sz: "to_size 1 = 1" "to_size 2 = 2" by (simp_all add: to_size_def)
  let ?c = "opal_hash_round_capacity_up (size_mul n 2)"
  have ht': "calloc_ok mem_ok ?c sizeof_elt" "ht' = ht\<lparr>ht_table := replicate ?c empty_elt, ht_capacity := ?c,
      ht_density_numer := 1, ht_density_denom := 2, ht_growth_numer := 2, ht_growth_denom := 1,
      ht_growth_trigger := size_mul ?c 1 div 2, ht_type_methods := None\<rparr>"
    using assms(1) by (auto simp: opal_hash_table_init_def opal_hash_table_init2_def sz Let_def split: if_splits)
  have "0 < ?c" by (simp add: opal_hash_round_capacity_up_def)
  moreover have "size_mul ?c 1 div 2 \<le> ?c" using size_mul_le [of ?c 1] by linarith
  ultimately show "ht_ok m ht'" "contents ht' = Map.empty"
    using ht' assms(2) by (simp_all add: ht_ok_def params_ok_def contents_def empty_table calloc_ok_def)
qed

lemma remove_all_correct:
  assumes "ht_ok m ht"
  shows "\<exists>ht'. opal_hash_table_remove_all ht = Some (OPAL_SUCCESS, ht') \<and> ht_ok m' ht' \<and> contents ht' = Map.empty"
proof -
  note D = ht_okD [OF assms]
  let ?t = "map (clear_elt (ht_type_methods ht)) (ht_table ht)"
  have v: "\<not> valid e" if "e \<in> set ?t" for e using that by (auto simp: clear_elt_def)
  then have "filter valid ?t = []" by (simp only: filter_empty_conv) blast
  then have e: "nvalid ?t = 0" "entries ?t = []" by (simp_all add: nvalid_def entries_def)
  have "tbl_wf m' ?t" using D(1,7) v [OF nth_mem] by (auto simp: tbl_wf_def keys_inj_def)
  moreover have "opal_hash_table_remove_all ht =
      Some (OPAL_SUCCESS, ht\<lparr>ht_table := ?t, ht_size := 0, ht_type_methods := None\<rparr>)"
    using D(1) by (simp add: opal_hash_table_remove_all_def)
  ultimately show ?thesis using D e by (simp add: ht_ok_def params_ok_def contents_def)
qed

lemma scan_test: "scan test cap ii = Some r \<Longrightarrow> test r = Some True"
proof (erule scan.raw_induct [where P = "\<lambda>test cap ii r. test r = Some True", rotated], goal_cases)
  case (1 scan' test cap ii r)
  then show ?case by (auto simp: Let_def split: option.splits if_splits)
qed

section \<open>Traversal\<close>

definition node_before :: "nat \<Rightarrow> nat option" where
  "node_before i = (case i of 0 \<Rightarrow> None | Suc j \<Rightarrow> Some j)"

lemma next_elt_upt: "opal_hash_table_get_next_elt ht (node_before i) = find_valid (ht_table ht) [i..<ht_capacity ht]"
  by (cases i) (simp_all add: opal_hash_table_get_next_elt_def node_before_def)

lemma next_elt_from:
  assumes "length (ht_table ht) = ht_capacity ht" and "i < ht_capacity ht"
  shows "opal_hash_table_get_next_elt ht (node_before i) =
           (if valid (ht_table ht ! i) then Some (Some i) else opal_hash_table_get_next_elt ht (node_before (Suc i)))"
proof -
  have "[i..<ht_capacity ht] = i # [Suc i..<ht_capacity ht]" using assms(2) by (rule upt_conv_Cons)
  then show ?thesis using assms by (simp add: next_elt_upt arr_get_nat)
qed

lemma next_elt_end: "opal_hash_table_get_next_elt ht (node_before (ht_capacity ht)) = Some None"
  by (simp add: next_elt_upt)

lemma foreach_correct:
  assumes len: "length (ht_table ht) = ht_capacity ht"
    and mem: "\<And>e. e \<in> set (ht_table ht) \<Longrightarrow> valid e \<Longrightarrow> member (elt_key e) \<noteq> None"
  shows "i \<le> ht_capacity ht \<Longrightarrow>
    foreach_loop (get_next_key member) ht (node_before i) seen =
      Some (rev seen @ map (\<lambda>e. (the (member (elt_key e)), elt_value e)) (filter valid (drop i (ht_table ht))))"
proof (induction "ht_capacity ht - i" arbitrary: i seen)
  case 0
  then have "i = ht_capacity ht" by simp
  then show ?case
    using len next_elt_end [of ht] by (subst foreach_loop.simps) (simp add: get_next_key_def)
next
  case (Suc n)
  let ?e = "ht_table ht ! i"
  have i: "i < ht_capacity ht" using Suc.hyps(2) by simp
  have rest: "drop i (ht_table ht) = ?e # drop (Suc i) (ht_table ht)" using i len by (simp add: Cons_nth_drop_Suc)
  have IH: "foreach_loop (get_next_key member) ht (node_before (Suc i)) seen' =
      Some (rev seen' @ map (\<lambda>e. (the (member (elt_key e)), elt_value e)) (filter valid (drop (Suc i) (ht_table ht))))" for seen'
    using Suc.hyps(1) [of "Suc i" seen'] Suc.hyps(2) i by simp
  show ?case
  proof (cases "valid ?e")
    case True
    then obtain k where k: "member (elt_key ?e) = Some k" using mem [of ?e] i len by fastforce
    have "get_next_key member ht (node_before i) = Some (Inr (k, elt_value ?e, i))"
      using next_elt_from [OF len i] True i len k by (simp add: get_next_key_def arr_get_nat)
    then have "foreach_loop (get_next_key member) ht (node_before i) seen =
        foreach_loop (get_next_key member) ht (Some i) ((k, elt_value ?e) # seen)"
      by (subst foreach_loop.simps) simp
    then show ?thesis using IH [of "(k, elt_value ?e) # seen"] True k unfolding rest by (simp add: node_before_def)
  next
    case False
    have "get_next_key member ht (node_before i) = get_next_key member ht (node_before (Suc i))"
      using next_elt_from [OF len i] False by (simp add: get_next_key_def)
    then have "foreach_loop (get_next_key member) ht (node_before i) seen =
        foreach_loop (get_next_key member) ht (node_before (Suc i)) seen"
      by (subst (1 2) foreach_loop.simps) simp
    then show ?thesis using IH [of seen] False unfolding rest by simp
  qed
qed

text \<open>The traversal for one kind of key, whose constructor is \<open>C\<close>.\<close>

lemma map_of_inj_keys: "inj C \<Longrightarrow> map_of (map (\<lambda>(k, v). (C k, v)) kvs) (C k) = map_of kvs k"
  by (induction kvs) (auto dest: injD)

lemma foreach_map:
  assumes ok: "ht_ok m ht" and C: "inj C" and mem: "\<And>k a. methods_of k = m \<Longrightarrow> member k = Some a \<longleftrightarrow> k = C a"
    and kind: "\<And>k. methods_of k = m \<Longrightarrow> \<exists>a. k = C a"
  shows "\<exists>kvs. OPAL_HASH_TABLE_FOREACH (get_next_key member) ht = Some kvs \<and> distinct (map fst kvs) \<and>
           map_of kvs = (\<lambda>a. contents ht (C a))"
proof -
  note D = ht_okD [OF ok]
  let ?kvs = "map (\<lambda>e. (the (member (elt_key e)), elt_value e)) (filter valid (ht_table ht))"
  have typed: "methods_of (elt_key e) = m" if "e \<in> set (ht_table ht)" "valid e" for e
    using that tbl_wfD(3) [OF D(2)] by (auto simp: in_set_conv_nth)
  have member: "\<exists>a. member (elt_key e) = Some a \<and> elt_key e = C a" if "e \<in> set (ht_table ht)" "valid e" for e
    using kind [OF typed [OF that]] mem [OF typed [OF that]] by blast
  have run: "OPAL_HASH_TABLE_FOREACH (get_next_key member) ht = Some ?kvs"
    using foreach_correct [OF D(1), of member 0 "[]"] member
    by (fastforce simp: OPAL_HASH_TABLE_FOREACH_def node_before_def)
  have ent: "entries (ht_table ht) = map (\<lambda>(k, v). (C k, v)) ?kvs"
    unfolding entries_def map_map comp_def by (rule map_cong) (use member in fastforce)+
  have "distinct (map fst (entries (ht_table ht)))" using distinct_entries [OF tbl_wfD(2) [OF D(2)]] .
  then have "distinct (map C (map fst ?kvs))" unfolding ent by (simp add: comp_def split_def)
  then have "distinct (map fst ?kvs)" by (simp only: distinct_map)
  moreover have "map_of ?kvs = (\<lambda>a. contents ht (C a))"
    unfolding contents_def ent map_of_inj_keys [OF C] by (rule refl)
  ultimately show ?thesis using run by blast
qed

section \<open>Insertion and lookup\<close>

lemma key_copy_ok: "key_copy True k = Some k"
  by (cases k) (simp_all add: key_copy_def)

lemma set_then_get:
  assumes ok: "ht_ok m ht" and small: "ht_capacity ht < 2 ^ 50" and k: "methods_of k = m"
  shows "\<exists>ht'. hash_set debug True True ht k v = Some (OPAL_SUCCESS, ht') \<and> ht_ok m ht' \<and>
           opal_hash_table_get_size ht' = card (dom (contents ht')) \<and> ht_size ht' < ht_capacity ht' \<and>
           (\<forall>j. methods_of j = m \<longrightarrow>
              map_option fst (hash_get debug ht' j) = (if j = k then Some (Inr v) else map_option fst (hash_get debug ht j)))"
proof -
  have "grown_capacity ht \<le> 2 ^ 50 * 32 + 30"
    using grown_capacity_bounds(2) [OF ht_okD(6,5) [OF ok]] small by linarith
  then have "calloc_ok True (grown_capacity ht) sizeof_elt" by (simp add: calloc_ok_def sizeof_elt_def)
  then obtain ht' where ht': "hash_set debug True True ht k v = Some (OPAL_SUCCESS, ht')"
    "ht_ok m ht'" "contents ht' = (contents ht)(k \<mapsto> v)"
    using set_correct [OF ok k key_copy_ok, of debug True v] by auto
  note D = ht_okD [OF ht'(2)]
  have "distinct (map fst (entries (ht_table ht')))" using distinct_entries [OF tbl_wfD(2) [OF D(2)]] .
  then have "card (dom (contents ht')) = length (entries (ht_table ht'))"
    unfolding contents_def dom_map_of_conv_image_fst by (metis distinct_card length_map list.set_map)
  then show ?thesis
    using ht' D(1,3,4) get_correct [OF ok] get_correct [OF ht'(2)]
    by (auto simp: opal_hash_table_get_size_def entries_def nvalid_def)
qed

text \<open>In a table without a free slot the probe for a key that is not there never ends: it goes around the table.\<close>

lemma full_probe:
  assumes wf: "tbl_wf m (ht_table ht)" and len: "length (ht_table ht) = ht_capacity ht"
    and full: "nvalid (ht_table ht) = ht_capacity ht" and k: "methods_of k = m" and none: "contents ht k = None"
  shows "\<exists>j. scan_rounds (stop_at (ht_table ht) k) (ht_capacity ht) n (start_at k ht) = Probing j"
    and "scan (stop_at (ht_table ht) k) (ht_capacity ht) (start_at k ht) = None"
proof -
  let ?t = "ht_table ht"
  have pos: "0 < ht_capacity ht" using tbl_wfD(1) [OF wf] len by (metis length_greater_0_conv)
  have "valid (?t ! i)" if "i < length ?t" for i using nvalid_free [of ?t] full len that by auto
  then have go: "stop_at ?t k i = Some False" if "i < ht_capacity ht" for i
    using that len tbl_wfD(3) [OF wf, of i] k none entries_None [of ?t k]
    by (cases k; cases "elt_key (?t ! i)") (auto simp: stop_at_def arr_get_nat contents_def)
  have all: "\<exists>j. scan_rounds (stop_at ?t k) (ht_capacity ht) n i = Probing j" if "i \<le> ht_capacity ht" for i n
    using that
  proof (induction n arbitrary: i)
    case (Suc n)
    then show ?case using go [of "if i = ht_capacity ht then 0 else i"] pos by (simp add: Let_def split: if_splits)
  qed simp
  have start: "start_at k ht \<le> ht_capacity ht" using pos by (simp add: start_at_def less_imp_le)
  show "\<exists>j. scan_rounds (stop_at ?t k) (ht_capacity ht) n (start_at k ht) = Probing j" by (rule all [OF start])
  show "scan (stop_at ?t k) (ht_capacity ht) (start_at k ht) = None"
    using all [OF start] scan_counted [of "stop_at ?t k" "ht_capacity ht" "start_at k ht"]
    by (metis not_None_eq probe.distinct(1))
qed

text \<open>The insertion of a new key into a table with one free slot fills the table when it cannot grow.\<close>

lemma set_last_slot:
  assumes ok: "ht_ok m ht" and last: "Suc (ht_size ht) = ht_capacity ht" and k: "methods_of k = m"
    and none: "contents ht k = None"
  shows "\<exists>ht'. hash_set debug True False ht k v = Some (OPAL_ERR_OUT_OF_RESOURCE, ht') \<and>
           contents ht' = (contents ht)(k \<mapsto> v) \<and> tbl_wf m (ht_table ht') \<and> length (ht_table ht') = ht_capacity ht' \<and>
           nvalid (ht_table ht') = ht_capacity ht' \<and> ht_type_methods ht' = Some m \<and> 0 < ht_capacity ht'"
proof (rule probe_cases [OF ok k])
  note D = ht_okD [OF ok] and ty = ht_ok_type [OF ok k]
  fix i assume i: "scan (stop_at (ht_table ht) k) (ht_capacity ht) (start_at k ht) = Some i"
    "i < length (ht_table ht)" "\<not> valid (ht_table ht ! i)" "reach (ht_table ht) (home (ht_table ht) k) i"
  let ?e = "(ht_table ht ! i)\<lparr>elt_key := k, elt_value := v, valid := True\<rparr>"
  let ?ht = "ht\<lparr>ht_type_methods := Some m, ht_table := (ht_table ht)[i := ?e], ht_size := Suc (ht_size ht)\<rparr>"
  have none': "map_of (entries (ht_table ht)) k = None" using none by (simp add: contents_def)
  have e: "valid ?e" "elt_key ?e = k" "elt_value ?e = v" by simp_all
  note I = insert_wf [OF D(2) i(2-4) k none' e] and nv = nvalid_set [OF i(2,3) e(1)]
  have "to_size (ht_growth_denom ht) \<noteq> 0" using D(6) by (auto simp: params_ok_def to_size_small)
  then have "hash_set debug True False ht k v = Some (OPAL_ERR_OUT_OF_RESOURCE, ?ht)"
    using i D(1,7,8) ty k key_copy_ok size_add_one [OF D(9)] last
    by (simp add: hash_set_def start_at_def arr_get_nat Let_def opal_hash_grow_def calloc_ok_def)
  then show ?thesis using I nv D(1,4,7) last by (auto simp: contents_def)
qed (use none in simp)

section \<open>The interface, for the three kinds of keys\<close>

interpretation hash32: key_table "ht_ok Methods_uint32" "\<lambda>ht k. contents ht (U32 k)"
    "opal_hash_table_get_value_uint32 debug" "opal_hash_table_set_value_uint32 debug mem_ok"
    "opal_hash_table_remove_value_uint32 debug" for debug mem_ok
proof (unfold_locales, goal_cases)
  case (1 s k)
  then show ?case
    using get_correct [OF 1, of "U32 k"] ht_ok_methods [OF 1] by (simp add: opal_hash_table_get_value_uint32_def)
next
  case (2 s k v)
  then show ?case
    using set_correct [OF 2, of "U32 k" True debug mem_ok v]
    by (fastforce simp: opal_hash_table_set_value_uint32_def key_copy_def fun_eq_iff)
next
  case (3 s k)
  then show ?case
    using remove_correct [OF 3, of "U32 k" debug] by (fastforce simp: opal_hash_table_remove_value_uint32_def)
qed

interpretation hash64: key_table "ht_ok Methods_uint64" "\<lambda>ht k. contents ht (U64 k)"
    "opal_hash_table_get_value_uint64 debug" "opal_hash_table_set_value_uint64 debug mem_ok"
    "opal_hash_table_remove_value_uint64 debug" for debug mem_ok
proof (unfold_locales, goal_cases)
  case (1 s k)
  then show ?case
    using get_correct [OF 1, of "U64 k"] ht_ok_methods [OF 1] by (simp add: opal_hash_table_get_value_uint64_def)
next
  case (2 s k v)
  then show ?case
    using set_correct [OF 2, of "U64 k" True debug mem_ok v]
    by (fastforce simp: opal_hash_table_set_value_uint64_def key_copy_def fun_eq_iff)
next
  case (3 s k)
  then show ?case
    using remove_correct [OF 3, of "U64 k" debug] by (fastforce simp: opal_hash_table_remove_value_uint64_def)
qed

interpretation hash_ptr: key_table "ht_ok Methods_ptr" "\<lambda>ht k. contents ht (Ptr k)"
    "opal_hash_table_get_value_ptr debug" "opal_hash_table_set_value_ptr debug True mem_ok"
    "opal_hash_table_remove_value_ptr debug" for debug mem_ok
proof (unfold_locales, goal_cases)
  case (1 s k)
  then show ?case
    using get_correct [OF 1, of "Ptr k"] ht_ok_methods [OF 1] by (simp add: opal_hash_table_get_value_ptr_def)
next
  case (2 s k v)
  then show ?case
    using set_correct [OF 2, of "Ptr k" True debug mem_ok v]
    by (fastforce simp: opal_hash_table_set_value_ptr_def key_copy_def fun_eq_iff)
next
  case (3 s k)
  then show ?case
    using remove_correct [OF 3, of "Ptr k" debug] by (fastforce simp: opal_hash_table_remove_value_ptr_def)
qed

section \<open>Properties\<close>

text \<open>
  C4. The hash table is a finite map, for each of the three kinds of keys. From an initialised table, any
  sequence of lookups, insertions and removals ends and gives the results of the same sequence on the empty
  map; it stops early only when an insertion reports that the table could not grow. The probe loops, which
  have no bound in the code, end, and the re-insertion of the elements behind a removed one loses none.
\<close>

theorem hash_table_refines_map:
  assumes "opal_hash_table_init mem_ok opal_hash_table_construct n = Some (OPAL_SUCCESS, ht)"
  shows "(\<exists>outs ht'. table_run (opal_hash_table_get_value_uint32 debug) (opal_hash_table_set_value_uint32 debug mem_ok)
             (opal_hash_table_remove_value_uint32 debug) ht ops32 = Some (outs, ht') \<and>
           run_agrees (ht_ok Methods_uint32) (\<lambda>ht k. contents ht (U32 k)) ht ops32 outs ht') \<and>
         (\<exists>outs ht'. table_run (opal_hash_table_get_value_uint64 debug) (opal_hash_table_set_value_uint64 debug mem_ok)
             (opal_hash_table_remove_value_uint64 debug) ht ops64 = Some (outs, ht') \<and>
           run_agrees (ht_ok Methods_uint64) (\<lambda>ht k. contents ht (U64 k)) ht ops64 outs ht') \<and>
         (\<exists>outs ht'. table_run (opal_hash_table_get_value_ptr debug) (opal_hash_table_set_value_ptr debug True mem_ok)
             (opal_hash_table_remove_value_ptr debug) ht ops_ptr = Some (outs, ht') \<and>
           run_agrees (ht_ok Methods_ptr) (\<lambda>ht k. contents ht (Ptr k)) ht ops_ptr outs ht') \<and>
         contents ht = Map.empty"
proof -
  have sz: "ht_size opal_hash_table_construct = 0" by (simp add: opal_hash_table_construct_def)
  note ok = init_correct(1) [OF assms sz] and emp = init_correct(2) [OF assms sz]
  show ?thesis
    using hash32.run_refines [OF ok] hash64.run_refines [OF ok] hash_ptr.run_refines [OF ok] emp by blast
qed

theorem hash_table_refines_map_witness:
  "\<exists>ht outs ht'. opal_hash_table_init True opal_hash_table_construct 0 = Some (OPAL_SUCCESS, ht) \<and>
     table_run (opal_hash_table_get_value_uint32 True) (opal_hash_table_set_value_uint32 True True)
       (opal_hash_table_remove_value_uint32 True) ht [Set 7 (Some True), Get 7, Remove 7] = Some (outs, ht') \<and>
     run_agrees (ht_ok Methods_uint32) (\<lambda>ht k. contents ht (U32 k)) ht [Set 7 (Some True), Get 7, Remove 7] outs ht'"
proof -
  obtain ht :: "bool hash_table" where "opal_hash_table_init True opal_hash_table_construct 0 = Some (OPAL_SUCCESS, ht)"
    by (simp add: opal_hash_table_init_def opal_hash_table_init2_def Let_def to_size_def calloc_ok_def sizeof_elt_def
        opal_hash_round_capacity_up_def size_mul_def size_add_def)
  with hash_table_refines_map [OF this, of True "[Set 7 (Some True), Get 7, Remove 7]" "[]" "[]"] show ?thesis by blast
qed

text \<open>
  C17. Insertion succeeds, for each kind of key, when memory is available and the table is below \<open>2 ^ 50\<close> slots. A lookup of the
  key then gives the value, and a lookup of any other key what it gave before. The invariant is kept: in
  particular the count of entries is right and at least one slot stays free, which is what ends the probes
  for keys that are not there.
\<close>

theorem hash_table_set_succeeds:
  assumes "ht_ok Methods_uint32 ht32" and "ht_capacity ht32 < 2 ^ 50"
    and "ht_ok Methods_uint64 ht64" and "ht_capacity ht64 < 2 ^ 50"
    and "ht_ok Methods_ptr ht_ptr" and "ht_capacity ht_ptr < 2 ^ 50"
  shows "(\<exists>ht'. opal_hash_table_set_value_uint32 debug True ht32 k32 v = Some (OPAL_SUCCESS, ht') \<and>
            ht_ok Methods_uint32 ht' \<and>
            opal_hash_table_get_size ht' = card (dom (contents ht')) \<and> ht_size ht' < ht_capacity ht' \<and>
            (\<forall>j. map_option fst (opal_hash_table_get_value_uint32 debug ht' j) =
                 (if j = k32 then Some (Inr v) else map_option fst (opal_hash_table_get_value_uint32 debug ht32 j)))) \<and>
         (\<exists>ht'. opal_hash_table_set_value_uint64 debug True ht64 k64 v = Some (OPAL_SUCCESS, ht') \<and>
            ht_ok Methods_uint64 ht' \<and>
            opal_hash_table_get_size ht' = card (dom (contents ht')) \<and> ht_size ht' < ht_capacity ht' \<and>
            (\<forall>j. map_option fst (opal_hash_table_get_value_uint64 debug ht' j) =
                 (if j = k64 then Some (Inr v) else map_option fst (opal_hash_table_get_value_uint64 debug ht64 j)))) \<and>
         (\<exists>ht'. opal_hash_table_set_value_ptr debug True True ht_ptr key v = Some (OPAL_SUCCESS, ht') \<and>
            ht_ok Methods_ptr ht' \<and>
            opal_hash_table_get_size ht' = card (dom (contents ht')) \<and> ht_size ht' < ht_capacity ht' \<and>
            (\<forall>j. map_option fst (opal_hash_table_get_value_ptr debug ht' j) =
                 (if j = key then Some (Inr v) else map_option fst (opal_hash_table_get_value_ptr debug ht_ptr j))))"
proof (intro conjI)
  show "\<exists>ht'. opal_hash_table_set_value_uint32 debug True ht32 k32 v = Some (OPAL_SUCCESS, ht') \<and>
      ht_ok Methods_uint32 ht' \<and> opal_hash_table_get_size ht' = card (dom (contents ht')) \<and> ht_size ht' < ht_capacity ht' \<and>
      (\<forall>j. map_option fst (opal_hash_table_get_value_uint32 debug ht' j) =
           (if j = k32 then Some (Inr v) else map_option fst (opal_hash_table_get_value_uint32 debug ht32 j)))"
    using set_then_get [OF assms(1,2), of "U32 k32" debug v]
    unfolding opal_hash_table_set_value_uint32_def opal_hash_table_get_value_uint32_def by fastforce
  show "\<exists>ht'. opal_hash_table_set_value_uint64 debug True ht64 k64 v = Some (OPAL_SUCCESS, ht') \<and>
      ht_ok Methods_uint64 ht' \<and> opal_hash_table_get_size ht' = card (dom (contents ht')) \<and> ht_size ht' < ht_capacity ht' \<and>
      (\<forall>j. map_option fst (opal_hash_table_get_value_uint64 debug ht' j) =
           (if j = k64 then Some (Inr v) else map_option fst (opal_hash_table_get_value_uint64 debug ht64 j)))"
    using set_then_get [OF assms(3,4), of "U64 k64" debug v]
    unfolding opal_hash_table_set_value_uint64_def opal_hash_table_get_value_uint64_def by fastforce
  show "\<exists>ht'. opal_hash_table_set_value_ptr debug True True ht_ptr key v = Some (OPAL_SUCCESS, ht') \<and>
      ht_ok Methods_ptr ht' \<and> opal_hash_table_get_size ht' = card (dom (contents ht')) \<and> ht_size ht' < ht_capacity ht' \<and>
      (\<forall>j. map_option fst (opal_hash_table_get_value_ptr debug ht' j) =
           (if j = key then Some (Inr v) else map_option fst (opal_hash_table_get_value_ptr debug ht_ptr j)))"
    using set_then_get [OF assms(5,6), of "Ptr key" debug v]
    unfolding opal_hash_table_set_value_ptr_def opal_hash_table_get_value_ptr_def by fastforce
qed

theorem hash_table_set_succeeds_witness:
  "\<exists>ht ht' :: bool hash_table. opal_hash_table_init True opal_hash_table_construct 0 = Some (OPAL_SUCCESS, ht) \<and>
     opal_hash_table_set_value_ptr True True True ht [104, 105] (Some True) = Some (OPAL_SUCCESS, ht') \<and>
     map_option fst (opal_hash_table_get_value_ptr True ht' [104, 105]) = Some (Inr (Some True))"
proof -
  obtain ht :: "bool hash_table" where ht: "opal_hash_table_init True opal_hash_table_construct 0 = Some (OPAL_SUCCESS, ht)"
    and c: "ht_capacity ht < 2 ^ 50"
    by (simp add: opal_hash_table_init_def opal_hash_table_init2_def Let_def to_size_def calloc_ok_def sizeof_elt_def
        opal_hash_round_capacity_up_def size_mul_def size_add_def)
  have sz: "ht_size opal_hash_table_construct = 0" by (simp add: opal_hash_table_construct_def)
  note ok = init_correct(1) [OF ht sz]
  from hash_table_set_succeeds [OF ok c ok c ok c, of True 0 "Some True" 0 "[104, 105]"] obtain ht' where
    "opal_hash_table_set_value_ptr True True True ht [104, 105] (Some True) = Some (OPAL_SUCCESS, ht')"
    "map_option fst (opal_hash_table_get_value_ptr True ht' [104, 105]) = Some (Inr (Some True))" by metis
  with ht show ?thesis by blast
qed

text \<open>
  C23. Traversal is complete: \<open>OPAL_HASH_TABLE_FOREACH\<close>, and for pointer keys \<open>OPAL_HASH_TABLE_FOREACH_PTR\<close>, over a table ends
  and gives each stored key once, with its value, and nothing else, for each kind of key.
\<close>

theorem hash_table_foreach_complete:
  assumes "ht_ok Methods_uint32 ht32" and "ht_ok Methods_uint64 ht64" and "ht_ok Methods_ptr ht_ptr"
  shows "(\<exists>kvs. OPAL_HASH_TABLE_FOREACH opal_hash_table_get_next_key_uint32 ht32 = Some kvs \<and> distinct (map fst kvs) \<and>
            map_of kvs = (\<lambda>k. contents ht32 (U32 k))) \<and>
         (\<exists>kvs. OPAL_HASH_TABLE_FOREACH opal_hash_table_get_next_key_uint64 ht64 = Some kvs \<and> distinct (map fst kvs) \<and>
            map_of kvs = (\<lambda>k. contents ht64 (U64 k))) \<and>
         (\<exists>kvs. OPAL_HASH_TABLE_FOREACH_PTR ht_ptr = Some kvs \<and> distinct (map fst kvs) \<and>
            map_of kvs = (\<lambda>k. contents ht_ptr (Ptr k)))"
proof -
  have fold_next: "opal_hash_table_get_next_key_uint32 = get_next_key u32_member"
    "opal_hash_table_get_next_key_uint64 = get_next_key u64_member" "opal_hash_table_get_next_key_ptr = get_next_key ptr_member"
    by (simp_all add: fun_eq_iff opal_hash_table_get_next_key_uint32_def opal_hash_table_get_next_key_uint64_def
        opal_hash_table_get_next_key_ptr_def)
  have inj: "inj U32" "inj U64" "inj Ptr" by (simp_all add: inj_def)
  have mem: "methods_of k = Methods_uint32 \<Longrightarrow> u32_member k = Some a \<longleftrightarrow> k = U32 a"
    "methods_of k = Methods_uint64 \<Longrightarrow> u64_member k = Some b \<longleftrightarrow> k = U64 b"
    "methods_of k = Methods_ptr \<Longrightarrow> ptr_member k = Some c \<longleftrightarrow> k = Ptr c" for k a b c
    by (cases k; auto)+
  have kind: "methods_of k = Methods_uint32 \<Longrightarrow> \<exists>a. k = U32 a" "methods_of k = Methods_uint64 \<Longrightarrow> \<exists>a. k = U64 a"
    "methods_of k = Methods_ptr \<Longrightarrow> \<exists>a. k = Ptr a" for k
    by (cases k; auto)+
  show ?thesis
    unfolding fold_next OPAL_HASH_TABLE_FOREACH_PTR_def OPAL_HASH_TABLE_FOREACH_def [symmetric]
    using foreach_map [OF assms(1) inj(1) mem(1) kind(1)] foreach_map [OF assms(2) inj(2) mem(2) kind(2)]
      foreach_map [OF assms(3) inj(3) mem(3) kind(3)] by blast
qed

theorem hash_table_foreach_complete_witness:
  "\<exists>ht kvs. opal_hash_table_init True opal_hash_table_construct 3 = Some (OPAL_SUCCESS, ht :: bool hash_table) \<and>
     OPAL_HASH_TABLE_FOREACH opal_hash_table_get_next_key_uint32 ht = Some kvs \<and> map_of kvs = Map.empty"
proof -
  obtain ht :: "bool hash_table" where ht: "opal_hash_table_init True opal_hash_table_construct 3 = Some (OPAL_SUCCESS, ht)"
    by (simp add: opal_hash_table_init_def opal_hash_table_init2_def Let_def to_size_def calloc_ok_def sizeof_elt_def
        opal_hash_round_capacity_up_def size_mul_def size_add_def)
  have sz: "ht_size opal_hash_table_construct = 0" by (simp add: opal_hash_table_construct_def)
  note ok = init_correct [OF ht sz]
  from hash_table_foreach_complete [OF ok(1) ok(1) ok(1)] ok(2) ht show ?thesis by fastforce
qed

text \<open>
  C27. A table that could not grow makes every lookup of a missing key run forever. Take any table with one free
  slot and any new key, of any kind. The insertion fails to grow the table and reports \<open>OPAL_ERR_OUT_OF_RESOURCE\<close>,
  but it has stored its entry. From then on the probe for any key that is not in the table is still going on
  after every number of rounds, without a fault, so a lookup, a removal or an insertion of it never
  returns.
\<close>

theorem hash_table_failed_growth_hangs:
  assumes "ht_ok m ht" and "Suc (ht_size ht) = ht_capacity ht" and "methods_of k = m" and "contents ht k = None"
  shows "\<exists>ht'. hash_set debug True False ht k v = Some (OPAL_ERR_OUT_OF_RESOURCE, ht') \<and>
           contents ht' = (contents ht)(k \<mapsto> v) \<and>
           (\<forall>j. methods_of j = m \<and> contents ht' j = None \<longrightarrow>
              (\<forall>n. \<exists>i. scan_rounds (stop_at (ht_table ht') j) (ht_capacity ht') n (start_at j ht') = Probing i) \<and>
              hash_get debug ht' j = None \<and> hash_remove debug ht' j = None \<and>
              (\<forall>mem1 mem2 w. hash_set debug mem1 mem2 ht' j w = None))"
proof -
  obtain ht' where ht': "hash_set debug True False ht k v = Some (OPAL_ERR_OUT_OF_RESOURCE, ht')"
    "contents ht' = (contents ht)(k \<mapsto> v)" and full: "tbl_wf m (ht_table ht')" "length (ht_table ht') = ht_capacity ht'"
    "nvalid (ht_table ht') = ht_capacity ht'" and ty: "ht_type_methods ht' = Some m" and pos: "0 < ht_capacity ht'"
    using set_last_slot [OF assms] by blast
  have "(\<forall>n. \<exists>i. scan_rounds (stop_at (ht_table ht') j) (ht_capacity ht') n (start_at j ht') = Probing i) \<and>
      hash_get debug ht' j = None \<and> hash_remove debug ht' j = None \<and>
      (\<forall>mem1 mem2 w. hash_set debug mem1 mem2 ht' j w = None)" if "methods_of j = m" "contents ht' j = None" for j
    using full_probe [OF full that] pos ty that(1)
    by (auto simp: hash_get_def hash_set_def hash_remove_def wrong_type_def start_at_def Let_def)
  with ht' show ?thesis by blast
qed

theorem hash_table_failed_growth_hangs_witness:
  "\<exists>ht ht' :: bool hash_table. opal_hash_table_init True opal_hash_table_construct 0 = Some (OPAL_SUCCESS, ht) \<and>
     hash_set True True False ht (U32 5) (Some True) = Some (OPAL_ERR_OUT_OF_RESOURCE, ht') \<and>
     hash_get True ht' (U32 6) = None \<and>
     (\<forall>n. \<exists>i. scan_rounds (stop_at (ht_table ht') (U32 6)) (ht_capacity ht') n (start_at (U32 6) ht') = Probing i)"
proof -
  obtain ht :: "bool hash_table" where ht: "opal_hash_table_init True opal_hash_table_construct 0 = Some (OPAL_SUCCESS, ht)"
    and c: "Suc (ht_size ht) = ht_capacity ht"
    by (simp add: opal_hash_table_init_def opal_hash_table_init2_def Let_def to_size_def calloc_ok_def sizeof_elt_def
        opal_hash_round_capacity_up_def size_mul_def size_add_def opal_hash_table_construct_def)
  have sz: "ht_size opal_hash_table_construct = 0" by (simp add: opal_hash_table_construct_def)
  note ok = init_correct [OF ht sz]
  from hash_table_failed_growth_hangs [OF ok(1) c, where k = "U32 5" and debug = True and v = "Some True"] ok(2)
  obtain ht' where ht': "hash_set True True False ht (U32 5) (Some True) = Some (OPAL_ERR_OUT_OF_RESOURCE, ht')"
    "contents ht' = [U32 5 \<mapsto> Some True]"
    "\<forall>j. methods_of j = Methods_uint32 \<and> contents ht' j = None \<longrightarrow>
       (\<forall>n. \<exists>i. scan_rounds (stop_at (ht_table ht') j) (ht_capacity ht') n (start_at j ht') = Probing i) \<and>
       hash_get True ht' j = None" by auto
  from ht'(3) [rule_format, of "U32 6"] ht'(2) have "hash_get True ht' (U32 6) = None"
    "\<forall>n. \<exists>i. scan_rounds (stop_at (ht_table ht') (U32 6)) (ht_capacity ht') n (start_at (U32 6) ht') = Probing i" by auto
  with ht ht'(1) show ?thesis by blast
qed

end
