(* ===== verification/Opal_Proc_Table.thy ===== *)
theory Opal_Proc_Table
  imports Opal_Hash_Map Ompi_Proc
begin

text \<open>
  \<open>opal_proc_table_t\<close> of \<^verbatim>\<open>opal/class/opal_hash_table.c\<close>: a table from process names to pointers, built from a
  hash table of job identifiers whose values point to hash tables of process numbers. The inner tables are
  objects on a heap: \<open>OBJ_NEW\<close> puts one at the next address, \<open>OBJ_RELEASE\<close> of the only reference takes it away,
  and the use of an address with no object is a fault. \<open>mem_ok\<close> is the outcome of the allocations of a call.
\<close>

section \<open>State and operations\<close>

record 'v proc_table =
  pt_super :: "nat hash_table"
  pt_size :: nat
  vpids_size :: nat
  pt_heap :: "nat \<rightharpoonup> 'v hash_table"
  pt_brk :: nat

definition opal_proc_table_construct :: "'v proc_table" where
  "opal_proc_table_construct =
     \<lparr>pt_super = opal_hash_table_construct, pt_size = 0, vpids_size = 0, pt_heap = Map.empty, pt_brk = 0\<rparr>"

definition opal_proc_table_init :: "bool \<Rightarrow> 'v proc_table \<Rightarrow> nat \<Rightarrow> nat \<Rightarrow> (opal_status \<times> 'v proc_table) option" where
  "opal_proc_table_init mem_ok pt jobids vpids =
     (case opal_hash_table_init mem_ok (pt_super pt) jobids of
        None \<Rightarrow> None
      | Some (rc, jobs) \<Rightarrow>
          Some (rc, if rc \<noteq> OPAL_SUCCESS then pt\<lparr>pt_super := jobs\<rparr> else pt\<lparr>pt_super := jobs, vpids_size := vpids\<rparr>))"

definition opal_proc_table_get_value ::
  "bool \<Rightarrow> 'v proc_table \<Rightarrow> process_name \<Rightarrow> ((opal_status + 'v option) \<times> 'v proc_table) option" where
  "opal_proc_table_get_value debug pt key =
     (case opal_hash_table_get_value_uint32 debug (pt_super pt) (jobid key) of
        None \<Rightarrow> None
      | Some (Inl rc, jobs) \<Rightarrow> Some (Inl rc, pt\<lparr>pt_super := jobs\<rparr>)
      | Some (Inr None, jobs) \<Rightarrow> None
      | Some (Inr (Some a), jobs) \<Rightarrow>
          (case pt_heap pt a of
             None \<Rightarrow> None
           | Some vpids \<Rightarrow>
               map_option (\<lambda>(r, vpids'). (r, pt\<lparr>pt_super := jobs, pt_heap := (pt_heap pt)(a \<mapsto> vpids')\<rparr>))
                 (opal_hash_table_get_value_uint32 debug vpids (vpid key))))"

text \<open>The last statement of \<open>opal_proc_table_set_value\<close>.\<close>

definition set_vpid ::
  "bool \<Rightarrow> bool \<Rightarrow> 'v proc_table \<Rightarrow> nat \<Rightarrow> u32 \<Rightarrow> 'v option \<Rightarrow> (opal_status \<times> 'v proc_table) option" where
  "set_vpid debug mem_ok pt a vp v =
     (case pt_heap pt a of
        None \<Rightarrow> None
      | Some vpids \<Rightarrow>
          map_option (\<lambda>(rc, vpids'). (rc, pt\<lparr>pt_heap := (pt_heap pt)(a \<mapsto> vpids')\<rparr>))
            (opal_hash_table_set_value_uint32 debug mem_ok vpids vp v))"

definition opal_proc_table_set_value ::
  "bool \<Rightarrow> bool \<Rightarrow> 'v proc_table \<Rightarrow> process_name \<Rightarrow> 'v option \<Rightarrow> (opal_status \<times> 'v proc_table) option" where
  "opal_proc_table_set_value debug mem_ok pt key v =
     (case opal_hash_table_get_value_uint32 debug (pt_super pt) (jobid key) of
        None \<Rightarrow> None
      | Some (Inr None, jobs) \<Rightarrow> None
      | Some (Inr (Some a), jobs) \<Rightarrow> set_vpid debug mem_ok (pt\<lparr>pt_super := jobs\<rparr>) a (vpid key) v
      | Some (Inl _, jobs) \<Rightarrow>
          (if \<not> mem_ok then Some (OPAL_ERR_OUT_OF_RESOURCE, pt\<lparr>pt_super := jobs\<rparr>)
           else
             (let a = pt_brk pt
              in case opal_hash_table_init mem_ok opal_hash_table_construct (vpids_size pt) of
                   None \<Rightarrow> None
                 | Some (rc, vpids) \<Rightarrow>
                     (if rc \<noteq> OPAL_SUCCESS then Some (rc, pt\<lparr>pt_super := jobs, pt_brk := Suc a\<rparr>)
                      else
                        (case opal_hash_table_set_value_uint32 debug mem_ok jobs (jobid key) (Some a) of
                           None \<Rightarrow> None
                         | Some (rc, jobs') \<Rightarrow>
                             (if rc \<noteq> OPAL_SUCCESS then Some (rc, pt\<lparr>pt_super := jobs', pt_brk := Suc a\<rparr>)
                              else
                                set_vpid debug mem_ok
                                  (pt\<lparr>pt_super := jobs', pt_heap := (pt_heap pt)(a \<mapsto> vpids), pt_brk := Suc a\<rparr>)
                                  a (vpid key) v))))))"

definition opal_proc_table_remove_value ::
  "bool \<Rightarrow> 'v proc_table \<Rightarrow> process_name \<Rightarrow> (opal_status \<times> 'v proc_table) option" where
  "opal_proc_table_remove_value debug pt key =
     (case opal_hash_table_get_value_uint32 debug (pt_super pt) (jobid key) of
        None \<Rightarrow> None
      | Some (Inl rc, jobs) \<Rightarrow> Some (rc, pt\<lparr>pt_super := jobs\<rparr>)
      | Some (Inr None, jobs) \<Rightarrow> None
      | Some (Inr (Some a), jobs) \<Rightarrow>
          (case pt_heap pt a of
             None \<Rightarrow> None
           | Some vpids \<Rightarrow>
               (case opal_hash_table_remove_value_uint32 debug vpids (vpid key) of
                  None \<Rightarrow> None
                | Some (rc, vpids') \<Rightarrow>
                    (if rc = OPAL_SUCCESS \<and> ht_size vpids' = 0
                     then map_option (\<lambda>(_, jobs'). (rc, pt\<lparr>pt_super := jobs', pt_heap := (pt_heap pt)(a := None)\<rparr>))
                            (opal_hash_table_remove_value_uint32 debug jobs (jobid key))
                     else Some (rc, pt\<lparr>pt_super := jobs, pt_heap := (pt_heap pt)(a \<mapsto> vpids')\<rparr>)))))"

text \<open>The body of the loop of \<open>opal_proc_table_remove_all\<close>: empty and release the table of one job.\<close>

definition release_vpids :: "'v proc_table \<Rightarrow> nat option \<Rightarrow> 'v proc_table option" where
  "release_vpids pt vpids =
     (case vpids of
        None \<Rightarrow> Some pt
      | Some a \<Rightarrow>
          (case pt_heap pt a of
             None \<Rightarrow> None
           | Some vp \<Rightarrow>
               map_option (\<lambda>_. pt\<lparr>pt_heap := (pt_heap pt)(a := None)\<rparr>) (opal_hash_table_remove_all vp)))"

partial_function (option) release_loop ::
  "'v proc_table \<Rightarrow> nat option \<Rightarrow> nat \<Rightarrow> (opal_status \<times> 'v proc_table) option" where
  "release_loop pt vpids node =
     (case release_vpids pt vpids of
        None \<Rightarrow> None
      | Some pt' \<Rightarrow>
          (case opal_hash_table_get_next_key_uint32 (pt_super pt') (Some node) of
             None \<Rightarrow> None
           | Some (Inl rc) \<Rightarrow> Some (rc, pt')
           | Some (Inr (_, vpids', node')) \<Rightarrow> release_loop pt' vpids' node'))"

definition opal_proc_table_remove_all :: "'v proc_table \<Rightarrow> (opal_status \<times> 'v proc_table) option" where
  "opal_proc_table_remove_all pt =
     (case opal_hash_table_get_first_key_uint32 (pt_super pt) of
        None \<Rightarrow> None
      | Some (Inl rc) \<Rightarrow> Some (rc, pt)
      | Some (Inr (_, vpids, node)) \<Rightarrow> release_loop pt vpids node)"

text \<open>The traversals return a name, its value and the two nodes to go on from.\<close>

definition opal_proc_table_get_first_key ::
  "'v proc_table \<Rightarrow> (opal_status + process_name \<times> 'v option \<times> nat \<times> nat) option" where
  "opal_proc_table_get_first_key pt =
     (case opal_hash_table_get_first_key_uint32 (pt_super pt) of
        None \<Rightarrow> None
      | Some (Inl rc) \<Rightarrow> Some (Inl rc)
      | Some (Inr (j, None, node1)) \<Rightarrow> None
      | Some (Inr (j, Some a, node1)) \<Rightarrow>
          (case pt_heap pt a of
             None \<Rightarrow> None
           | Some vpids \<Rightarrow>
               map_option (\<lambda>r. case r of Inl rc \<Rightarrow> Inl rc
                                       | Inr (vp, v, node2) \<Rightarrow> Inr (\<lparr>jobid = j, vpid = vp\<rparr>, v, node1, node2))
                 (opal_hash_table_get_first_key_uint32 vpids)))"

definition opal_proc_table_get_next_key ::
  "'v proc_table \<Rightarrow> nat \<Rightarrow> nat \<Rightarrow> (opal_status + process_name \<times> 'v option \<times> nat \<times> nat) option" where
  "opal_proc_table_get_next_key pt in_node1 in_node2 =
     (case arr_get (ht_table (pt_super pt)) (int in_node1) of
        None \<Rightarrow> None
      | Some e \<Rightarrow>
          (case (u32_member (elt_key e), elt_value e) of
             (Some j, Some a) \<Rightarrow>
               (case pt_heap pt a of
                  None \<Rightarrow> None
                | Some vpids \<Rightarrow>
                    (case opal_hash_table_get_next_key_uint32 vpids (Some in_node2) of
                       None \<Rightarrow> None
                     | Some (Inr (vp, v, node2)) \<Rightarrow> Some (Inr (\<lparr>jobid = j, vpid = vp\<rparr>, v, in_node1, node2))
                     | Some (Inl _) \<Rightarrow>
                         (case opal_hash_table_get_next_key_uint32 (pt_super pt) (Some in_node1) of
                            None \<Rightarrow> None
                          | Some (Inl rc) \<Rightarrow> Some (Inl rc)
                          | Some (Inr (j', None, node1)) \<Rightarrow> None
                          | Some (Inr (j', Some a', node1)) \<Rightarrow>
                              (case pt_heap pt a' of
                                 None \<Rightarrow> None
                               | Some vpids' \<Rightarrow>
                                   map_option (\<lambda>r. case r of Inl rc \<Rightarrow> Inl rc
                                       | Inr (vp, v, node2) \<Rightarrow> Inr (\<lparr>jobid = j', vpid = vp\<rparr>, v, node1, node2))
                                     (opal_hash_table_get_first_key_uint32 vpids')))))
           | _ \<Rightarrow> None))"

section \<open>The table as a map\<close>

definition pt_lookup :: "'v proc_table \<Rightarrow> process_name \<rightharpoonup> 'v option" where
  "pt_lookup pt name =
     (case contents (pt_super pt) (U32 (jobid name)) of
        Some (Some a) \<Rightarrow> (case pt_heap pt a of Some vp \<Rightarrow> contents vp (U32 (vpid name)) | None \<Rightarrow> None)
      | _ \<Rightarrow> None)"

text \<open>The inner tables are live, not shared, and not empty.\<close>

definition inner_ok :: "'v hash_table \<Rightarrow> bool" where
  "inner_ok vp \<longleftrightarrow> ht_ok Methods_uint32 vp \<and> (\<exists>k. contents vp (U32 k) \<noteq> None)"

definition pt_ok :: "'v proc_table \<Rightarrow> bool" where
  "pt_ok pt \<longleftrightarrow>
     ht_ok Methods_uint32 (pt_super pt) \<and>
     (\<forall>j p. contents (pt_super pt) (U32 j) = Some p \<longrightarrow>
        (\<exists>a vp. p = Some a \<and> a < pt_brk pt \<and> pt_heap pt a = Some vp \<and> inner_ok vp)) \<and>
     (\<forall>i j a. contents (pt_super pt) (U32 i) = Some (Some a) \<longrightarrow> contents (pt_super pt) (U32 j) = Some (Some a) \<longrightarrow> i = j)"

lemma pt_okD:
  assumes "pt_ok pt"
  shows "ht_ok Methods_uint32 (pt_super pt)"
    and "contents (pt_super pt) (U32 j) = Some p \<Longrightarrow>
           \<exists>a vp. p = Some a \<and> a < pt_brk pt \<and> pt_heap pt a = Some vp \<and> inner_ok vp"
    and "contents (pt_super pt) (U32 i) = Some (Some a) \<Longrightarrow> contents (pt_super pt) (U32 j) = Some (Some a) \<Longrightarrow> i = j"
  using assms unfolding pt_ok_def by blast+

lemma pt_super_change:
  assumes "pt_ok pt" and "ht_ok Methods_uint32 jobs" and "contents jobs = contents (pt_super pt)"
  shows "pt_ok (pt\<lparr>pt_super := jobs\<rparr>)" and "pt_lookup (pt\<lparr>pt_super := jobs\<rparr>) = pt_lookup pt"
  using assms by (simp_all add: pt_ok_def pt_lookup_def fun_eq_iff cong: option.case_cong)

lemma pt_inner_change:
  assumes ok: "pt_ok pt" and a: "contents (pt_super pt) (U32 j) = Some (Some a)" and vp: "inner_ok vp"
  shows "pt_ok (pt\<lparr>pt_heap := (pt_heap pt)(a \<mapsto> vp)\<rparr>)"
    and "pt_lookup (pt\<lparr>pt_heap := (pt_heap pt)(a \<mapsto> vp)\<rparr>) name =
           (if jobid name = j then contents vp (U32 (vpid name)) else pt_lookup pt name)"
proof -
  show "pt_ok (pt\<lparr>pt_heap := (pt_heap pt)(a \<mapsto> vp)\<rparr>)"
    using ok vp unfolding pt_ok_def by fastforce
  show "pt_lookup (pt\<lparr>pt_heap := (pt_heap pt)(a \<mapsto> vp)\<rparr>) name =
      (if jobid name = j then contents vp (U32 (vpid name)) else pt_lookup pt name)"
  proof (cases "jobid name = j")
    case False
    then have "contents (pt_super pt) (U32 (jobid name)) \<noteq> Some (Some a)" using pt_okD(3) [OF ok _ a] by blast
    then show ?thesis using False by (auto simp: pt_lookup_def split: option.splits)
  qed (use a in \<open>simp add: pt_lookup_def\<close>)
qed

lemma pt_job_added:
  assumes ok: "pt_ok pt" and j: "contents (pt_super pt) (U32 j) = None" and vp: "inner_ok vp"
    and jobs: "ht_ok Methods_uint32 jobs" "contents jobs = (contents (pt_super pt))(U32 j \<mapsto> Some (pt_brk pt))"
  defines "pt' \<equiv> pt\<lparr>pt_super := jobs, pt_heap := (pt_heap pt)(pt_brk pt \<mapsto> vp), pt_brk := Suc (pt_brk pt)\<rparr>"
  shows "pt_ok pt'" and "pt_lookup pt' name = (if jobid name = j then contents vp (U32 (vpid name)) else pt_lookup pt name)"
proof -
  have old: "a \<noteq> pt_brk pt" if "contents (pt_super pt) (U32 i) = Some (Some a)" for i a
    using pt_okD(2) [OF ok that] by auto
  show "pt_ok pt'"
    unfolding pt_ok_def pt'_def
    using jobs vp old pt_okD(3) [OF ok] by (auto dest!: pt_okD(2) [OF ok] intro: less_SucI)
  show "pt_lookup pt' name = (if jobid name = j then contents vp (U32 (vpid name)) else pt_lookup pt name)"
    using jobs(2) old by (auto simp: pt_lookup_def pt'_def split: option.splits)
qed

lemma pt_job_removed:
  assumes ok: "pt_ok pt" and a: "contents (pt_super pt) (U32 j) = Some (Some a)"
    and jobs: "ht_ok Methods_uint32 jobs" "contents jobs = (contents (pt_super pt))(U32 j := None)"
  defines "pt' \<equiv> pt\<lparr>pt_super := jobs, pt_heap := (pt_heap pt)(a := None)\<rparr>"
  shows "pt_ok pt'" and "pt_lookup pt' name = (if jobid name = j then None else pt_lookup pt name)"
proof -
  have other: "b \<noteq> a" if "contents (pt_super pt) (U32 i) = Some (Some b)" "i \<noteq> j" for i b
    using pt_okD(3) [OF ok _ a] that by blast
  show "pt_ok pt'"
    unfolding pt_ok_def
  proof (intro conjI allI impI)
    fix i p assume "contents (pt_super pt') (U32 i) = Some p"
    then have i: "i \<noteq> j" "contents (pt_super pt) (U32 i) = Some p" using jobs(2) by (auto simp: pt'_def split: if_splits)
    obtain b vp where b: "p = Some b" "b < pt_brk pt" "pt_heap pt b = Some vp" "inner_ok vp" using pt_okD(2) [OF ok i(2)] by blast
    then show "\<exists>b vp. p = Some b \<and> b < pt_brk pt' \<and> pt_heap pt' b = Some vp \<and> inner_ok vp"
      using other [of i b] i by (simp add: pt'_def)
  qed (use jobs pt_okD(3) [OF ok] in \<open>auto simp: pt'_def split: if_splits\<close>)
  show "pt_lookup pt' name = (if jobid name = j then None else pt_lookup pt name)"
    using jobs(2) other by (auto simp: pt_lookup_def pt'_def split: option.splits)
qed

section \<open>The operations on the map\<close>

lemma get32:
  assumes "ht_ok Methods_uint32 ht"
  shows "opal_hash_table_get_value_uint32 debug ht k =
           Some (case contents ht (U32 k) of None \<Rightarrow> Inl OPAL_ERR_NOT_FOUND | Some v \<Rightarrow> Inr v,
                 ht\<lparr>ht_type_methods := Some Methods_uint32\<rparr>)"
  using get_correct [OF assms] by (simp add: opal_hash_table_get_value_uint32_def)

lemma inner_ok_methods: "inner_ok vp \<Longrightarrow> inner_ok (vp\<lparr>ht_type_methods := Some Methods_uint32\<rparr>)"
  by (auto simp: inner_ok_def ht_ok_methods)

text \<open>Looking up the table of a job.\<close>

lemma job_cases:
  assumes ok: "pt_ok pt"
  obtains (none) "contents (pt_super pt) (U32 j) = None"
      "\<And>debug. opal_hash_table_get_value_uint32 debug (pt_super pt) j =
         Some (Inl OPAL_ERR_NOT_FOUND, (pt_super pt)\<lparr>ht_type_methods := Some Methods_uint32\<rparr>)"
  | (some) a vp where "contents (pt_super pt) (U32 j) = Some (Some a)" "pt_heap pt a = Some vp" "inner_ok vp"
      "\<And>debug. opal_hash_table_get_value_uint32 debug (pt_super pt) j =
         Some (Inr (Some a), (pt_super pt)\<lparr>ht_type_methods := Some Methods_uint32\<rparr>)"
  using get32 [OF pt_okD(1) [OF ok], of _ j] pt_okD(2) [OF ok, of j]
  by (cases "contents (pt_super pt) (U32 j)") auto

lemma pt_methods:
  assumes "pt_ok pt"
  shows "pt_ok (pt\<lparr>pt_super := (pt_super pt)\<lparr>ht_type_methods := Some Methods_uint32\<rparr>\<rparr>)"
    and "pt_lookup (pt\<lparr>pt_super := (pt_super pt)\<lparr>ht_type_methods := Some Methods_uint32\<rparr>\<rparr>) = pt_lookup pt"
  using pt_super_change [OF assms ht_ok_methods [OF pt_okD(1) [OF assms]]] by simp_all

lemma pt_get_correct:
  assumes ok: "pt_ok pt"
  shows "\<exists>pt'. opal_proc_table_get_value debug pt name =
             Some (case pt_lookup pt name of None \<Rightarrow> Inl OPAL_ERR_NOT_FOUND | Some v \<Rightarrow> Inr v, pt') \<and>
           pt_ok pt' \<and> pt_lookup pt' = pt_lookup pt"
proof (rule job_cases [OF ok, of "jobid name"])
  assume "contents (pt_super pt) (U32 (jobid name)) = None"
    "\<And>debug. opal_hash_table_get_value_uint32 debug (pt_super pt) (jobid name) =
         Some (Inl OPAL_ERR_NOT_FOUND, (pt_super pt)\<lparr>ht_type_methods := Some Methods_uint32\<rparr>)"
  then show ?thesis using pt_methods [OF ok] by (simp add: opal_proc_table_get_value_def pt_lookup_def)
next
  let ?pt = "pt\<lparr>pt_super := (pt_super pt)\<lparr>ht_type_methods := Some Methods_uint32\<rparr>\<rparr>"
  fix a vp assume a: "contents (pt_super pt) (U32 (jobid name)) = Some (Some a)" "pt_heap pt a = Some vp" "inner_ok vp"
    "\<And>debug. opal_hash_table_get_value_uint32 debug (pt_super pt) (jobid name) =
         Some (Inr (Some a), (pt_super pt)\<lparr>ht_type_methods := Some Methods_uint32\<rparr>)"
  let ?vp = "vp\<lparr>ht_type_methods := Some Methods_uint32\<rparr>"
  let ?pt' = "?pt\<lparr>pt_heap := (pt_heap ?pt)(a \<mapsto> ?vp)\<rparr>"
  have a': "contents (pt_super ?pt) (U32 (jobid name)) = Some (Some a)" using a(1) by simp
  note ch = pt_inner_change [OF pt_methods(1) [OF ok] a' inner_ok_methods [OF a(3)]]
  have look: "pt_lookup pt n = contents vp (U32 (vpid n))" if "jobid n = jobid name" for n
    using a(1,2) that by (simp add: pt_lookup_def)
  have "pt_lookup ?pt' = pt_lookup pt" using ch(2) look pt_methods(2) [OF ok] by (simp add: fun_eq_iff)
  moreover have "opal_proc_table_get_value debug pt name =
      Some (case pt_lookup pt name of None \<Rightarrow> Inl OPAL_ERR_NOT_FOUND | Some v \<Rightarrow> Inr v, ?pt')"
    using a(2,4) get32 [of vp debug "vpid name"] a(3) look [of name]
    by (simp add: opal_proc_table_get_value_def inner_ok_def)
  ultimately show ?thesis using ch(1) by blast
qed

lemma init_total: "\<exists>rc ht'. opal_hash_table_init mem_ok ht n = Some (rc, ht')"
  by (simp add: opal_hash_table_init_def opal_hash_table_init2_def to_size_def Let_def)

lemma set_vpid_correct:
  assumes "ht_ok Methods_uint32 vp" and "pt_heap pt a = Some vp"
  shows "\<exists>rc vp'. set_vpid debug mem_ok pt a k v = Some (rc, pt\<lparr>pt_heap := (pt_heap pt)(a \<mapsto> vp')\<rparr>) \<and>
           contents vp' = (contents vp)(U32 k \<mapsto> v) \<and> (rc = OPAL_SUCCESS \<longrightarrow> inner_ok vp')"
  using set_correct [OF assms(1), of "U32 k" True debug mem_ok v] assms(2)
  by (fastforce simp: set_vpid_def opal_hash_table_set_value_uint32_def key_copy_def inner_ok_def)

lemma pt_set_correct:
  fixes pt :: "'v proc_table"
  assumes ok: "pt_ok pt"
  shows "\<exists>rc pt'. opal_proc_table_set_value debug mem_ok pt name v = Some (rc, pt') \<and>
           (rc = OPAL_SUCCESS \<longrightarrow> pt_ok pt' \<and> pt_lookup pt' = (pt_lookup pt)(name \<mapsto> v))"
proof (rule job_cases [OF ok, of "jobid name"])
  let ?jobs = "(pt_super pt)\<lparr>ht_type_methods := Some Methods_uint32\<rparr>"
  have jobs: "ht_ok Methods_uint32 ?jobs" using ht_ok_methods [OF pt_okD(1) [OF ok]] .
  {
    fix a vp assume a: "contents (pt_super pt) (U32 (jobid name)) = Some (Some a)" "pt_heap pt a = Some vp" "inner_ok vp"
      "\<And>debug. opal_hash_table_get_value_uint32 debug (pt_super pt) (jobid name) = Some (Inr (Some a), ?jobs)"
    let ?pt = "pt\<lparr>pt_super := ?jobs\<rparr>"
    have a': "contents (pt_super ?pt) (U32 (jobid name)) = Some (Some a)" using a(1) by simp
    obtain rc vp' where vp': "set_vpid debug mem_ok ?pt a (vpid name) v = Some (rc, ?pt\<lparr>pt_heap := (pt_heap ?pt)(a \<mapsto> vp')\<rparr>)"
      "contents vp' = (contents vp)(U32 (vpid name) \<mapsto> v)" "rc = OPAL_SUCCESS \<longrightarrow> inner_ok vp'"
      using set_vpid_correct [OF conjunct1 [OF a(3) [unfolded inner_ok_def]], of ?pt a debug mem_ok "vpid name" v] a(2)
      by fastforce
    have run: "opal_proc_table_set_value debug mem_ok pt name v = Some (rc, ?pt\<lparr>pt_heap := (pt_heap ?pt)(a \<mapsto> vp')\<rparr>)"
      using a(4) vp'(1) by (simp add: opal_proc_table_set_value_def Let_def)
    have "pt_ok (?pt\<lparr>pt_heap := (pt_heap ?pt)(a \<mapsto> vp')\<rparr>) \<and>
        pt_lookup (?pt\<lparr>pt_heap := (pt_heap ?pt)(a \<mapsto> vp')\<rparr>) = (pt_lookup pt)(name \<mapsto> v)" if "rc = OPAL_SUCCESS"
    proof -
      note ch = pt_inner_change [OF pt_methods(1) [OF ok] a' vp'(3) [rule_format, OF that]]
      have "pt_lookup pt n = contents vp (U32 (vpid n))" if "jobid n = jobid name" for n
        using a(1,2) that by (simp add: pt_lookup_def)
      then have "pt_lookup (?pt\<lparr>pt_heap := (pt_heap ?pt)(a \<mapsto> vp')\<rparr>) n = ((pt_lookup pt)(name \<mapsto> v)) n" for n
        unfolding ch(2) using vp'(2) pt_methods(2) [OF ok] by (cases n; cases name) auto
      then show ?thesis using ch(1) by blast
    qed
    then show ?thesis using run by blast
  next
    assume none: "contents (pt_super pt) (U32 (jobid name)) = None"
      "\<And>debug. opal_hash_table_get_value_uint32 debug (pt_super pt) (jobid name) = Some (Inl OPAL_ERR_NOT_FOUND, ?jobs)"
    obtain rc and vp :: "'v hash_table" where init: "opal_hash_table_init mem_ok opal_hash_table_construct (vpids_size pt) = Some (rc, vp)"
      using init_total by blast
    show ?thesis
    proof (cases "mem_ok \<and> rc = OPAL_SUCCESS")
      case False
      then show ?thesis using none(2) init by (auto simp: opal_proc_table_set_value_def Let_def)
    next
      case True
      let ?a = "pt_brk pt"
      have vp: "ht_ok Methods_uint32 vp" "contents vp = Map.empty"
        using init_correct [of mem_ok opal_hash_table_construct "vpids_size pt" vp] init True
        by (simp_all add: opal_hash_table_construct_def)
      obtain rc1 jobs' where s1: "opal_hash_table_set_value_uint32 debug mem_ok ?jobs (jobid name) (Some ?a) = Some (rc1, jobs')"
        "contents jobs' = (contents (pt_super pt))(U32 (jobid name) \<mapsto> Some ?a)" "rc1 = OPAL_SUCCESS \<longrightarrow> ht_ok Methods_uint32 jobs'"
        using set_correct [OF jobs, of "U32 (jobid name)" True debug mem_ok "Some ?a"]
        by (auto simp: opal_hash_table_set_value_uint32_def key_copy_def)
      show ?thesis
      proof (cases "rc1 = OPAL_SUCCESS")
        case False
        then show ?thesis using none(2) init True s1(1) by (simp add: opal_proc_table_set_value_def Let_def)
      next
        case ok1: True
        let ?pt = "pt\<lparr>pt_super := jobs', pt_heap := (pt_heap pt)(?a \<mapsto> vp), pt_brk := Suc ?a\<rparr>"
        have h: "pt_heap ?pt ?a = Some vp" by simp
        obtain rc2 vp' where s2: "set_vpid debug mem_ok ?pt ?a (vpid name) v = Some (rc2, ?pt\<lparr>pt_heap := (pt_heap ?pt)(?a \<mapsto> vp')\<rparr>)"
          "contents vp' = (contents vp)(U32 (vpid name) \<mapsto> v)" "rc2 = OPAL_SUCCESS \<longrightarrow> inner_ok vp'"
          using set_vpid_correct [OF vp(1) h] by blast
        let ?pt' = "pt\<lparr>pt_super := jobs', pt_heap := (pt_heap pt)(?a \<mapsto> vp'), pt_brk := Suc ?a\<rparr>"
        have run: "opal_proc_table_set_value debug mem_ok pt name v = Some (rc2, ?pt')"
          using none(2) init True s1(1) ok1 s2(1) by (simp add: opal_proc_table_set_value_def Let_def)
        have "pt_ok ?pt' \<and> pt_lookup ?pt' = (pt_lookup pt)(name \<mapsto> v)" if "rc2 = OPAL_SUCCESS"
        proof -
          note ch = pt_job_added [OF ok none(1) s2(3) [rule_format, OF that] s1(3) [rule_format, OF ok1] s1(2)]
          have "pt_lookup ?pt' n = ((pt_lookup pt)(name \<mapsto> v)) n" for n
            unfolding ch(2) using s2(2) vp(2) none(1) by (cases n; cases name) (auto simp: pt_lookup_def)
          then show ?thesis using ch(1) by blast
        qed
        then show ?thesis using run by blast
      qed
    qed
  }
qed

lemma remove32:
  assumes "ht_ok Methods_uint32 ht"
  shows "\<exists>ht'. opal_hash_table_remove_value_uint32 debug ht k =
             Some (if contents ht (U32 k) = None then OPAL_ERR_NOT_FOUND else OPAL_SUCCESS, ht') \<and>
           ht_ok Methods_uint32 ht' \<and> contents ht' = (contents ht)(U32 k := None)"
  using remove_correct [OF assms, of "U32 k"] by (simp add: opal_hash_table_remove_value_uint32_def)

lemma empty_size:
  assumes ok: "ht_ok Methods_uint32 ht"
  shows "ht_size ht = 0 \<longleftrightarrow> (\<forall>k. contents ht (U32 k) = None)"
proof -
  note D = ht_okD [OF ok]
  have "k = U32 a" if c: "contents ht k = Some v" and a: "a = (case k of U32 b \<Rightarrow> b | _ \<Rightarrow> 0)" for k v a
  proof -
    obtain i where "i < length (ht_table ht)" "valid (ht_table ht ! i)" "elt_key (ht_table ht ! i) = k"
      using c unfolding contents_def entries_Some [OF tbl_wfD(2) [OF D(2)]] by blast
    then have "methods_of k = Methods_uint32" using tbl_wfD(3) [OF D(2)] by blast
    then show ?thesis using a by (cases k) auto
  qed
  then have "(\<forall>k. contents ht (U32 k) = None) \<longleftrightarrow> contents ht = Map.empty" by (metis not_Some_eq)
  also have "\<dots> \<longleftrightarrow> entries (ht_table ht) = []" by (simp add: contents_def)
  also have "\<dots> \<longleftrightarrow> ht_size ht = 0" using D(4) by (simp add: entries_def nvalid_def)
  finally show ?thesis by blast
qed

lemma pt_remove_correct:
  assumes ok: "pt_ok pt"
  shows "\<exists>pt'. opal_proc_table_remove_value debug pt name =
             Some (if pt_lookup pt name = None then OPAL_ERR_NOT_FOUND else OPAL_SUCCESS, pt') \<and>
           pt_ok pt' \<and> pt_lookup pt' = (pt_lookup pt)(name := None)"
proof (rule job_cases [OF ok, of "jobid name"])
  let ?jobs = "(pt_super pt)\<lparr>ht_type_methods := Some Methods_uint32\<rparr>"
  let ?pt = "pt\<lparr>pt_super := ?jobs\<rparr>"
  {
    assume "contents (pt_super pt) (U32 (jobid name)) = None"
      "\<And>debug. opal_hash_table_get_value_uint32 debug (pt_super pt) (jobid name) = Some (Inl OPAL_ERR_NOT_FOUND, ?jobs)"
    then show ?thesis
      using pt_methods [OF ok] by (auto simp: opal_proc_table_remove_value_def pt_lookup_def fun_eq_iff)
  next
    fix a vp assume a: "contents (pt_super pt) (U32 (jobid name)) = Some (Some a)" "pt_heap pt a = Some vp" "inner_ok vp"
      "\<And>debug. opal_hash_table_get_value_uint32 debug (pt_super pt) (jobid name) = Some (Inr (Some a), ?jobs)"
    have look: "pt_lookup pt n = contents vp (U32 (vpid n))" if "jobid n = jobid name" for n
      using a(1,2) that by (simp add: pt_lookup_def)
    have a': "contents (pt_super ?pt) (U32 (jobid name)) = Some (Some a)" using a(1) by simp
    define rc where "rc = (if pt_lookup pt name = None then OPAL_ERR_NOT_FOUND else OPAL_SUCCESS)"
    obtain vp' where vp': "opal_hash_table_remove_value_uint32 debug vp (vpid name) = Some (rc, vp')"
      "ht_ok Methods_uint32 vp'" "contents vp' = (contents vp)(U32 (vpid name) := None)"
      using remove32 [of vp debug "vpid name"] a(3) look [of name] by (auto simp: inner_ok_def rc_def)
    have upd: "(if jobid n = jobid name then contents vp' (U32 (vpid n)) else pt_lookup pt n) = ((pt_lookup pt)(name := None)) n" for n
      using vp'(3) look [of n] by (cases n; cases name) auto
    show ?thesis
    proof (cases "rc = OPAL_SUCCESS \<and> ht_size vp' = 0")
      case True
      obtain rc' jobs' where r: "opal_hash_table_remove_value_uint32 debug ?jobs (jobid name) = Some (rc', jobs')"
        "ht_ok Methods_uint32 jobs'" "contents jobs' = (contents (pt_super ?pt))(U32 (jobid name) := None)"
        using remove32 [OF ht_ok_methods [OF pt_okD(1) [OF ok]], of debug "jobid name"] by auto
      let ?pt' = "pt\<lparr>pt_super := jobs', pt_heap := (pt_heap pt)(a := None)\<rparr>"
      have run: "opal_proc_table_remove_value debug pt name = Some (rc, ?pt')"
        using a(2,4) vp'(1) r(1) True by (simp add: opal_proc_table_remove_value_def)
      note ch = pt_job_removed [OF pt_methods(1) [OF ok] a' r(2,3)]
      have gone: "contents vp' (U32 k) = None" for k using empty_size [OF vp'(2)] True by simp
      have "pt_lookup ?pt' n = ((pt_lookup pt)(name := None)) n" for n
        using ch(2) [of n] upd [of n] gone pt_methods(2) [OF ok] by (simp split: if_splits)
      then show ?thesis using run ch(1) unfolding rc_def by auto
    next
      case False
      let ?pt' = "?pt\<lparr>pt_heap := (pt_heap ?pt)(a \<mapsto> vp')\<rparr>"
      have run: "opal_proc_table_remove_value debug pt name = Some (rc, ?pt')"
        using a(2,4) vp'(1) False by (auto simp: opal_proc_table_remove_value_def)
      have "\<exists>k. contents vp' (U32 k) \<noteq> None"
      proof (cases "rc = OPAL_SUCCESS")
        case True
        then show ?thesis using False empty_size [OF vp'(2)] by blast
      next
        case False
        then have "contents vp (U32 (vpid name)) = None" using look [of name] by (auto simp: rc_def split: if_splits)
        then have "contents vp' = contents vp" using vp'(3) by (simp add: fun_eq_iff)
        then show ?thesis using a(3) by (simp add: inner_ok_def)
      qed
      then have "inner_ok vp'" using vp'(2) by (simp add: inner_ok_def)
      note ch = pt_inner_change [OF pt_methods(1) [OF ok] a' this]
      have "pt_lookup ?pt' n = ((pt_lookup pt)(name := None)) n" for n
        unfolding ch(2) pt_methods(2) [OF ok] by (rule upd)
      then show ?thesis using run ch(1) unfolding rc_def by blast
    qed
  }
qed

interpretation proc_tab: key_table pt_ok pt_lookup "opal_proc_table_get_value debug"
    "opal_proc_table_set_value debug mem_ok" "opal_proc_table_remove_value debug" for debug mem_ok
  by unfold_locales (rule pt_get_correct pt_set_correct pt_remove_correct; assumption)+

lemma pt_init_correct:
  assumes "opal_proc_table_init mem_ok opal_proc_table_construct jobids vpids = Some (OPAL_SUCCESS, pt)"
  shows "pt_ok pt" and "pt_lookup pt = Map.empty"
proof -
  obtain jobs where jobs: "opal_hash_table_init mem_ok opal_hash_table_construct jobids = Some (OPAL_SUCCESS, jobs)"
    "pt = opal_proc_table_construct\<lparr>pt_super := jobs, vpids_size := vpids\<rparr>"
    using assms by (auto simp: opal_proc_table_init_def opal_proc_table_construct_def split: option.splits if_splits)
  have sz: "ht_size opal_hash_table_construct = 0" by (simp add: opal_hash_table_construct_def)
  note ok = init_correct [OF jobs(1) sz]
  show "pt_ok pt" "pt_lookup pt = Map.empty" using ok jobs(2) by (simp_all add: pt_ok_def pt_lookup_def fun_eq_iff)
qed

section \<open>Removing everything\<close>

lemma find_valid_from:
  assumes "length elts = cap" and "i \<le> cap"
  shows "(find_valid elts [i..<cap] = Some None \<and> (\<forall>s. i \<le> s \<longrightarrow> s < cap \<longrightarrow> \<not> valid (elts ! s))) \<or>
         (\<exists>k. find_valid elts [i..<cap] = Some (Some k) \<and> i \<le> k \<and> k < cap \<and> valid (elts ! k) \<and>
              (\<forall>s. i \<le> s \<longrightarrow> s < k \<longrightarrow> \<not> valid (elts ! s)))"
  using assms(2)
proof (induction "cap - i" arbitrary: i)
  case (Suc n)
  have i: "i < cap" using Suc.hyps(2) by simp
  then have u: "[i..<cap] = i # [Suc i..<cap]" by (rule upt_conv_Cons)
  show ?case
  proof (cases "valid (elts ! i)")
    case True
    then show ?thesis using i assms(1) u by (auto simp: arr_get_nat)
  next
    case False
    then have step: "find_valid elts [i..<cap] = find_valid elts [Suc i..<cap]" using i assms(1) u by (simp add: arr_get_nat)
    have below: "\<not> valid (elts ! s)" if "i \<le> s" "Suc i \<le> s \<longrightarrow> \<not> valid (elts ! s)" for s
      using that False by (cases "s = i") auto
    have "n = cap - Suc i" "Suc i \<le> cap" using Suc.hyps(2) i by auto
    from Suc.hyps(1) [OF this] show ?thesis
    proof (elim disjE exE conjE)
      assume "find_valid elts [Suc i..<cap] = Some None" "\<forall>s. Suc i \<le> s \<longrightarrow> s < cap \<longrightarrow> \<not> valid (elts ! s)"
      then show ?thesis using below unfolding step by blast
    next
      fix k assume "find_valid elts [Suc i..<cap] = Some (Some k)" "Suc i \<le> k" "k < cap" "valid (elts ! k)"
        "\<forall>s. Suc i \<le> s \<longrightarrow> s < k \<longrightarrow> \<not> valid (elts ! s)"
      then show ?thesis using below unfolding step by (metis Suc_leD)
    qed
  qed
qed simp

definition slot_addr :: "'v proc_table \<Rightarrow> nat \<Rightarrow> nat" where
  "slot_addr pt s = the (elt_value (ht_table (pt_super pt) ! s))"

definition job_slot :: "'v proc_table \<Rightarrow> nat \<Rightarrow> bool" where
  "job_slot pt s \<longleftrightarrow> s < ht_capacity (pt_super pt) \<and> valid (ht_table (pt_super pt) ! s)"

lemma job_slot_live:
  assumes ok: "pt_ok pt" and s: "job_slot pt s"
  shows "\<exists>j vp. elt_key (ht_table (pt_super pt) ! s) = U32 j \<and> elt_value (ht_table (pt_super pt) ! s) = Some (slot_addr pt s) \<and>
           contents (pt_super pt) (U32 j) = Some (Some (slot_addr pt s)) \<and> pt_heap pt (slot_addr pt s) = Some vp \<and>
           ht_ok Methods_uint32 vp"
proof -
  note D = ht_okD [OF pt_okD(1) [OF ok]]
  let ?e = "ht_table (pt_super pt) ! s"
  have v: "s < length (ht_table (pt_super pt))" "valid ?e" using s D(1) by (auto simp: job_slot_def)
  have "methods_of (elt_key ?e) = Methods_uint32" using tbl_wfD(3) [OF D(2) v] .
  then obtain j where j: "elt_key ?e = U32 j" by (cases "elt_key ?e") auto
  have c: "contents (pt_super pt) (U32 j) = Some (elt_value ?e)"
    unfolding contents_def entries_Some [OF tbl_wfD(2) [OF D(2)]] using v j by blast
  then show ?thesis using pt_okD(2) [OF ok c] j by (auto simp: slot_addr_def inner_ok_def)
qed

lemma job_slot_addr_inj:
  assumes ok: "pt_ok pt" and s: "job_slot pt s" "job_slot pt s'" and eq: "slot_addr pt s = slot_addr pt s'"
  shows "s = s'"
proof -
  note D = ht_okD [OF pt_okD(1) [OF ok]]
  obtain j j' where "elt_key (ht_table (pt_super pt) ! s) = U32 j" "elt_key (ht_table (pt_super pt) ! s') = U32 j'" "j = j'"
    using job_slot_live [OF ok s(1)] job_slot_live [OF ok s(2)] pt_okD(3) [OF ok] eq by metis
  then show ?thesis using keys_injD [OF tbl_wfD(2) [OF D(2)], of s s'] s D(1) by (simp add: job_slot_def)
qed

text \<open>After the loop has passed slot \<open>i\<close>, the tables of the slots before it are released and the others untouched.\<close>

definition released :: "'v proc_table \<Rightarrow> nat \<Rightarrow> 'v proc_table" where
  "released pt i = pt\<lparr>pt_heap := (\<lambda>a. if \<exists>s < i. job_slot pt s \<and> a = slot_addr pt s then None else pt_heap pt a)\<rparr>"

lemma release_vpids_step:
  assumes ok: "pt_ok pt" and i: "job_slot pt i"
  shows "release_vpids (released pt i) (elt_value (ht_table (pt_super pt) ! i)) = Some (released pt (Suc i))"
proof -
  obtain vp where vp: "elt_value (ht_table (pt_super pt) ! i) = Some (slot_addr pt i)" "pt_heap pt (slot_addr pt i) = Some vp"
    "ht_ok Methods_uint32 vp" using job_slot_live [OF ok i] by blast
  have "\<not> (\<exists>s < i. job_slot pt s \<and> slot_addr pt i = slot_addr pt s)" using job_slot_addr_inj [OF ok i] by blast
  then have h: "pt_heap (released pt i) (slot_addr pt i) = Some vp" using vp(2) by (simp add: released_def)
  have "(pt_heap (released pt i))(slot_addr pt i := None) = pt_heap (released pt (Suc i))"
    using i by (auto simp: released_def fun_eq_iff less_Suc_eq)
  moreover obtain r where "opal_hash_table_remove_all vp = Some r" using remove_all_correct [OF vp(3)] by blast
  ultimately show ?thesis using h vp(1) by (simp add: release_vpids_def) (simp add: released_def)
qed

lemma released_skip:
  assumes "i \<le> k" and "\<forall>s. i \<le> s \<longrightarrow> s < k \<longrightarrow> \<not> job_slot pt s"
  shows "released pt i = released pt k"
proof -
  have "(\<exists>s < i. job_slot pt s \<and> a = slot_addr pt s) \<longleftrightarrow> (\<exists>s < k. job_slot pt s \<and> a = slot_addr pt s)" for a
    using assms by (metis le_less_linear less_le_trans)
  then show ?thesis by (simp add: released_def)
qed

lemma released_super [simp]: "pt_super (released pt i) = pt_super pt"
  by (simp add: released_def)

lemma next_job:
  assumes ok: "pt_ok pt" and i: "i \<le> ht_capacity (pt_super pt)"
  shows "(get_next_key u32_member (pt_super pt) (node_before i) = Some (Inl OPAL_ERROR) \<and>
            released pt i = released pt (ht_capacity (pt_super pt))) \<or>
         (\<exists>k j. get_next_key u32_member (pt_super pt) (node_before i) =
                  Some (Inr (j, elt_value (ht_table (pt_super pt) ! k), k)) \<and>
                i \<le> k \<and> job_slot pt k \<and> released pt i = released pt k)"
proof -
  let ?t = "ht_table (pt_super pt)" and ?cap = "ht_capacity (pt_super pt)"
  note len = ht_okD(1) [OF pt_okD(1) [OF ok]]
  from find_valid_from [OF len i] show ?thesis
  proof (elim disjE exE conjE)
    assume "find_valid ?t [i..<?cap] = Some None" "\<forall>s. i \<le> s \<longrightarrow> s < ?cap \<longrightarrow> \<not> valid (?t ! s)"
    then show ?thesis
      using released_skip [OF i, of pt] by (simp add: get_next_key_def next_elt_upt job_slot_def)
  next
    fix k assume k: "find_valid ?t [i..<?cap] = Some (Some k)" "i \<le> k" "k < ?cap" "valid (?t ! k)"
      "\<forall>s. i \<le> s \<longrightarrow> s < k \<longrightarrow> \<not> valid (?t ! s)"
    then have s: "job_slot pt k" by (simp add: job_slot_def)
    obtain j where "elt_key (?t ! k) = U32 j" using job_slot_live [OF ok s] by blast
    then have "get_next_key u32_member (pt_super pt) (node_before i) = Some (Inr (j, elt_value (?t ! k), k))"
      using k(1,3) len by (simp add: get_next_key_def next_elt_upt arr_get_nat)
    moreover have "released pt i = released pt k" by (rule released_skip [OF k(2)]) (use k(5) in \<open>simp add: job_slot_def\<close>)
    ultimately show ?thesis using k(2) s by blast
  qed
qed

lemma release_loop_correct:
  assumes ok: "pt_ok pt"
  shows "job_slot pt i \<Longrightarrow> release_loop (released pt i) (elt_value (ht_table (pt_super pt) ! i)) i =
           Some (OPAL_ERROR, released pt (ht_capacity (pt_super pt)))"
proof (induction "ht_capacity (pt_super pt) - i" arbitrary: i rule: less_induct)
  case less
  have i: "Suc i \<le> ht_capacity (pt_super pt)" using less.prems by (simp add: job_slot_def)
  have node: "node_before (Suc i) = Some i" by (simp add: node_before_def)
  from next_job [OF ok i] show ?case
  proof (elim disjE exE conjE)
    assume "get_next_key u32_member (pt_super pt) (node_before (Suc i)) = Some (Inl OPAL_ERROR)"
      "released pt (Suc i) = released pt (ht_capacity (pt_super pt))"
    then show ?thesis
      using release_vpids_step [OF ok less.prems] node
      by (subst release_loop.simps) (simp add: opal_hash_table_get_next_key_uint32_def)
  next
    fix k j assume k: "get_next_key u32_member (pt_super pt) (node_before (Suc i)) =
        Some (Inr (j, elt_value (ht_table (pt_super pt) ! k), k))" "Suc i \<le> k" "job_slot pt k" "released pt (Suc i) = released pt k"
    have "ht_capacity (pt_super pt) - k < ht_capacity (pt_super pt) - i" using k(2,3) by (auto simp: job_slot_def)
    from less.hyps [OF this k(3)] show ?thesis
      using release_vpids_step [OF ok less.prems] node k(1,4)
      by (subst release_loop.simps) (simp add: opal_hash_table_get_next_key_uint32_def)
  qed
qed

lemma pt_remove_all_correct:
  assumes ok: "pt_ok pt"
  shows "opal_proc_table_remove_all pt = Some (OPAL_ERROR, released pt (ht_capacity (pt_super pt)))"
proof -
  have r0: "released pt 0 = pt" by (simp add: released_def)
  have n0: "node_before 0 = None" by (simp add: node_before_def)
  note defs = opal_proc_table_remove_all_def opal_hash_table_get_first_key_uint32_def opal_hash_table_get_next_key_uint32_def
  from next_job [OF ok le0] show ?thesis
  proof (elim disjE exE conjE)
    fix k j assume k: "get_next_key u32_member (pt_super pt) (node_before 0) =
        Some (Inr (j, elt_value (ht_table (pt_super pt) ! k), k))" "job_slot pt k" "released pt 0 = released pt k"
    have "release_loop pt (elt_value (ht_table (pt_super pt) ! k)) k =
        Some (OPAL_ERROR, released pt (ht_capacity (pt_super pt)))"
      using release_loop_correct [OF ok k(2)] unfolding k(3) [symmetric] r0 .
    then show ?thesis using k(1) n0 by (simp add: defs)
  qed (use r0 n0 in \<open>simp_all add: defs\<close>)
qed

section \<open>Properties\<close>

text \<open>
  C10. The process table is a finite map from process names. From an initialised table, any sequence of lookups,
  insertions and removals ends, uses no released table and gives the results of the same sequence on the empty
  map, up to the first insertion that runs out of memory: the tables of the jobs are made, shared by all
  processes of a job and released when their last process goes.
\<close>

theorem proc_table_refines_map:
  assumes "opal_proc_table_init mem_ok opal_proc_table_construct jobids vpids = Some (OPAL_SUCCESS, pt)"
  shows "\<exists>outs pt'. table_run (opal_proc_table_get_value debug) (opal_proc_table_set_value debug mem_ok)
             (opal_proc_table_remove_value debug) pt ops = Some (outs, pt') \<and>
           run_agrees pt_ok pt_lookup pt ops outs pt' \<and> pt_lookup pt = Map.empty"
  using proc_tab.run_refines [OF pt_init_correct(1) [OF assms]] pt_init_correct(2) [OF assms] by blast

theorem proc_table_refines_map_witness:
  "\<exists>pt outs pt'. opal_proc_table_init True opal_proc_table_construct 0 0 = Some (OPAL_SUCCESS, pt) \<and>
     table_run (opal_proc_table_get_value True) (opal_proc_table_set_value True True) (opal_proc_table_remove_value True) pt
       [Set \<lparr>jobid = 1, vpid = 2\<rparr> (Some True), Remove \<lparr>jobid = 1, vpid = 2\<rparr>] = Some (outs, pt') \<and>
     run_agrees pt_ok pt_lookup pt [Set \<lparr>jobid = 1, vpid = 2\<rparr> (Some True), Remove \<lparr>jobid = 1, vpid = 2\<rparr>] outs pt'"
proof -
  obtain pt :: "bool proc_table" where "opal_proc_table_init True opal_proc_table_construct 0 0 = Some (OPAL_SUCCESS, pt)"
    by (simp add: opal_proc_table_init_def opal_hash_table_init_def opal_hash_table_init2_def Let_def to_size_def
        calloc_ok_def sizeof_elt_def opal_hash_round_capacity_up_def size_mul_def size_add_def)
  with proc_table_refines_map [OF this] show ?thesis by blast
qed

text \<open>
  C28. \<open>opal_proc_table_remove_all\<close> leaves the table with pointers to released objects. It releases the table of
  every job but keeps the entries of the jobs, and it always reports \<open>OPAL_ERROR\<close>, the code that ended its
  traversal. The next lookup or insertion of a process that was in the table uses a released table.
\<close>

theorem proc_table_remove_all_dangles:
  assumes "pt_ok pt" and "pt_lookup pt name \<noteq> None"
  shows "\<exists>pt'. opal_proc_table_remove_all pt = Some (OPAL_ERROR, pt') \<and>
           opal_proc_table_get_value debug pt' name = None \<and> opal_proc_table_set_value debug mem_ok pt' name v = None"
proof -
  let ?cap = "ht_capacity (pt_super pt)"
  note D = ht_okD [OF pt_okD(1) [OF assms(1)]]
  obtain a where a: "contents (pt_super pt) (U32 (jobid name)) = Some (Some a)"
    using assms(2) by (auto simp: pt_lookup_def split: option.splits)
  then obtain s where s: "s < ?cap" "valid (ht_table (pt_super pt) ! s)" "elt_value (ht_table (pt_super pt) ! s) = Some a"
    unfolding contents_def entries_Some [OF tbl_wfD(2) [OF D(2)]] D(1) by blast
  then have "pt_heap (released pt ?cap) a = None" by (auto simp: released_def job_slot_def slot_addr_def)
  then show ?thesis
    using pt_remove_all_correct [OF assms(1)] get32 [OF pt_okD(1) [OF assms(1)]] a
    by (simp add: opal_proc_table_get_value_def opal_proc_table_set_value_def set_vpid_def)
qed

text \<open>A table with one process.\<close>

definition one_entry :: "'v \<Rightarrow> 'v hash_table" where
  "one_entry v =
     \<lparr>ht_table = [\<lparr>valid = True, elt_key = U32 0, elt_value = Some v\<rparr>, empty_elt], ht_capacity = 2, ht_size = 1,
      ht_growth_trigger = 1, ht_density_numer = 1, ht_density_denom = 2, ht_growth_numer = 2, ht_growth_denom = 1,
      ht_type_methods = Some Methods_uint32\<rparr>"

lemma one_entry_wf: "tbl_wf Methods_uint32 [\<lparr>valid = True, elt_key = U32 0, elt_value = v\<rparr>, empty_elt]"
  by (auto simp: tbl_wf_def keys_inj_def reach_def home_def empty_elt_def less_Suc_eq)

lemma empty_elt_valid [simp]: "\<not> valid empty_elt"
  by (simp add: empty_elt_def)

lemma one_entry_ok: "ht_ok Methods_uint32 (one_entry v)" "contents (one_entry v) = [U32 0 \<mapsto> Some v]"
  by (simp_all add: one_entry_def ht_ok_def one_entry_wf params_ok_def nvalid_def sizeof_elt_def
      contents_def entries_def)

theorem proc_table_remove_all_dangles_witness:
  "\<exists>pt'. opal_proc_table_remove_all
       \<lparr>pt_super = one_entry 7, pt_size = 0, vpids_size = 0, pt_heap = [7 \<mapsto> one_entry True], pt_brk = 8\<rparr> =
       Some (OPAL_ERROR, pt') \<and>
     opal_proc_table_get_value True pt' \<lparr>jobid = 0, vpid = 0\<rparr> = None"
proof -
  let ?pt = "\<lparr>pt_super = one_entry 7, pt_size = 0, vpids_size = 0, pt_heap = [7 \<mapsto> one_entry True], pt_brk = 8\<rparr>"
  have "pt_ok ?pt" "pt_lookup ?pt \<lparr>jobid = 0, vpid = 0\<rparr> \<noteq> None"
    by (auto simp: pt_ok_def one_entry_ok inner_ok_def pt_lookup_def split: if_splits)
  from proc_table_remove_all_dangles [OF this] show ?thesis by blast
qed

end
