(* ===== verification/Opal_Pointer_Array.thy ===== *)
theory Opal_Pointer_Array
  imports Slot_Table Opal_Bitmap "HOL-Library.Signed_Division"
begin

text \<open>
  The growable pointer array of \<^verbatim>\<open>opal/class/opal_pointer_array.c\<close> and \<^verbatim>\<open>.h\<close>: slots that hold a pointer or
  \<open>NULL\<close>, a bit per slot that is set for taken slots, the count of free slots and the index of the lowest one.
  Fortran handles and many internal identifiers are indices of such arrays. The lock is left out: each call
  is atomic. A failed assertion, an access outside an array and the overflow of an \<open>int\<close> are faults. \<open>mem1\<close>
  and \<open>mem2\<close> are the outcomes of the two allocations of a call: the slots and the bits.
\<close>

section \<open>State\<close>

record 'a pointer_array =
  lowest_free :: int
  number_free :: int
  pa_size :: int
  pa_max_size :: int
  block_size :: int
  free_bits :: "u64 list"
  addr :: "'a option list"

definition opal_pointer_array_construct :: "'a pointer_array" where
  "opal_pointer_array_construct =
     \<lparr>lowest_free = 0, number_free = 0, pa_size = 0, pa_max_size = INT_MAX, block_size = 8, free_bits = [], addr = []\<rparr>"

definition opal_pointer_array_destruct :: "'a pointer_array \<Rightarrow> 'a pointer_array" where
  "opal_pointer_array_destruct t = t\<lparr>free_bits := [], addr := [], pa_size := 0\<rparr>"

section \<open>The free bits\<close>

definition TYPE_ELEM_COUNT :: "int \<Rightarrow> int" where
  "TYPE_ELEM_COUNT cap = (cap + 63) div 64"

fun skip_taken :: "u64 list \<Rightarrow> int \<Rightarrow> int option" where
  "skip_taken [] b_idx = None"
| "skip_taken (w # ws) b_idx = (if w = 0xFFFFFFFFFFFFFFFF then skip_taken ws (b_idx + 1) else Some b_idx)"

text \<open>One of the steps that halve the word: skip \<open>n\<close> bits when they are all set.\<close>

definition halve :: "nat \<Rightarrow> u64 \<Rightarrow> u64 \<times> int \<Rightarrow> u64 \<times> int" where
  "halve n m s = (case s of (check_value, b_pos) \<Rightarrow>
     (if check_value AND m = m then (drop_bit n check_value, b_pos + int n) else (check_value, b_pos)))"

definition first_zero_bit :: "u64 \<Rightarrow> int" where
  "first_zero_bit w =
     (let s = halve 2 0x3 (halve 4 0xF (halve 8 0xFF (halve 16 0xFFFF (halve 32 0xFFFFFFFF (w, 0)))))
      in case s of (check_value, b_pos) \<Rightarrow> (if check_value AND 0x1 = 0x1 then b_pos + 1 else b_pos))"

definition FIND_FIRST_ZERO :: "'a pointer_array \<Rightarrow> int \<Rightarrow> int option" where
  "FIND_FIRST_ZERO t start =
     (if number_free t = 0 then Some (pa_size t)
      else
        (case skip_taken (drop (nat (start div 64)) (free_bits t)) (start div 64) of
           None \<Rightarrow> None
         | Some b_idx \<Rightarrow>
             (if \<not> b_idx < pa_size t then None
              else map_option (\<lambda>w. b_idx * 64 + first_zero_bit w) (arr_get (free_bits t) b_idx))))"

definition SET_BIT :: "'a pointer_array \<Rightarrow> int \<Rightarrow> 'a pointer_array option" where
  "SET_BIT t idx =
     (case arr_get (free_bits t) (idx div 64) of
        None \<Rightarrow> None
      | Some w \<Rightarrow>
          (if w AND push_bit (nat (idx mod 64)) 1 \<noteq> 0 then None
           else map_option (\<lambda>ws. t\<lparr>free_bits := ws\<rparr>)
                  (arr_set (free_bits t) (idx div 64) (w OR push_bit (nat (idx mod 64)) 1))))"

definition UNSET_BIT :: "'a pointer_array \<Rightarrow> int \<Rightarrow> 'a pointer_array option" where
  "UNSET_BIT t idx =
     (case arr_get (free_bits t) (idx div 64) of
        None \<Rightarrow> None
      | Some w \<Rightarrow>
          (if w AND push_bit (nat (idx mod 64)) 1 = 0 then None
           else map_option (\<lambda>ws. t\<lparr>free_bits := ws\<rparr>)
                  (arr_set (free_bits t) (idx div 64) (w XOR push_bit (nat (idx mod 64)) 1))))"

text \<open>The consistency check the source keeps for debugging.\<close>

definition validate_slot :: "'a pointer_array \<Rightarrow> int \<Rightarrow> bool option" where
  "validate_slot t i =
     (case (arr_get (addr t) i, arr_get (free_bits t) (i div 64)) of
        (Some p, Some w) \<Rightarrow>
          (if p = None then (if w AND push_bit (nat (i mod 64)) 1 = 0 then Some True else None)
           else (if w AND push_bit (nat (i mod 64)) 1 \<noteq> 0 then Some False else None))
      | _ \<Rightarrow> None)"

definition opal_pointer_array_validate :: "'a pointer_array \<Rightarrow> unit option" where
  "opal_pointer_array_validate t =
     (case mapo (validate_slot t) [0..pa_size t - 1] of
        None \<Rightarrow> None
      | Some frees \<Rightarrow> (if int (length (filter id frees)) = number_free t then Some () else None))"

section \<open>Operations\<close>

definition opal_pointer_array_init ::
  "bool \<Rightarrow> bool \<Rightarrow> 'a pointer_array \<Rightarrow> int \<Rightarrow> int \<Rightarrow> int \<Rightarrow> opal_status \<times> 'a pointer_array" where
  "opal_pointer_array_init mem1 mem2 t initial_allocation max_sz block_sz =
     (if max_sz < block_sz then (OPAL_ERR_BAD_PARAM, t)
      else
        (let t = t\<lparr>pa_max_size := max_sz, block_size := (if block_sz = 0 then 8 else block_sz), lowest_free := 0\<rparr>;
             num = (if 0 < initial_allocation then initial_allocation else block_sz)
         in if num < 0 \<or> \<not> mem1 then (OPAL_ERR_OUT_OF_RESOURCE, t\<lparr>addr := []\<rparr>)
            else if \<not> mem2 then (OPAL_ERR_OUT_OF_RESOURCE, t\<lparr>addr := [], free_bits := []\<rparr>)
            else (OPAL_SUCCESS,
              t\<lparr>addr := replicate (nat num) None, free_bits := replicate (nat (TYPE_ELEM_COUNT num)) 0,
                number_free := num, pa_size := num\<rparr>)))"

definition grow_table :: "bool \<Rightarrow> bool \<Rightarrow> 'a pointer_array \<Rightarrow> int \<Rightarrow> (bool \<times> 'a pointer_array) option" where
  "grow_table mem1 mem2 t at_least =
     (if block_size t = 0 \<or> at_least + 1 > INT_MAX \<or> at_least + 1 + block_size t > INT_MAX then None
      else
        (let wanted = block_size t * ((at_least + 1 + block_size t - 1) sdiv block_size t);
             new_size = (if wanted \<ge> pa_max_size t then pa_max_size t else wanted)
         in if wanted \<ge> pa_max_size t \<and> at_least \<ge> pa_max_size t then Some (False, t)
            else if new_size < 0 \<or> \<not> mem1 then Some (False, t)
            else
              (let t = t\<lparr>number_free := number_free t + (new_size - pa_size t),
                         addr := take (nat (min (pa_size t) new_size)) (addr t) @
                                 replicate (nat (new_size - pa_size t)) None\<rparr>;
                   new_size_int = TYPE_ELEM_COUNT new_size
               in if TYPE_ELEM_COUNT (pa_size t) \<noteq> new_size_int
                  then (if \<not> mem2 then Some (False, t)
                        else Some (True,
                          t\<lparr>free_bits := take (nat (min (TYPE_ELEM_COUNT (pa_size t)) new_size_int)) (free_bits t) @
                                         replicate (nat (new_size_int - TYPE_ELEM_COUNT (pa_size t))) 0,
                            pa_size := new_size\<rparr>))
                  else Some (True, t\<lparr>pa_size := new_size\<rparr>))))"

text \<open>The second half of each of the next three operations, after the array has grown if it had to.\<close>

definition add_lowest :: "'a pointer_array \<Rightarrow> 'a option \<Rightarrow> (int \<times> 'a pointer_array) option" where
  "add_lowest t ptr =
     (if \<not> (pa_size t > 0 \<and> lowest_free t \<ge> 0 \<and> lowest_free t < pa_size t \<and>
             number_free t > 0 \<and> number_free t \<le> pa_size t) then None
      else
        (let index = lowest_free t
         in case arr_get (addr t) index of
              Some None \<Rightarrow>
                (case SET_BIT (t\<lparr>addr := (addr t)[nat index := ptr], number_free := number_free t - 1\<rparr>) index of
                   None \<Rightarrow> None
                 | Some t \<Rightarrow>
                     (if number_free t > 0
                      then map_option (\<lambda>f. (index, t\<lparr>lowest_free := f\<rparr>)) (FIND_FIRST_ZERO t index)
                      else Some (index, t\<lparr>lowest_free := pa_size t\<rparr>)))
            | _ \<Rightarrow> None))"

definition opal_pointer_array_add ::
  "bool \<Rightarrow> bool \<Rightarrow> 'a pointer_array \<Rightarrow> 'a option \<Rightarrow> ((opal_status + int) \<times> 'a pointer_array) option" where
  "opal_pointer_array_add mem1 mem2 t ptr =
     (if pa_size t + 1 > INT_MAX then None
      else
        (case (if number_free t = 0 then grow_table mem1 mem2 t (pa_size t + 1) else Some (True, t)) of
           None \<Rightarrow> None
         | Some (False, t) \<Rightarrow> Some (Inl OPAL_ERR_OUT_OF_RESOURCE, t)
         | Some (True, t) \<Rightarrow> map_option (\<lambda>(index, t). (Inr index, t)) (add_lowest t ptr)))"

definition put_at :: "'a pointer_array \<Rightarrow> int \<Rightarrow> 'a option \<Rightarrow> 'a pointer_array option" where
  "put_at t index v =
     (if \<not> pa_size t > index then None
      else
        (case arr_get (addr t) index of
           None \<Rightarrow> None
         | Some old \<Rightarrow>
             map_option (\<lambda>t. t\<lparr>addr := (addr t)[nat index := v]\<rparr>)
               (if v = None then
                  (if old \<noteq> None then
                     UNSET_BIT (t\<lparr>lowest_free := (if index < lowest_free t then index else lowest_free t),
                                  number_free := number_free t + 1\<rparr>) index
                   else Some t)
                else if old = None then
                  (case SET_BIT (t\<lparr>number_free := number_free t - 1\<rparr>) index of
                     None \<Rightarrow> None
                   | Some t \<Rightarrow>
                       (if index = lowest_free t
                        then map_option (\<lambda>f. t\<lparr>lowest_free := f\<rparr>) (FIND_FIRST_ZERO t index)
                        else Some t))
                else (if index = lowest_free t then None else Some t))))"

definition opal_pointer_array_set_item ::
  "bool \<Rightarrow> bool \<Rightarrow> 'a pointer_array \<Rightarrow> int \<Rightarrow> 'a option \<Rightarrow> (opal_status \<times> 'a pointer_array) option" where
  "opal_pointer_array_set_item mem1 mem2 t index v =
     (if 0 > index then Some (OPAL_ERROR, t)
      else
        (case (if pa_size t \<le> index then grow_table mem1 mem2 t index else Some (True, t)) of
           None \<Rightarrow> None
         | Some (False, t) \<Rightarrow> Some (OPAL_ERROR, t)
         | Some (True, t) \<Rightarrow> map_option (\<lambda>t. (OPAL_SUCCESS, t)) (put_at t index v)))"

definition reserve_at :: "'a pointer_array \<Rightarrow> int \<Rightarrow> 'a option \<Rightarrow> 'a pointer_array option" where
  "reserve_at t index v =
     (case arr_get (addr t) index of
        Some None \<Rightarrow>
          (case SET_BIT (t\<lparr>addr := (addr t)[nat index := v], number_free := number_free t - 1\<rparr>) index of
             None \<Rightarrow> None
           | Some t \<Rightarrow>
               (if number_free t > 0
                then (if index = lowest_free t
                      then map_option (\<lambda>f. t\<lparr>lowest_free := f\<rparr>) (FIND_FIRST_ZERO t index)
                      else Some t)
                else Some (t\<lparr>lowest_free := pa_size t\<rparr>)))
      | _ \<Rightarrow> None)"

definition opal_pointer_array_test_and_set_item ::
  "bool \<Rightarrow> bool \<Rightarrow> 'a pointer_array \<Rightarrow> int \<Rightarrow> 'a option \<Rightarrow> (bool \<times> 'a pointer_array) option" where
  "opal_pointer_array_test_and_set_item mem1 mem2 t index v =
     (if \<not> index \<ge> 0 then None
      else
        (case (if index < pa_size t then map_option (\<lambda>p. p \<noteq> None) (arr_get (addr t) index) else Some False) of
           None \<Rightarrow> None
         | Some True \<Rightarrow> Some (False, t)
         | Some False \<Rightarrow>
             (case (if pa_size t \<le> index then grow_table mem1 mem2 t index else Some (True, t)) of
                None \<Rightarrow> None
              | Some (False, t) \<Rightarrow> Some (False, t)
              | Some (True, t) \<Rightarrow> map_option (\<lambda>t. (True, t)) (reserve_at t index v))))"

definition opal_pointer_array_get_item :: "'a pointer_array \<Rightarrow> int \<Rightarrow> 'a option option" where
  "opal_pointer_array_get_item t element_index =
     (if 0 > element_index \<or> pa_size t \<le> element_index then Some None else arr_get (addr t) element_index)"

definition opal_pointer_array_get_size :: "'a pointer_array \<Rightarrow> int" where
  "opal_pointer_array_get_size t = pa_size t"

definition opal_pointer_array_set_size ::
  "bool \<Rightarrow> bool \<Rightarrow> 'a pointer_array \<Rightarrow> int \<Rightarrow> (opal_status \<times> 'a pointer_array) option" where
  "opal_pointer_array_set_size mem1 mem2 t new_size =
     (if new_size > pa_size t
      then map_option (\<lambda>(b, t). (if b then OPAL_SUCCESS else OPAL_ERROR, t)) (grow_table mem1 mem2 t new_size)
      else Some (OPAL_SUCCESS, t))"

definition opal_pointer_array_remove_all :: "'a pointer_array \<Rightarrow> 'a pointer_array option" where
  "opal_pointer_array_remove_all t =
     (if number_free t = pa_size t then Some t
      else if int (length (addr t)) < pa_size t \<or> int (length (free_bits t)) < TYPE_ELEM_COUNT (pa_size t) then None
      else Some (t\<lparr>lowest_free := 0, number_free := pa_size t,
                   addr := replicate (nat (pa_size t)) None @ drop (nat (pa_size t)) (addr t),
                   free_bits := replicate (nat (TYPE_ELEM_COUNT (pa_size t))) 0 @
                                drop (nat (TYPE_ELEM_COUNT (pa_size t))) (free_bits t)\<rparr>))"

section \<open>Sequences of calls\<close>

text \<open>
  What a client sees of the array is a partial map from indices to pointers. \<open>pa_spec mem mx m op out m'\<close>
  says which result and which new map an operation may give on the map \<open>m\<close> when the array is bounded by
  \<open>mx\<close>; \<open>mem\<close> says whether the allocations the call may make succeed. A call makes at most two, of the array and of the
  free bits; in a run each call comes with the outcomes of both.
\<close>

datatype 'a pa_op = Add 'a | Put int "'a option" | Reserve int 'a | Resize int | Clear | Fetch int

datatype 'a pa_out = Index int | Done | Refused | Item "'a option"

fun pa_step :: "bool \<Rightarrow> bool \<Rightarrow> 'a pointer_array \<Rightarrow> 'a pa_op \<Rightarrow> ('a pa_out \<times> 'a pointer_array) option" where
  "pa_step mem1 mem2 t (Add v) =
     map_option (\<lambda>(r, t). (case r of Inl e \<Rightarrow> Refused | Inr i \<Rightarrow> Index i, t)) (opal_pointer_array_add mem1 mem2 t (Some v))"
| "pa_step mem1 mem2 t (Put i x) =
     map_option (\<lambda>(r, t). (if r = OPAL_SUCCESS then Done else Refused, t)) (opal_pointer_array_set_item mem1 mem2 t i x)"
| "pa_step mem1 mem2 t (Reserve i v) =
     map_option (\<lambda>(b, t). (if b then Done else Refused, t)) (opal_pointer_array_test_and_set_item mem1 mem2 t i (Some v))"
| "pa_step mem1 mem2 t (Resize n) =
     map_option (\<lambda>(r, t). (if r = OPAL_SUCCESS then Done else Refused, t)) (opal_pointer_array_set_size mem1 mem2 t n)"
| "pa_step mem1 mem2 t Clear = map_option (Pair Done) (opal_pointer_array_remove_all t)"
| "pa_step mem1 mem2 t (Fetch i) = map_option (\<lambda>p. (Item p, t)) (opal_pointer_array_get_item t i)"

fun pa_run :: "'a pointer_array \<Rightarrow> ((bool \<times> bool) \<times> 'a pa_op) list \<Rightarrow> ('a pa_out list \<times> 'a pointer_array) option" where
  "pa_run t [] = Some ([], t)"
| "pa_run t (((mem1, mem2), op) # ops) =
     (case pa_step mem1 mem2 t op of
        None \<Rightarrow> None
      | Some (out, t) \<Rightarrow> map_option (\<lambda>(outs, t). (out # outs, t)) (pa_run t ops))"

fun pa_spec :: "bool \<Rightarrow> int \<Rightarrow> (int \<rightharpoonup> 'a) \<Rightarrow> 'a pa_op \<Rightarrow> 'a pa_out \<Rightarrow> (int \<rightharpoonup> 'a) \<Rightarrow> bool" where
  "pa_spec mem mx m (Add v) (Index i) m' \<longleftrightarrow>
     0 \<le> i \<and> m i = None \<and> (\<forall>j. 0 \<le> j \<and> j < i \<longrightarrow> m j \<noteq> None) \<and> m' = m(i \<mapsto> v)"
| "pa_spec mem mx m (Add v) Refused m' \<longleftrightarrow>
     m' = m \<and> (mem \<longrightarrow> (\<forall>j. 0 \<le> j \<and> j + 1 < mx \<longrightarrow> m j \<noteq> None))"
| "pa_spec mem mx m (Put i x) Done m' \<longleftrightarrow> 0 \<le> i \<and> m' = m(i := x)"
| "pa_spec mem mx m (Put i x) Refused m' \<longleftrightarrow> m' = m \<and> (mem \<longrightarrow> i < 0 \<or> mx \<le> i)"
| "pa_spec mem mx m (Reserve i v) Done m' \<longleftrightarrow> m i = None \<and> m' = m(i \<mapsto> v)"
| "pa_spec mem mx m (Reserve i v) Refused m' \<longleftrightarrow> m' = m \<and> (mem \<longrightarrow> m i \<noteq> None \<or> mx \<le> i)"
| "pa_spec mem mx m (Resize n) Done m' \<longleftrightarrow> m' = m"
| "pa_spec mem mx m (Resize n) Refused m' \<longleftrightarrow> m' = m \<and> (mem \<longrightarrow> mx \<le> n)"
| "pa_spec mem mx m Clear Done m' \<longleftrightarrow> m' = (\<lambda>_. None)"
| "pa_spec mem mx m (Fetch i) (Item p) m' \<longleftrightarrow> m' = m \<and> p = m i"
| "pa_spec mem mx m _ _ m' \<longleftrightarrow> False"

fun pa_agrees :: "int \<Rightarrow> (int \<rightharpoonup> 'a) \<Rightarrow> ((bool \<times> bool) \<times> 'a pa_op) list \<Rightarrow> 'a pa_out list \<Rightarrow> (int \<rightharpoonup> 'a) \<Rightarrow> bool" where
  "pa_agrees mx m [] outs m' \<longleftrightarrow> outs = [] \<and> m' = m"
| "pa_agrees mx m (((mem1, mem2), op) # ops) [] m' \<longleftrightarrow> False"
| "pa_agrees mx m (((mem1, mem2), op) # ops) (out # outs) m' \<longleftrightarrow>
     (\<exists>m1. pa_spec (mem1 \<and> mem2) mx m op out m1 \<and> pa_agrees mx m1 ops outs m')"

text \<open>The indices for which the size computation of \<open>grow_table\<close> stays within an \<open>int\<close>.\<close>

fun op_fits :: "int \<Rightarrow> 'a pa_op \<Rightarrow> bool" where
  "op_fits block (Put i x) \<longleftrightarrow> i + 1 + block \<le> INT_MAX"
| "op_fits block (Reserve i v) \<longleftrightarrow> 0 \<le> i \<and> i + 1 + block \<le> INT_MAX"
| "op_fits block (Resize n) \<longleftrightarrow> n + 1 + block \<le> INT_MAX"
| "op_fits block _ \<longleftrightarrow> True"

section \<open>The first zero bit\<close>

definition zero_at :: "u64 \<Rightarrow> nat \<Rightarrow> bool" where
  "zero_at w k \<longleftrightarrow> \<not> bit w k \<and> (\<forall>j < k. bit w j)"

lemma and_mask_iff: "n \<le> 64 \<Longrightarrow> w AND mask n = mask n \<longleftrightarrow> (\<forall>j < n. bit w j)" for w :: u64
proof -
  assume n: "n \<le> 64"
  have "w AND mask n = mask n \<longleftrightarrow> (\<forall>j < 64. (bit w j \<and> j < n) = (j < n))"
    by (auto simp: bit_eq_iff bit_simps)
  also have "\<dots> \<longleftrightarrow> (\<forall>j < n. bit w j)" using n by (meson less_le_trans)
  finally show ?thesis .
qed

lemma halve_zero_at:
  assumes z: "zero_at w k" and k: "k < 2 * n" and n: "n \<le> 32" and m: "m = mask n" and h: "halve n m (w, p) = (w', p')"
  obtains k' where "zero_at w' k'" "k' < n" "p' + int k' = p + int k"
proof (cases "k < n")
  case True
  then have "w AND mask n \<noteq> mask n" using z n by (auto simp: and_mask_iff zero_at_def)
  then show ?thesis using that [of k] h z True by (simp add: halve_def m)
next
  case False
  then have "w AND mask n = mask n" using z n by (auto simp: and_mask_iff zero_at_def)
  moreover have "zero_at (drop_bit n w) (k - n)"
    using z False by (auto simp: zero_at_def bit_drop_bit_eq less_diff_conv)
  ultimately show ?thesis using that [of "k - n"] h k False by (auto simp: halve_def m of_nat_diff)
qed

lemma first_zero_bit_correct:
  assumes z: "zero_at w k" and k: "k < 64"
  shows "first_zero_bit w = int k"
proof -
  obtain w1 p1 where h1: "halve 32 0xFFFFFFFF (w, 0) = (w1, p1)" by fastforce
  obtain w2 p2 where h2: "halve 16 0xFFFF (w1, p1) = (w2, p2)" by fastforce
  obtain w3 p3 where h3: "halve 8 0xFF (w2, p2) = (w3, p3)" by fastforce
  obtain w4 p4 where h4: "halve 4 0xF (w3, p3) = (w4, p4)" by fastforce
  obtain w5 p5 where h5: "halve 2 0x3 (w4, p4) = (w5, p5)" by fastforce
  obtain k1 where k1: "zero_at w1 k1" "k1 < 32" "p1 + int k1 = int k"
    using halve_zero_at [OF z _ _ _ h1] k by (auto simp: mask_eq_exp_minus_1)
  obtain k2 where k2: "zero_at w2 k2" "k2 < 16" "p2 + int k2 = p1 + int k1"
    using halve_zero_at [OF k1(1) _ _ _ h2] k1 by (auto simp: mask_eq_exp_minus_1)
  obtain k3 where k3: "zero_at w3 k3" "k3 < 8" "p3 + int k3 = p2 + int k2"
    using halve_zero_at [OF k2(1) _ _ _ h3] k2 by (auto simp: mask_eq_exp_minus_1)
  obtain k4 where k4: "zero_at w4 k4" "k4 < 4" "p4 + int k4 = p3 + int k3"
    using halve_zero_at [OF k3(1) _ _ _ h4] k3 by (auto simp: mask_eq_exp_minus_1)
  obtain k5 where k5: "zero_at w5 k5" "k5 < 2" "p5 + int k5 = p4 + int k4"
    using halve_zero_at [OF k4(1) _ _ _ h5] k4 by (auto simp: mask_eq_exp_minus_1)
  have "(w5 AND 1 = 1) = bit w5 0" by (simp add: and_one_eq bit_0 odd_iff_mod_2_eq_one)
  then have "(w5 AND 1 = 1) = (k5 = 1)"
    using k5(1,2) by (cases "k5 = 0") (auto simp: zero_at_def less_2_cases_iff)
  then have "first_zero_bit w = p5 + int k5"
    using k5(2) by (auto simp: first_zero_bit_def h1 h2 h3 h4 h5 less_2_cases_iff)
  then show ?thesis using k1 k2 k3 k4 k5 by simp
qed

lemma all_ones: "(0xFFFFFFFFFFFFFFFF :: u64) = -1"
  by simp

lemma skip_taken_finds:
  assumes "b \<le> c" and "c < length ws" and "\<forall>i. b \<le> i \<and> i < c \<longrightarrow> ws ! i = -1" and "ws ! c \<noteq> -1"
  shows "skip_taken (drop b ws) (int b) = Some (int c)"
  using assms
proof (induction "c - b" arbitrary: b)
  case 0
  then have "drop b ws = ws ! c # drop (Suc c) ws" by (simp add: Cons_nth_drop_Suc)
  then show ?case using 0 by (simp add: all_ones)
next
  case (Suc d)
  then have b: "b < length ws" "ws ! b = -1" by auto
  from Cons_nth_drop_Suc [OF b(1)] have "drop b ws = -1 # drop (Suc b) ws" by (simp add: b(2))
  moreover have "skip_taken (drop (Suc b) ws) (int (Suc b)) = Some (int c)"
    using Suc.hyps(2) Suc.prems by (intro Suc.hyps(1)) auto
  ultimately show ?case by (simp add: all_ones add.commute)
qed

section \<open>Invariant\<close>

definition first_free :: "'a option list \<Rightarrow> nat" where
  "first_free xs = length (takeWhile (\<lambda>x. x \<noteq> None) xs)"

definition free_count :: "'a option list \<Rightarrow> nat" where
  "free_count xs = length (filter (\<lambda>x. x = None) xs)"

definition taken_bit :: "u64 list \<Rightarrow> nat \<Rightarrow> bool" where
  "taken_bit ws i = bit (ws ! (i div 64)) (i mod 64)"

definition bits_ok :: "u64 list \<Rightarrow> 'a option list \<Rightarrow> bool" where
  "bits_ok ws xs \<longleftrightarrow> length ws = (length xs + 63) div 64 \<and>
     (\<forall>i < 64 * length ws. taken_bit ws i = (i < length xs \<and> xs ! i \<noteq> None))"

definition pa_ok :: "'a pointer_array \<Rightarrow> bool" where
  "pa_ok t \<longleftrightarrow> 0 < block_size t \<and> pa_size t = int (length (addr t)) \<and> bits_ok (free_bits t) (addr t) \<and>
     number_free t = int (free_count (addr t)) \<and> lowest_free t = int (first_free (addr t))"

lemma first_free_le [simp]: "first_free xs \<le> length xs"
  by (simp add: first_free_def length_takeWhile_le)

lemma first_free_taken: "i < first_free xs \<Longrightarrow> xs ! i \<noteq> None"
proof (induction xs arbitrary: i)
  case (Cons x xs)
  then show ?case by (cases i) (auto simp: first_free_def split: if_splits)
qed (simp add: first_free_def)

lemma first_free_None: "first_free xs < length xs \<Longrightarrow> xs ! first_free xs = None"
  unfolding first_free_def using nth_length_takeWhile [of "\<lambda>x. x \<noteq> None" xs] by simp

lemma first_free_eqI:
  assumes "k \<le> length xs" and "\<And>j. j < k \<Longrightarrow> xs ! j \<noteq> None" and "k < length xs \<Longrightarrow> xs ! k = None"
  shows "first_free xs = k"
proof (rule linorder_cases [of "first_free xs" k])
  assume "first_free xs < k"
  then show ?thesis using assms first_free_None [of xs] by fastforce
next
  assume "k < first_free xs"
  then show ?thesis using assms(3) first_free_taken [of k xs] first_free_le [of xs] by linarith
qed simp

lemma free_count_0: "free_count xs = 0 \<longleftrightarrow> first_free xs = length xs"
  by (induction xs) (auto simp: free_count_def first_free_def)

lemma free_count_le: "free_count xs \<le> length xs"
  by (simp add: free_count_def)

lemma free_count_take: "i < length xs \<Longrightarrow> xs ! i = None \<Longrightarrow> free_count xs = Suc (free_count (xs[i := Some v]))"
proof (induction xs arbitrary: i)
  case (Cons x xs)
  then show ?case by (cases i) (auto simp: free_count_def)
qed simp

lemma free_count_release: "i < length xs \<Longrightarrow> xs ! i \<noteq> None \<Longrightarrow> free_count (xs[i := None]) = Suc (free_count xs)"
proof (induction xs arbitrary: i)
  case (Cons x xs)
  then show ?case by (cases i) (auto simp: free_count_def)
qed simp

lemma free_count_same: "i < length xs \<Longrightarrow> (xs ! i = None) = (v = None) \<Longrightarrow> free_count (xs[i := v]) = free_count xs"
proof (induction xs arbitrary: i)
  case (Cons x xs)
  then show ?case by (cases i) (auto simp: free_count_def)
qed simp

section \<open>Setting and clearing a bit\<close>

lemma pa_word_index: "bits_ok ws xs \<Longrightarrow> i < length xs \<Longrightarrow> i div 64 < length ws"
  by (simp add: bits_ok_def)

lemma bits_okD: "bits_ok ws xs \<Longrightarrow> i < length xs \<Longrightarrow> bit (ws ! (i div 64)) (i mod 64) = (xs ! i \<noteq> None)"
  using pa_word_index [of ws xs i] by (auto simp: bits_ok_def taken_bit_def)

lemma div_mod_64: "int i div 64 = int (i div 64)" "nat (int i mod 64) = i mod 64"
  by (simp_all add: zdiv_int nat_mod_distrib)

lemma taken_bit_update:
  "i div 64 < length ws \<Longrightarrow> taken_bit (ws[i div 64 := w]) j =
     (if j div 64 = i div 64 then bit w (j mod 64) else taken_bit ws j)"
  by (simp add: taken_bit_def nth_list_update)

lemma same_slot: "j div 64 = i div 64 \<Longrightarrow> (j mod 64 = i mod 64) = (j = i)" for i j :: nat
  by (metis div_mult_mod_eq)

lemma bits_ok_update:
  assumes ok: "bits_ok ws xs" and i: "i < length xs"
    and w: "\<And>n. n < 64 \<Longrightarrow> bit w n = (if n = i mod 64 then v \<noteq> None else bit (ws ! (i div 64)) n)"
  shows "bits_ok (ws[i div 64 := w]) (xs[i := v])"
  unfolding bits_ok_def
proof (intro conjI allI impI)
  show "length (ws[i div 64 := w]) = (length (xs[i := v]) + 63) div 64" using ok by (simp add: bits_ok_def)
next
  fix j
  assume "j < 64 * length (ws[i div 64 := w])"
  then have old: "taken_bit ws j = (j < length xs \<and> xs ! j \<noteq> None)" using ok by (simp add: bits_ok_def)
  show "taken_bit (ws[i div 64 := w]) j = (j < length (xs[i := v]) \<and> xs[i := v] ! j \<noteq> None)"
  proof (cases "j div 64 = i div 64")
    case True
    then show ?thesis using old i w [of "j mod 64"] same_slot [OF True] pa_word_index [OF ok i]
      by (auto simp: taken_bit_update taken_bit_def nth_list_update)
  next
    case False
    then show ?thesis using old pa_word_index [OF ok i] by (auto simp: taken_bit_update nth_list_update)
  qed
qed

lemma SET_BIT_ok:
  assumes ok: "bits_ok (free_bits t) xs" and i: "i < length xs" "xs ! i = None"
  obtains ws where "SET_BIT t (int i) = Some (t\<lparr>free_bits := ws\<rparr>)" "bits_ok ws (xs[i := Some v])"
proof -
  let ?w = "free_bits t ! (i div 64)"
  have "\<not> bit ?w (i mod 64)" using bits_okD [OF ok i(1)] i(2) by simp
  then have "SET_BIT t (int i) = Some (t\<lparr>free_bits := (free_bits t)[i div 64 := ?w OR push_bit (i mod 64) 1]\<rparr>)"
    using pa_word_index [OF ok i(1)]
    by (simp add: SET_BIT_def div_mod_64 arr_get_nat arr_set_in single_bit_test del: push_bit_of_1)
  moreover have "bits_ok ((free_bits t)[i div 64 := ?w OR push_bit (i mod 64) 1]) (xs[i := Some v])"
    by (rule bits_ok_update [OF ok i(1)]) (simp add: bit_or_single del: push_bit_of_1)
  ultimately show ?thesis by (rule that)
qed

lemma UNSET_BIT_ok:
  assumes ok: "bits_ok (free_bits t) xs" and i: "i < length xs" "xs ! i \<noteq> None"
  obtains ws where "UNSET_BIT t (int i) = Some (t\<lparr>free_bits := ws\<rparr>)" "bits_ok ws (xs[i := None])"
proof -
  let ?w = "free_bits t ! (i div 64)"
  have bit: "bit ?w (i mod 64)" using bits_okD [OF ok i(1)] i(2) by simp
  then have "?w AND push_bit (i mod 64) 1 \<noteq> 0" by (simp add: single_bit_test del: push_bit_of_1)
  then have "UNSET_BIT t (int i) = Some (t\<lparr>free_bits := (free_bits t)[i div 64 := ?w XOR push_bit (i mod 64) 1]\<rparr>)"
    using pa_word_index [OF ok i(1)]
    by (simp add: UNSET_BIT_def div_mod_64 arr_get_nat arr_set_in del: push_bit_of_1)
  moreover have "bits_ok ((free_bits t)[i div 64 := ?w XOR push_bit (i mod 64) 1]) (xs[i := None])"
    by (rule bits_ok_update [OF ok i(1)]) (use bit in \<open>auto simp: bit_simps\<close>)
  ultimately show ?thesis by (rule that)
qed

section \<open>Finding a free slot\<close>

lemma FIND_FIRST_ZERO_ok:
  assumes ok: "bits_ok (free_bits t) xs" and size: "pa_size t = int (length xs)"
    and free: "number_free t = int (free_count xs)" and start: "s \<le> first_free xs"
  shows "FIND_FIRST_ZERO t (int s) = Some (int (first_free xs))"
proof (cases "free_count xs = 0")
  case True
  then show ?thesis using free size by (simp add: FIND_FIRST_ZERO_def free_count_0)
next
  case False
  define f where "f = first_free xs"
  let ?c = "f div 64"
  have f: "f < length xs" using False by (simp add: f_def free_count_0 order_le_neq_trans)
  have none: "xs ! f = None" using first_free_None f unfolding f_def by blast
  have c: "?c < length (free_bits t)" by (rule pa_word_index [OF ok f])
  have taken: "bit (free_bits t ! (j div 64)) (j mod 64)" if "j < f" for j
    using bits_okD [OF ok, of j] that f first_free_taken [of j xs] by (simp add: f_def)
  have full: "free_bits t ! i = -1" if "i < ?c" for i
  proof (rule bit_word_eqI)
    fix n
    assume "n < LENGTH(64)"
    then have n: "n < 64" by simp
    then have "64 * i + n < f" using that by linarith
    from taken [OF this] n show "bit (free_bits t ! i) n = bit (-1 :: u64) n" by simp
  qed
  have zero: "zero_at (free_bits t ! ?c) (f mod 64)"
    unfolding zero_at_def
  proof (intro conjI allI impI)
    show "\<not> bit (free_bits t ! ?c) (f mod 64)" using bits_okD [OF ok f] none by simp
  next
    fix j
    assume j: "j < f mod 64"
    have "64 * ?c + j < f" using j by presburger
    from taken [OF this] j show "bit (free_bits t ! ?c) j" by simp
  qed
  have "free_bits t ! ?c \<noteq> -1" using zero by (auto simp: zero_at_def)
  then have "skip_taken (drop (s div 64) (free_bits t)) (int (s div 64)) = Some (int ?c)"
    using full c start by (intro skip_taken_finds) (auto simp: f_def intro: div_le_mono)
  moreover have "first_zero_bit (free_bits t ! ?c) = int (f mod 64)"
    by (rule first_zero_bit_correct [OF zero]) simp
  moreover have "int ?c < pa_size t" using f size by simp
  moreover have "int ?c * 64 + int (f mod 64) = int f"
    by (metis div_mult_mod_eq of_nat_add of_nat_mult of_nat_numeral)
  ultimately show ?thesis
    using False free c by (simp add: FIND_FIRST_ZERO_def div_mod_64 arr_get_nat f_def [symmetric])
qed

section \<open>Growing\<close>

lemma TYPE_ELEM_COUNT_nat: "TYPE_ELEM_COUNT (int n) = int ((n + 63) div 64)"
  by (simp add: TYPE_ELEM_COUNT_def zdiv_int)

lemma wanted_size:
  fixes a b :: int
  assumes "0 < b" and "0 \<le> a"
  shows "a < b * ((a + 1 + b - 1) sdiv b)"
proof -
  have "(a + 1 + b - 1) sdiv b = a div b + 1" using assms by (simp add: signed_divide_int_def div_add_self2)
  moreover have "a < b * (a div b + 1)" 
    using assms pos_mod_bound [of b a] mult_div_mod_eq [of b a] unfolding distrib_left by linarith
  ultimately show ?thesis by simp
qed

lemma bits_ok_extend:
  assumes ok: "bits_ok ws xs" and len: "length ws + m = (length xs + k + 63) div 64"
  shows "bits_ok (ws @ replicate m 0) (xs @ replicate k None)"
  unfolding bits_ok_def
proof (intro conjI allI impI)
  show "length (ws @ replicate m 0) = (length (xs @ replicate k None) + 63) div 64" using len by simp
next
  fix i
  assume i: "i < 64 * length (ws @ replicate m (0 :: u64))"
  have len_ws: "length xs \<le> 64 * length ws" using ok by (simp add: bits_ok_def)
  show "taken_bit (ws @ replicate m 0) i = (i < length (xs @ replicate k None) \<and> (xs @ replicate k None) ! i \<noteq> None)"
  proof (cases "i < 64 * length ws")
    case True
    then have "taken_bit (ws @ replicate m 0) i = taken_bit ws i"
      by (simp add: taken_bit_def nth_append less_mult_imp_div_less)
    then show ?thesis using ok True by (auto simp: bits_ok_def nth_append)
  next
    case False
    then have "length ws \<le> i div 64" by linarith
    moreover from this have "i div 64 - length ws < m" using i by simp
    ultimately have "\<not> taken_bit (ws @ replicate m 0) i" by (simp add: taken_bit_def nth_append)
    then show ?thesis using False len_ws by (auto simp: nth_append)
  qed
qed

lemma free_count_extend: "free_count (xs @ replicate k None) = free_count xs + k"
  by (simp add: free_count_def)

lemma first_free_extend: "first_free (xs @ replicate k None) = first_free xs"
proof (rule first_free_eqI)
  show "first_free xs \<le> length (xs @ replicate k None)" by (simp add: trans_le_add1)
next
  fix j
  assume "j < first_free xs"
  then show "(xs @ replicate k None) ! j \<noteq> None"
    using first_free_taken [of j xs] less_le_trans [OF _ first_free_le, of j xs] by (simp add: nth_append)
next
  assume "first_free xs < length (xs @ replicate k None)"
  then show "(xs @ replicate k None) ! first_free xs = None"
    using first_free_None [of xs] by (auto simp: nth_append)
qed

definition grown :: "'a pointer_array \<Rightarrow> nat \<Rightarrow> 'a pointer_array \<Rightarrow> bool" where
  "grown t n t' \<longleftrightarrow> pa_ok t' \<and> (\<exists>k. addr t' = addr t @ replicate k None) \<and> n < length (addr t') \<and>
     int (length (addr t')) \<le> pa_max_size t \<and> pa_max_size t' = pa_max_size t \<and> block_size t' = block_size t"

lemma grow_table_ok:
  assumes ok: "pa_ok t" and n: "length (addr t) \<le> n" and fits: "int n + 1 + block_size t \<le> INT_MAX"
  shows "if mem \<and> int n < pa_max_size t
    then \<exists>t'. grow_table mem mem t (int n) = Some (True, t') \<and> grown t n t'
    else grow_table mem mem t (int n) = Some (False, t)"
proof -
  define wanted where "wanted = block_size t * ((int n + 1 + block_size t - 1) sdiv block_size t)"
  have block: "0 < block_size t" using ok by (simp add: pa_ok_def)
  then have w: "int n < wanted" unfolding wanted_def by (intro wanted_size) simp_all
  have no_fault: "\<not> (block_size t = 0 \<or> int n + 1 > INT_MAX \<or> int n + 1 + block_size t > INT_MAX)"
    using block fits by simp
  note grow = grow_table_def [of mem mem t "int n", unfolded wanted_def [symmetric] if_not_P [OF no_fault] Let_def]
  show ?thesis
  proof (cases "mem \<and> int n < pa_max_size t")
    case True
    define m where "m = nat (if wanted \<ge> pa_max_size t then pa_max_size t else wanted)"
    have m: "(if wanted \<ge> pa_max_size t then pa_max_size t else wanted) = int m" "n < m" "int m \<le> pa_max_size t"
      using w True by (auto simp: m_def)
    define k where "k = m - length (addr t)"
    have len: "length (addr t) + k = m" using m(2) n by (simp add: k_def)
    let ?old = "(length (addr t) + 63) div 64"
    let ?new = "(m + 63) div 64"
    have words: "length (free_bits t) = ?old" using ok by (simp add: pa_ok_def bits_ok_def)
    have le: "?old \<le> ?new" using len by (intro div_le_mono) simp
    define ws where "ws = free_bits t @ replicate (?new - ?old) 0"
    let ?t = "t\<lparr>number_free := number_free t + int k, addr := addr t @ replicate k None, free_bits := ws, pa_size := int m\<rparr>"
    have bits: "bits_ok ws (addr t @ replicate k None)"
      unfolding ws_def using ok words le len by (intro bits_ok_extend) (auto simp: pa_ok_def)
    have size: "pa_size t = int (length (addr t))" using ok by (simp add: pa_ok_def)
    have sizes: "nat (int m - int (length (addr t))) = k" "min (int (length (addr t))) (int m) = int (length (addr t))"
      "int m - int (length (addr t)) = int k" "nat (int ?new - int ?old) = ?new - ?old" "min (int ?old) (int ?new) = int ?old"
      using len le by auto
    have "grow_table mem mem t (int n) = Some (True, ?t)"
      unfolding grow m(1) size TYPE_ELEM_COUNT_nat pointer_array.simps sizes
      using True words by (auto simp: ws_def size TYPE_ELEM_COUNT_nat sizes(4,5) intro!: pointer_array.equality)
    moreover have "grown t n ?t"
      using ok bits len m n by (auto simp: grown_def pa_ok_def free_count_extend first_free_extend)
    ultimately show ?thesis using True by auto
  next
    case False
    then have "grow_table mem mem t (int n) = Some (False, t)" using w by (auto simp: grow)
    then show ?thesis unfolding if_not_P [OF False] .
  qed
qed

section \<open>The array as a partial map\<close>

definition pa_lookup :: "'a pointer_array \<Rightarrow> int \<Rightarrow> 'a option" where
  "pa_lookup t i = (if 0 \<le> i \<and> i < pa_size t then addr t ! nat i else None)"

text \<open>\<open>slot_stored t i v t'\<close>: \<open>t'\<close> is well formed and differs from \<open>t\<close> in slot \<open>i\<close> only, which holds \<open>v\<close>.\<close>

definition slot_stored :: "'a pointer_array \<Rightarrow> nat \<Rightarrow> 'a option \<Rightarrow> 'a pointer_array \<Rightarrow> bool" where
  "slot_stored t i v t' \<longleftrightarrow> pa_ok t' \<and> addr t' = (addr t)[i := v] \<and>
     pa_max_size t' = pa_max_size t \<and> block_size t' = block_size t"

lemma pa_okD:
  assumes "pa_ok t"
  shows "pa_size t = int (length (addr t))" "bits_ok (free_bits t) (addr t)"
    "number_free t = int (free_count (addr t))" "lowest_free t = int (first_free (addr t))" "0 < block_size t"
  using assms by (auto simp: pa_ok_def)

lemma pa_okI:
  assumes "pa_ok t" and "length (addr t') = length (addr t)" and "pa_size t' = pa_size t" and "block_size t' = block_size t"
    and "bits_ok (free_bits t') (addr t')" and "number_free t' = int (free_count (addr t'))"
    and "lowest_free t' = int (first_free (addr t'))"
  shows "pa_ok t'"
  using assms by (simp add: pa_ok_def)

lemma lookup_stored: "pa_ok t \<Longrightarrow> i < length (addr t) \<Longrightarrow> slot_stored t i v t' \<Longrightarrow> pa_lookup t' = (pa_lookup t)(int i := v)"
  by (auto simp: slot_stored_def pa_lookup_def pa_ok_def fun_eq_iff nth_list_update)

lemma lookup_grown: "pa_ok t \<Longrightarrow> grown t n t' \<Longrightarrow> pa_lookup t' = pa_lookup t"
  by (auto simp: grown_def pa_lookup_def pa_ok_def fun_eq_iff nth_append nat_less_iff)

lemma first_free_after:
  assumes "i < length xs" and "xs ! i = None"
  shows "first_free xs \<le> i" "i \<noteq> first_free xs \<Longrightarrow> first_free (xs[i := Some v]) = first_free xs"
    "first_free xs \<le> first_free (xs[i := Some v])"
proof -
  show le: "first_free xs \<le> i" using first_free_taken [of i xs] assms(2) not_le by blast
  show same: "first_free (xs[i := Some v]) = first_free xs" if "i \<noteq> first_free xs"
    using that le assms first_free_None [of xs]
    by (intro first_free_eqI) (auto dest!: first_free_taken)
  show "first_free xs \<le> first_free (xs[i := Some v])"
  proof (rule ccontr)
    assume less: "\<not> first_free xs \<le> first_free (xs[i := Some v])"
    let ?f = "first_free (xs[i := Some v])"
    have "?f < length xs" using less first_free_le [of xs] by linarith
    then have "xs[i := Some v] ! ?f = None" using first_free_None [of "xs[i := Some v]"] by simp
    then show False using less le first_free_taken [of ?f xs] by (simp add: nth_list_update)
  qed
qed

lemma first_free_full: "i < length xs \<Longrightarrow> free_count (xs[i := v]) = 0 \<Longrightarrow> first_free (xs[i := v]) = length xs"
  by (simp add: free_count_0)

lemma first_free_release:
  assumes "i < length xs" and "xs ! i \<noteq> None"
  shows "first_free (xs[i := None]) = min i (first_free xs)"
proof (rule first_free_eqI)
  show "min i (first_free xs) \<le> length (xs[i := None])" using assms by simp
next
  fix j
  assume "j < min i (first_free xs)"
  then show "xs[i := None] ! j \<noteq> None" by (auto dest!: first_free_taken)
next
  assume "min i (first_free xs) < length (xs[i := None])"
  then show "xs[i := None] ! min i (first_free xs) = None"
    using assms first_free_None [of xs] by (auto simp: min_def nth_list_update)
qed

lemma first_free_same:
  assumes "i < length xs" and "xs ! i \<noteq> None"
  shows "first_free (xs[i := Some v]) = first_free xs"
  using assms first_free_None [of xs]
  by (intro first_free_eqI) (auto simp: nth_list_update dest!: first_free_taken)

lemma FIND_after_take:
  fixes t t' :: "'a pointer_array"
  assumes ok: "pa_ok t" and i: "i < length (addr t)" "addr t ! i = None" and low: "int i = lowest_free t"
    and ws: "bits_ok ws ((addr t)[i := Some v])"
    and t': "free_bits t' = ws" "pa_size t' = pa_size t" "number_free t' = number_free t - 1"
  shows "FIND_FIRST_ZERO t' (int i) = Some (int (first_free ((addr t)[i := Some v])))"
proof (rule FIND_FIRST_ZERO_ok)
  show "bits_ok (free_bits t') ((addr t)[i := Some v])" using ws t' by simp
  show "pa_size t' = int (length ((addr t)[i := Some v]))" using t' pa_okD(1) [OF ok] by simp
  show "number_free t' = int (free_count ((addr t)[i := Some v]))"
    using t' pa_okD(3) [OF ok] free_count_take [OF i, of v] by simp
  show "i \<le> first_free ((addr t)[i := Some v])"
    using low pa_okD(4) [OF ok] first_free_after(3) [OF i, of v] by simp
qed

lemma add_lowest_ok:
  assumes ok: "pa_ok t" and free: "free_count (addr t) \<noteq> 0"
  shows "\<exists>t'. add_lowest t (Some v) = Some (lowest_free t, t') \<and> slot_stored t (first_free (addr t)) (Some v) t'"
proof -
  note D = pa_okD [OF ok]
  define i where "i = first_free (addr t)"
  have i: "i < length (addr t)" using free by (simp add: i_def free_count_0 order_le_neq_trans)
  have none: "addr t ! i = None" using i first_free_None unfolding i_def by blast
  have low: "lowest_free t = int i" using D(4) by (simp add: i_def)
  let ?t = "t\<lparr>addr := (addr t)[i := Some v], number_free := number_free t - 1\<rparr>"
  obtain ws where ws: "SET_BIT ?t (int i) = Some (?t\<lparr>free_bits := ws\<rparr>)" "bits_ok ws ((addr t)[i := Some v])"
    using SET_BIT_ok [of ?t "addr t" i v] D(2) i none by auto
  have count: "free_count (addr t) = Suc (free_count ((addr t)[i := Some v]))" by (rule free_count_take [OF i none])
  let ?r = "?t\<lparr>free_bits := ws, lowest_free := int (first_free ((addr t)[i := Some v]))\<rparr>"
  have find: "FIND_FIRST_ZERO (?t\<lparr>free_bits := ws\<rparr>) (int i) = Some (int (first_free ((addr t)[i := Some v])))"
    by (rule FIND_after_take [OF ok i none low [symmetric] ws(2)]) simp_all
  have guard: "pa_size t > 0 \<and> lowest_free t \<ge> 0 \<and> lowest_free t < pa_size t \<and> number_free t > 0 \<and> number_free t \<le> pa_size t"
    using D(1,3) i low free free_count_le [of "addr t"] by auto
  have "add_lowest t (Some v) = Some (lowest_free t, ?r)"
    using guard find ws(1) i none D(1) first_free_full [OF i, of "Some v"] D(3) count
    by (simp add: add_lowest_def Let_def low arr_get_nat)
  moreover have "slot_stored t i (Some v) ?r"
    unfolding slot_stored_def using D ws(2) count by (simp add: pa_ok_def)
  ultimately show ?thesis unfolding i_def by blast
qed

lemma reserve_at_ok:
  assumes ok: "pa_ok t" and i: "i < length (addr t)" "addr t ! i = None"
  shows "\<exists>t'. reserve_at t (int i) (Some v) = Some t' \<and> slot_stored t i (Some v) t'"
proof -
  note D = pa_okD [OF ok]
  let ?t = "t\<lparr>addr := (addr t)[i := Some v], number_free := number_free t - 1\<rparr>"
  obtain ws where ws: "SET_BIT ?t (int i) = Some (?t\<lparr>free_bits := ws\<rparr>)" "bits_ok ws ((addr t)[i := Some v])"
    using SET_BIT_ok [of ?t "addr t" i v] D(2) i by auto
  have count: "free_count (addr t) = Suc (free_count ((addr t)[i := Some v]))" by (rule free_count_take [OF i])
  let ?r = "?t\<lparr>free_bits := ws, lowest_free := int (first_free ((addr t)[i := Some v]))\<rparr>"
  have "FIND_FIRST_ZERO (?t\<lparr>free_bits := ws\<rparr>) (int i) = Some (int (first_free ((addr t)[i := Some v])))"
    if "int i = lowest_free t"
    by (rule FIND_after_take [OF ok i that ws(2)]) simp_all
  moreover have "int (first_free ((addr t)[i := Some v])) = lowest_free t" if "int i \<noteq> lowest_free t"
    using first_free_after(2) [OF i, of v] that D(4) by simp
  ultimately have "reserve_at t (int i) (Some v) = Some ?r"
    using ws(1) i D(1,3) first_free_full [OF i(1), of "Some v"] count
    by (auto simp: reserve_at_def arr_get_nat intro!: pointer_array.equality)
  moreover have "slot_stored t i (Some v) ?r"
    unfolding slot_stored_def using D ws(2) count by (simp add: pa_ok_def)
  ultimately show ?thesis by blast
qed

lemma put_at_ok:
  assumes ok: "pa_ok t" and i: "i < length (addr t)"
  shows "\<exists>t'. put_at t (int i) x = Some t' \<and> slot_stored t i x t'"
proof -
  note D = pa_okD [OF ok]
  consider (release) "x = None" "addr t ! i \<noteq> None" | (idle) "x = None" "addr t ! i = None"
    | (take) v where "x = Some v" "addr t ! i = None" | (replace) v where "x = Some v" "addr t ! i \<noteq> None"
    by (cases x) auto
  then show ?thesis
  proof cases
    case release
    let ?t = "t\<lparr>lowest_free := (if int i < lowest_free t then int i else lowest_free t), number_free := number_free t + 1\<rparr>"
    obtain ws where ws: "UNSET_BIT ?t (int i) = Some (?t\<lparr>free_bits := ws\<rparr>)" "bits_ok ws ((addr t)[i := None])"
      using UNSET_BIT_ok [of ?t "addr t" i] D(2) i release(2) by auto
    then have "put_at t (int i) x = Some (?t\<lparr>free_bits := ws, addr := (addr t)[i := None]\<rparr>)"
      using release i D(1) by (simp add: put_at_def arr_get_nat)
    moreover have "slot_stored t i x (?t\<lparr>free_bits := ws, addr := (addr t)[i := None]\<rparr>)"
      unfolding slot_stored_def
      using D ws(2) release free_count_release [OF i] first_free_release [OF i] by (simp add: pa_ok_def min_def)
    ultimately show ?thesis by blast
  next
    case idle
    have "(addr t)[i := None] = addr t" using idle(2) list_update_id [of "addr t" i] by simp
    then have "put_at t (int i) x = Some t" using idle i D(1) by (simp add: put_at_def arr_get_nat)
    moreover have "slot_stored t i x t" using \<open>(addr t)[i := None] = addr t\<close> ok idle by (simp add: slot_stored_def)
    ultimately show ?thesis by blast
  next
    case take
    let ?t = "t\<lparr>number_free := number_free t - 1\<rparr>"
    obtain ws where ws: "SET_BIT ?t (int i) = Some (?t\<lparr>free_bits := ws\<rparr>)" "bits_ok ws ((addr t)[i := Some v])"
      using SET_BIT_ok [of ?t "addr t" i v] D(2) i take(2) by auto
    let ?r = "?t\<lparr>free_bits := ws, lowest_free := int (first_free ((addr t)[i := Some v])), addr := (addr t)[i := Some v]\<rparr>"
    have "FIND_FIRST_ZERO (?t\<lparr>free_bits := ws\<rparr>) (int i) = Some (int (first_free ((addr t)[i := Some v])))"
      if "int i = lowest_free t"
      by (rule FIND_after_take [OF ok i take(2) that ws(2)]) simp_all
    moreover have "int (first_free ((addr t)[i := Some v])) = lowest_free t" if "int i \<noteq> lowest_free t"
      using first_free_after(2) [OF i take(2), of v] that D(4) by simp
    ultimately have "put_at t (int i) x = Some ?r"
      using ws(1) i D(1) take by (auto simp: put_at_def arr_get_nat intro!: pointer_array.equality)
    moreover have "slot_stored t i x ?r"
      unfolding slot_stored_def using D ws(2) take free_count_take [OF i take(2), of v] by (simp add: pa_ok_def)
    ultimately show ?thesis by blast
  next
    case replace
    have "int i \<noteq> lowest_free t" using D(4) i replace(2) first_free_None [of "addr t"] by auto
    then have "put_at t (int i) x = Some (t\<lparr>addr := (addr t)[i := Some v]\<rparr>)"
      using replace i D(1) by (auto simp: put_at_def arr_get_nat)
    moreover have "bits_ok (free_bits t) ((addr t)[i := Some v])"
      using D(2) replace(2) by (auto simp: bits_ok_def nth_update_if)
    then have "slot_stored t i x (t\<lparr>addr := (addr t)[i := Some v]\<rparr>)"
      unfolding slot_stored_def
      using D replace free_count_same [OF i, of "Some v"] first_free_same [OF i] by (simp add: pa_ok_def)
    ultimately show ?thesis by blast
  qed
qed

section \<open>Every call\<close>

definition pa_room :: "'a pointer_array \<Rightarrow> bool" where
  "pa_room t \<longleftrightarrow> pa_size t \<le> pa_max_size t \<and> pa_max_size t + 2 + block_size t \<le> INT_MAX"

text \<open>What every call keeps: the invariant, the room and the two parameters.\<close>

definition pa_kept :: "'a pointer_array \<Rightarrow> 'a pointer_array \<Rightarrow> bool" where
  "pa_kept t t' \<longleftrightarrow> pa_ok t' \<and> pa_room t' \<and> pa_max_size t' = pa_max_size t \<and> block_size t' = block_size t"

lemma kept_refl: "pa_ok t \<Longrightarrow> pa_room t \<Longrightarrow> pa_kept t t"
  by (simp add: pa_kept_def)

lemma kept_stored: "pa_ok t \<Longrightarrow> pa_room t \<Longrightarrow> slot_stored t i v t' \<Longrightarrow> pa_kept t t'"
  by (auto simp: pa_kept_def slot_stored_def pa_room_def pa_ok_def)

lemma kept_grown: "pa_ok t \<Longrightarrow> pa_room t \<Longrightarrow> grown t n t' \<Longrightarrow> pa_kept t t'"
  by (auto simp: pa_kept_def grown_def pa_room_def pa_ok_def)

lemma kept_trans: "pa_kept t t' \<Longrightarrow> pa_kept t' t'' \<Longrightarrow> pa_kept t t''"
  by (simp add: pa_kept_def)

text \<open>An array that covers index \<open>i\<close>, grown if it has to be.\<close>

lemma cover_index:
  assumes ok: "pa_ok t" and room: "pa_room t" and i: "0 \<le> i" and fits: "i + 1 + block_size t \<le> INT_MAX"
  shows "(\<exists>t'. (if pa_size t \<le> i then grow_table mem mem t i else Some (True, t)) = Some (True, t') \<and>
      pa_kept t t' \<and> pa_lookup t' = pa_lookup t \<and> nat i < length (addr t')) \<or>
    (if pa_size t \<le> i then grow_table mem mem t i else Some (True, t)) = Some (False, t) \<and>
      pa_size t \<le> i \<and> (mem \<longrightarrow> pa_max_size t \<le> i)"
proof (cases "pa_size t \<le> i")
  case True
  then have "length (addr t) \<le> nat i" using pa_okD(1) [OF ok] by simp
  from grow_table_ok [OF ok this, of mem] fits i
  show ?thesis using True kept_grown [OF ok room] lookup_grown [OF ok]
    by (auto simp: grown_def split: if_splits)
next
  case False
  then show ?thesis using pa_okD(1) [OF ok] i kept_refl [OF ok room] by auto
qed

lemma lookup_free: "pa_ok t \<Longrightarrow> i < length (addr t) \<Longrightarrow> pa_lookup t (int i) = addr t ! i"
  by (simp add: pa_lookup_def pa_ok_def)

lemma lookup_below_lowest: "pa_ok t \<Longrightarrow> 0 \<le> j \<Longrightarrow> j < lowest_free t \<Longrightarrow> pa_lookup t j \<noteq> None"
proof -
  assume ok: "pa_ok t" and j: "0 \<le> j" "j < lowest_free t"
  then have less: "nat j < first_free (addr t)" using pa_okD(4) by fastforce
  then have "addr t ! nat j \<noteq> None" by (rule first_free_taken)
  moreover have "nat j < length (addr t)" using less first_free_le less_le_trans by blast
  ultimately show ?thesis using lookup_free [OF ok, of "nat j"] j by simp
qed

lemma lookup_lowest: "pa_ok t \<Longrightarrow> pa_lookup t (lowest_free t) = None"
  using first_free_None [of "addr t"] by (auto simp: pa_lookup_def pa_ok_def)

lemma add_ok:
  assumes ok: "pa_ok t" and room: "pa_room t"
  shows "(\<exists>i t'. opal_pointer_array_add mem mem t (Some v) = Some (Inr i, t') \<and> pa_kept t t' \<and>
      pa_spec mem (pa_max_size t) (pa_lookup t) (Add v) (Index i) (pa_lookup t')) \<or>
    opal_pointer_array_add mem mem t (Some v) = Some (Inl OPAL_ERR_OUT_OF_RESOURCE, t) \<and>
      number_free t = 0 \<and> (mem \<longrightarrow> pa_max_size t \<le> pa_size t + 1)"
proof -
  let ?g = "if number_free t = 0 then grow_table mem mem t (pa_size t + 1) else Some (True, t)"
  note D = pa_okD [OF ok]
  have int: "\<not> pa_size t + 1 > INT_MAX" using room D(5) by (simp add: pa_room_def)
  consider (covered) t1 where "?g = Some (True, t1)" "pa_kept t t1" "pa_lookup t1 = pa_lookup t"
      "free_count (addr t1) \<noteq> 0"
    | (refused) "?g = Some (False, t)" "number_free t = 0" "mem \<longrightarrow> pa_max_size t \<le> pa_size t + 1"
  proof (cases "number_free t = 0")
    case True
    have n: "pa_size t + 1 = int (Suc (length (addr t)))" using D(1) by simp
    then have "int (Suc (length (addr t))) + 1 + block_size t \<le> INT_MAX"
      using room by (simp add: pa_room_def)
    then have "if mem \<and> pa_size t + 1 < pa_max_size t
      then \<exists>t'. grow_table mem mem t (pa_size t + 1) = Some (True, t') \<and> grown t (Suc (length (addr t))) t'
      else grow_table mem mem t (pa_size t + 1) = Some (False, t)"
      unfolding n by (intro grow_table_ok [OF ok]) simp_all
    moreover have "free_count (addr t') \<noteq> 0" if "grown t (Suc (length (addr t))) t'" for t'
      using that by (auto simp: grown_def free_count_extend)
    ultimately show ?thesis
      using covered refused True kept_grown [OF ok room] lookup_grown [OF ok] by (auto split: if_splits)
  next
    case False
    then show ?thesis using covered [of t] D(3) kept_refl [OF ok room] by simp
  qed
  then show ?thesis
  proof cases
    case covered
    have ok1: "pa_ok t1" "pa_room t1" using covered(2) by (auto simp: pa_kept_def)
    obtain t' where t': "add_lowest t1 (Some v) = Some (lowest_free t1, t')"
      "slot_stored t1 (first_free (addr t1)) (Some v) t'" using add_lowest_ok [OF ok1(1) covered(4)] by blast
    have "first_free (addr t1) < length (addr t1)"
      using covered(4) by (simp add: free_count_0 order_le_neq_trans)
    from lookup_stored [OF ok1(1) this t'(2)]
    have "pa_lookup t' = (pa_lookup t)(lowest_free t1 \<mapsto> v)" by (simp add: covered(3) pa_okD(4) [OF ok1(1)])
    then have "pa_spec mem (pa_max_size t) (pa_lookup t) (Add v) (Index (lowest_free t1)) (pa_lookup t')"
      using lookup_below_lowest [OF ok1(1)] lookup_lowest [OF ok1(1)] pa_okD(4) [OF ok1(1)] covered(3) by simp
    moreover have "opal_pointer_array_add mem mem t (Some v) = Some (Inr (lowest_free t1), t')"
      using int covered(1) t'(1) by (simp add: opal_pointer_array_add_def)
    ultimately show ?thesis using kept_trans [OF covered(2) kept_stored [OF ok1 t'(2)]] by blast
  next
    case refused
    then show ?thesis using int by (simp add: opal_pointer_array_add_def)
  qed
qed

lemma empty_slots:
  "bits_ok (replicate ((n + 63) div 64) 0) (replicate n None)" "free_count (replicate n None) = n"
  "first_free (replicate n None) = 0"
proof -
  have "bits_ok [] []" by (simp add: bits_ok_def)
  from bits_ok_extend [OF this, of "(n + 63) div 64" n]
  show "bits_ok (replicate ((n + 63) div 64) 0) (replicate n None)" by simp
qed (simp_all add: free_count_def first_free_def takeWhile_eq_Nil_iff)

lemma empty_lookup: "addr t = replicate n None \<Longrightarrow> pa_size t = int n \<Longrightarrow> pa_lookup t = (\<lambda>_. None)"
  by (auto simp: pa_lookup_def fun_eq_iff nat_less_iff)

lemma all_free: "free_count xs = length xs \<Longrightarrow> xs = replicate (length xs) None"
proof (induction xs)
  case (Cons x xs)
  show ?case
  proof (cases x)
    case None
    then show ?thesis using Cons by (simp add: free_count_def)
  next
    case (Some y)
    then have "free_count xs = Suc (length xs)" using Cons.prems by (simp add: free_count_def)
    with free_count_le [of xs] show ?thesis by linarith
  qed
qed simp

lemma remove_all_ok:
  assumes ok: "pa_ok t" and room: "pa_room t"
  shows "\<exists>t'. opal_pointer_array_remove_all t = Some t' \<and> pa_kept t t' \<and> pa_lookup t' = (\<lambda>_. None)"
proof (cases "number_free t = pa_size t")
  case True
  then have "free_count (addr t) = length (addr t)" using pa_okD(1,3) [OF ok] by simp
  from empty_lookup [OF all_free [OF this]] show ?thesis
    using True kept_refl [OF ok room] pa_okD(1) [OF ok] by (simp add: opal_pointer_array_remove_all_def)
next
  case False
  let ?n = "length (addr t)"
  note D = pa_okD [OF ok]
  have w: "length (free_bits t) = (?n + 63) div 64" using D(2) by (simp add: bits_ok_def)
  let ?t = "t\<lparr>lowest_free := 0, number_free := pa_size t, addr := replicate ?n None, free_bits := replicate ((?n + 63) div 64) 0\<rparr>"
  have "opal_pointer_array_remove_all t = Some ?t"
    using False D(1) w by (simp add: opal_pointer_array_remove_all_def TYPE_ELEM_COUNT_nat)
  moreover have "pa_kept t ?t"
    using D room by (simp add: pa_kept_def pa_ok_def pa_room_def empty_slots)
  moreover have "pa_lookup ?t = (\<lambda>_. None)" using D(1) by (intro empty_lookup [of _ ?n]) simp_all
  ultimately show ?thesis by blast
qed

lemma put_step_ok:
  assumes ok: "pa_ok t" and room: "pa_room t" and fits: "i + 1 + block_size t \<le> INT_MAX"
  shows "\<exists>out t'. pa_step mem mem t (Put i x) = Some (out, t') \<and> pa_kept t t' \<and>
    pa_spec mem (pa_max_size t) (pa_lookup t) (Put i x) out (pa_lookup t')"
proof (cases "0 \<le> i")
  case True
  from cover_index [OF ok room True fits, of mem] show ?thesis
  proof (elim disjE exE conjE)
    fix t1
    assume g: "(if pa_size t \<le> i then grow_table mem mem t i else Some (True, t)) = Some (True, t1)"
      and kept: "pa_kept t t1" and same: "pa_lookup t1 = pa_lookup t" and len: "nat i < length (addr t1)"
    have ok1: "pa_ok t1" "pa_room t1" using kept by (auto simp: pa_kept_def)
    from put_at_ok [OF ok1(1) len] True obtain t' where t': "put_at t1 i x = Some t'" "slot_stored t1 (nat i) x t'" by auto
    have "pa_lookup t' = (pa_lookup t)(i := x)" using lookup_stored [OF ok1(1) len t'(2)] same True by simp
    with g t' True kept_trans [OF kept kept_stored [OF ok1 t'(2)]] show ?thesis
      by (simp add: opal_pointer_array_set_item_def)
  next
    assume "(if pa_size t \<le> i then grow_table mem mem t i else Some (True, t)) = Some (False, t)"
      and "mem \<longrightarrow> pa_max_size t \<le> i"
    then show ?thesis using True kept_refl [OF ok room] by (simp add: opal_pointer_array_set_item_def)
  qed
next
  case False
  then show ?thesis using kept_refl [OF ok room] by (simp add: opal_pointer_array_set_item_def)
qed

lemma reserve_step_ok:
  assumes ok: "pa_ok t" and room: "pa_room t" and i: "0 \<le> i" and fits: "i + 1 + block_size t \<le> INT_MAX"
  shows "\<exists>out t'. pa_step mem mem t (Reserve i v) = Some (out, t') \<and> pa_kept t t' \<and>
    pa_spec mem (pa_max_size t) (pa_lookup t) (Reserve i v) out (pa_lookup t')"
proof (cases "pa_lookup t i = None")
  case taken: False
  then have "i < pa_size t" "arr_get (addr t) i = Some (pa_lookup t i)"
    using i pa_okD(1) [OF ok] by (auto simp: pa_lookup_def arr_get_in split: if_splits)
  then show ?thesis using taken i kept_refl [OF ok room] by (auto simp: opal_pointer_array_test_and_set_item_def)
next
  case free: True
  have test: "(if i < pa_size t then map_option (\<lambda>p. p \<noteq> None) (arr_get (addr t) i) else Some False) = Some False"
    using free i pa_okD(1) [OF ok] by (auto simp: pa_lookup_def arr_get_in)
  from cover_index [OF ok room i fits, of mem] show ?thesis
  proof (elim disjE exE conjE)
    fix t1
    assume g: "(if pa_size t \<le> i then grow_table mem mem t i else Some (True, t)) = Some (True, t1)"
      and kept: "pa_kept t t1" and same: "pa_lookup t1 = pa_lookup t" and len: "nat i < length (addr t1)"
    have ok1: "pa_ok t1" "pa_room t1" using kept by (auto simp: pa_kept_def)
    have "addr t1 ! nat i = None" using lookup_free [OF ok1(1) len] same free i by simp
    from reserve_at_ok [OF ok1(1) len this] i obtain t'
      where t': "reserve_at t1 i (Some v) = Some t'" "slot_stored t1 (nat i) (Some v) t'" by auto
    have "pa_lookup t' = (pa_lookup t)(i \<mapsto> v)" using lookup_stored [OF ok1(1) len t'(2)] same i by simp
    with g t' i free test kept_trans [OF kept kept_stored [OF ok1 t'(2)]] show ?thesis
      by (simp add: opal_pointer_array_test_and_set_item_def)
  next
    assume "(if pa_size t \<le> i then grow_table mem mem t i else Some (True, t)) = Some (False, t)"
      and "mem \<longrightarrow> pa_max_size t \<le> i"
    then show ?thesis using i test kept_refl [OF ok room] by (simp add: opal_pointer_array_test_and_set_item_def)
  qed
qed

lemma resize_step_ok:
  assumes ok: "pa_ok t" and room: "pa_room t" and fits: "n + 1 + block_size t \<le> INT_MAX"
  shows "\<exists>out t'. pa_step mem mem t (Resize n) = Some (out, t') \<and> pa_kept t t' \<and>
    pa_spec mem (pa_max_size t) (pa_lookup t) (Resize n) out (pa_lookup t')"
proof (cases "n > pa_size t")
  case True
  then have "0 \<le> n" using pa_okD(1) [OF ok] by simp
  from cover_index [OF ok room this fits, of mem] show ?thesis
  proof (elim disjE exE conjE)
    fix t'
    assume "(if pa_size t \<le> n then grow_table mem mem t n else Some (True, t)) = Some (True, t')"
      and "pa_kept t t'" "pa_lookup t' = pa_lookup t"
    then show ?thesis using True by (intro exI [of _ Done] exI [of _ t']) (simp add: opal_pointer_array_set_size_def)
  next
    assume "(if pa_size t \<le> n then grow_table mem mem t n else Some (True, t)) = Some (False, t)"
      and "mem \<longrightarrow> pa_max_size t \<le> n"
    then show ?thesis using True kept_refl [OF ok room]
      by (intro exI [of _ Refused] exI [of _ t]) (simp add: opal_pointer_array_set_size_def)
  qed
next
  case False
  then show ?thesis using kept_refl [OF ok room] by (simp add: opal_pointer_array_set_size_def)
qed

lemma pa_step_ok:
  assumes ok: "pa_ok t" and room: "pa_room t" and fits: "op_fits (block_size t) op"
  shows "\<exists>out t'. pa_step mem mem t op = Some (out, t') \<and> pa_kept t t' \<and>
    pa_spec mem (pa_max_size t) (pa_lookup t) op out (pa_lookup t')"
proof (cases op)
  case (Add v)
  have "pa_lookup t j \<noteq> None" if "number_free t = 0" "pa_max_size t \<le> pa_size t + 1" "0 \<le> j" "j + 1 < pa_max_size t" for j
    using that lookup_below_lowest [OF ok, of j] pa_okD [OF ok] by (simp add: free_count_0)
  with add_ok [OF ok room, of mem v] kept_refl [OF ok room] show ?thesis unfolding Add by auto
next
  case (Clear)
  with remove_all_ok [OF ok room] show ?thesis by auto
next
  case (Fetch i)
  then show ?thesis using pa_okD(1) [OF ok] kept_refl [OF ok room]
    by (auto simp: opal_pointer_array_get_item_def pa_lookup_def arr_get_in)
qed (use put_step_ok [OF ok room] reserve_step_ok [OF ok room] resize_step_ok [OF ok room] fits in \<open>simp_all del: pa_step.simps pa_spec.simps\<close>)

text \<open>When the first allocation fails there is no second one.\<close>

lemma grow_first_fails: "grow_table False mem2 t n = grow_table False mem1 t n"
  by (simp add: grow_table_def Let_def)

lemma pa_step_first_fails:
  assumes "mem1 \<longrightarrow> mem2"
  shows "pa_step mem1 mem2 t op = pa_step mem1 mem1 t op"
proof (cases mem1)
  case False
  then show ?thesis using grow_first_fails [of mem2 t _ False]
    by (cases op) (simp_all add: opal_pointer_array_add_def opal_pointer_array_set_item_def
        opal_pointer_array_test_and_set_item_def opal_pointer_array_set_size_def)
qed (use assms in simp)

lemma pa_run_ok:
  assumes "pa_ok t" and "pa_room t" and "\<forall>((mem1, mem2), op) \<in> set ops. op_fits (block_size t) op \<and> (mem1 \<longrightarrow> mem2)"
  shows "\<exists>outs t'. pa_run t ops = Some (outs, t') \<and> pa_kept t t' \<and>
    pa_agrees (pa_max_size t) (pa_lookup t) ops outs (pa_lookup t')"
  using assms
proof (induction ops arbitrary: t)
  case Nil
  then show ?case by (simp add: kept_refl)
next
  case (Cons step ops)
  obtain mem1 mem2 op where step: "step = ((mem1, mem2), op)" by (metis surj_pair)
  have mem: "mem1 \<longrightarrow> mem2" "(mem1 \<and> mem2) = mem1" using Cons.prems(3) step by auto
  from pa_step_ok [OF Cons.prems(1,2), of op mem1] Cons.prems(3) step obtain out t1
    where t1: "pa_step mem1 mem1 t op = Some (out, t1)" "pa_kept t t1"
      "pa_spec mem1 (pa_max_size t) (pa_lookup t) op out (pa_lookup t1)" by auto
  with Cons.IH [of t1] Cons.prems(3) obtain outs t' where "pa_run t1 ops = Some (outs, t')" "pa_kept t1 t'"
    "pa_agrees (pa_max_size t1) (pa_lookup t1) ops outs (pa_lookup t')" by (auto simp: pa_kept_def)
  with t1 step kept_trans [OF t1(2)] show ?case
    unfolding step pa_run.simps pa_step_first_fails [OF mem(1)] by (auto simp: pa_kept_def mem(2) simp del: pa_step.simps)
qed

lemma validate_ok:
  assumes ok: "pa_ok t"
  shows "opal_pointer_array_validate t = Some ()"
proof -
  note D = pa_okD [OF ok]
  let ?g = "\<lambda>i. addr t ! nat i = None"
  have "validate_slot t i = Some (?g i)" if "i \<in> set [0..pa_size t - 1]" for i
  proof -
    have i: "0 \<le> i" "i < int (length (addr t))" "nat i < length (addr t)" using that D(1) by auto
    have w: "nat i div 64 < length (free_bits t)" by (rule pa_word_index [OF D(2) i(3)])
    have "arr_get (free_bits t) (i div 64) = Some (free_bits t ! (nat i div 64))"
      using arr_get_nat [OF w] i(1) by (simp add: zdiv_int)
    moreover have "(free_bits t ! (nat i div 64) AND push_bit (nat (i mod 64)) 1 = 0) = (addr t ! nat i = None)"
      using bits_okD [OF D(2) i(3)] i(1) single_bit_test by (metis nat_mod_distrib nat_numeral zero_le_numeral)
    ultimately show ?thesis using i(1,2) by (simp add: validate_slot_def arr_get_in)
  qed
  then have "mapo (validate_slot t) [0..pa_size t - 1] = Some (map ?g [0..pa_size t - 1])" by (rule mapo_Some)
  moreover have "map ?g [0..pa_size t - 1] = map (\<lambda>x. x = None) (addr t)"
    using D(1) by (intro nth_equalityI) auto
  moreover have "length (filter id (map (\<lambda>x. x = None) (addr t))) = free_count (addr t)"
    by (simp add: free_count_def filter_map comp_def)
  ultimately show ?thesis using D(3) by (simp add: opal_pointer_array_validate_def)
qed

lemma pa_init_ok:
  assumes init: "opal_pointer_array_init mem1 mem2 t0 n mx block = (OPAL_SUCCESS, t)"
    and "0 \<le> block" and "n \<le> mx" and "mx + 10 + block \<le> INT_MAX"
  shows "pa_ok t \<and> pa_room t \<and> pa_max_size t = mx \<and> pa_lookup t = (\<lambda>_. None)"
proof -
  define num where "num = nat (if 0 < n then n else block)"
  have num: "(if 0 < n then n else block) = int num" using assms(2) by (simp add: num_def)
  have mx: "block \<le> mx" using init by (auto simp: opal_pointer_array_init_def split: if_splits)
  have t: "t = t0\<lparr>pa_max_size := mx, block_size := (if block = 0 then 8 else block), lowest_free := 0,
      addr := replicate num None, free_bits := replicate ((num + 63) div 64) 0, number_free := int num, pa_size := int num\<rparr>"
    using init unfolding opal_pointer_array_init_def num Let_def TYPE_ELEM_COUNT_nat by (auto split: if_splits)
  have "pa_ok t" using assms(2) by (auto simp: t pa_ok_def empty_slots)
  moreover have "pa_room t" using mx num assms by (auto simp: t pa_room_def split: if_splits)
  moreover have "pa_lookup t = (\<lambda>_. None)" by (rule empty_lookup [of _ num]) (simp_all add: t)
  ultimately show ?thesis by (simp add: t)
qed

section \<open>Handles\<close>

definition pa_insert :: "bool \<Rightarrow> 'a pointer_array \<Rightarrow> 'a \<Rightarrow> (int \<times> 'a pointer_array) option" where
  "pa_insert mem t v =
     (case opal_pointer_array_add mem mem t (Some v) of Some (Inr i, t) \<Rightarrow> Some (i, t) | _ \<Rightarrow> None)"

definition pa_remove :: "bool \<Rightarrow> 'a pointer_array \<Rightarrow> int \<Rightarrow> 'a pointer_array option" where
  "pa_remove mem t i =
     (case opal_pointer_array_set_item mem mem t i None of Some (OPAL_SUCCESS, t) \<Rightarrow> Some t | _ \<Rightarrow> None)"

interpretation pa_slots: slot_table "\<lambda>t. pa_ok t \<and> pa_room t" "\<lambda>_. True" pa_lookup "pa_insert mem" "pa_remove mem"
  for mem :: bool
proof
  fix t :: "'a pointer_array" and v i t'
  assume inv: "pa_ok t \<and> pa_room t" and ins: "pa_insert mem t v = Some (i, t')"
  from add_ok [of t mem v] inv ins show "(pa_ok t' \<and> pa_room t') \<and> pa_lookup t i = None \<and> pa_lookup t' = (pa_lookup t)(i \<mapsto> v)"
    by (auto simp: pa_insert_def pa_kept_def)
next
  fix t :: "'a pointer_array" and i v
  assume inv: "pa_ok t \<and> pa_room t" and look: "pa_lookup t i = Some v"
  have ok: "pa_ok t" "pa_room t" using inv by auto
  have i: "0 \<le> i" "i < pa_size t" "nat i < length (addr t)"
    using look pa_okD(1) [OF ok(1)] by (auto simp: pa_lookup_def split: if_splits)
  from put_at_ok [OF ok(1) i(3), of None] i(1) obtain t' where t': "put_at t i None = Some t'" "slot_stored t (nat i) None t'" by auto
  have "pa_remove mem t i = Some t'" using i t'(1) by (simp add: pa_remove_def opal_pointer_array_set_item_def)
  moreover have "pa_lookup t' = (pa_lookup t)(i := None)" using lookup_stored [OF ok(1) i(3) t'(2)] i(1) by simp
  ultimately show "\<exists>t'. pa_remove mem t i = Some t' \<and> (pa_ok t' \<and> pa_room t') \<and> pa_lookup t' = (pa_lookup t)(i := None)"
    using kept_stored [OF ok t'(2)] by (auto simp: pa_kept_def)
qed

section \<open>Properties\<close>



text \<open>
  C24. Pointer array: the indices that a batch of \<open>opal_pointer_array_add\<close> calls returns are handles: they were
  free before, are pairwise distinct, each finds its own pointer and no other slot changes. Setting each
  of them back to \<open>NULL\<close> succeeds and restores the contents.
\<close>
theorem pointer_array_handles:
  assumes "pa_ok t" and "pa_room t" and "insert_all (pa_insert mem) t vs = Some (is, t')"
  shows "distinct is \<and> length is = length vs \<and>
    (\<forall>k < length vs. pa_lookup t (is ! k) = None \<and> pa_lookup t' (is ! k) = Some (vs ! k)) \<and>
    (\<forall>i. i \<notin> set is \<longrightarrow> pa_lookup t' i = pa_lookup t i) \<and>
    (\<exists>t''. remove_all (pa_remove mem) t' is = Some t'' \<and> pa_ok t'' \<and> pa_lookup t'' = pa_lookup t)"
  using pa_slots.insert_all_handles [of t vs mem "is" t'] pa_slots.insert_all_remove_all [of t vs mem "is" t'] assms by auto

theorem pointer_array_handles_witness:
  "\<exists>t is t'. pa_ok t \<and> pa_room t \<and> insert_all (pa_insert True) t [5, 6, 7 :: nat] = Some (is, t') \<and> distinct is \<and>
    (\<forall>k < 3. pa_lookup t' (is ! k) = Some ([5, 6, 7] ! k)) \<and>
    (\<exists>t''. remove_all (pa_remove True) t' is = Some t'' \<and> pa_lookup t'' = pa_lookup t)"
proof -
  let ?t = "snd (opal_pointer_array_init True True (opal_pointer_array_construct :: nat pointer_array) 2 10 2)"
  have ok: "pa_ok ?t" "pa_room ?t"
    using pa_init_ok [of True True "opal_pointer_array_construct :: nat pointer_array" 2 10 2 ?t]
    by (simp_all add: opal_pointer_array_init_def Let_def INT_MAX_def)
  have "insert_all (pa_insert True) ?t [5, 6, 7] \<noteq> None" by code_simp
  then obtain "is" t' where ins: "insert_all (pa_insert True) ?t [5, 6, 7] = Some (is, t')" by fast
  from pointer_array_handles [OF ok ins] ok ins show ?thesis
    by (intro exI [of _ ?t] exI [of _ "is"] exI [of _ t']) auto
qed

text \<open>
  C36. Pointer array: \<open>opal_pointer_array_add\<close> asks \<open>grow_table\<close> for one slot too many, so a full array whose
  size is one below its maximum refuses every further pointer although memory is available, while
  \<open>opal_pointer_array_set_item\<close> can still fill that last slot.
\<close>
theorem pointer_array_add_misses_last_slot:
  assumes ok: "pa_ok t" and room: "pa_room t" and full: "number_free t = 0" and last: "pa_max_size t = pa_size t + 1"
  shows "opal_pointer_array_add True True t (Some v) = Some (Inl OPAL_ERR_OUT_OF_RESOURCE, t) \<and>
    (\<exists>t'. opal_pointer_array_set_item True True t (pa_size t) (Some v) = Some (OPAL_SUCCESS, t') \<and>
      pa_ok t' \<and> pa_lookup t' = (pa_lookup t)(pa_size t \<mapsto> v))"
proof (rule conjI)
  have n: "pa_size t + 1 = int (Suc (length (addr t)))" using pa_okD(1) [OF ok] by simp
  have "grow_table True True t (pa_size t + 1) = Some (False, t)"
    using grow_table_ok [OF ok, of "Suc (length (addr t))" True] room last unfolding n by (simp add: pa_room_def)
  then show "opal_pointer_array_add True True t (Some v) = Some (Inl OPAL_ERR_OUT_OF_RESOURCE, t)"
    using full room pa_okD(5) [OF ok] by (simp add: opal_pointer_array_add_def pa_room_def)
next
  have size: "0 \<le> pa_size t" using pa_okD(1) [OF ok] by simp
  have fits: "pa_size t + 1 + block_size t \<le> INT_MAX" using room last by (simp add: pa_room_def)
  from cover_index [OF ok room size fits, of True] last obtain t1
    where t1: "grow_table True True t (pa_size t) = Some (True, t1)" "pa_kept t t1" "pa_lookup t1 = pa_lookup t"
      "nat (pa_size t) < length (addr t1)" by auto
  have ok1: "pa_ok t1" using t1(2) by (simp add: pa_kept_def)
  from put_at_ok [OF ok1 t1(4), of "Some v"] size obtain t'
    where t': "put_at t1 (pa_size t) (Some v) = Some t'" "slot_stored t1 (nat (pa_size t)) (Some v) t'" by auto
  show "\<exists>t'. opal_pointer_array_set_item True True t (pa_size t) (Some v) = Some (OPAL_SUCCESS, t') \<and>
      pa_ok t' \<and> pa_lookup t' = (pa_lookup t)(pa_size t \<mapsto> v)"
    using t1 t' size lookup_stored [OF ok1 t1(4) t'(2)]
    by (intro exI [of _ t']) (simp add: opal_pointer_array_set_item_def slot_stored_def)
qed

theorem pointer_array_add_misses_last_slot_witness:
  "let t = \<lparr>lowest_free = 1, number_free = 0, pa_size = 1, pa_max_size = 2, block_size = 1, free_bits = [1], addr = [Some (5 :: nat)]\<rparr>
   in opal_pointer_array_add True True t (Some 7) = Some (Inl OPAL_ERR_OUT_OF_RESOURCE, t) \<and>
     (\<exists>t'. opal_pointer_array_set_item True True t 1 (Some 7) = Some (OPAL_SUCCESS, t') \<and> pa_ok t' \<and>
       pa_lookup t' = (pa_lookup t)(1 \<mapsto> 7))"
proof -
  let ?t = "\<lparr>lowest_free = 1, number_free = 0, pa_size = 1, pa_max_size = 2, block_size = 1, free_bits = [1], addr = [Some (5 :: nat)]\<rparr>"
  have "pa_ok ?t" by (auto simp: pa_ok_def bits_ok_def taken_bit_def free_count_def first_free_def bit_1_iff)
  moreover have "pa_room ?t" by (simp add: pa_room_def INT_MAX_def)
  ultimately show ?thesis using pointer_array_add_misses_last_slot [of ?t 7] unfolding Let_def by simp
qed



end
