(* ===== verification/Ucp_Tag_Match.thy ===== *)
theory Ucp_Tag_Match
  imports Mpi_Ucx_Prelude
begin

text \<open>
  Software tag matching of UCP: \<^verbatim>\<open>ucp/tag/tag_match.c\<close>, \<^verbatim>\<open>.h\<close> and \<^verbatim>\<open>.inl\<close>. Posted receives wait in one queue per hash
  bucket when their mask is full and in the wildcard queue otherwise, ordered by a sequence number; messages
  that no receive expects wait in a list per bucket and in one list of all. The theory shows that this is
  the same as one list of receives in the order they were posted and one list of messages in the order they
  arrived, searched from the front.

  Requests, receive descriptors and user buffers live in stores indexed by pointers (natural numbers); queues are lists of
  pointers, as \<^verbatim>\<open>Ucs_Queue\<close> justifies for the linked ones. Hardware tag offload is not in the model: the
  offload threshold has the value \<open>SIZE_MAX\<close> that \<open>ucp_tag_match_init\<close> gives it, so \<open>ucp_tag_offload_try_post\<close>
  always takes its counting branch and \<open>ucp_tag_offload_try_cancel\<close> does nothing. Tracing and statistics are left
  out. An assertion that fails and the use of a pointer that is not in its store are faults.
\<close>

unbundle bit_operations_syntax

section \<open>State\<close>

record request =
  req_status :: ucs_status
  req_completed :: bool
  req_offloaded :: bool
  req_block_offload :: bool
  req_tag :: u64
  req_tag_mask :: u64
  req_sn :: u64
  req_remaining :: nat
  req_buffer :: nat
  req_length :: nat
  req_sender_tag :: u64
  req_info_length :: nat

text \<open>
  The header that starts the data of a descriptor, with the fields of the packed structures of \<^verbatim>\<open>eager.h\<close>.
\<close>

datatype eager_hdr =
    Eager_hdr u64
  | Eager_first_hdr u64 nat u64
  | Eager_middle_hdr u64 nat

text \<open>
  A descriptor with its flags \<open>EAGER_ONLY\<close> and \<open>EAGER_SYNC\<close> (with the identifier of the sender's request), header and
  payload.
\<close>

record recv_desc =
  desc_only :: bool
  desc_sync :: "u64 option"
  desc_hdr :: eager_hdr
  desc_payload :: "u8 list"

record request_queue =
  queue :: "nat list"
  sw_count :: u32
  block_count :: u32

datatype frag_match = Unexp_q "nat list" | Exp_req nat

record worker =
  reqs :: "nat \<rightharpoonup> request"
  descs :: "nat \<rightharpoonup> recv_desc"
  bufs :: "nat \<rightharpoonup> u8 list"
  exp_wildcard :: request_queue
  exp_hash :: "request_queue list"
  exp_sn :: u64
  sw_all_count :: u32
  unexp_all :: "nat list"
  unexp_hash :: "nat list list"
  frag_hash :: "u64 \<rightharpoonup> frag_match"
  sync_acks :: "u64 list"
  completions :: "(nat \<times> ucs_status) list"

section \<open>Matching and hashing\<close>

definition UCP_TAG_MASK_FULL :: u64 where
  "UCP_TAG_MASK_FULL = 0xffffffffffffffff"

definition UCP_TAG_MATCH_HASH_SIZE :: u32 where
  "UCP_TAG_MATCH_HASH_SIZE = 1021"

text \<open>The number of buckets, \<open>ucs_roundup_pow2(UCP_TAG_MATCH_HASH_SIZE)\<close>.\<close>

definition hash_size :: nat where
  "hash_size = 1024"

definition ucp_tag_is_specific_source :: "u64 \<Rightarrow> u64 \<Rightarrow> bool" where
  "ucp_tag_is_specific_source tag_sender_mask tag_mask \<longleftrightarrow> tag_sender_mask AND tag_mask = tag_sender_mask"

definition ucp_tag_is_match :: "u64 \<Rightarrow> u64 \<Rightarrow> u64 \<Rightarrow> bool" where
  "ucp_tag_is_match tag exp_tag tag_mask \<longleftrightarrow> (tag XOR exp_tag) AND tag_mask = 0"

definition ucp_tag_match_calc_hash :: "u64 \<Rightarrow> nat" where
  "ucp_tag_match_calc_hash tag =
     unat ((ucast tag mod UCP_TAG_MATCH_HASH_SIZE) XOR (ucast (drop_bit 32 tag) mod UCP_TAG_MATCH_HASH_SIZE))"

definition empty_queue :: request_queue where
  "empty_queue = \<lparr>queue = [], sw_count = 0, block_count = 0\<rparr>"

text \<open>The worker starts zeroed, which gives the counters of the wildcard queue their value.\<close>

definition ucp_tag_match_init :: "bool \<Rightarrow> bool \<Rightarrow> worker \<Rightarrow> ucs_status \<times> worker" where
  "ucp_tag_match_init mem1 mem2 w =
     (let w = w\<lparr>exp_sn := 0, sw_all_count := 0, exp_wildcard := (exp_wildcard w)\<lparr>queue := []\<rparr>, unexp_all := []\<rparr>
      in if \<not> mem1 then (UCS_ERR_NO_MEMORY, w\<lparr>exp_hash := []\<rparr>)
         else if \<not> mem2 then (UCS_ERR_NO_MEMORY, w\<lparr>exp_hash := [], unexp_hash := []\<rparr>)
         else (UCS_OK, w\<lparr>exp_hash := replicate hash_size empty_queue, unexp_hash := replicate hash_size [],
                         frag_hash := Map.empty\<rparr>))"

section \<open>Expected requests\<close>

text \<open>The queue a request waits in; \<open>get_queue\<close> and \<open>set_queue\<close> follow the pointer to it.\<close>

datatype queue_ref = Wildcard | Bucket nat

definition get_queue :: "worker \<Rightarrow> queue_ref \<Rightarrow> request_queue option" where
  "get_queue w q = (case q of Wildcard \<Rightarrow> Some (exp_wildcard w) | Bucket b \<Rightarrow> arr_get (exp_hash w) (int b))"

definition set_queue :: "worker \<Rightarrow> queue_ref \<Rightarrow> request_queue \<Rightarrow> worker" where
  "set_queue w q rq =
     (case q of Wildcard \<Rightarrow> w\<lparr>exp_wildcard := rq\<rparr> | Bucket b \<Rightarrow> w\<lparr>exp_hash := (exp_hash w)[b := rq]\<rparr>)"

definition ucp_tag_exp_get_queue_for_tag :: "u64 \<Rightarrow> queue_ref" where
  "ucp_tag_exp_get_queue_for_tag tag = Bucket (ucp_tag_match_calc_hash tag)"

definition ucp_tag_exp_get_queue :: "u64 \<Rightarrow> u64 \<Rightarrow> queue_ref" where
  "ucp_tag_exp_get_queue tag tag_mask =
     (if tag_mask = UCP_TAG_MASK_FULL then ucp_tag_exp_get_queue_for_tag tag else Wildcard)"

definition ucp_tag_exp_get_req_queue :: "request \<Rightarrow> queue_ref" where
  "ucp_tag_exp_get_req_queue req = ucp_tag_exp_get_queue (req_tag req) (req_tag_mask req)"

definition ucp_tag_exp_push :: "worker \<Rightarrow> queue_ref \<Rightarrow> nat \<Rightarrow> worker option" where
  "ucp_tag_exp_push w q p =
     (case (reqs w p, get_queue w q) of
        (Some req, Some rq) \<Rightarrow>
          Some (set_queue (w\<lparr>reqs := (reqs w)(p \<mapsto> req\<lparr>req_sn := exp_sn w\<rparr>), exp_sn := exp_sn w + 1\<rparr>) q
                 (rq\<lparr>queue := queue rq @ [p]\<rparr>))
      | _ \<Rightarrow> None)"

definition ucp_tag_exp_delete :: "nat \<Rightarrow> worker \<Rightarrow> queue_ref \<Rightarrow> worker option" where
  "ucp_tag_exp_delete p w q =
     (case (reqs w p, get_queue w q) of
        (Some req, Some rq) \<Rightarrow>
          (let rq' = rq\<lparr>queue := remove1 p (queue rq)\<rparr>
           in if req_offloaded req then Some (set_queue w q rq')
              else Some (set_queue (w\<lparr>sw_all_count := sw_all_count w - 1\<rparr>) q
                     (rq'\<lparr>sw_count := sw_count rq - 1,
                          block_count := (if req_block_offload req then block_count rq - 1 else block_count rq)\<rparr>)))
      | _ \<Rightarrow> None)"

text \<open>The counting branch; see above for the other one.\<close>

definition ucp_tag_offload_try_post :: "worker \<Rightarrow> nat \<Rightarrow> queue_ref \<Rightarrow> worker option" where
  "ucp_tag_offload_try_post w p q =
     (case (reqs w p, get_queue w q) of
        (Some req, Some rq) \<Rightarrow>
          Some (set_queue (w\<lparr>sw_all_count := sw_all_count w + 1\<rparr>) q
                 (rq\<lparr>sw_count := sw_count rq + 1,
                     block_count := block_count rq + (if req_block_offload req then 1 else 0)\<rparr>))
      | _ \<Rightarrow> None)"

text \<open>The search of a queue from its head for a request that passes a test.\<close>

fun first_req :: "(nat \<rightharpoonup> request) \<Rightarrow> (request \<Rightarrow> bool) \<Rightarrow> nat list \<Rightarrow> nat option option" where
  "first_req rs test [] = Some None"
| "first_req rs test (p # ps) =
     (case rs p of
        None \<Rightarrow> None
      | Some req \<Rightarrow> (if test req then Some (Some p) else first_req rs test ps))"

fun ucp_tag_exp_req_seq :: "(nat \<rightharpoonup> request) \<Rightarrow> nat list \<Rightarrow> u64 option" where
  "ucp_tag_exp_req_seq rs [] = Some (-1)"
| "ucp_tag_exp_req_seq rs (p # ps) = map_option req_sn (rs p)"

fun search_all_loop ::
  "(nat \<rightharpoonup> request) \<Rightarrow> u64 \<Rightarrow> nat list \<Rightarrow> nat list \<Rightarrow> (bool \<times> nat) option option" where
  "search_all_loop rs tag hash_iter wild_iter =
     (case (ucp_tag_exp_req_seq rs hash_iter, ucp_tag_exp_req_seq rs wild_iter) of
        (Some hash_sn, Some wild_sn) \<Rightarrow>
          (if hash_sn = wild_sn
           then (if hash_sn = -1 \<and> hash_iter = [] \<and> wild_iter = [] then Some None else None)
           else if hash_sn < wild_sn
           then (case hash_iter of
                   [] \<Rightarrow> None
                 | p # hash_iter' \<Rightarrow>
                     (case rs p of
                        None \<Rightarrow> None
                      | Some req \<Rightarrow>
                          (if ucp_tag_is_match tag (req_tag req) (req_tag_mask req) then Some (Some (True, p))
                           else search_all_loop rs tag hash_iter' wild_iter)))
           else (case wild_iter of
                   [] \<Rightarrow> None
                 | p # wild_iter' \<Rightarrow>
                     (case rs p of
                        None \<Rightarrow> None
                      | Some req \<Rightarrow>
                          (if ucp_tag_is_match tag (req_tag req) (req_tag_mask req) then Some (Some (False, p))
                           else search_all_loop rs tag hash_iter wild_iter'))))
      | _ \<Rightarrow> None)"

definition ucp_tag_exp_search_all :: "worker \<Rightarrow> queue_ref \<Rightarrow> u64 \<Rightarrow> (nat option \<times> worker) option" where
  "ucp_tag_exp_search_all w req_queue tag =
     (case get_queue w req_queue of
        None \<Rightarrow> None
      | Some rq \<Rightarrow>
          (case search_all_loop (reqs w) tag (queue rq) (queue (exp_wildcard w)) of
             None \<Rightarrow> None
           | Some None \<Rightarrow> Some (None, w)
           | Some (Some (in_hash, p)) \<Rightarrow>
               map_option (Pair (Some p)) (ucp_tag_exp_delete p w (if in_hash then req_queue else Wildcard))))"

definition ucp_tag_exp_search :: "worker \<Rightarrow> u64 \<Rightarrow> (nat option \<times> worker) option" where
  "ucp_tag_exp_search w tag =
     (let req_queue = ucp_tag_exp_get_queue_for_tag tag
      in if queue (exp_wildcard w) \<noteq> [] then ucp_tag_exp_search_all w req_queue tag
         else
           (case get_queue w req_queue of
              None \<Rightarrow> None
            | Some rq \<Rightarrow>
                (case first_req (reqs w) (\<lambda>req. ucp_tag_is_match tag (req_tag req) (req_tag_mask req)) (queue rq) of
                   None \<Rightarrow> None
                 | Some None \<Rightarrow> Some (None, w)
                 | Some (Some p) \<Rightarrow> map_option (Pair (Some p)) (ucp_tag_exp_delete p w req_queue))))"

definition ucp_tag_exp_remove :: "worker \<Rightarrow> nat \<Rightarrow> (bool \<times> worker) option" where
  "ucp_tag_exp_remove w p =
     (case reqs w p of
        None \<Rightarrow> None
      | Some req \<Rightarrow>
          (let q = ucp_tag_exp_get_req_queue req
           in case get_queue w q of
                None \<Rightarrow> None
              | Some rq \<Rightarrow>
                  (if p \<in> set (queue rq) then map_option (Pair True) (ucp_tag_exp_delete p w q)
                   else if req_completed req then None
                   else Some (False, w))))"

section \<open>Unexpected messages\<close>

text \<open>The tag is the first field of the data, whatever header that is.\<close>

definition ucp_rdesc_get_tag :: "recv_desc \<Rightarrow> u64" where
  "ucp_rdesc_get_tag rdesc =
     (case desc_hdr rdesc of Eager_hdr tag \<Rightarrow> tag | Eager_first_hdr tag total_len msg_id \<Rightarrow> tag
      | Eager_middle_hdr msg_id offset \<Rightarrow> msg_id)"

definition ucp_tag_unexp_is_empty :: "worker \<Rightarrow> bool" where
  "ucp_tag_unexp_is_empty w \<longleftrightarrow> unexp_all w = []"

definition ucp_tag_unexp_remove :: "worker \<Rightarrow> nat \<Rightarrow> worker" where
  "ucp_tag_unexp_remove w d = w\<lparr>unexp_hash := map (remove1 d) (unexp_hash w), unexp_all := remove1 d (unexp_all w)\<rparr>"

definition ucp_tag_unexp_recv :: "worker \<Rightarrow> nat \<Rightarrow> u64 \<Rightarrow> worker option" where
  "ucp_tag_unexp_recv w d tag =
     (let b = ucp_tag_match_calc_hash tag
      in map_option (\<lambda>l. w\<lparr>unexp_hash := (unexp_hash w)[b := l @ [d]], unexp_all := unexp_all w @ [d]\<rparr>)
           (arr_get (unexp_hash w) (int b)))"

fun first_desc :: "(nat \<rightharpoonup> recv_desc) \<Rightarrow> u64 \<Rightarrow> u64 \<Rightarrow> nat list \<Rightarrow> nat option option" where
  "first_desc ds tag tag_mask [] = Some None"
| "first_desc ds tag tag_mask (d # l) =
     (case ds d of
        None \<Rightarrow> None
      | Some rdesc \<Rightarrow>
          (if ucp_tag_is_match (ucp_rdesc_get_tag rdesc) tag tag_mask then Some (Some d)
           else first_desc ds tag tag_mask l))"

definition ucp_tag_unexp_search :: "worker \<Rightarrow> u64 \<Rightarrow> u64 \<Rightarrow> bool \<Rightarrow> (nat option \<times> worker) option" where
  "ucp_tag_unexp_search w tag tag_mask rem =
     (if unexp_all w = [] then Some (None, w)
      else
        (case (if tag_mask = UCP_TAG_MASK_FULL then arr_get (unexp_hash w) (int (ucp_tag_match_calc_hash tag))
               else Some (unexp_all w)) of
           None \<Rightarrow> None
         | Some l \<Rightarrow>
             map_option
               (\<lambda>r. (r, case r of None \<Rightarrow> w | Some d \<Rightarrow> if rem then ucp_tag_unexp_remove w d else w))
               (first_desc (descs w) tag tag_mask l)))"

fun cleanup_loop :: "worker \<Rightarrow> nat list \<Rightarrow> worker" where
  "cleanup_loop w [] = w"
| "cleanup_loop w (d # l) = cleanup_loop ((ucp_tag_unexp_remove w d)\<lparr>descs := (descs w)(d := None)\<rparr>) l"

definition ucp_tag_match_cleanup :: "worker \<Rightarrow> worker" where
  "ucp_tag_match_cleanup w =
     (cleanup_loop w (unexp_all w))\<lparr>frag_hash := Map.empty, unexp_hash := [], exp_hash := []\<rparr>"

section \<open>The hash is inside the table\<close>

lemma uint_mod_hash_size: "uint ((x :: u32) mod 1021) < 2 ^ 10"
proof -
  have "uint (x mod 1021) = uint x mod 1021" by (simp add: uint_mod)
  also have "\<dots> < 1021" by (rule pos_mod_bound) simp
  finally show ?thesis by simp
qed

lemma calc_hash_less: "ucp_tag_match_calc_hash tag < hash_size"
proof -
  have "unat (x XOR y) < 1024" if "uint x < 2 ^ 10" "uint y < 2 ^ 10" for x y :: u32
  proof -
    have "uint (x XOR y) < 2 ^ 10" using that XOR_upper [of "uint x" 10 "uint y"] by (simp add: uint_xor)
    then show ?thesis unfolding unat_eq_nat_uint by (subst nat_less_iff) simp_all
  qed
  from this [OF uint_mod_hash_size uint_mod_hash_size] show ?thesis
    unfolding ucp_tag_match_calc_hash_def UCP_TAG_MATCH_HASH_SIZE_def hash_size_def .
qed

lemma mask_full_ones: "UCP_TAG_MASK_FULL = -1"
  by (simp add: UCP_TAG_MASK_FULL_def)

lemma full_mask_match: "ucp_tag_is_match tag exp_tag UCP_TAG_MASK_FULL \<longleftrightarrow> tag = exp_tag"
  unfolding ucp_tag_is_match_def mask_full_ones by (auto simp: bit_eq_iff bit_simps)

section \<open>Invariant\<close>

text \<open>
  \<open>tm_ok w E\<close>: the posted requests are \<open>E\<close>, in the order of posting; each queue is \<open>E\<close> restricted to the
  requests that belong there, and each list of unexpected messages is the list of all restricted to the
  tags of its bucket.
\<close>

definition in_queue :: "(nat \<rightharpoonup> request) \<Rightarrow> queue_ref \<Rightarrow> nat \<Rightarrow> bool" where
  "in_queue rs q p \<longleftrightarrow> (\<exists>req. rs p = Some req \<and> ucp_tag_exp_get_req_queue req = q)"

definition blocked :: "(nat \<rightharpoonup> request) \<Rightarrow> nat \<Rightarrow> bool" where
  "blocked rs p \<longleftrightarrow> (\<exists>req. rs p = Some req \<and> req_block_offload req)"

definition queue_of :: "(nat \<rightharpoonup> request) \<Rightarrow> queue_ref \<Rightarrow> nat list \<Rightarrow> request_queue" where
  "queue_of rs q E =
     \<lparr>queue = filter (in_queue rs q) E, sw_count = of_nat (length (filter (in_queue rs q) E)),
      block_count = of_nat (length (filter (blocked rs) (filter (in_queue rs q) E)))\<rparr>"

definition sn_of :: "(nat \<rightharpoonup> request) \<Rightarrow> nat \<Rightarrow> u64" where
  "sn_of rs p = (case rs p of None \<Rightarrow> 0 | Some req \<Rightarrow> req_sn req)"

definition waiting :: "request \<Rightarrow> bool" where
  "waiting req \<longleftrightarrow> \<not> req_completed req \<and> \<not> req_offloaded req \<and> req_status req = UCS_OK"

definition exp_ok :: "worker \<Rightarrow> nat list \<Rightarrow> bool" where
  "exp_ok w E \<longleftrightarrow> length (exp_hash w) = hash_size \<and> distinct E \<and>
     (\<forall>p \<in> set E. \<exists>req. reqs w p = Some req \<and> waiting req \<and> req_sn req < exp_sn w) \<and>
     sorted_wrt (\<lambda>p q. sn_of (reqs w) p < sn_of (reqs w) q) E \<and>
     exp_wildcard w = queue_of (reqs w) Wildcard E \<and>
     (\<forall>b < hash_size. exp_hash w ! b = queue_of (reqs w) (Bucket b) E) \<and>
     sw_all_count w = of_nat (length E)"

definition tag_of :: "(nat \<rightharpoonup> recv_desc) \<Rightarrow> nat \<Rightarrow> u64" where
  "tag_of ds d = (case ds d of None \<Rightarrow> 0 | Some rdesc \<Rightarrow> ucp_rdesc_get_tag rdesc)"

definition unexp_ok :: "worker \<Rightarrow> bool" where
  "unexp_ok w \<longleftrightarrow> length (unexp_hash w) = hash_size \<and> distinct (unexp_all w) \<and>
     (\<forall>d \<in> set (unexp_all w). descs w d \<noteq> None) \<and>
     (\<forall>b < hash_size. unexp_hash w ! b =
        filter (\<lambda>d. ucp_tag_match_calc_hash (tag_of (descs w) d) = b) (unexp_all w))"

definition tm_ok :: "worker \<Rightarrow> nat list \<Rightarrow> bool" where
  "tm_ok w E \<longleftrightarrow> exp_ok w E \<and> unexp_ok w"

definition valid_ref :: "queue_ref \<Rightarrow> bool" where
  "valid_ref q \<longleftrightarrow> (case q of Wildcard \<Rightarrow> True | Bucket b \<Rightarrow> b < hash_size)"

lemma valid_for_tag [simp]: "valid_ref (ucp_tag_exp_get_queue_for_tag tag)"
  by (simp add: valid_ref_def ucp_tag_exp_get_queue_for_tag_def calc_hash_less)

lemma valid_get_queue [simp]: "valid_ref (ucp_tag_exp_get_queue tag tag_mask)"
  unfolding ucp_tag_exp_get_queue_def using valid_for_tag by (simp add: valid_ref_def)

lemma valid_req_queue [simp]: "valid_ref (ucp_tag_exp_get_req_queue req)"
  by (simp add: ucp_tag_exp_get_req_queue_def)

lemma exp_okD:
  assumes "exp_ok w E"
  shows "length (exp_hash w) = hash_size" "distinct E"
    "\<And>p. p \<in> set E \<Longrightarrow> \<exists>req. reqs w p = Some req \<and> waiting req \<and> req_sn req < exp_sn w"
    "sorted_wrt (\<lambda>p q. sn_of (reqs w) p < sn_of (reqs w) q) E" "exp_wildcard w = queue_of (reqs w) Wildcard E"
    "\<And>b. b < hash_size \<Longrightarrow> exp_hash w ! b = queue_of (reqs w) (Bucket b) E" "sw_all_count w = of_nat (length E)"
  using assms by (auto simp: exp_ok_def)

lemma get_queue_ok: "exp_ok w E \<Longrightarrow> valid_ref q \<Longrightarrow> get_queue w q = Some (queue_of (reqs w) q E)"
  by (cases q) (auto simp: get_queue_def valid_ref_def exp_ok_def arr_get_nat)

text \<open>A change of one queue that fits the new list of posted requests.\<close>

lemma set_queue_ok:
  assumes ok: "exp_ok w E" and q: "valid_ref q" and w': "w' = set_queue w0 q (queue_of (reqs w0) q E')"
    and same: "exp_hash w0 = exp_hash w" "exp_wildcard w0 = exp_wildcard w"
    and others: "\<And>q'. q' \<noteq> q \<Longrightarrow> queue_of (reqs w0) q' E' = queue_of (reqs w) q' E"
    and E': "distinct E'" "\<And>p. p \<in> set E' \<Longrightarrow> \<exists>req. reqs w0 p = Some req \<and> waiting req \<and> req_sn req < exp_sn w0"
      "sorted_wrt (\<lambda>p q. sn_of (reqs w0) p < sn_of (reqs w0) q) E'" "sw_all_count w0 = of_nat (length E')"
  shows "exp_ok w' E'"
proof (cases q)
  case Wildcard
  then show ?thesis using exp_okD [OF ok] w' same E' others by (auto simp: exp_ok_def set_queue_def)
next
  case (Bucket b)
  then have "b < hash_size" using q by (simp add: valid_ref_def)
  with Bucket show ?thesis using exp_okD [OF ok] w' same E' others
    by (auto simp: exp_ok_def set_queue_def nth_list_update)
qed

section \<open>Searching the posted requests\<close>

definition req_matches :: "(nat \<rightharpoonup> request) \<Rightarrow> u64 \<Rightarrow> nat \<Rightarrow> bool" where
  "req_matches rs tag p \<longleftrightarrow> (\<exists>req. rs p = Some req \<and> ucp_tag_is_match tag (req_tag req) (req_tag_mask req))"

text \<open>A request that matches a tag waits in the bucket of the tag or in the wildcard queue.\<close>

lemma match_queue:
  assumes "req_matches rs tag p"
  shows "in_queue rs (ucp_tag_exp_get_queue_for_tag tag) p \<or> in_queue rs Wildcard p"
  using assms
  by (auto simp: req_matches_def in_queue_def ucp_tag_exp_get_req_queue_def ucp_tag_exp_get_queue_def full_mask_match)

lemma in_queue_unique: "in_queue rs q p \<Longrightarrow> in_queue rs q' p \<Longrightarrow> q = q'"
  by (auto simp: in_queue_def)

lemma for_tag_not_wildcard: "ucp_tag_exp_get_queue_for_tag tag \<noteq> Wildcard"
  by (simp add: ucp_tag_exp_get_queue_for_tag_def)

lemma seq_after:
  assumes "\<forall>q \<in> set E. sn_of rs p < sn_of rs q" and "\<forall>q \<in> set E. rs q \<noteq> None" and "sn_of rs p < u"
  obtains sn where "ucp_tag_exp_req_seq rs (filter P E) = Some sn" "sn_of rs p < sn"
proof (cases "filter P E")
  case Nil
  moreover have "sn_of rs p < -1" using assms(3) less_le_trans word_order.extremum by blast
  ultimately show ?thesis using that by simp
next
  case (Cons q qs)
  then have "q \<in> set (filter P E)" by simp
  then have "q \<in> set E" by simp
  with assms(1,2) Cons that show ?thesis by (auto simp: sn_of_def split: option.splits)
qed

declare search_all_loop.simps [simp del]

lemma search_hash_step:
  "rs p = Some req \<Longrightarrow> ucp_tag_exp_req_seq rs wild = Some sn \<Longrightarrow> req_sn req < sn \<Longrightarrow>
   search_all_loop rs tag (p # hash) wild =
     (if ucp_tag_is_match tag (req_tag req) (req_tag_mask req) then Some (Some (True, p)) else search_all_loop rs tag hash wild)"
  by (subst search_all_loop.simps) auto

lemma search_wild_step:
  "rs p = Some req \<Longrightarrow> ucp_tag_exp_req_seq rs hash = Some sn \<Longrightarrow> req_sn req < sn \<Longrightarrow>
   search_all_loop rs tag hash (p # wild) =
     (if ucp_tag_is_match tag (req_tag req) (req_tag_mask req) then Some (Some (False, p)) else search_all_loop rs tag hash wild)"
  by (subst search_all_loop.simps) auto

lemma req_matches_Some: "rs p = Some req \<Longrightarrow> req_matches rs tag p = ucp_tag_is_match tag (req_tag req) (req_tag_mask req)"
  by (simp add: req_matches_def)

lemma search_all_loop_finds:
  assumes "\<forall>p \<in> set E. \<exists>req. rs p = Some req \<and> req_sn req < u"
    and "sorted_wrt (\<lambda>p q. sn_of rs p < sn_of rs q) E"
  shows "search_all_loop rs tag (filter (in_queue rs (ucp_tag_exp_get_queue_for_tag tag)) E) (filter (in_queue rs Wildcard) E) =
    Some (map_option (\<lambda>p. (in_queue rs (ucp_tag_exp_get_queue_for_tag tag) p, p)) (find (req_matches rs tag) E))"
  using assms
proof (induction E)
  case Nil
  then show ?case by (simp add: search_all_loop.simps)
next
  case (Cons p E)
  let ?B = "ucp_tag_exp_get_queue_for_tag tag"
  from Cons.prems obtain req where req: "rs p = Some req" "req_sn req < u" by auto
  then have sn: "sn_of rs p = req_sn req" by (simp add: sn_of_def)
  have later: "\<forall>q \<in> set E. sn_of rs p < sn_of rs q" "\<forall>q \<in> set E. rs q \<noteq> None" using Cons.prems by auto
  have IH: "search_all_loop rs tag (filter (in_queue rs ?B) E) (filter (in_queue rs Wildcard) E) =
    Some (map_option (\<lambda>p. (in_queue rs ?B p, p)) (find (req_matches rs tag) E))"
    using Cons by simp
  consider (hash) "in_queue rs ?B p" "\<not> in_queue rs Wildcard p" | (wild) "in_queue rs Wildcard p" "\<not> in_queue rs ?B p"
    | (other) "\<not> in_queue rs ?B p" "\<not> in_queue rs Wildcard p"
    using in_queue_unique for_tag_not_wildcard by blast
  then show ?case
  proof cases
    case hash
    obtain sn' where "ucp_tag_exp_req_seq rs (filter (in_queue rs Wildcard) E) = Some sn'" "req_sn req < sn'"
      using seq_after [OF later, of u] req(2) sn by auto
    then show ?thesis using hash req IH by (simp add: req_matches_Some search_hash_step)
  next
    case wild
    obtain sn' where "ucp_tag_exp_req_seq rs (filter (in_queue rs ?B) E) = Some sn'" "req_sn req < sn'"
      using seq_after [OF later, of u] req(2) sn by auto
    then show ?thesis using wild req IH by (simp add: req_matches_Some search_wild_step)
  next
    case other
    then have "\<not> req_matches rs tag p" using match_queue by blast
    then show ?thesis using other IH by simp
  qed
qed

lemma first_req_finds:
  assumes "\<forall>p \<in> set E. rs p \<noteq> None" and "filter (in_queue rs Wildcard) E = []"
  shows "first_req rs (\<lambda>req. ucp_tag_is_match tag (req_tag req) (req_tag_mask req))
      (filter (in_queue rs (ucp_tag_exp_get_queue_for_tag tag)) E) = Some (find (req_matches rs tag) E)"
  using assms
proof (induction E)
  case (Cons p E)
  then have "\<not> in_queue rs Wildcard p" by (auto split: if_splits)
  then have "req_matches rs tag p \<Longrightarrow> in_queue rs (ucp_tag_exp_get_queue_for_tag tag) p" using match_queue by blast
  with Cons show ?case by (auto simp: req_matches_Some split: if_splits)
qed simp

lemma filter_remove1_other: "\<not> P x \<Longrightarrow> filter P (remove1 x xs) = filter P xs"
  by (induction xs) auto

lemma queue_of_remove_other: "\<not> in_queue rs q p \<Longrightarrow> queue_of rs q (remove1 p E) = queue_of rs q E"
  by (simp add: queue_of_def filter_remove1_other)

lemma find_SomeD: "find P xs = Some x \<Longrightarrow> x \<in> set xs \<and> P x"
  by (induction xs) (auto split: if_splits)

section \<open>Posting and removing requests\<close>

text \<open>Everything but the queues of posted requests and their counters is the same.\<close>

definition same_but_exp :: "worker \<Rightarrow> worker \<Rightarrow> bool" where
  "same_but_exp w w' \<longleftrightarrow> reqs w' = reqs w \<and> descs w' = descs w \<and> bufs w' = bufs w \<and> exp_sn w' = exp_sn w \<and> unexp_all w' = unexp_all w \<and>
     unexp_hash w' = unexp_hash w \<and> frag_hash w' = frag_hash w \<and> sync_acks w' = sync_acks w \<and> completions w' = completions w"

lemma set_queue_same [simp]:
  "reqs (set_queue w q rq) = reqs w" "descs (set_queue w q rq) = descs w" "bufs (set_queue w q rq) = bufs w" "exp_sn (set_queue w q rq) = exp_sn w"
  "unexp_all (set_queue w q rq) = unexp_all w" "unexp_hash (set_queue w q rq) = unexp_hash w"
  "frag_hash (set_queue w q rq) = frag_hash w" "sync_acks (set_queue w q rq) = sync_acks w"
  "completions (set_queue w q rq) = completions w" "sw_all_count (set_queue w q rq) = sw_all_count w"
  by (cases q; simp add: set_queue_def)+

lemma same_but_exp_refl [simp]: "same_but_exp w w"
  by (simp add: same_but_exp_def)

lemma queue_queue_of [simp]: "queue (queue_of rs q E) = filter (in_queue rs q) E"
  by (simp add: queue_of_def)

lemma queue_of_cong: "(\<And>p. p \<in> set E \<Longrightarrow> rs p = rs' p) \<Longrightarrow> queue_of rs q E = queue_of rs' q E"
proof -
  assume same: "\<And>p. p \<in> set E \<Longrightarrow> rs p = rs' p"
  have "filter (in_queue rs q) E = filter (in_queue rs' q) E" by (rule filter_cong) (auto simp: same in_queue_def)
  moreover have "filter (blocked rs) (filter (in_queue rs' q) E) = filter (blocked rs') (filter (in_queue rs' q) E)"
    by (rule filter_cong) (auto simp: same blocked_def)
  ultimately show ?thesis by (simp add: queue_of_def)
qed

lemma sorted_sn_cong:
  assumes "sorted_wrt (\<lambda>p q. sn_of rs p < sn_of rs q) E" and "\<And>p. p \<in> set E \<Longrightarrow> rs' p = rs p"
  shows "sorted_wrt (\<lambda>p q. sn_of rs' p < sn_of rs' q) E"
  by (rule sorted_wrt_mono_rel [OF _ assms(1)]) (auto simp: sn_of_def assms(2))

lemma exp_ok_frame:
  assumes ok: "exp_ok w E" and same: "exp_hash w' = exp_hash w" "exp_wildcard w' = exp_wildcard w" "exp_sn w' = exp_sn w"
      "sw_all_count w' = sw_all_count w" and rs: "\<And>p. p \<in> set E \<Longrightarrow> reqs w' p = reqs w p"
  shows "exp_ok w' E"
proof -
  have "queue_of (reqs w') q E = queue_of (reqs w) q E" for q by (rule queue_of_cong) (rule rs)
  then show ?thesis
    using exp_okD [OF ok] same rs sorted_sn_cong [OF exp_okD(4) [OF ok] rs] by (auto simp: exp_ok_def)
qed

lemma sorted_wrt_remove1: "sorted_wrt R xs \<Longrightarrow> sorted_wrt R (remove1 x xs)"
  by (induction xs) (auto dest: subsetD [OF set_remove1_subset])

lemma delete_ok:
  assumes ok: "exp_ok w E" and p: "p \<in> set E" and q: "in_queue (reqs w) q p"
  shows "\<exists>w'. ucp_tag_exp_delete p w q = Some w' \<and> exp_ok w' (remove1 p E) \<and> same_but_exp w w'"
proof -
  obtain req where req: "reqs w p = Some req" "waiting req" using exp_okD(3) [OF ok p] by auto
  have valid: "valid_ref q" using q by (auto simp: in_queue_def)
  let ?F = "filter (in_queue (reqs w) q) E"
  have pF: "p \<in> set ?F" using p q by simp
  let ?w0 = "w\<lparr>sw_all_count := sw_all_count w - 1\<rparr>"
  have len: "of_nat (length (remove1 p xs)) = (of_nat (length xs) - 1 :: u32)" if "p \<in> set xs" for xs
  proof -
    have "length xs = Suc (length (remove1 p xs))" using that length_pos_if_in_set [OF that] by (simp add: length_remove1)
    then show ?thesis by simp
  qed
  have "blocked (reqs w) p = req_block_offload req" using req by (simp add: blocked_def)
  then have eq: "queue_of (reqs w) q (remove1 p E) =
    (queue_of (reqs w) q E)\<lparr>queue := remove1 p ?F, sw_count := sw_count (queue_of (reqs w) q E) - 1,
      block_count := (if req_block_offload req then block_count (queue_of (reqs w) q E) - 1 else block_count (queue_of (reqs w) q E))\<rparr>"
    using pF len [OF pF] len [of "filter (blocked (reqs w)) ?F"]
    by (auto simp: queue_of_def filter_remove1 [symmetric] filter_remove1_other)
  then have "ucp_tag_exp_delete p w q = Some (set_queue ?w0 q (queue_of (reqs w) q (remove1 p E)))"
    unfolding eq using req get_queue_ok [OF ok valid] by (simp add: ucp_tag_exp_delete_def waiting_def)
  moreover have "exp_ok (set_queue ?w0 q (queue_of (reqs w) q (remove1 p E))) (remove1 p E)"
  proof (rule set_queue_ok [OF ok valid])
    show "queue_of (reqs ?w0) q' (remove1 p E) = queue_of (reqs w) q' E" if "q' \<noteq> q" for q'
      using that q in_queue_unique by (auto intro!: queue_of_remove_other)
    show "sorted_wrt (\<lambda>p q. sn_of (reqs ?w0) p < sn_of (reqs ?w0) q) (remove1 p E)"
      using exp_okD(4) [OF ok] by (simp add: sorted_wrt_remove1)
    show "sw_all_count ?w0 = of_nat (length (remove1 p E))" using exp_okD(7) [OF ok] len [OF p] by simp
    show "\<exists>req. reqs ?w0 r = Some req \<and> waiting req \<and> req_sn req < exp_sn ?w0" if "r \<in> set (remove1 p E)" for r
      using exp_okD(3) [OF ok subsetD [OF set_remove1_subset that]] by simp
  qed (use exp_okD(2) [OF ok] in simp_all)
  moreover have "same_but_exp w (set_queue ?w0 q (queue_of (reqs w) q (remove1 p E)))" by (simp add: same_but_exp_def)
  ultimately show ?thesis by blast
qed

lemma exp_search_ok:
  assumes ok: "exp_ok w E"
  obtains w' where "ucp_tag_exp_search w tag = Some (find (req_matches (reqs w) tag) E, w')" "same_but_exp w w'"
    "exp_ok w' (case find (req_matches (reqs w) tag) E of None \<Rightarrow> E | Some p \<Rightarrow> remove1 p E)"
    "find (req_matches (reqs w) tag) E = None \<Longrightarrow> w' = w"
proof -
  let ?B = "ucp_tag_exp_get_queue_for_tag tag"
  let ?r = "find (req_matches (reqs w) tag) E"
  have here: "\<forall>p \<in> set E. \<exists>req. reqs w p = Some req \<and> req_sn req < exp_sn w" using exp_okD(3) [OF ok] by blast
  then have some: "\<forall>p \<in> set E. reqs w p \<noteq> None" by auto
  have B: "get_queue w ?B = Some (queue_of (reqs w) ?B E)" by (rule get_queue_ok [OF ok valid_for_tag])
  have W: "queue (exp_wildcard w) = filter (in_queue (reqs w) Wildcard) E" by (simp add: exp_okD(5) [OF ok])
  have all: "ucp_tag_exp_search_all w ?B tag =
    (case ?r of None \<Rightarrow> Some (None, w)
     | Some p \<Rightarrow> map_option (Pair (Some p)) (ucp_tag_exp_delete p w (if in_queue (reqs w) ?B p then ?B else Wildcard)))"
    by (simp add: ucp_tag_exp_search_all_def B W search_all_loop_finds [OF here exp_okD(4) [OF ok]] split: option.splits)
  have search: "ucp_tag_exp_search w tag =
    (case ?r of None \<Rightarrow> Some (None, w)
     | Some p \<Rightarrow> map_option (Pair (Some p)) (ucp_tag_exp_delete p w (if in_queue (reqs w) ?B p then ?B else Wildcard)))"
  proof (cases "filter (in_queue (reqs w) Wildcard) E = []")
    case True
    have "in_queue (reqs w) ?B p" if "?r = Some p" for p
    proof -
      have "p \<in> set E" "req_matches (reqs w) tag p" using find_SomeD [OF that] by auto
      moreover have "\<not> in_queue (reqs w) Wildcard p" using True \<open>p \<in> set E\<close> by (auto simp: filter_empty_conv)
      ultimately show ?thesis using match_queue by blast
    qed
    with True show ?thesis by (simp add: ucp_tag_exp_search_def W B first_req_finds [OF some True] split: option.splits)
  next
    case False
    then show ?thesis using all by (simp add: ucp_tag_exp_search_def W)
  qed
  show ?thesis
  proof (cases ?r)
    case None
    then show ?thesis using that [of w] search ok by simp
  next
    case (Some p)
    have p: "p \<in> set E" "req_matches (reqs w) tag p" using find_SomeD [OF Some] by auto
    then have "in_queue (reqs w) (if in_queue (reqs w) ?B p then ?B else Wildcard) p" using match_queue by auto
    from delete_ok [OF ok p(1) this] that Some search show ?thesis by auto
  qed
qed

lemma queue_of_snoc_other: "\<not> in_queue rs q p \<Longrightarrow> queue_of rs q (E @ [p]) = queue_of rs q E"
  by (simp add: queue_of_def)

lemma queue_of_snoc: "in_queue rs q p \<Longrightarrow> queue_of rs q (E @ [p]) =
  (queue_of rs q E)\<lparr>queue := queue (queue_of rs q E) @ [p], sw_count := sw_count (queue_of rs q E) + 1,
     block_count := block_count (queue_of rs q E) + (if blocked rs p then 1 else 0)\<rparr>"
  by (simp add: queue_of_def)

lemma post_ok:
  assumes ok: "exp_ok w E" and p: "p \<notin> set E" and req: "reqs w p = Some req" "waiting req" and sn: "exp_sn w \<noteq> -1"
  obtains w1 w' where "ucp_tag_offload_try_post w p (ucp_tag_exp_get_req_queue req) = Some w1"
    "ucp_tag_exp_push w1 (ucp_tag_exp_get_req_queue req) p = Some w'" "exp_ok w' (E @ [p])"
    "reqs w' = (reqs w)(p \<mapsto> req\<lparr>req_sn := exp_sn w\<rparr>)" "exp_sn w' = exp_sn w + 1"
    "same_but_exp (w\<lparr>reqs := (reqs w)(p \<mapsto> req\<lparr>req_sn := exp_sn w\<rparr>), exp_sn := exp_sn w + 1\<rparr>) w'"
proof -
  let ?q = "ucp_tag_exp_get_req_queue req"
  let ?req = "req\<lparr>req_sn := exp_sn w\<rparr>"
  let ?rs = "(reqs w)(p \<mapsto> ?req)"
  let ?w0 = "w\<lparr>sw_all_count := sw_all_count w + 1, reqs := ?rs, exp_sn := exp_sn w + 1\<rparr>"
  let ?rq = "queue_of (reqs w) ?q E"
  let ?rq1 = "?rq\<lparr>sw_count := sw_count ?rq + 1, block_count := block_count ?rq + (if req_block_offload req then 1 else 0)\<rparr>"
  let ?w1 = "set_queue (w\<lparr>sw_all_count := sw_all_count w + 1\<rparr>) ?q ?rq1"
  have same: "queue_of ?rs q E = queue_of (reqs w) q E" for q by (rule queue_of_cong) (use p in auto)
  have in_p: "in_queue ?rs q p \<longleftrightarrow> q = ?q" for q
    by (auto simp: in_queue_def ucp_tag_exp_get_req_queue_def)
  have other: "queue_of ?rs q (E @ [p]) = queue_of (reqs w) q E" if "q \<noteq> ?q" for q
    using same [of q] in_p [of q] that by (simp add: queue_of_snoc_other)
  have own: "queue_of ?rs ?q (E @ [p]) = ?rq1\<lparr>queue := queue ?rq1 @ [p]\<rparr>"
    using in_p [of ?q] by (simp add: queue_of_snoc same blocked_def)
  have get: "get_queue w ?q = Some ?rq" by (rule get_queue_ok [OF ok valid_req_queue])
  have get1: "get_queue ?w1 ?q = Some ?rq1"
    using valid_req_queue [of req] exp_okD(1) [OF ok]
    by (cases ?q) (simp_all add: get_queue_def set_queue_def valid_ref_def arr_get_nat)
  have tried: "ucp_tag_offload_try_post w p ?q = Some ?w1"
    using req get by (simp add: ucp_tag_offload_try_post_def)
  have push: "ucp_tag_exp_push ?w1 ?q p = Some (set_queue ?w0 ?q (queue_of ?rs ?q (E @ [p])))"
    using req get1 unfolding own
    by (cases ?q) (simp_all add: ucp_tag_exp_push_def set_queue_def)
  have "1 + exp_sn w \<noteq> 0" using sn by (simp add: eq_neg_iff_add_eq_0 add.commute)
  from unatSuc [OF this] have sn_less: "exp_sn w < exp_sn w + 1" by (simp add: word_less_nat_alt add.commute)
  have "exp_ok (set_queue ?w0 ?q (queue_of ?rs ?q (E @ [p]))) (E @ [p])"
  proof (rule set_queue_ok [OF ok valid_req_queue])
    show "\<exists>req. reqs ?w0 r = Some req \<and> waiting req \<and> req_sn req < exp_sn ?w0" if "r \<in> set (E @ [p])" for r
    proof (cases "r = p")
      case True
      then show ?thesis using req sn_less by (simp add: waiting_def)
    next
      case False
      then obtain req' where "reqs w r = Some req'" "waiting req'" "req_sn req' < exp_sn w"
        using exp_okD(3) [OF ok, of r] \<open>r \<in> set (E @ [p])\<close> by auto
      with False sn_less show ?thesis by auto
    qed
    have "sn_of ?rs r < sn_of ?rs p" if "r \<in> set E" for r
      using exp_okD(3) [OF ok that] that p by (auto simp: sn_of_def)
    moreover have "sorted_wrt (\<lambda>p q. sn_of ?rs p < sn_of ?rs q) E"
      by (rule sorted_sn_cong [OF exp_okD(4) [OF ok]]) (use p in auto)
    ultimately show "sorted_wrt (\<lambda>p q. sn_of (reqs ?w0) p < sn_of (reqs ?w0) q) (E @ [p])"
      by (simp add: sorted_wrt_append)
  qed (use exp_okD [OF ok] p other in simp_all)
  with tried push show ?thesis using that by (simp add: same_but_exp_def)
qed

lemma exp_remove_ok:
  assumes ok: "exp_ok w E" and req: "reqs w p = Some req"
  shows "if p \<in> set E then \<exists>w'. ucp_tag_exp_remove w p = Some (True, w') \<and> exp_ok w' (remove1 p E) \<and> same_but_exp w w'
    else ucp_tag_exp_remove w p = (if req_completed req then None else Some (False, w))"
proof -
  let ?q = "ucp_tag_exp_get_req_queue req"
  have get: "get_queue w ?q = Some (queue_of (reqs w) ?q E)" by (rule get_queue_ok [OF ok valid_req_queue])
  have inq: "in_queue (reqs w) ?q p" using req by (simp add: in_queue_def)
  show ?thesis
  proof (cases "p \<in> set E")
    case True
    then show ?thesis using delete_ok [OF ok True inq] get req inq by (auto simp: ucp_tag_exp_remove_def)
  next
    case False
    then show ?thesis using get req by (simp add: ucp_tag_exp_remove_def)
  qed
qed

section \<open>Searching the unexpected messages\<close>

definition desc_matches :: "(nat \<rightharpoonup> recv_desc) \<Rightarrow> u64 \<Rightarrow> u64 \<Rightarrow> nat \<Rightarrow> bool" where
  "desc_matches ds tag tag_mask d \<longleftrightarrow> ucp_tag_is_match (tag_of ds d) tag tag_mask"

lemma unexp_okD:
  assumes "unexp_ok w"
  shows "length (unexp_hash w) = hash_size" "distinct (unexp_all w)" "\<And>d. d \<in> set (unexp_all w) \<Longrightarrow> descs w d \<noteq> None"
    "\<And>b. b < hash_size \<Longrightarrow> unexp_hash w ! b = filter (\<lambda>d. ucp_tag_match_calc_hash (tag_of (descs w) d) = b) (unexp_all w)"
  using assms by (auto simp: unexp_ok_def)

lemma first_desc_finds: "\<forall>d \<in> set l. ds d \<noteq> None \<Longrightarrow> first_desc ds tag tag_mask l = Some (find (desc_matches ds tag tag_mask) l)"
  by (induction l) (auto simp: desc_matches_def tag_of_def)

lemma find_filter: "(\<And>x. x \<in> set xs \<Longrightarrow> P x \<Longrightarrow> Q x) \<Longrightarrow> find P (filter Q xs) = find P xs"
  by (induction xs) auto

lemma unexp_remove_ok:
  assumes ok: "unexp_ok w"
  shows "unexp_ok (ucp_tag_unexp_remove w d)"
proof -
  note D = unexp_okD [OF ok]
  have "unexp_hash (ucp_tag_unexp_remove w d) ! b =
      filter (\<lambda>x. ucp_tag_match_calc_hash (tag_of (descs w) x) = b) (remove1 d (unexp_all w))" if "b < hash_size" for b
    using that D(1,4) by (simp add: ucp_tag_unexp_remove_def filter_remove1)
  moreover have "descs w x \<noteq> None" if "x \<in> set (remove1 d (unexp_all w))" for x
    using D(3) subsetD [OF set_remove1_subset that] by blast
  ultimately show ?thesis using D(1,2) by (simp add: unexp_ok_def ucp_tag_unexp_remove_def)
qed

lemma unexp_search_ok:
  assumes ok: "unexp_ok w"
  shows "ucp_tag_unexp_search w tag tag_mask rem =
    (let r = find (desc_matches (descs w) tag tag_mask) (unexp_all w)
     in Some (r, case r of None \<Rightarrow> w | Some d \<Rightarrow> if rem then ucp_tag_unexp_remove w d else w))"
proof (cases "unexp_all w = []")
  case True
  then show ?thesis by (simp add: ucp_tag_unexp_search_def)
next
  case False
  let ?l = "filter (\<lambda>d. ucp_tag_match_calc_hash (tag_of (descs w) d) = ucp_tag_match_calc_hash tag) (unexp_all w)"
  note D = unexp_okD [OF ok]
  have "arr_get (unexp_hash w) (int (ucp_tag_match_calc_hash tag)) = Some ?l"
    using calc_hash_less [of tag] D(1,4) by (simp add: arr_get_nat)
  moreover have "find (desc_matches (descs w) tag UCP_TAG_MASK_FULL) ?l =
      find (desc_matches (descs w) tag UCP_TAG_MASK_FULL) (unexp_all w)"
    by (rule find_filter) (simp add: desc_matches_def full_mask_match)
  ultimately show ?thesis
    using False first_desc_finds [of ?l "descs w" tag tag_mask] first_desc_finds [of "unexp_all w" "descs w" tag tag_mask] D(3)
    by (auto simp: ucp_tag_unexp_search_def Let_def)
qed

lemma unexp_recv_ok:
  assumes ok: "unexp_ok w" and d: "d \<notin> set (unexp_all w)" "descs w d = Some rdesc"
  obtains h where "ucp_tag_unexp_recv w d (ucp_rdesc_get_tag rdesc) = Some (w\<lparr>unexp_hash := h, unexp_all := unexp_all w @ [d]\<rparr>)"
    "unexp_ok (w\<lparr>unexp_hash := h, unexp_all := unexp_all w @ [d]\<rparr>)"
proof -
  let ?b = "ucp_tag_match_calc_hash (ucp_rdesc_get_tag rdesc)"
  note D = unexp_okD [OF ok]
  have b: "?b < hash_size" by (rule calc_hash_less)
  have tag: "tag_of (descs w) d = ucp_rdesc_get_tag rdesc" using d by (simp add: tag_of_def)
  let ?w = "w\<lparr>unexp_hash := (unexp_hash w)[?b := unexp_hash w ! ?b @ [d]], unexp_all := unexp_all w @ [d]\<rparr>"
  have "ucp_tag_unexp_recv w d (ucp_rdesc_get_tag rdesc) = Some ?w"
    using b D(1) by (simp add: ucp_tag_unexp_recv_def Let_def arr_get_nat)
  moreover have "unexp_ok ?w"
    using D b d tag by (auto simp: unexp_ok_def nth_list_update)
  ultimately show ?thesis by (rule that)
qed

lemma unexp_ok_frame:
  assumes ok: "unexp_ok w" and same: "unexp_hash w' = unexp_hash w" "unexp_all w' = unexp_all w"
    and ds: "\<And>d. d \<in> set (unexp_all w) \<Longrightarrow> descs w' d = descs w d"
  shows "unexp_ok w'"
proof -
  have "filter (\<lambda>d. ucp_tag_match_calc_hash (tag_of (descs w') d) = b) (unexp_all w) =
    filter (\<lambda>d. ucp_tag_match_calc_hash (tag_of (descs w) d) = b) (unexp_all w)" for b
    by (rule filter_cong) (auto simp: tag_of_def ds)
  then show ?thesis using unexp_okD [OF ok] same ds by (auto simp: unexp_ok_def)
qed

lemma tag_match_init_ok:
  assumes "ucp_tag_match_init mem1 mem2 w = (UCS_OK, w')" and "exp_wildcard w = empty_queue"
  shows "tm_ok w' []"
  using assms
  by (auto simp: ucp_tag_match_init_def tm_ok_def exp_ok_def unexp_ok_def queue_of_def empty_queue_def Let_def split: if_splits)

text \<open>The zeroed worker with the user's buffers.\<close>

definition idle_worker :: "(nat \<rightharpoonup> u8 list) \<Rightarrow> worker" where
  "idle_worker bs =
     \<lparr>reqs = Map.empty, descs = Map.empty, bufs = bs, exp_wildcard = empty_queue, exp_hash = [], exp_sn = 0, sw_all_count = 0,
      unexp_all = [], unexp_hash = [], frag_hash = Map.empty, sync_acks = [], completions = []\<rparr>"

section \<open>Reachable states\<close>

definition queued :: "worker \<Rightarrow> nat \<Rightarrow> bool" where
  "queued w p \<longleftrightarrow> (\<exists>q rq. valid_ref q \<and> get_queue w q = Some rq \<and> p \<in> set (queue rq))"

lemma queued_iff: "exp_ok w E \<Longrightarrow> queued w p \<longleftrightarrow> p \<in> set E"
proof
  assume ok: "exp_ok w E"
  show "p \<in> set E" if "queued w p"
    using that get_queue_ok [OF ok] by (auto simp: queued_def)
  show "queued w p" if p: "p \<in> set E"
  proof -
    obtain req where "reqs w p = Some req" using exp_okD(3) [OF ok p] by blast
    then have "in_queue (reqs w) (ucp_tag_exp_get_req_queue req) p" by (simp add: in_queue_def)
    with p get_queue_ok [OF ok valid_req_queue, of req] show ?thesis unfolding queued_def using valid_req_queue by fastforce
  qed
qed

text \<open>
  The states of a worker under the operations of this theory in any order. Between them requests, descriptors
  and buffers may change freely, but for the requests and descriptors that wait in a queue.
\<close>

inductive tm_reach :: "worker \<Rightarrow> bool" where
  Tm_init: "ucp_tag_match_init mem1 mem2 w0 = (UCS_OK, w) \<Longrightarrow> exp_wildcard w0 = empty_queue \<Longrightarrow> tm_reach w"
| Tm_post: "tm_reach w \<Longrightarrow> reqs w p = Some req \<Longrightarrow> waiting req \<Longrightarrow> \<not> queued w p \<Longrightarrow> exp_sn w \<noteq> -1 \<Longrightarrow>
    ucp_tag_offload_try_post w p (ucp_tag_exp_get_req_queue req) = Some w1 \<Longrightarrow>
    ucp_tag_exp_push w1 (ucp_tag_exp_get_req_queue req) p = Some w' \<Longrightarrow> tm_reach w'"
| Tm_search: "tm_reach w \<Longrightarrow> ucp_tag_exp_search w tag = Some (r, w') \<Longrightarrow> tm_reach w'"
| Tm_remove: "tm_reach w \<Longrightarrow> ucp_tag_exp_remove w p = Some (removed, w') \<Longrightarrow> tm_reach w'"
| Tm_unexp_recv: "tm_reach w \<Longrightarrow> descs w d = Some rdesc \<Longrightarrow> d \<notin> set (unexp_all w) \<Longrightarrow>
    ucp_tag_unexp_recv w d (ucp_rdesc_get_tag rdesc) = Some w' \<Longrightarrow> tm_reach w'"
| Tm_unexp_search: "tm_reach w \<Longrightarrow> ucp_tag_unexp_search w tag tag_mask rem = Some (r, w') \<Longrightarrow> tm_reach w'"
| Tm_unexp_remove: "tm_reach w \<Longrightarrow> tm_reach (ucp_tag_unexp_remove w d)"
| Tm_other: "tm_reach w \<Longrightarrow> exp_hash w' = exp_hash w \<Longrightarrow> exp_wildcard w' = exp_wildcard w \<Longrightarrow> exp_sn w' = exp_sn w \<Longrightarrow>
    sw_all_count w' = sw_all_count w \<Longrightarrow> unexp_all w' = unexp_all w \<Longrightarrow> unexp_hash w' = unexp_hash w \<Longrightarrow>
    (\<And>p. queued w p \<Longrightarrow> reqs w' p = reqs w p) \<Longrightarrow> (\<And>d. d \<in> set (unexp_all w) \<Longrightarrow> descs w' d = descs w d) \<Longrightarrow> tm_reach w'"

lemma exp_unexp_frame:
  assumes "tm_ok w E" and "same_but_exp w w'" and "exp_ok w' E'"
  shows "tm_ok w' E'"
  using assms unexp_ok_frame [of w w'] by (simp add: tm_ok_def same_but_exp_def)

lemma tm_reach_ok: "tm_reach w \<Longrightarrow> \<exists>E. tm_ok w E"
proof (induction rule: tm_reach.induct)
  case (Tm_init mem1 mem2 w0 w)
  then show ?case using tag_match_init_ok by blast
next
  case (Tm_post w p req w1 w')
  then obtain E where E: "exp_ok w E" "unexp_ok w" by (auto simp: tm_ok_def)
  have p: "p \<notin> set E" using Tm_post(4) queued_iff [OF E(1)] by simp
  obtain w2 w3 where w3: "ucp_tag_offload_try_post w p (ucp_tag_exp_get_req_queue req) = Some w2"
    "ucp_tag_exp_push w2 (ucp_tag_exp_get_req_queue req) p = Some w3" "exp_ok w3 (E @ [p])"
    "same_but_exp (w\<lparr>reqs := (reqs w)(p \<mapsto> req\<lparr>req_sn := exp_sn w\<rparr>), exp_sn := exp_sn w + 1\<rparr>) w3"
    using post_ok [OF E(1) p Tm_post(2,3,5)] by metis
  then have "w3 = w'" using Tm_post(6,7) by simp
  moreover have "unexp_ok w3" by (rule unexp_ok_frame [OF E(2)]) (use w3(4) in \<open>simp_all add: same_but_exp_def\<close>)
  ultimately show ?case using w3(3) by (auto simp: tm_ok_def)
next
  case (Tm_search w tag r w')
  then obtain E where E: "tm_ok w E" by blast
  then have "exp_ok w E" by (simp add: tm_ok_def)
  from exp_search_ok [OF this, of tag] Tm_search(2) exp_unexp_frame [OF E] show ?case by (metis Pair_inject option.inject)
next
  case (Tm_remove w p removed w')
  then obtain E where E: "tm_ok w E" by blast
  then have ok: "exp_ok w E" by (simp add: tm_ok_def)
  obtain req where req: "reqs w p = Some req" using Tm_remove(2) by (auto simp: ucp_tag_exp_remove_def split: option.splits)
  show ?case
  proof (cases "p \<in> set E")
    case True
    then obtain w1 where "ucp_tag_exp_remove w p = Some (True, w1)" "exp_ok w1 (remove1 p E)" "same_but_exp w w1"
      using exp_remove_ok [OF ok req] by auto
    then show ?thesis using Tm_remove(2) exp_unexp_frame [OF E] by auto
  next
    case False
    then show ?thesis using exp_remove_ok [OF ok req] Tm_remove(2) E by (auto split: if_splits)
  qed
next
  case (Tm_unexp_recv w d rdesc w')
  then obtain E where E: "exp_ok w E" "unexp_ok w" by (auto simp: tm_ok_def)
  obtain h where "ucp_tag_unexp_recv w d (ucp_rdesc_get_tag rdesc) = Some (w\<lparr>unexp_hash := h, unexp_all := unexp_all w @ [d]\<rparr>)"
    "unexp_ok (w\<lparr>unexp_hash := h, unexp_all := unexp_all w @ [d]\<rparr>)"
    by (rule unexp_recv_ok [OF E(2) Tm_unexp_recv(3,2)]) (rule that)
  moreover have "exp_ok (w\<lparr>unexp_hash := h, unexp_all := unexp_all w @ [d]\<rparr>) E" by (rule exp_ok_frame [OF E(1)]) simp_all
  ultimately show ?case using Tm_unexp_recv(4) by (auto simp: tm_ok_def)
next
  case (Tm_unexp_search w tag tag_mask rem r w')
  then obtain E where E: "exp_ok w E" "unexp_ok w" by (auto simp: tm_ok_def)
  have "exp_ok (ucp_tag_unexp_remove w d) E" for d by (rule exp_ok_frame [OF E(1)]) (simp_all add: ucp_tag_unexp_remove_def)
  then have "tm_ok (ucp_tag_unexp_remove w d) E" for d using unexp_remove_ok [OF E(2)] by (simp add: tm_ok_def)
  then show ?case using Tm_unexp_search(2) E unfolding unexp_search_ok [OF E(2)]
    by (auto simp: Let_def tm_ok_def split: option.splits if_splits)
next
  case (Tm_unexp_remove w d)
  then obtain E where E: "exp_ok w E" "unexp_ok w" by (auto simp: tm_ok_def)
  have "exp_ok (ucp_tag_unexp_remove w d) E" by (rule exp_ok_frame [OF E(1)]) (simp_all add: ucp_tag_unexp_remove_def)
  then show ?case using unexp_remove_ok [OF E(2)] by (auto simp: tm_ok_def)
next
  case (Tm_other w w')
  then obtain E where E: "exp_ok w E" "unexp_ok w" by (auto simp: tm_ok_def)
  have "exp_ok w' E" by (rule exp_ok_frame [OF E(1)]) (use Tm_other queued_iff [OF E(1)] in auto)
  moreover have "unexp_ok w'" by (rule unexp_ok_frame [OF E(2)]) (use Tm_other in auto)
  ultimately show ?case by (auto simp: tm_ok_def)
qed

text \<open>
  C16. The queues of a worker are well formed in every reachable state, and no search gets stuck. There is one order of
  posting \<open>E\<close> such that each hash bucket and the wildcard queue hold the requests of \<open>E\<close> that belong there, sorted
  by sequence number, with exact counters; each list of unexpected messages is the list of all restricted to its
  bucket. For every tag the hash index is inside both tables, the merge of bucket and wildcard queue ends without
  a failed assertion, and the result is the first request or message that matches.
\<close>

theorem tag_queues_well_formed:
  assumes "tm_reach w"
  shows "\<exists>E. tm_ok w E \<and>
    (\<forall>tag. ucp_tag_match_calc_hash tag < length (exp_hash w) \<and> ucp_tag_match_calc_hash tag < length (unexp_hash w) \<and>
       (\<exists>w'. ucp_tag_exp_search w tag = Some (find (req_matches (reqs w) tag) E, w'))) \<and>
    (\<forall>tag tag_mask rem. \<exists>w'. ucp_tag_unexp_search w tag tag_mask rem = Some (find (desc_matches (descs w) tag tag_mask) (unexp_all w), w'))"
proof -
  obtain E where E: "exp_ok w E" "unexp_ok w" using tm_reach_ok [OF assms] by (auto simp: tm_ok_def)
  have "\<exists>w'. ucp_tag_exp_search w tag = Some (find (req_matches (reqs w) tag) E, w')" for tag
    using exp_search_ok [OF E(1), of tag] by metis
  then show ?thesis
    using E exp_okD(1) [OF E(1)] unexp_okD(1) [OF E(2)] calc_hash_less unexp_search_ok [OF E(2)]
    by (intro exI [of _ E]) (simp add: tm_ok_def Let_def)
qed

theorem tag_queues_well_formed_witness:
  "\<exists>E. tm_ok (snd (ucp_tag_match_init True True (idle_worker Map.empty))) E \<and>
    (\<forall>tag tag_mask rem. \<exists>w'. ucp_tag_unexp_search (snd (ucp_tag_match_init True True (idle_worker Map.empty))) tag tag_mask rem = Some (None, w'))"
proof -
  let ?w = "snd (ucp_tag_match_init True True (idle_worker Map.empty))"
  have "ucp_tag_match_init True True (idle_worker Map.empty) = (UCS_OK, ?w)" by (simp add: ucp_tag_match_init_def Let_def)
  then have "tm_reach ?w" by (rule Tm_init) (simp add: idle_worker_def)
  from tag_queues_well_formed [OF this] obtain E where "tm_ok ?w E" by blast
  moreover have "unexp_all ?w = []" by (simp add: ucp_tag_match_init_def Let_def)
  ultimately show ?thesis by (auto simp: ucp_tag_unexp_search_def)
qed

end
