(* ===== verification/Ucp_Tag_Recv.thy ===== *)
theory Ucp_Tag_Recv
  imports Ucp_Tag_Match
begin

text \<open>
  The receive side of eager tagged messages: the handlers of \<^verbatim>\<open>ucp/tag/eager_rcv.c\<close>, the receive calls of
  \<^verbatim>\<open>ucp/tag/tag_recv.c\<close>, probing (\<^verbatim>\<open>ucp/tag/probe.c\<close>), cancellation and the request functions of
  \<^verbatim>\<open>ucp/core/ucp_request.inl\<close> they use. A message is one packet, or a first packet and middle packets that carry their
  offset and may arrive in any order, also before the first.

  Receive buffers are contiguous host memory. Rendezvous messages and the hardware offload flow are not in
  the model, so an unexpected descriptor is an eager one. \<open>completions\<close> is the sequence of requests that
  became complete with their status; user callbacks are not called. An acknowledgement of a synchronous send is
  recorded in \<open>sync_acks\<close>.
\<close>

section \<open>Request data\<close>

definition write_at :: "u8 list \<Rightarrow> nat \<Rightarrow> u8 list \<Rightarrow> u8 list option" where
  "write_at buf offset src =
     (if offset + length src \<le> length buf then Some (take offset buf @ src @ drop (offset + length src) buf) else None)"

text \<open>The contiguous case; the remaining space is a difference of \<open>size_t\<close> values and wraps.\<close>

definition ucp_datatype_iter_unpack :: "nat \<Rightarrow> u8 list \<Rightarrow> nat \<Rightarrow> u8 list \<Rightarrow> (ucs_status \<times> u8 list) option" where
  "ucp_datatype_iter_unpack len buf offset src =
     (if to_size (int len - int offset) < length src then Some (UCS_ERR_MESSAGE_TRUNCATED, buf)
      else map_option (Pair UCS_OK) (write_at buf offset src))"

definition ucp_request_recv_data_unpack :: "worker \<Rightarrow> nat \<Rightarrow> u8 list \<Rightarrow> nat \<Rightarrow> (ucs_status \<times> worker) option" where
  "ucp_request_recv_data_unpack w p data offset =
     (case reqs w p of
        None \<Rightarrow> None
      | Some req \<Rightarrow>
          (if req_status req \<noteq> UCS_OK then None
           else if size_add (length data) offset > req_length req then Some (UCS_ERR_MESSAGE_TRUNCATED, w)
           else
             (case bufs w (req_buffer req) of
                None \<Rightarrow> None
              | Some buf \<Rightarrow>
                  map_option (\<lambda>(status, buf). (status, w\<lparr>bufs := (bufs w)(req_buffer req \<mapsto> buf)\<rparr>))
                    (ucp_datatype_iter_unpack (req_length req) buf offset data))))"

definition ucp_request_complete_tag_recv :: "worker \<Rightarrow> nat \<Rightarrow> ucs_status \<Rightarrow> worker option" where
  "ucp_request_complete_tag_recv w p status =
     (case reqs w p of
        None \<Rightarrow> None
      | Some req \<Rightarrow>
          (if req_completed req \<or> status = UCS_INPROGRESS then None
           else Some (w\<lparr>reqs := (reqs w)(p \<mapsto> req\<lparr>req_completed := True, req_status := status\<rparr>),
                        completions := completions w @ [(p, status)]\<rparr>)))"

definition set_req :: "worker \<Rightarrow> nat \<Rightarrow> (request \<Rightarrow> request) \<Rightarrow> worker" where
  "set_req w p f = w\<lparr>reqs := (reqs w)(p := map_option f (reqs w p))\<rparr>"

definition ucp_request_process_recv_data :: "worker \<Rightarrow> nat \<Rightarrow> u8 list \<Rightarrow> nat \<Rightarrow> (ucs_status \<times> worker) option" where
  "ucp_request_process_recv_data w p data offset =
     (case reqs w p of
        None \<Rightarrow> None
      | Some req \<Rightarrow>
          (let last = (req_remaining req = length data)
           in case (if req_status req = UCS_OK
                    then map_option (\<lambda>(status, w). set_req w p (\<lambda>req. req\<lparr>req_status := status\<rparr>))
                           (ucp_request_recv_data_unpack w p data offset)
                    else Some w) of
                None \<Rightarrow> None
              | Some w \<Rightarrow>
                  (if \<not> req_remaining req \<ge> length data then None
                   else
                     (let w = set_req w p (\<lambda>req. req\<lparr>req_remaining := req_remaining req - length data\<rparr>)
                      in if \<not> last then Some (UCS_INPROGRESS, w)
                         else
                           (case reqs w p of
                              None \<Rightarrow> None
                            | Some req \<Rightarrow>
                                map_option (Pair (req_status req)) (ucp_request_complete_tag_recv w p (req_status req)))))))"

section \<open>Receive descriptors\<close>

text \<open>
  Where a descriptor comes from: the transport's own buffer, the worker's memory pool, or nowhere.
\<close>

datatype desc_alloc = Uct_desc nat | Pool_desc nat | No_desc

definition ucp_recv_desc_init :: "desc_alloc \<Rightarrow> worker \<Rightarrow> recv_desc \<Rightarrow> ucs_status \<times> nat option \<times> worker" where
  "ucp_recv_desc_init rd w rdesc =
     (case rd of
        Uct_desc d \<Rightarrow> (UCS_INPROGRESS, Some d, w\<lparr>descs := (descs w)(d \<mapsto> rdesc)\<rparr>)
      | Pool_desc d \<Rightarrow> (UCS_OK, Some d, w\<lparr>descs := (descs w)(d \<mapsto> rdesc)\<rparr>)
      | No_desc \<Rightarrow> (UCS_ERR_NO_MEMORY, None, w))"

definition ucp_recv_desc_release :: "worker \<Rightarrow> nat \<Rightarrow> worker" where
  "ucp_recv_desc_release w d = w\<lparr>descs := (descs w)(d := None)\<rparr>"

definition ucp_tag_recv_request_process_rdesc :: "worker \<Rightarrow> nat \<Rightarrow> nat \<Rightarrow> nat \<Rightarrow> (ucs_status \<times> worker) option" where
  "ucp_tag_recv_request_process_rdesc w p d offset =
     (case descs w d of
        None \<Rightarrow> None
      | Some rdesc \<Rightarrow>
          map_option (\<lambda>(status, w). (status, ucp_recv_desc_release w d))
            (ucp_request_process_recv_data w p (desc_payload rdesc) offset))"

definition ucp_tag_eager_sync_send_ack :: "worker \<Rightarrow> u64 option \<Rightarrow> worker" where
  "ucp_tag_eager_sync_send_ack w sync = (case sync of None \<Rightarrow> w | Some req_id \<Rightarrow> w\<lparr>sync_acks := sync_acks w @ [req_id]\<rparr>)"

section \<open>Fragments\<close>

definition middle_offset :: "recv_desc \<Rightarrow> nat option" where
  "middle_offset rdesc = (case desc_hdr rdesc of Eager_middle_hdr msg_id offset \<Rightarrow> Some offset | _ \<Rightarrow> None)"

fun frag_loop :: "worker \<Rightarrow> nat \<Rightarrow> ucs_status \<Rightarrow> nat list \<Rightarrow> (ucs_status \<times> nat list \<times> worker) option" where
  "frag_loop w p status [] = Some (status, [], w)"
| "frag_loop w p status (d # ds) =
     (if status \<noteq> UCS_INPROGRESS then Some (status, d # ds, w)
      else
        (case Option.bind (descs w d) middle_offset of
           None \<Rightarrow> None
         | Some offset \<Rightarrow>
             (case ucp_tag_recv_request_process_rdesc w p d offset of
                None \<Rightarrow> None
              | Some (status, w) \<Rightarrow> frag_loop w p status ds)))"

definition ucp_tag_frag_list_process_common :: "worker \<Rightarrow> nat \<Rightarrow> frag_match \<Rightarrow> (ucs_status \<times> worker) option" where
  "ucp_tag_frag_list_process_common w p matchq =
     (case matchq of
        Exp_req p' \<Rightarrow> None
      | Unexp_q ds \<Rightarrow>
          (case frag_loop w p UCS_INPROGRESS ds of
             Some (status, [], w) \<Rightarrow> Some (status, w)
           | _ \<Rightarrow> None))"

text \<open>\<open>kh_ok\<close> tells whether \<open>kh_put\<close> could grow the table; without an entry there is nothing to write to.\<close>

definition ucp_tag_frag_list_process_queue :: "bool \<Rightarrow> worker \<Rightarrow> nat \<Rightarrow> u64 \<Rightarrow> worker option" where
  "ucp_tag_frag_list_process_queue kh_ok w p msg_id =
     (if \<not> kh_ok then None
      else
        (case frag_hash w msg_id of
           None \<Rightarrow> Some (w\<lparr>frag_hash := (frag_hash w)(msg_id \<mapsto> Exp_req p)\<rparr>)
         | Some matchq \<Rightarrow>
             (case ucp_tag_frag_list_process_common w p matchq of
                None \<Rightarrow> None
              | Some (status, w) \<Rightarrow>
                  (if status \<noteq> UCS_INPROGRESS then Some (w\<lparr>frag_hash := (frag_hash w)(msg_id := None)\<rparr>)
                   else Some (w\<lparr>frag_hash := (frag_hash w)(msg_id \<mapsto> Exp_req p)\<rparr>)))))"

section \<open>Handlers of arriving packets\<close>

definition ucp_eager_common_matched :: "worker \<Rightarrow> nat \<Rightarrow> u64 \<Rightarrow> worker" where
  "ucp_eager_common_matched w p recv_tag = set_req w p (\<lambda>req. req\<lparr>req_sender_tag := recv_tag\<rparr>)"

text \<open>What the handler does with a request it found: the two branches on \<open>EAGER_ONLY\<close>.\<close>

definition eager_only_matched :: "worker \<Rightarrow> nat \<Rightarrow> u8 list \<Rightarrow> worker option" where
  "eager_only_matched w p payload =
     (let w = set_req w p (\<lambda>req. req\<lparr>req_info_length := length payload\<rparr>)
      in case ucp_request_recv_data_unpack w p payload 0 of
           None \<Rightarrow> None
         | Some (status, w) \<Rightarrow> ucp_request_complete_tag_recv w p status)"

definition eager_first_matched :: "bool \<Rightarrow> worker \<Rightarrow> nat \<Rightarrow> eager_hdr \<Rightarrow> u8 list \<Rightarrow> worker option" where
  "eager_first_matched kh_ok w p hdr payload =
     (case hdr of
        Eager_first_hdr tag total_len msg_id \<Rightarrow>
          (let w = set_req w p (\<lambda>req. req\<lparr>req_info_length := total_len, req_remaining := total_len\<rparr>)
           in case ucp_request_process_recv_data w p payload 0 of
                None \<Rightarrow> None
              | Some (status, w) \<Rightarrow>
                  (if status = UCS_INPROGRESS then ucp_tag_frag_list_process_queue kh_ok w p msg_id else Some w))
      | _ \<Rightarrow> None)"

definition ucp_eager_tagged_handler ::
  "bool \<Rightarrow> desc_alloc \<Rightarrow> worker \<Rightarrow> recv_desc \<Rightarrow> (ucs_status \<times> worker) option" where
  "ucp_eager_tagged_handler kh_ok rd w data =
     (let recv_tag = ucp_rdesc_get_tag data
      in case ucp_tag_exp_search w recv_tag of
           None \<Rightarrow> None
         | Some (Some p, w) \<Rightarrow>
             (let w = ucp_tag_eager_sync_send_ack (ucp_eager_common_matched w p recv_tag) (desc_sync data)
              in map_option (Pair UCS_OK)
                   (if desc_only data then eager_only_matched w p (desc_payload data)
                    else eager_first_matched kh_ok w p (desc_hdr data) (desc_payload data)))
         | Some (None, w) \<Rightarrow>
             (case ucp_recv_desc_init rd w data of
                (status, None, w) \<Rightarrow> Some (status, w)
              | (status, Some d, w) \<Rightarrow> map_option (Pair status) (ucp_tag_unexp_recv w d recv_tag)))"

definition ucp_eager_only_handler :: "bool \<Rightarrow> desc_alloc \<Rightarrow> worker \<Rightarrow> u64 \<Rightarrow> u8 list \<Rightarrow> (ucs_status \<times> worker) option" where
  "ucp_eager_only_handler kh_ok rd w tag payload =
     ucp_eager_tagged_handler kh_ok rd w
       \<lparr>desc_only = True, desc_sync = None, desc_hdr = Eager_hdr tag, desc_payload = payload\<rparr>"

definition ucp_eager_sync_only_handler ::
  "bool \<Rightarrow> desc_alloc \<Rightarrow> worker \<Rightarrow> u64 \<Rightarrow> u64 \<Rightarrow> u8 list \<Rightarrow> (ucs_status \<times> worker) option" where
  "ucp_eager_sync_only_handler kh_ok rd w tag req_id payload =
     ucp_eager_tagged_handler kh_ok rd w
       \<lparr>desc_only = True, desc_sync = Some req_id, desc_hdr = Eager_hdr tag, desc_payload = payload\<rparr>"

definition ucp_eager_first_handler ::
  "bool \<Rightarrow> desc_alloc \<Rightarrow> worker \<Rightarrow> u64 \<Rightarrow> nat \<Rightarrow> u64 \<Rightarrow> u8 list \<Rightarrow> (ucs_status \<times> worker) option" where
  "ucp_eager_first_handler kh_ok rd w tag total_len msg_id payload =
     ucp_eager_tagged_handler kh_ok rd w
       \<lparr>desc_only = False, desc_sync = None, desc_hdr = Eager_first_hdr tag total_len msg_id, desc_payload = payload\<rparr>"

definition ucp_eager_sync_first_handler ::
  "bool \<Rightarrow> desc_alloc \<Rightarrow> worker \<Rightarrow> u64 \<Rightarrow> nat \<Rightarrow> u64 \<Rightarrow> u64 \<Rightarrow> u8 list \<Rightarrow> (ucs_status \<times> worker) option" where
  "ucp_eager_sync_first_handler kh_ok rd w tag total_len msg_id req_id payload =
     ucp_eager_tagged_handler kh_ok rd w
       \<lparr>desc_only = False, desc_sync = Some req_id, desc_hdr = Eager_first_hdr tag total_len msg_id,
        desc_payload = payload\<rparr>"

text \<open>
  \<open>kh_del\<close> only marks an entry as deleted, so the assertion at the end reads the entry as it was.
\<close>

definition middle_assert :: "frag_match \<Rightarrow> bool" where
  "middle_assert matchq \<longleftrightarrow> (case matchq of Exp_req p \<Rightarrow> True | Unexp_q ds \<Rightarrow> ds \<noteq> [])"

definition ucp_eager_middle_handler ::
  "bool \<Rightarrow> desc_alloc \<Rightarrow> worker \<Rightarrow> u64 \<Rightarrow> nat \<Rightarrow> u8 list \<Rightarrow> (ucs_status \<times> worker) option" where
  "ucp_eager_middle_handler kh_ok rd w msg_id offset payload =
     (if \<not> kh_ok then None
      else
        (case (case frag_hash w msg_id of None \<Rightarrow> Unexp_q [] | Some matchq \<Rightarrow> matchq) of
           Unexp_q ds \<Rightarrow>
             (case ucp_recv_desc_init rd w
                     \<lparr>desc_only = False, desc_sync = None, desc_hdr = Eager_middle_hdr msg_id offset, desc_payload = payload\<rparr> of
                (status, Some d, w) \<Rightarrow>
                  (if middle_assert (Unexp_q (ds @ [d]))
                   then Some (status, w\<lparr>frag_hash := (frag_hash w)(msg_id \<mapsto> Unexp_q (ds @ [d]))\<rparr>) else None)
              | (status, None, w) \<Rightarrow>
                  (if middle_assert (Unexp_q ds)
                   then Some (status, w\<lparr>frag_hash := (frag_hash w)(msg_id := (if ds = [] then None else Some (Unexp_q ds)))\<rparr>)
                   else None))
         | Exp_req p \<Rightarrow>
             (case ucp_request_process_recv_data w p payload offset of
                None \<Rightarrow> None
              | Some (status, w) \<Rightarrow>
                  Some (UCS_OK,
                    if status \<noteq> UCS_INPROGRESS then w\<lparr>frag_hash := (frag_hash w)(msg_id := None)\<rparr> else w))))"

section \<open>Receive calls\<close>

text \<open>
  The attributes of a receive call that matter here, and the outcome of the initialisation of its datatype
  iterator.
\<close>

record recv_param =
  force_imm_cmpl :: bool
  no_imm_cmpl :: bool
  want_recv_info :: bool
  contig :: bool
  dt_init :: ucs_status

datatype recv_ret = Ret_req nat | Ret_status ucs_status "(u64 \<times> nat) option"

definition ucp_datatype_iter_unpack_single :: "ucs_status \<Rightarrow> u8 list \<Rightarrow> u8 list \<Rightarrow> (ucs_status \<times> u8 list) option" where
  "ucp_datatype_iter_unpack_single init buf data =
     (if init \<noteq> UCS_OK then Some (init, buf)
      else if length buf < length data then Some (UCS_ERR_MESSAGE_TRUNCATED, buf)
      else ucp_datatype_iter_unpack (length buf) buf 0 data)"

definition ucp_tag_recv_eager_multi :: "bool \<Rightarrow> worker \<Rightarrow> nat \<Rightarrow> nat \<Rightarrow> worker option" where
  "ucp_tag_recv_eager_multi kh_ok w p d =
     (case descs w d of
        None \<Rightarrow> None
      | Some rdesc \<Rightarrow>
          (case desc_hdr rdesc of
             Eager_first_hdr tag total_len msg_id \<Rightarrow>
               (let w = set_req w p (\<lambda>req. req\<lparr>req_sender_tag := ucp_rdesc_get_tag rdesc, req_remaining := total_len,
                                              req_info_length := total_len\<rparr>);
                    w = ucp_tag_eager_sync_send_ack w (desc_sync rdesc)
                in case ucp_tag_recv_request_process_rdesc w p d 0 of
                     None \<Rightarrow> None
                   | Some (status, w) \<Rightarrow>
                       (if status = UCS_INPROGRESS then ucp_tag_frag_list_process_queue kh_ok w p msg_id else Some w))
           | _ \<Rightarrow> None))"

definition ucp_request_put :: "worker \<Rightarrow> nat \<Rightarrow> worker" where
  "ucp_request_put w p = w\<lparr>reqs := (reqs w)(p := None)\<rparr>"

definition out_completed :: "recv_param \<Rightarrow> worker \<Rightarrow> nat \<Rightarrow> ucs_status \<Rightarrow> (recv_ret \<times> worker) option" where
  "out_completed param w p status =
     (case reqs w p of
        None \<Rightarrow> None
      | Some req \<Rightarrow>
          (if no_imm_cmpl param then Some (Ret_req p, w)
           else Some (Ret_status status (if want_recv_info param \<and> status = UCS_OK
                                         then Some (req_sender_tag req, req_info_length req) else None),
                      ucp_request_put w p)))"

definition new_request :: "recv_param \<Rightarrow> nat \<Rightarrow> nat \<Rightarrow> u64 \<Rightarrow> u64 \<Rightarrow> request" where
  "new_request param b len tag tag_mask =
     \<lparr>req_status = UCS_OK, req_completed = False, req_offloaded = False, req_block_offload = \<not> contig param,
      req_tag = tag, req_tag_mask = tag_mask, req_sn = 0, req_remaining = 0, req_buffer = b, req_length = len,
      req_sender_tag = 0, req_info_length = 0\<rparr>"

text \<open>The fast path for a matched single-packet message.\<close>

definition recv_only_matched :: "recv_param \<Rightarrow> worker \<Rightarrow> nat \<Rightarrow> nat \<Rightarrow> nat \<Rightarrow> recv_desc \<Rightarrow> (recv_ret \<times> worker) option" where
  "recv_only_matched param w p b d rdesc =
     (case bufs w b of
        None \<Rightarrow> None
      | Some buf \<Rightarrow>
          (let w = ucp_tag_eager_sync_send_ack w (desc_sync rdesc)
           in case ucp_datatype_iter_unpack_single (dt_init param) buf (desc_payload rdesc) of
                None \<Rightarrow> None
              | Some (status, buf) \<Rightarrow>
                  (let req = (new_request param b (length buf) 0 0)
                         \<lparr>req_completed := True, req_status := status, req_sender_tag := ucp_rdesc_get_tag rdesc,
                          req_info_length := length (desc_payload rdesc)\<rparr>;
                       w = ucp_recv_desc_release
                         (w\<lparr>bufs := (bufs w)(b \<mapsto> buf), reqs := (reqs w)(p \<mapsto> req),
                            completions := completions w @ [(p, status)]\<rparr>) d
                   in out_completed param w p status)))"

definition ucp_tag_recv_common ::
  "bool \<Rightarrow> recv_param \<Rightarrow> worker \<Rightarrow> nat \<Rightarrow> u64 \<Rightarrow> u64 \<Rightarrow> nat \<Rightarrow> nat option \<Rightarrow> (recv_ret \<times> worker) option" where
  "ucp_tag_recv_common kh_ok param w b tag tag_mask p rdesc =
     (case (rdesc, Option.bind rdesc (descs w), bufs w b) of
        (Some d, None, _) \<Rightarrow> None
      | (_, _, None) \<Rightarrow> None
      | (_, desc, Some buf) \<Rightarrow>
          (if desc \<noteq> None \<and> desc_only (the desc) then recv_only_matched param w p b (the rdesc) (the desc)
           else if force_imm_cmpl param then Some (Ret_status UCS_ERR_NO_RESOURCE None, ucp_request_put w p)
           else if dt_init param \<noteq> UCS_OK then Some (Ret_status (dt_init param) None, ucp_request_put w p)
           else
             (let w = w\<lparr>reqs := (reqs w)(p \<mapsto> new_request param b (length buf) tag tag_mask)\<rparr>
              in case rdesc of
                   Some d \<Rightarrow>
                     (case ucp_tag_recv_eager_multi kh_ok w p d of
                        None \<Rightarrow> None
                      | Some w \<Rightarrow>
                          (case reqs w p of
                             None \<Rightarrow> None
                           | Some req \<Rightarrow>
                               (if req_completed req then out_completed param w p (req_status req) else Some (Ret_req p, w))))
                 | None \<Rightarrow>
                     (let q = ucp_tag_exp_get_queue tag tag_mask
                      in case ucp_tag_offload_try_post w p q of
                           None \<Rightarrow> None
                         | Some w \<Rightarrow> map_option (Pair (Ret_req p)) (ucp_tag_exp_push w q p)))))"

text \<open>\<open>p\<close> is the request that \<open>ucp_request_get_param\<close> gives, if it gives one.\<close>

definition ucp_tag_recv_nbx ::
  "bool \<Rightarrow> recv_param \<Rightarrow> worker \<Rightarrow> nat option \<Rightarrow> nat \<Rightarrow> u64 \<Rightarrow> u64 \<Rightarrow> (recv_ret \<times> worker) option" where
  "ucp_tag_recv_nbx kh_ok param w p b tag tag_mask =
     (case p of
        None \<Rightarrow> Some (Ret_status UCS_ERR_NO_MEMORY None, w)
      | Some p \<Rightarrow>
          (case ucp_tag_unexp_search w tag tag_mask True of
             None \<Rightarrow> None
           | Some (rdesc, w) \<Rightarrow> ucp_tag_recv_common kh_ok param w b tag tag_mask p rdesc))"

definition ucp_tag_msg_recv_nbx ::
  "bool \<Rightarrow> recv_param \<Rightarrow> worker \<Rightarrow> nat option \<Rightarrow> nat \<Rightarrow> nat \<Rightarrow> (recv_ret \<times> worker) option" where
  "ucp_tag_msg_recv_nbx kh_ok param w p b message =
     (case p of
        None \<Rightarrow> Some (Ret_status UCS_ERR_NO_MEMORY None, w)
      | Some p \<Rightarrow>
          (case descs w message of
             None \<Rightarrow> None
           | Some rdesc \<Rightarrow>
               ucp_tag_recv_common kh_ok param w b (ucp_rdesc_get_tag rdesc) UCP_TAG_MASK_FULL p (Some message)))"

definition nb_param :: "bool \<Rightarrow> ucs_status \<Rightarrow> recv_param" where
  "nb_param is_contig init =
     \<lparr>force_imm_cmpl = False, no_imm_cmpl = True, want_recv_info = False, contig = is_contig, dt_init = init\<rparr>"

definition ucp_tag_recv_nb ::
  "bool \<Rightarrow> bool \<Rightarrow> ucs_status \<Rightarrow> worker \<Rightarrow> nat option \<Rightarrow> nat \<Rightarrow> u64 \<Rightarrow> u64 \<Rightarrow> (recv_ret \<times> worker) option" where
  "ucp_tag_recv_nb kh_ok is_contig init w p b tag tag_mask =
     ucp_tag_recv_nbx kh_ok (nb_param is_contig init) w p b tag tag_mask"

definition ucp_tag_recv_nbr ::
  "bool \<Rightarrow> bool \<Rightarrow> ucs_status \<Rightarrow> worker \<Rightarrow> nat \<Rightarrow> nat \<Rightarrow> u64 \<Rightarrow> u64 \<Rightarrow> (ucs_status \<times> worker) option" where
  "ucp_tag_recv_nbr kh_ok is_contig init w p b tag tag_mask =
     map_option (\<lambda>(r, w). (case r of Ret_req p \<Rightarrow> UCS_OK | Ret_status status info \<Rightarrow>
                              if status = UCS_INPROGRESS then UCS_OK else status, w))
       (ucp_tag_recv_nbx kh_ok (nb_param is_contig init) w (Some p) b tag tag_mask)"

definition ucp_tag_msg_recv_nb ::
  "bool \<Rightarrow> bool \<Rightarrow> ucs_status \<Rightarrow> worker \<Rightarrow> nat option \<Rightarrow> nat \<Rightarrow> nat \<Rightarrow> (recv_ret \<times> worker) option" where
  "ucp_tag_msg_recv_nb kh_ok is_contig init w p b message =
     ucp_tag_msg_recv_nbx kh_ok (nb_param is_contig init) w p b message"

definition ucp_tag_probe_nb :: "worker \<Rightarrow> u64 \<Rightarrow> u64 \<Rightarrow> bool \<Rightarrow> ((nat \<times> u64 \<times> nat) option \<times> worker) option" where
  "ucp_tag_probe_nb w tag tag_mask rem =
     (case ucp_tag_unexp_search w tag tag_mask False of
        None \<Rightarrow> None
      | Some (None, w) \<Rightarrow> Some (None, w)
      | Some (Some d, w) \<Rightarrow>
          (case descs w d of
             None \<Rightarrow> None
           | Some rdesc \<Rightarrow>
               (case (if desc_only rdesc then Some (length (desc_payload rdesc))
                      else (case desc_hdr rdesc of Eager_first_hdr tag total_len msg_id \<Rightarrow> Some total_len | _ \<Rightarrow> None)) of
                  None \<Rightarrow> None
                | Some len \<Rightarrow>
                    Some (Some (d, ucp_rdesc_get_tag rdesc, len), if rem then ucp_tag_unexp_remove w d else w))))"

definition ucp_request_cancel :: "worker \<Rightarrow> nat \<Rightarrow> worker option" where
  "ucp_request_cancel w p =
     (case reqs w p of
        None \<Rightarrow> None
      | Some req \<Rightarrow>
          (if req_completed req then Some w
           else
             (case ucp_tag_exp_remove w p of
                None \<Rightarrow> None
              | Some (removed, w) \<Rightarrow>
                  (if removed \<and> \<not> req_offloaded req then ucp_request_complete_tag_recv w p UCS_ERR_CANCELED else Some w))))"

section \<open>Delivery of a whole message\<close>

definition fit_status :: "u8 list \<Rightarrow> u8 list \<Rightarrow> ucs_status" where
  "fit_status buf data = (if length data \<le> length buf then UCS_OK else UCS_ERR_MESSAGE_TRUNCATED)"

definition fit_buffer :: "u8 list \<Rightarrow> u8 list \<Rightarrow> u8 list" where
  "fit_buffer buf data = (if length data \<le> length buf then data @ drop (length data) buf else buf)"

lemma unpack_fits:
  assumes "offset + length data \<le> length buf" and "length buf < 2 ^ 64"
  shows "ucp_datatype_iter_unpack (length buf) buf offset data =
    Some (UCS_OK, take offset buf @ data @ drop (offset + length data) buf)"
proof -
  have "to_size (int (length buf) - int offset) = length buf - offset"
    using assms by (subst to_size_small) simp_all
  then show ?thesis using assms(1) by (simp add: ucp_datatype_iter_unpack_def write_at_def)
qed

lemma only_matched_ok:
  assumes req: "reqs w p = Some req" "waiting req" "bufs w (req_buffer req) = Some buf" "req_length req = length buf"
    and small: "length buf < 2 ^ 64" "length data < 2 ^ 64"
  shows "eager_only_matched w p data =
    Some (w\<lparr>reqs := (reqs w)(p \<mapsto> req\<lparr>req_info_length := length data, req_completed := True, req_status := fit_status buf data\<rparr>),
            bufs := (bufs w)(req_buffer req \<mapsto> fit_buffer buf data), completions := completions w @ [(p, fit_status buf data)]\<rparr>)"
proof -
  have "size_add (length data) 0 = length data" using small(2) by (simp add: size_add_small)
  then show ?thesis
    using req small unpack_fits [of 0 data buf]
    by (auto simp: eager_only_matched_def set_req_def ucp_request_recv_data_unpack_def waiting_def fit_status_def fit_buffer_def
      ucp_request_complete_tag_recv_def intro!: worker.equality)
qed

lemma fit_buffer_length [simp]: "length (fit_buffer buf data) = length buf"
  by (simp add: fit_buffer_def)

lemma unpack_single_fits:
  "length buf < 2 ^ 64 \<Longrightarrow> ucp_datatype_iter_unpack_single UCS_OK buf data = Some (fit_status buf data, fit_buffer buf data)"
  using unpack_fits [of 0 data buf] by (simp add: ucp_datatype_iter_unpack_single_def fit_status_def fit_buffer_def)

text \<open>The request of a receive that a waiting single-packet message completes at once.\<close>

definition done_request :: "nat \<Rightarrow> u8 list \<Rightarrow> recv_desc \<Rightarrow> request" where
  "done_request b buf rdesc =
     (new_request (nb_param True UCS_OK) b (length buf) 0 0)
       \<lparr>req_completed := True, req_status := fit_status buf (desc_payload rdesc), req_sender_tag := ucp_rdesc_get_tag rdesc,
        req_info_length := length (desc_payload rdesc)\<rparr>"

lemma recv_only_ok:
  assumes "bufs w b = Some buf" and "length buf < 2 ^ 64" and "desc_sync rdesc = None"
  shows "recv_only_matched (nb_param True UCS_OK) w p b d rdesc =
    Some (Ret_req p, w\<lparr>descs := (descs w)(d := None), bufs := (bufs w)(b \<mapsto> fit_buffer buf (desc_payload rdesc)),
      reqs := (reqs w)(p \<mapsto> done_request b buf rdesc),
      completions := completions w @ [(p, fit_status buf (desc_payload rdesc))]\<rparr>)"
  using assms
  by (simp add: recv_only_matched_def unpack_single_fits nb_param_def ucp_tag_eager_sync_send_ack_def out_completed_def
    ucp_recv_desc_release_def done_request_def Let_def)

end
