(* ===== verification/Ucp_Tag_Order.thy ===== *)
theory Ucp_Tag_Order
  imports Ucp_Tag_Recv
begin

text \<open>
  The order of matching: the hashed queues, the wildcard queue and their sequence numbers give each message to
  the first matching receive in the order of posting, and each receive the first matching message in the
  order of arrival. The specification has one list of receives and one list of messages.
\<close>

section \<open>Specification\<close>

datatype tm_op = Recv nat nat u64 u64 | Arrive nat u64 "u8 list" | Cancel nat

fun take_first :: "('a \<Rightarrow> bool) \<Rightarrow> 'a list \<Rightarrow> ('a \<times> 'a list) option" where
  "take_first P [] = None"
| "take_first P (x # xs) = (if P x then Some (x, xs) else map_option (\<lambda>(y, ys). (y, x # ys)) (take_first P xs))"

record match_state =
  recvs :: "(nat \<times> u64 \<times> u64) list"
  msgs :: "(u64 \<times> u8 list) list"
  outcomes :: "(nat \<times> (u64 \<times> u8 list) option) list"

definition recv_takes :: "u64 \<Rightarrow> nat \<times> u64 \<times> u64 \<Rightarrow> bool" where
  "recv_takes tag r \<longleftrightarrow> (case r of (p, t, m) \<Rightarrow> ucp_tag_is_match tag t m)"

definition msg_fits :: "u64 \<Rightarrow> u64 \<Rightarrow> u64 \<times> u8 list \<Rightarrow> bool" where
  "msg_fits tag tag_mask msg \<longleftrightarrow> ucp_tag_is_match (fst msg) tag tag_mask"

fun spec_step :: "match_state \<Rightarrow> tm_op \<Rightarrow> match_state" where
  "spec_step s (Recv p b tag tag_mask) =
     (case take_first (msg_fits tag tag_mask) (msgs s) of
        None \<Rightarrow> s\<lparr>recvs := recvs s @ [(p, tag, tag_mask)]\<rparr>
      | Some (msg, rest) \<Rightarrow> s\<lparr>msgs := rest, outcomes := outcomes s @ [(p, Some msg)]\<rparr>)"
| "spec_step s (Arrive d tag data) =
     (case take_first (recv_takes tag) (recvs s) of
        None \<Rightarrow> s\<lparr>msgs := msgs s @ [(tag, data)]\<rparr>
      | Some ((p, t, m), rest) \<Rightarrow> s\<lparr>recvs := rest, outcomes := outcomes s @ [(p, Some (tag, data))]\<rparr>)"
| "spec_step s (Cancel p) =
     (case take_first (\<lambda>r. fst r = p) (recvs s) of
        None \<Rightarrow> s
      | Some (r, rest) \<Rightarrow> s\<lparr>recvs := rest, outcomes := outcomes s @ [(p, None)]\<rparr>)"

definition spec_run :: "tm_op list \<Rightarrow> match_state" where
  "spec_run ops = foldl spec_step \<lparr>recvs = [], msgs = [], outcomes = []\<rparr> ops"

text \<open>The same calls on the worker, with memory available.\<close>

fun tm_step :: "worker \<Rightarrow> tm_op \<Rightarrow> worker option" where
  "tm_step w (Recv p b tag tag_mask) = map_option snd (ucp_tag_recv_nb True True UCS_OK w (Some p) b tag tag_mask)"
| "tm_step w (Arrive d tag data) = map_option snd (ucp_eager_only_handler True (Pool_desc d) w tag data)"
| "tm_step w (Cancel p) = ucp_request_cancel w p"

fun tm_run :: "worker \<Rightarrow> tm_op list \<Rightarrow> worker option" where
  "tm_run w [] = Some w"
| "tm_run w (op # ops) = (case tm_step w op of None \<Rightarrow> None | Some w \<Rightarrow> tm_run w ops)"

text \<open>
  The calls of a program that gives every receive its own request and an allocated buffer of its own, and
  cancels only requests it has made. \<open>A\<close> is the list of requests so far with their buffers, \<open>D\<close> the descriptors.
\<close>

fun ops_ok :: "(nat \<rightharpoonup> u8 list) \<Rightarrow> (nat \<times> nat) list \<Rightarrow> nat list \<Rightarrow> tm_op list \<Rightarrow> bool" where
  "ops_ok bs A D [] \<longleftrightarrow> True"
| "ops_ok bs A D (Recv p b tag tag_mask # ops) \<longleftrightarrow>
     p \<notin> set (map fst A) \<and> b \<notin> set (map snd A) \<and> (case bs b of None \<Rightarrow> False | Some buf \<Rightarrow> length buf < 2 ^ 64) \<and>
     ops_ok bs ((p, b) # A) D ops"
| "ops_ok bs A D (Arrive d tag data # ops) \<longleftrightarrow> d \<notin> set D \<and> length data < 2 ^ 64 \<and> ops_ok bs A (d # D) ops"
| "ops_ok bs A D (Cancel p # ops) \<longleftrightarrow> p \<in> set (map fst A) \<and> ops_ok bs A D ops"

text \<open>The requests of the receive calls with their buffers.\<close>

fun recv_bufs :: "tm_op list \<Rightarrow> (nat \<times> nat) list" where
  "recv_bufs [] = []"
| "recv_bufs (Recv p b tag tag_mask # ops) = (p, b) # recv_bufs ops"
| "recv_bufs (op # ops) = recv_bufs ops"

text \<open>What a request shows at the end, given the buffers at the start.\<close>

definition outcome_ok :: "(nat \<rightharpoonup> u8 list) \<Rightarrow> worker \<Rightarrow> nat \<times> (u64 \<times> u8 list) option \<Rightarrow> bool" where
  "outcome_ok bs w out \<longleftrightarrow>
     (case reqs w (fst out) of
        None \<Rightarrow> False
      | Some req \<Rightarrow>
          req_completed req \<and>
          (case (snd out, bs (req_buffer req)) of
             (None, Some buf) \<Rightarrow> req_status req = UCS_ERR_CANCELED \<and> bufs w (req_buffer req) = Some buf
           | (Some (tag, data), Some buf) \<Rightarrow>
               req_sender_tag req = tag \<and> req_info_length req = length data \<and> req_status req = fit_status buf data \<and>
               bufs w (req_buffer req) = Some (fit_buffer buf data)
           | _ \<Rightarrow> False))"

section \<open>The first element\<close>

lemma take_first_None: "take_first P xs = None \<longleftrightarrow> (\<forall>x \<in> set xs. \<not> P x)"
  by (induction xs) auto

lemma take_first_find:
  assumes "\<And>x. x \<in> set xs \<Longrightarrow> P x = Q (f x)"
  shows "find Q (map f xs) = map_option (\<lambda>r. f (fst r)) (take_first P xs)"
  using assms by (induction xs) (simp_all add: option.map_comp comp_def case_prod_beta)

lemma take_first_Some:
  assumes "take_first P xs = Some (x, rest)"
  shows "\<exists>ys zs. xs = ys @ x # zs \<and> rest = ys @ zs \<and> P x \<and> (\<forall>y \<in> set ys. \<not> P y)"
  using assms
proof (induction xs arbitrary: rest)
  case (Cons a xs)
  show ?case
  proof (cases "P a")
    case True
    then show ?thesis using Cons.prems by (intro exI [of _ "[]"] exI [of _ xs]) auto
  next
    case False
    then obtain rest' where "take_first P xs = Some (x, rest')" "rest = a # rest'" using Cons.prems by auto
    with Cons.IH obtain ys zs where "xs = ys @ x # zs" "rest' = ys @ zs" "P x" "\<forall>y \<in> set ys. \<not> P y" by blast
    then show ?thesis using False \<open>rest = a # rest'\<close> by (intro exI [of _ "a # ys"] exI [of _ zs]) auto
  qed
qed simp

text \<open>The list of keys after the removal.\<close>

lemma take_first_remove1:
  assumes "take_first P xs = Some (x, rest)" and "distinct (map f xs)"
  shows "map f rest = remove1 (f x) (map f xs)"
proof -
  obtain ys zs where "xs = ys @ x # zs" "rest = ys @ zs" using take_first_Some [OF assms(1)] by blast
  with assms(2) show ?thesis by (auto simp: remove1_append)
qed

section \<open>The relation\<close>

definition issued_ok :: "(nat \<rightharpoonup> u8 list) \<Rightarrow> (nat \<times> nat) list \<Rightarrow> worker \<Rightarrow> bool" where
  "issued_ok bs A w \<longleftrightarrow> distinct (map fst A) \<and> distinct (map snd A) \<and> dom (reqs w) = set (map fst A) \<and>
     (\<forall>(p, b) \<in> set A. \<exists>req. reqs w p = Some req \<and> req_buffer req = b) \<and>
     (\<forall>b. b \<notin> set (map snd A) \<longrightarrow> bufs w b = bs b)"

definition recv_ok :: "(nat \<rightharpoonup> u8 list) \<Rightarrow> worker \<Rightarrow> nat \<times> u64 \<times> u64 \<Rightarrow> bool" where
  "recv_ok bs w r \<longleftrightarrow> (\<exists>req buf. reqs w (fst r) = Some req \<and> req_tag req = fst (snd r) \<and> req_tag_mask req = snd (snd r) \<and>
     bufs w (req_buffer req) = Some buf \<and> bs (req_buffer req) = Some buf \<and> req_length req = length buf \<and> length buf < 2 ^ 64)"

definition only_desc :: "u64 \<times> u8 list \<Rightarrow> recv_desc" where
  "only_desc msg = \<lparr>desc_only = True, desc_sync = None, desc_hdr = Eager_hdr (fst msg), desc_payload = snd msg\<rparr>"

definition order_rel :: "(nat \<rightharpoonup> u8 list) \<Rightarrow> (nat \<times> nat) list \<Rightarrow> nat list \<Rightarrow> worker \<Rightarrow> match_state \<Rightarrow> bool" where
  "order_rel bs A D w s \<longleftrightarrow> tm_ok w (map fst (recvs s)) \<and> issued_ok bs A w \<and> (\<forall>r \<in> set (recvs s). recv_ok bs w r) \<and>
     list_all2 (\<lambda>d msg. descs w d = Some (only_desc msg)) (unexp_all w) (msgs s) \<and> dom (descs w) \<subseteq> set D \<and>
     (\<forall>out \<in> set (outcomes s). outcome_ok bs w out) \<and> map fst (completions w) = map fst (outcomes s)"

lemma order_relD:
  assumes "order_rel bs A D w s"
  shows "exp_ok w (map fst (recvs s))" "unexp_ok w" "issued_ok bs A w" "\<And>r. r \<in> set (recvs s) \<Longrightarrow> recv_ok bs w r"
    "list_all2 (\<lambda>d msg. descs w d = Some (only_desc msg)) (unexp_all w) (msgs s)" "dom (descs w) \<subseteq> set D"
    "\<And>out. out \<in> set (outcomes s) \<Longrightarrow> outcome_ok bs w out" "map fst (completions w) = map fst (outcomes s)"
  using assms by (auto simp: order_rel_def tm_ok_def)

lemma outcome_ok_cong: "reqs w' (fst out) = reqs w (fst out) \<Longrightarrow> bufs w' = bufs w \<Longrightarrow> outcome_ok bs w' out = outcome_ok bs w out"
  by (simp only: outcome_ok_def)

lemma only_desc_tag [simp]: "ucp_rdesc_get_tag (only_desc msg) = fst msg"
  by (simp add: only_desc_def ucp_rdesc_get_tag_def)

text \<open>A waiting receive has no outcome yet.\<close>

lemma outcome_not_waiting:
  assumes "order_rel bs A D w s" and "out \<in> set (outcomes s)"
  shows "fst out \<notin> set (map fst (recvs s))"
proof
  assume "fst out \<in> set (map fst (recvs s))"
  then obtain req where "reqs w (fst out) = Some req" "waiting req" using exp_okD(3) [OF order_relD(1) [OF assms(1)]] by blast
  with order_relD(7) [OF assms] show False by (simp add: outcome_ok_def waiting_def)
qed

text \<open>A change of one request and its buffer leaves the others alone.\<close>

lemma issued_change:
  assumes ok: "issued_ok bs A w" and p: "(p, b) \<in> set A"
    and rs: "reqs w' = (reqs w)(p \<mapsto> req')" "req_buffer req' = b" and bufs: "\<And>c. c \<noteq> b \<Longrightarrow> bufs w' c = bufs w c"
  shows "issued_ok bs A w'" and "q \<noteq> p \<Longrightarrow> reqs w q = Some req \<Longrightarrow> req_buffer req \<noteq> b"
proof -
  have b: "b \<in> set (map snd A)" using p by force
  have bs: "bufs w' c = bs c" if "c \<notin> set (map snd A)" for c
  proof -
    have "c \<noteq> b" using that b by blast
    then show ?thesis using that ok bufs by (simp add: issued_ok_def)
  qed
  have one: "b' = b" if "(p, b') \<in> set A" for b'
    using that p ok by (auto simp: issued_ok_def dest: eq_key_imp_eq_value)
  have "p \<in> dom (reqs w)" using ok p by (force simp: issued_ok_def)
  then have dom: "dom (reqs w') = dom (reqs w)" using rs by auto
  have "\<exists>req. reqs w' q = Some req \<and> req_buffer req = c" if "(q, c) \<in> set A" for q c
    using that one rs ok by (cases "q = p") (auto simp: issued_ok_def)
  with bs dom ok show "issued_ok bs A w'" by (auto simp: issued_ok_def)
next
  assume q: "q \<noteq> p" "reqs w q = Some req"
  then have "q \<in> set (map fst A)" using ok by (auto simp: issued_ok_def)
  then obtain c where c: "(q, c) \<in> set A" by auto
  then have "req_buffer req = c" using ok q(2) by (auto simp: issued_ok_def)
  moreover have "c \<noteq> b"
  proof
    assume "c = b"
    then have "(q, c) = (p, b)" using inj_onD [of snd "set A" "(q, c)" "(p, b)"] c p ok by (simp add: issued_ok_def distinct_map)
    with q(1) show False by simp
  qed
  ultimately show "req_buffer req \<noteq> b" by simp
qed

lemma issued_new:
  assumes "issued_ok bs A w" and "p \<notin> set (map fst A)" and "b \<notin> set (map snd A)" and "req_buffer req = b"
  shows "issued_ok bs ((p, b) # A) (w\<lparr>reqs := (reqs w)(p \<mapsto> req)\<rparr>)"
proof -
  have "\<exists>r. ((reqs w)(p \<mapsto> req)) q = Some r \<and> req_buffer r = c" if "(q, c) \<in> set A" for q c
  proof -
    have "q \<noteq> p" using that assms(2) by force
    moreover have "\<exists>r. reqs w q = Some r \<and> req_buffer r = c" using that assms(1) by (fastforce simp: issued_ok_def)
    ultimately show ?thesis by simp
  qed
  with assms show ?thesis by (auto simp: issued_ok_def)
qed

text \<open>A receive gets its outcome.\<close>

lemma outcome_step:
  assumes rel: "\<And>r. r \<in> set R \<Longrightarrow> recv_ok bs w r" "\<And>out. out \<in> set outs \<Longrightarrow> outcome_ok bs w out \<and> fst out \<noteq> p"
    and R: "p \<notin> set (map fst R)" and ok: "issued_ok bs A w" and p: "(p, b) \<in> set A"
    and rs: "reqs w' = (reqs w)(p \<mapsto> req')" "req_buffer req' = b" and bufs: "\<And>c. c \<noteq> b \<Longrightarrow> bufs w' c = bufs w c"
  shows "\<And>r. r \<in> set R \<Longrightarrow> recv_ok bs w' r" "\<And>out. out \<in> set outs \<Longrightarrow> outcome_ok bs w' out"
proof -
  have other: "req_buffer req \<noteq> b" if "q \<noteq> p" "reqs w q = Some req" for q req
    by (rule issued_change(2) [OF ok p rs bufs that]) simp
  show "recv_ok bs w' r" if r: "r \<in> set R" for r
  proof -
    have ne: "fst r \<noteq> p" using r R by auto
    obtain req buf where "reqs w (fst r) = Some req" "req_tag req = fst (snd r)" "req_tag_mask req = snd (snd r)"
      "bufs w (req_buffer req) = Some buf" "bs (req_buffer req) = Some buf" "req_length req = length buf" "length buf < 2 ^ 64"
      using rel(1) [OF r] by (auto simp: recv_ok_def)
    with ne other [OF ne] rs bufs show ?thesis by (auto simp: recv_ok_def)
  qed
  show "outcome_ok bs w' out" if out: "out \<in> set outs" for out
  proof -
    have ne: "fst out \<noteq> p" using rel(2) [OF out] by simp
    obtain req where req: "reqs w (fst out) = Some req" using rel(2) [OF out] by (auto simp: outcome_ok_def split: option.splits)
    have "bufs w' (req_buffer req) = bufs w (req_buffer req)" using bufs other [OF ne req] by simp
    then show ?thesis using rel(2) [OF out] req ne rs by (auto simp: outcome_ok_def split: option.splits)
  qed
qed

section \<open>An arriving message\<close>

lemma recv_takes_eq: "recv_ok bs w r \<Longrightarrow> recv_takes tag r = req_matches (reqs w) tag (fst r)"
  by (cases r) (auto simp: recv_takes_def recv_ok_def req_matches_def)

lemma unexp_in_descs: "unexp_ok w \<Longrightarrow> dom (descs w) \<subseteq> D \<Longrightarrow> d \<notin> D \<Longrightarrow> d \<notin> set (unexp_all w)"
  using unexp_okD(3) by blast

lemma arrive_unexpected:
  assumes rel: "order_rel bs A D w s" and d: "d \<notin> set D" and search: "ucp_tag_exp_search w tag = Some (None, w)"
  obtains w' where "tm_step w (Arrive d tag data) = Some w'" "exp_sn w' = exp_sn w"
    "order_rel bs A (d # D) w' (s\<lparr>msgs := msgs s @ [(tag, data)]\<rparr>)"
proof -
  note R = order_relD [OF rel]
  let ?w = "w\<lparr>descs := (descs w)(d \<mapsto> only_desc (tag, data))\<rparr>"
  have fresh: "d \<notin> set (unexp_all w)" using unexp_in_descs [OF R(2) R(6) d] .
  then have "unexp_ok ?w" by (intro unexp_ok_frame [OF R(2)]) auto
  then obtain h where h: "ucp_tag_unexp_recv ?w d tag = Some (?w\<lparr>unexp_hash := h, unexp_all := unexp_all w @ [d]\<rparr>)"
    "unexp_ok (?w\<lparr>unexp_hash := h, unexp_all := unexp_all w @ [d]\<rparr>)"
    using unexp_recv_ok [of ?w d "only_desc (tag, data)"] fresh by auto
  define w' where "w' = ?w\<lparr>unexp_hash := h, unexp_all := unexp_all w @ [d]\<rparr>"
  have "exp_ok w' (map fst (recvs s))" by (rule exp_ok_frame [OF R(1)]) (simp_all add: w'_def)
  moreover have "list_all2 (\<lambda>e msg. descs w' e = Some (only_desc msg)) (unexp_all w') (msgs s @ [(tag, data)])"
  proof -
    have "list_all2 (\<lambda>e msg. descs w' e = Some (only_desc msg)) (unexp_all w) (msgs s)"
      using R(5) by (rule list.rel_mono_strong) (use fresh in \<open>auto simp: w'_def\<close>)
    then show ?thesis by (auto simp: w'_def intro!: list_all2_appendI)
  qed
  moreover have "issued_ok bs A w'" using R(3) by (simp add: issued_ok_def w'_def)
  moreover have "recv_ok bs w' r" if "r \<in> set (recvs s)" for r using R(4) [OF that] by (simp add: recv_ok_def w'_def)
  moreover have "outcome_ok bs w' out" if "out \<in> set (outcomes s)" for out
    using R(7) [OF that] outcome_ok_cong [of w' out w] by (simp add: w'_def)
  moreover have "dom (descs w') \<subseteq> set (d # D)" using R(6) by (auto simp: w'_def)
  moreover have "unexp_ok w'" "completions w' = completions w" using h(2) by (simp_all add: w'_def)
  ultimately have "order_rel bs A (d # D) w' (s\<lparr>msgs := msgs s @ [(tag, data)]\<rparr>)"
    using R(8) by (simp add: order_rel_def tm_ok_def)
  moreover have "tm_step w (Arrive d tag data) = Some w'"
    using search h(1) unfolding w'_def
    by (simp add: ucp_eager_only_handler_def ucp_eager_tagged_handler_def ucp_recv_desc_init_def only_desc_def
      ucp_rdesc_get_tag_def Let_def)
  moreover have "exp_sn w' = exp_sn w" by (simp add: w'_def)
  ultimately show ?thesis using that by blast
qed

lemma arrive_expected:
  assumes rel: "order_rel bs A D w s" and first: "take_first (recv_takes tag) (recvs s) = Some ((p, t, m), rest)"
    and search: "ucp_tag_exp_search w tag = Some (Some p, w1)" and w1: "same_but_exp w w1" "exp_ok w1 (map fst rest)"
    and data: "length data < 2 ^ 64"
  obtains w' where "tm_step w (Arrive d tag data) = Some w'" "exp_sn w' = exp_sn w"
    "order_rel bs A (d # D) w' (s\<lparr>recvs := rest, outcomes := outcomes s @ [(p, Some (tag, data))]\<rparr>)"
proof -
  note R = order_relD [OF rel]
  obtain ys zs where split: "recvs s = ys @ (p, t, m) # zs" "rest = ys @ zs" using take_first_Some [OF first] by blast
  have mem: "(p, t, m) \<in> set (recvs s)" and sub: "set rest \<subseteq> set (recvs s)" using split by auto
  have p_rest: "p \<notin> set (map fst rest)" using exp_okD(2) [OF R(1)] split by auto
  obtain req buf where req: "reqs w p = Some req" "bufs w (req_buffer req) = Some buf" "bs (req_buffer req) = Some buf"
    "req_length req = length buf" "length buf < 2 ^ 64" using R(4) [OF mem] by (auto simp: recv_ok_def)
  have waiting: "waiting req" using exp_okD(3) [OF R(1), of p] mem req(1) by force
  let ?b = "req_buffer req"
  let ?req = "req\<lparr>req_sender_tag := tag\<rparr>"
  let ?w2 = "w1\<lparr>reqs := (reqs w1)(p \<mapsto> ?req)\<rparr>"
  let ?req' = "?req\<lparr>req_info_length := length data, req_completed := True, req_status := fit_status buf data\<rparr>"
  let ?w3 = "?w2\<lparr>reqs := (reqs ?w2)(p \<mapsto> ?req'), bufs := (bufs ?w2)(?b \<mapsto> fit_buffer buf data),
    completions := completions ?w2 @ [(p, fit_status buf data)]\<rparr>"
  have same: "reqs w1 = reqs w" "bufs w1 = bufs w" "descs w1 = descs w" "unexp_all w1 = unexp_all w"
    "unexp_hash w1 = unexp_hash w" "completions w1 = completions w" "exp_sn w1 = exp_sn w"
    using w1(1) by (simp_all add: same_but_exp_def)
  have "eager_only_matched ?w2 p data = Some ?w3"
    using only_matched_ok [of ?w2 p ?req buf data] req waiting data same by (simp add: waiting_def)
  then have step: "tm_step w (Arrive d tag data) = Some ?w3"
    using search same req(1)
    by (simp add: ucp_eager_only_handler_def ucp_eager_tagged_handler_def ucp_eager_common_matched_def set_req_def
      ucp_tag_eager_sync_send_ack_def ucp_rdesc_get_tag_def Let_def)
  have pA: "(p, ?b) \<in> set A" using R(3) req(1) by (force simp: issued_ok_def)
  have rs: "reqs ?w3 = (reqs w)(p \<mapsto> ?req')" "req_buffer ?req' = ?b" by (simp_all add: same)
  have bf: "\<And>c. c \<noteq> ?b \<Longrightarrow> bufs ?w3 c = bufs w c" by (simp add: same)
  have change: "issued_ok bs A ?w3" by (rule issued_change(1) [OF R(3) pA rs bf]) simp
  have outs: "outcome_ok bs w out \<and> fst out \<noteq> p" if "out \<in> set (outcomes s)" for out
    using R(7) [OF that] outcome_not_waiting [OF rel that] mem by force
  have others: "recv_ok bs ?w3 r" if "r \<in> set rest" for r
    by (rule outcome_step(1) [where outs = "[]", OF R(4) [OF subsetD [OF sub]] _ p_rest R(3) pA rs bf that]) simp_all
  have past: "outcome_ok bs ?w3 out" if "out \<in> set (outcomes s)" for out
    by (rule outcome_step(2) [where R = "[]", OF _ outs _ R(3) pA rs bf that]) simp_all
  have "exp_ok ?w3 (map fst rest)" by (rule exp_ok_frame [OF w1(2)]) (use p_rest in auto)
  moreover have "unexp_ok ?w3" by (rule unexp_ok_frame [OF R(2)]) (simp_all add: same)
  moreover have "outcome_ok bs ?w3 (p, Some (tag, data))" using req by (simp add: outcome_ok_def)
  ultimately have "order_rel bs A (d # D) ?w3 (s\<lparr>recvs := rest, outcomes := outcomes s @ [(p, Some (tag, data))]\<rparr>)"
    using change others past R(5,6,8) by (auto simp: order_rel_def tm_ok_def same)
  then show ?thesis using that step same by simp
qed

lemma arrive_ok:
  assumes rel: "order_rel bs A D w s" and d: "d \<notin> set D" and data: "length data < 2 ^ 64"
  obtains w' where "tm_step w (Arrive d tag data) = Some w'" "exp_sn w' = exp_sn w"
    "order_rel bs A (d # D) w' (spec_step s (Arrive d tag data))"
proof -
  note R = order_relD [OF rel]
  let ?r = "find (req_matches (reqs w) tag) (map fst (recvs s))"
  have r: "?r = map_option (\<lambda>r. fst (fst r)) (take_first (recv_takes tag) (recvs s))"
    by (rule take_first_find) (rule recv_takes_eq [OF R(4)])
  obtain w1 where w1: "ucp_tag_exp_search w tag = Some (?r, w1)" "same_but_exp w w1"
    "exp_ok w1 (case ?r of None \<Rightarrow> map fst (recvs s) | Some p \<Rightarrow> remove1 p (map fst (recvs s)))" "?r = None \<Longrightarrow> w1 = w"
    using exp_search_ok [OF R(1)] by blast
  show ?thesis
  proof (cases "take_first (recv_takes tag) (recvs s)")
    case None
    then show ?thesis using arrive_unexpected [OF rel d, of tag data] w1 r that by auto
  next
    case (Some x)
    obtain p t m rest where x: "x = ((p, t, m), rest)" by (metis prod.exhaust)
    have "map fst rest = remove1 p (map fst (recvs s))"
      using take_first_remove1 [of _ _ _ _ fst, OF Some [unfolded x] exp_okD(2) [OF R(1)]] by simp
    then show ?thesis
      using arrive_expected [OF rel Some [unfolded x] _ w1(2) _ data, of d] w1(1,3) r Some x that by auto
  qed
qed

section \<open>A receive\<close>

definition msg_of :: "worker \<Rightarrow> nat \<Rightarrow> u64 \<times> u8 list" where
  "msg_of w d = (case descs w d of None \<Rightarrow> (0, []) | Some rdesc \<Rightarrow> (ucp_rdesc_get_tag rdesc, desc_payload rdesc))"

lemma take_first_map: "take_first P (map f xs) = map_option (\<lambda>r. (f (fst r), map f (snd r))) (take_first (\<lambda>x. P (f x)) xs)"
  by (induction xs) (simp_all add: option.map_comp comp_def case_prod_beta)

lemma take_first_cong: "(\<And>x. x \<in> set xs \<Longrightarrow> P x = Q x) \<Longrightarrow> take_first P xs = take_first Q xs"
  by (induction xs) auto

lemma waiting_msgs:
  assumes "order_rel bs A D w s"
  shows "msgs s = map (msg_of w) (unexp_all w)" "d \<in> set (unexp_all w) \<Longrightarrow> descs w d = Some (only_desc (msg_of w d))"
proof -
  have all: "list_all2 (\<lambda>d msg. descs w d = Some (only_desc msg)) (unexp_all w) (msgs s)" by (rule order_relD(5) [OF assms])
  have one: "msg = msg_of w d" if "descs w d = Some (only_desc msg)" for d msg
    using that by (simp add: msg_of_def only_desc_def ucp_rdesc_get_tag_def)
  from all show "msgs s = map (msg_of w) (unexp_all w)"
    by (intro nth_equalityI) (auto simp: list_all2_conv_all_nth one)
  show "descs w d = Some (only_desc (msg_of w d))" if d: "d \<in> set (unexp_all w)"
  proof -
    from d obtain i where i: "i < length (unexp_all w)" "d = unexp_all w ! i" by (auto simp: in_set_conv_nth)
    with all have "descs w d = Some (only_desc (msgs s ! i))" by (simp add: list_all2_conv_all_nth)
    with one show ?thesis by simp
  qed
qed

lemma first_msg:
  assumes rel: "order_rel bs A D w s"
  shows "take_first (msg_fits tag tag_mask) (msgs s) =
      map_option (\<lambda>r. (msg_of w (fst r), map (msg_of w) (snd r))) (take_first (desc_matches (descs w) tag tag_mask) (unexp_all w))"
    "find (desc_matches (descs w) tag tag_mask) (unexp_all w) = map_option fst (take_first (desc_matches (descs w) tag tag_mask) (unexp_all w))"
proof -
  have eq: "msg_fits tag tag_mask (msg_of w d) = desc_matches (descs w) tag tag_mask d" if d: "d \<in> set (unexp_all w)" for d
  proof -
    obtain rd where "descs w d = Some rd" using waiting_msgs(2) [OF rel d] by blast
    then show ?thesis by (simp add: msg_fits_def desc_matches_def msg_of_def tag_of_def)
  qed
  show "take_first (msg_fits tag tag_mask) (msgs s) =
      map_option (\<lambda>r. (msg_of w (fst r), map (msg_of w) (snd r))) (take_first (desc_matches (descs w) tag tag_mask) (unexp_all w))"
    unfolding waiting_msgs(1) [OF rel] take_first_map by (subst take_first_cong [OF eq]) simp_all
  show "find (desc_matches (descs w) tag tag_mask) (unexp_all w) = map_option fst (take_first (desc_matches (descs w) tag tag_mask) (unexp_all w))"
    using take_first_find [of "unexp_all w" "desc_matches (descs w) tag tag_mask" "desc_matches (descs w) tag tag_mask" "\<lambda>x. x"] by simp
qed

lemma fresh_request:
  assumes rel: "order_rel bs A D w s" and p: "p \<notin> set (map fst A)"
  shows "reqs w p = None" "p \<notin> set (map fst (recvs s))" "out \<in> set (outcomes s) \<Longrightarrow> fst out \<noteq> p"
proof -
  note R = order_relD [OF rel]
  show none: "reqs w p = None" using R(3) p by (auto simp: issued_ok_def)
  show "p \<notin> set (map fst (recvs s))" using exp_okD(3) [OF R(1), of p] none by auto
  show "fst out \<noteq> p" if "out \<in> set (outcomes s)" using R(7) [OF that] none by (auto simp: outcome_ok_def)
qed

lemma recv_waits:
  assumes rel: "order_rel bs A D w s" and p: "p \<notin> set (map fst A)" "b \<notin> set (map snd A)" "bs b = Some buf" "length buf < 2 ^ 64"
    and sn: "exp_sn w \<noteq> -1" and search: "ucp_tag_unexp_search w tag tag_mask True = Some (None, w)"
  obtains w' where "tm_step w (Recv p b tag tag_mask) = Some w'" "exp_sn w' = exp_sn w + 1"
    "order_rel bs ((p, b) # A) D w' (s\<lparr>recvs := recvs s @ [(p, tag, tag_mask)]\<rparr>)"
proof -
  note R = order_relD [OF rel]
  note fresh = fresh_request [OF rel p(1)]
  let ?req = "new_request (nb_param True UCS_OK) b (length buf) tag tag_mask"
  let ?w0 = "w\<lparr>reqs := (reqs w)(p \<mapsto> ?req)\<rparr>"
  have ok0: "exp_ok ?w0 (map fst (recvs s))" by (rule exp_ok_frame [OF R(1)]) (use fresh(2) in auto)
  have q: "ucp_tag_exp_get_req_queue ?req = ucp_tag_exp_get_queue tag tag_mask"
    by (simp add: ucp_tag_exp_get_req_queue_def new_request_def)
  have "waiting ?req" by (simp add: waiting_def new_request_def)
  then obtain w1 w' where w': "ucp_tag_offload_try_post ?w0 p (ucp_tag_exp_get_queue tag tag_mask) = Some w1"
    "ucp_tag_exp_push w1 (ucp_tag_exp_get_queue tag tag_mask) p = Some w'" "exp_ok w' (map fst (recvs s) @ [p])"
    "reqs w' = (reqs w)(p \<mapsto> ?req\<lparr>req_sn := exp_sn w\<rparr>)" "exp_sn w' = exp_sn w + 1"
    "same_but_exp (?w0\<lparr>reqs := (reqs w)(p \<mapsto> ?req\<lparr>req_sn := exp_sn w\<rparr>), exp_sn := exp_sn w + 1\<rparr>) w'"
    using post_ok [OF ok0 fresh(2), of ?req] sn unfolding q by auto
  have same: "bufs w' = bufs w" "descs w' = descs w" "unexp_all w' = unexp_all w" "unexp_hash w' = unexp_hash w"
    "completions w' = completions w" using w'(6) by (simp_all add: same_but_exp_def)
  have buf: "bufs w b = Some buf" using R(3) p(2,3) by (simp add: issued_ok_def)
  have step: "tm_step w (Recv p b tag tag_mask) = Some w'"
    using search buf w'(1,2)
    by (simp add: ucp_tag_recv_nb_def ucp_tag_recv_nbx_def ucp_tag_recv_common_def nb_param_def Let_def)
  have "issued_ok bs ((p, b) # A) (w\<lparr>reqs := (reqs w)(p \<mapsto> ?req\<lparr>req_sn := exp_sn w\<rparr>)\<rparr>)"
    by (rule issued_new [OF R(3) p(1,2)]) (simp add: new_request_def)
  then have "issued_ok bs ((p, b) # A) w'" by (simp add: issued_ok_def w'(4) same)
  moreover have "recv_ok bs w' r" if r: "r \<in> set (recvs s)" for r
  proof -
    have "fst r \<noteq> p" using r fresh(2) by auto
    then show ?thesis using R(4) [OF r] by (simp add: recv_ok_def w'(4) same)
  qed
  moreover have "recv_ok bs w' (p, tag, tag_mask)" using p(3,4) buf by (simp add: recv_ok_def w'(4) same new_request_def)
  moreover have "outcome_ok bs w' out" if out: "out \<in> set (outcomes s)" for out
    using R(7) [OF out] fresh(3) [OF out] outcome_ok_cong [of w' out w] by (simp add: w'(4) same)
  moreover have "unexp_ok w'" by (rule unexp_ok_frame [OF R(2)]) (simp_all add: same)
  ultimately have "order_rel bs ((p, b) # A) D w' (s\<lparr>recvs := recvs s @ [(p, tag, tag_mask)]\<rparr>)"
    using R(5,6,8) w'(3) by (auto simp: order_rel_def tm_ok_def same)
  with that step w'(5) show ?thesis by blast
qed

lemma recv_takes_msg:
  assumes rel: "order_rel bs A D w s" and p: "p \<notin> set (map fst A)" "b \<notin> set (map snd A)" "bs b = Some buf" "length buf < 2 ^ 64"
    and first: "take_first (desc_matches (descs w) tag tag_mask) (unexp_all w) = Some (d, rest)"
    and search: "ucp_tag_unexp_search w tag tag_mask True = Some (Some d, ucp_tag_unexp_remove w d)"
  obtains w' where "tm_step w (Recv p b tag tag_mask) = Some w'" "exp_sn w' = exp_sn w"
    "order_rel bs ((p, b) # A) D w' (s\<lparr>msgs := map (msg_of w) rest, outcomes := outcomes s @ [(p, Some (msg_of w d))]\<rparr>)"
proof -
  note R = order_relD [OF rel]
  note fresh = fresh_request [OF rel p(1)]
  obtain ys zs where split: "unexp_all w = ys @ d # zs" "rest = ys @ zs" using take_first_Some [OF first] by blast
  have rest: "remove1 d (unexp_all w) = rest" "d \<notin> set rest" "set rest \<subseteq> set (unexp_all w)"
    using split unexp_okD(2) [OF R(2)] by (auto simp: remove1_append)
  let ?rd = "only_desc (msg_of w d)"
  have d: "descs w d = Some ?rd" using waiting_msgs(2) [OF rel, of d] split by simp
  let ?w1 = "ucp_tag_unexp_remove w d"
  have same: "reqs ?w1 = reqs w" "bufs ?w1 = bufs w" "descs ?w1 = descs w" "completions ?w1 = completions w"
    "exp_sn ?w1 = exp_sn w" "unexp_all ?w1 = rest" "exp_hash ?w1 = exp_hash w" "exp_wildcard ?w1 = exp_wildcard w"
    "sw_all_count ?w1 = sw_all_count w"
    using rest(1) by (simp_all add: ucp_tag_unexp_remove_def)
  have buf: "bufs w b = Some buf" using R(3) p(2,3) by (simp add: issued_ok_def)
  let ?data = "snd (msg_of w d)"
  have rd: "desc_payload ?rd = ?data" "desc_only ?rd" "desc_sync ?rd = None" by (simp_all add: only_desc_def)
  let ?w' = "?w1\<lparr>descs := (descs w)(d := None), bufs := (bufs w)(b \<mapsto> fit_buffer buf ?data),
    reqs := (reqs w)(p \<mapsto> done_request b buf ?rd), completions := completions w @ [(p, fit_status buf ?data)]\<rparr>"
  have "recv_only_matched (nb_param True UCS_OK) ?w1 p b d ?rd = Some (Ret_req p, ?w')"
    using recv_only_ok [of ?w1 b buf ?rd p d] buf p(4) by (simp add: same rd)
  then have step: "tm_step w (Recv p b tag tag_mask) = Some ?w'"
    using search buf d rd(2)
    by (simp add: ucp_tag_recv_nb_def ucp_tag_recv_nbx_def ucp_tag_recv_common_def same)
  let ?w0 = "w\<lparr>reqs := (reqs w)(p \<mapsto> done_request b buf ?rd)\<rparr>"
  have iss0: "issued_ok bs ((p, b) # A) ?w0"
    by (rule issued_new [OF R(3) p(1,2)]) (simp add: done_request_def new_request_def)
  have rs: "reqs ?w' = (reqs ?w0)(p \<mapsto> done_request b buf ?rd)" "req_buffer (done_request b buf ?rd) = b"
    by (simp_all add: done_request_def new_request_def)
  have bf: "\<And>c. c \<noteq> b \<Longrightarrow> bufs ?w' c = bufs ?w0 c" by simp
  have pA: "(p, b) \<in> set ((p, b) # A)" by simp
  have "issued_ok bs ((p, b) # A) ?w'" by (rule issued_change(1) [OF iss0 pA rs bf]) simp
  moreover have old: "recv_ok bs ?w0 r" if "r \<in> set (recvs s)" for r
    using R(4) [OF that] that fresh(2) by (force simp: recv_ok_def)
  have "recv_ok bs ?w' r" if "r \<in> set (recvs s)" for r
    by (rule outcome_step(1) [where outs = "[]", OF old _ fresh(2) iss0 pA rs bf that]) simp_all
  moreover have outs: "outcome_ok bs ?w0 out \<and> fst out \<noteq> p" if "out \<in> set (outcomes s)" for out
    using R(7) [OF that] fresh(3) [OF that] outcome_ok_cong [of ?w0 out w] by simp
  have "outcome_ok bs ?w' out" if "out \<in> set (outcomes s)" for out
    by (rule outcome_step(2) [where R = "[]", OF _ outs _ iss0 pA rs bf that]) simp_all
  moreover have "outcome_ok bs ?w' (p, Some (msg_of w d))"
    using p(3) rd(1) only_desc_tag [of "msg_of w d"] by (cases "msg_of w d") (simp add: outcome_ok_def done_request_def new_request_def)
  moreover have "unexp_ok ?w'" by (rule unexp_ok_frame [OF unexp_remove_ok [OF R(2), of d]]) (use rest(2) in \<open>auto simp: same\<close>)
  moreover have "exp_ok ?w' (map fst (recvs s))" by (rule exp_ok_frame [OF R(1)]) (use fresh(2) in \<open>auto simp: same\<close>)
  moreover have "list_all2 (\<lambda>e msg. descs ?w' e = Some (only_desc msg)) rest (map (msg_of w) rest)"
  proof -
    have "descs w e = Some (only_desc (msg_of w e))" "e \<noteq> d" if "e \<in> set rest" for e
      using that rest(2,3) waiting_msgs(2) [OF rel, of e] by auto
    then show ?thesis by (auto simp: list_all2_conv_all_nth)
  qed
  moreover have "dom (descs ?w') \<subseteq> set D" using R(6) by auto
  ultimately have "order_rel bs ((p, b) # A) D ?w' (s\<lparr>msgs := map (msg_of w) rest, outcomes := outcomes s @ [(p, Some (msg_of w d))]\<rparr>)"
    using R(8) by (simp add: order_rel_def tm_ok_def same)
  then show ?thesis using that step same by simp
qed

lemma recv_step_ok:
  assumes rel: "order_rel bs A D w s" and p: "p \<notin> set (map fst A)" "b \<notin> set (map snd A)" "bs b = Some buf" "length buf < 2 ^ 64"
    and sn: "exp_sn w \<noteq> -1"
  obtains w' where "tm_step w (Recv p b tag tag_mask) = Some w'" "exp_sn w' = exp_sn w \<or> exp_sn w' = exp_sn w + 1"
    "order_rel bs ((p, b) # A) D w' (spec_step s (Recv p b tag tag_mask))"
proof (cases "take_first (desc_matches (descs w) tag tag_mask) (unexp_all w)")
  case None
  then show ?thesis
    using recv_waits [OF rel p sn, of tag tag_mask] first_msg [OF rel, of tag tag_mask] that
      unexp_search_ok [OF order_relD(2) [OF rel], of tag tag_mask True] by (auto simp: Let_def)
next
  case (Some x)
  obtain d rest where "x = (d, rest)" by fastforce
  with Some show ?thesis
    using recv_takes_msg [OF rel p, of tag tag_mask d rest] first_msg [OF rel, of tag tag_mask] that
      unexp_search_ok [OF order_relD(2) [OF rel], of tag tag_mask True] by (auto simp: Let_def)
qed

section \<open>Cancellation\<close>

lemma cancel_waiting:
  assumes rel: "order_rel bs A D w s" and first: "take_first (\<lambda>r. fst r = p) (recvs s) = Some (r, rest)"
  obtains w' where "tm_step w (Cancel p) = Some w'" "exp_sn w' = exp_sn w"
    "order_rel bs A D w' (s\<lparr>recvs := rest, outcomes := outcomes s @ [(p, None)]\<rparr>)"
proof -
  note R = order_relD [OF rel]
  obtain ys zs where split: "recvs s = ys @ r # zs" "rest = ys @ zs" "fst r = p" using take_first_Some [OF first] by blast
  have mem: "r \<in> set (recvs s)" and sub: "set rest \<subseteq> set (recvs s)" using split by auto
  have pE: "p \<in> set (map fst (recvs s))" using mem split(3) by auto
  have p_rest: "p \<notin> set (map fst rest)" using exp_okD(2) [OF R(1)] split by auto
  have rest: "remove1 p (map fst (recvs s)) = map fst rest"
    using take_first_remove1 [of _ _ _ _ fst, OF first exp_okD(2) [OF R(1)]] split(3) by simp
  obtain req buf where req: "reqs w p = Some req" "bufs w (req_buffer req) = Some buf" "bs (req_buffer req) = Some buf"
    using R(4) [OF mem] split(3) by (auto simp: recv_ok_def)
  have waiting: "waiting req" using exp_okD(3) [OF R(1) pE] req(1) by auto
  obtain w1 where w1: "ucp_tag_exp_remove w p = Some (True, w1)" "exp_ok w1 (map fst rest)" "same_but_exp w w1"
    using exp_remove_ok [OF R(1) req(1)] pE rest by auto
  have same: "reqs w1 = reqs w" "bufs w1 = bufs w" "descs w1 = descs w" "unexp_all w1 = unexp_all w"
    "unexp_hash w1 = unexp_hash w" "completions w1 = completions w" "exp_sn w1 = exp_sn w"
    using w1(3) by (simp_all add: same_but_exp_def)
  let ?req' = "req\<lparr>req_completed := True, req_status := UCS_ERR_CANCELED\<rparr>"
  let ?w' = "w1\<lparr>reqs := (reqs w)(p \<mapsto> ?req'), completions := completions w @ [(p, UCS_ERR_CANCELED)]\<rparr>"
  have step: "tm_step w (Cancel p) = Some ?w'"
    using req(1) w1(1) waiting by (simp add: ucp_request_cancel_def ucp_request_complete_tag_recv_def waiting_def same)
  have pA: "(p, req_buffer req) \<in> set A" using R(3) req(1) by (force simp: issued_ok_def)
  have rs: "reqs ?w' = (reqs w)(p \<mapsto> ?req')" "req_buffer ?req' = req_buffer req" by simp_all
  have bf: "\<And>c. c \<noteq> req_buffer req \<Longrightarrow> bufs ?w' c = bufs w c" by (simp add: same)
  have change: "issued_ok bs A ?w'" by (rule issued_change(1) [OF R(3) pA rs bf]) simp
  have outs: "outcome_ok bs w out \<and> fst out \<noteq> p" if "out \<in> set (outcomes s)" for out
    using R(7) [OF that] outcome_not_waiting [OF rel that] pE by force
  have others: "recv_ok bs ?w' x" if "x \<in> set rest" for x
    by (rule outcome_step(1) [where outs = "[]", OF R(4) [OF subsetD [OF sub]] _ p_rest R(3) pA rs bf that]) simp_all
  have past: "outcome_ok bs ?w' out" if "out \<in> set (outcomes s)" for out
    by (rule outcome_step(2) [where R = "[]", OF _ outs _ R(3) pA rs bf that]) simp_all
  have "exp_ok ?w' (map fst rest)" by (rule exp_ok_frame [OF w1(2)]) (use p_rest same in auto)
  moreover have "unexp_ok ?w'" by (rule unexp_ok_frame [OF R(2)]) (simp_all add: same)
  moreover have "outcome_ok bs ?w' (p, None)" using req by (simp add: outcome_ok_def same)
  ultimately have "order_rel bs A D ?w' (s\<lparr>recvs := rest, outcomes := outcomes s @ [(p, None)]\<rparr>)"
    using change others past R(5,6,8) by (auto simp: order_rel_def tm_ok_def same)
  then show ?thesis using that step same by simp
qed

lemma cancel_ok:
  assumes rel: "order_rel bs A D w s" and p: "p \<in> set (map fst A)"
  obtains w' where "tm_step w (Cancel p) = Some w'" "exp_sn w' = exp_sn w" "order_rel bs A D w' (spec_step s (Cancel p))"
proof (cases "take_first (\<lambda>r. fst r = p) (recvs s)")
  case None
  note R = order_relD [OF rel]
  obtain req where req: "reqs w p = Some req" using R(3) p by (force simp: issued_ok_def)
  have "p \<notin> set (map fst (recvs s))" using None by (auto simp: take_first_None)
  then have "tm_step w (Cancel p) = Some w"
    using exp_remove_ok [OF R(1) req] req by (auto simp: ucp_request_cancel_def)
  with None rel that show ?thesis by simp
next
  case (Some x)
  obtain r rest where "x = (r, rest)" by fastforce
  with Some cancel_waiting [OF rel, of p r rest] that show ?thesis by auto
qed

section \<open>Runs\<close>

lemma sn_step:
  assumes "sn' = sn \<or> sn' = sn + (1 :: u64)" and "unat sn + Suc n < 2 ^ 64"
  shows "unat sn' + n < 2 ^ 64"
proof -
  have "unat (sn + 1) \<le> unat sn + 1" by (auto simp: unat_plus_if_size word_size)
  with assms show ?thesis by auto
qed

lemma sn_not_last: "unat (sn :: u64) + Suc n < 2 ^ 64 \<Longrightarrow> sn \<noteq> -1"
  by (auto simp: unsigned_minus_1_eq_mask mask_eq_exp_minus_1)

lemma tm_run_ok:
  assumes "order_rel bs A D w s" and "ops_ok bs A D ops" and "unat (exp_sn w) + length ops < 2 ^ 64"
  shows "\<exists>w' D'. tm_run w ops = Some w' \<and> order_rel bs (rev (recv_bufs ops) @ A) D' w' (foldl spec_step s ops)"
  using assms
proof (induction ops arbitrary: A D w s)
  case Nil
  then show ?case by auto
next
  case (Cons op ops)
  have sn: "unat (exp_sn w) + Suc (length ops) < 2 ^ 64" using Cons.prems(3) by simp
  obtain w' A' D' where w': "tm_step w op = Some w'" "exp_sn w' = exp_sn w \<or> exp_sn w' = exp_sn w + 1"
    "order_rel bs A' D' w' (spec_step s op)" "ops_ok bs A' D' ops" "rev (recv_bufs (op # ops)) @ A = rev (recv_bufs ops) @ A'"
  proof (cases op)
    case (Recv p b tag tag_mask)
    then have p: "p \<notin> set (map fst A)" "b \<notin> set (map snd A)" "ops_ok bs ((p, b) # A) D ops"
      and "\<exists>buf. bs b = Some buf \<and> length buf < 2 ^ 64" using Cons.prems(2) by (auto split: option.splits)
    then obtain buf where "bs b = Some buf" "length buf < 2 ^ 64" by blast
    then obtain w' where "tm_step w op = Some w'" "exp_sn w' = exp_sn w \<or> exp_sn w' = exp_sn w + 1"
      "order_rel bs ((p, b) # A) D w' (spec_step s op)"
      using recv_step_ok [OF Cons.prems(1) p(1,2) _ _ sn_not_last [OF sn]] Recv by metis
    then show ?thesis using that [of w' "(p, b) # A" D] Recv p(3) by simp
  next
    case (Arrive d tag data)
    then have "d \<notin> set D" "length data < 2 ^ 64" "ops_ok bs A (d # D) ops" using Cons.prems(2) by auto
    moreover from this obtain w' where "tm_step w op = Some w'" "exp_sn w' = exp_sn w" "order_rel bs A (d # D) w' (spec_step s op)"
      using arrive_ok [OF Cons.prems(1)] Arrive by metis
    ultimately show ?thesis using that [of w' A "d # D"] Arrive by simp
  next
    case (Cancel p)
    then have "p \<in> set (map fst A)" "ops_ok bs A D ops" using Cons.prems(2) by auto
    moreover from this obtain w' where "tm_step w op = Some w'" "exp_sn w' = exp_sn w" "order_rel bs A D w' (spec_step s op)"
      using cancel_ok [OF Cons.prems(1)] Cancel by metis
    ultimately show ?thesis using that [of w' A D] Cancel by simp
  qed
  with Cons.IH [OF w'(3,4) sn_step [OF w'(2) sn]] show ?case by auto
qed

text \<open>In the specification no waiting receive matches a waiting message.\<close>

definition all_matched :: "match_state \<Rightarrow> bool" where
  "all_matched s \<longleftrightarrow> (\<forall>(p, t, m) \<in> set (recvs s). \<forall>(tag, data) \<in> set (msgs s). \<not> ucp_tag_is_match tag t m)"

lemma take_first_subset: "take_first P xs = Some (x, rest) \<Longrightarrow> set rest \<subseteq> set xs"
  using take_first_Some by fastforce

lemma all_matched_mono:
  "all_matched s \<Longrightarrow> set (recvs s') \<subseteq> set (recvs s) \<Longrightarrow> set (msgs s') \<subseteq> set (msgs s) \<Longrightarrow> all_matched s'"
  unfolding all_matched_def by blast

lemma all_matched_step: "all_matched s \<Longrightarrow> all_matched (spec_step s op)"
proof (cases op)
  case (Recv p b tag tag_mask)
  assume "all_matched s"
  with Recv show ?thesis
  proof (cases "take_first (msg_fits tag tag_mask) (msgs s)")
    case None
    then show ?thesis
      using Recv \<open>all_matched s\<close> None [unfolded take_first_None] by (fastforce simp: all_matched_def msg_fits_def)
  qed (auto dest!: take_first_subset elim!: all_matched_mono)
next
  case (Arrive d tag data)
  assume "all_matched s"
  with Arrive show ?thesis
  proof (cases "take_first (recv_takes tag) (recvs s)")
    case None
    then show ?thesis
      using Arrive \<open>all_matched s\<close> None [unfolded take_first_None] by (fastforce simp: all_matched_def recv_takes_def)
  qed (auto dest!: take_first_subset elim!: all_matched_mono)
next
  case (Cancel p)
  assume "all_matched s"
  with Cancel show ?thesis by (auto dest!: take_first_subset elim!: all_matched_mono split: option.splits)
qed

lemma all_matched_run: "all_matched s \<Longrightarrow> all_matched (foldl spec_step s ops)"
  by (induction ops arbitrary: s) (auto simp: all_matched_step)

text \<open>
  C9. Tag matching is in order. A worker starts from \<open>ucp_tag_match_init\<close> and, with every allocation succeeding, any
  sequence of receives, single-packet messages and cancellations runs on it without a fault. Its receives get exactly the messages the
  specification gives them, where a message goes to the first posted receive that matches and a receive takes the
  first message that arrived and matches, whether their masks select a hash bucket or the wildcard
  queue. They complete in that order, with the sender's tag, the length and the data in the buffer of the call, or truncated,
  or cancelled. At the end the queues hold the remaining receives and messages in their order, and no receive that
  waits matches a message that waits.
\<close>

theorem tag_matching_in_order:
  assumes "ucp_tag_match_init mem1 mem2 w0 = (UCS_OK, w)" and "exp_wildcard w0 = empty_queue"
    and "reqs w0 = Map.empty" and "descs w0 = Map.empty" and "completions w0 = []"
    and "ops_ok (bufs w0) [] [] ops" and "length ops < 2 ^ 64"
  shows "\<exists>w'. tm_run w ops = Some w' \<and> tm_ok w' (map fst (recvs (spec_run ops))) \<and>
    map (descs w') (unexp_all w') = map (Some \<circ> only_desc) (msgs (spec_run ops)) \<and>
    map fst (completions w') = map fst (outcomes (spec_run ops)) \<and>
    (\<forall>out \<in> set (outcomes (spec_run ops)). outcome_ok (bufs w0) w' out) \<and>
    (\<forall>(p, b) \<in> set (recv_bufs ops). \<exists>req. reqs w' p = Some req \<and> req_buffer req = b) \<and> all_matched (spec_run ops)"
proof -
  let ?s = "\<lparr>recvs = [], msgs = [], outcomes = []\<rparr> :: match_state"
  have same: "reqs w = Map.empty" "descs w = Map.empty" "completions w = []" "bufs w = bufs w0" "exp_sn w = 0" "unexp_all w = []"
    using assms(1,3-5) by (auto simp: ucp_tag_match_init_def Let_def split: if_splits)
  have "order_rel (bufs w0) [] [] w ?s"
    using tag_match_init_ok [OF assms(1,2)] same by (simp add: order_rel_def issued_ok_def)
  from tm_run_ok [OF this assms(6)] assms(7) same(5)
  obtain w' D where w': "tm_run w ops = Some w'" "order_rel (bufs w0) (rev (recv_bufs ops)) D w' (spec_run ops)" by (auto simp: spec_run_def)
  have "map (descs w') (unexp_all w') = map (Some \<circ> only_desc) (msgs (spec_run ops))"
    using order_relD(5) [OF w'(2)] by (auto simp: list_all2_conv_all_nth intro: nth_equalityI)
  moreover have "all_matched (spec_run ops)" unfolding spec_run_def by (rule all_matched_run) (simp add: all_matched_def)
  moreover have "\<forall>(p, b) \<in> set (recv_bufs ops). \<exists>req. reqs w' p = Some req \<and> req_buffer req = b"
    using order_relD(3) [OF w'(2)] by (simp add: issued_ok_def)
  ultimately show ?thesis using w' order_relD(7,8) [OF w'(2)] by (auto simp: order_rel_def)
qed

text \<open>
  The wildcard receive was posted first and takes the first message, although the second receive names its tag. The
  second gets the next message of that tag, and a message of another tag waits.
\<close>

theorem tag_matching_in_order_witness:
  "\<exists>w'. tm_run (snd (ucp_tag_match_init True True (idle_worker [10 \<mapsto> [0, 0], 11 \<mapsto> [0]])))
      [Recv 4 10 0 0, Recv 5 11 7 UCP_TAG_MASK_FULL, Arrive 20 7 [1, 2], Arrive 21 9 [], Arrive 22 7 [3]] = Some w' \<and>
    map fst (completions w') = [4, 5] \<and> bufs w' 10 = Some [1, 2] \<and> bufs w' 11 = Some [3] \<and>
    map (descs w') (unexp_all w') = [Some (only_desc (9, []))]"
proof -
  let ?bs = "[10 \<mapsto> [0, 0], 11 \<mapsto> [0]] :: nat \<rightharpoonup> u8 list"
  let ?ops = "[Recv 4 10 0 0, Recv 5 11 7 UCP_TAG_MASK_FULL, Arrive 20 7 [1, 2], Arrive 21 9 [], Arrive 22 7 [3]]"
  let ?w0 = "idle_worker ?bs"
  have init: "ucp_tag_match_init True True ?w0 = (UCS_OK, snd (ucp_tag_match_init True True ?w0))"
    by (simp add: ucp_tag_match_init_def Let_def)
  have ops: "ops_ok (bufs ?w0) [] [] ?ops" by (simp add: idle_worker_def)
  have spec: "recvs (spec_run ?ops) = []" "msgs (spec_run ?ops) = [(9, [])]"
    "outcomes (spec_run ?ops) = [(4, Some (7, [1, 2])), (5, Some (7, [3]))]"
    by (simp_all add: spec_run_def msg_fits_def recv_takes_def ucp_tag_is_match_def UCP_TAG_MASK_FULL_def)
  obtain w' where w': "tm_run (snd (ucp_tag_match_init True True ?w0)) ?ops = Some w'"
    "map (descs w') (unexp_all w') = [Some (only_desc (9, []))]" "map fst (completions w') = [4, 5]"
    "outcome_ok ?bs w' (4, Some (7, [1, 2]))" "outcome_ok ?bs w' (5, Some (7, [3]))"
    "\<exists>req. reqs w' 4 = Some req \<and> req_buffer req = 10" "\<exists>req. reqs w' 5 = Some req \<and> req_buffer req = 11"
    using tag_matching_in_order [OF init _ _ _ _ ops] unfolding spec by (auto simp: idle_worker_def)
  from w'(6,7) obtain r1 r2 where r: "reqs w' 4 = Some r1" "req_buffer r1 = 10" "reqs w' 5 = Some r2" "req_buffer r2 = 11" by blast
  have "bufs w' 10 = Some (fit_buffer [0, 0] [1, 2])" using w'(4) by (simp add: outcome_ok_def r)
  then have "bufs w' 10 = Some [1, 2]" by (simp add: fit_buffer_def)
  moreover have "bufs w' 11 = Some (fit_buffer [0] [3])" using w'(5) by (simp add: outcome_ok_def r)
  then have "bufs w' 11 = Some [3]" by (simp add: fit_buffer_def)
  ultimately show ?thesis using w'(1-3) by (intro exI [of _ w'] conjI)
qed

end
