(* ===== verification/Ucp_Tag_Frag.thy ===== *)
theory Ucp_Tag_Frag
  imports Ucp_Tag_Order
begin

text \<open>
  Messages of several packets. The first packet takes part in the matching; the middle packets find the
  request through the table of message identifiers, or wait there. The theory shows that receives, first
  packets, middle packets and cancellations of any number of messages in any order deliver every message whole.
\<close>

section \<open>Chunks of a message\<close>

definition chunk_off :: "u8 list list \<Rightarrow> nat \<Rightarrow> nat" where
  "chunk_off cs i = length (concat (take i cs))"

lemma chunk_off_0 [simp]: "chunk_off cs 0 = 0"
  by (simp add: chunk_off_def)

lemma chunk_off_Suc: "i < length cs \<Longrightarrow> chunk_off cs (Suc i) = chunk_off cs i + length (cs ! i)"
  by (simp add: chunk_off_def take_Suc_conv_app_nth)

lemma chunk_off_all: "chunk_off cs (length cs) = length (concat cs)"
  by (simp add: chunk_off_def)

lemma chunk_off_mono: "i \<le> j \<Longrightarrow> chunk_off cs i \<le> chunk_off cs j"
proof (rule lift_Suc_mono_le [where f = "chunk_off cs"])
  show "chunk_off cs n \<le> chunk_off cs (Suc n)" for n
    by (cases "n < length cs") (simp_all add: chunk_off_Suc, simp add: chunk_off_def)
qed

lemma chunk_before: "i < j \<Longrightarrow> j \<le> length cs \<Longrightarrow> chunk_off cs i + length (cs ! i) \<le> chunk_off cs j"
  using chunk_off_mono [of "Suc i" j cs] by (simp add: chunk_off_Suc)

lemma chunk_end: "i < length cs \<Longrightarrow> chunk_off cs i + length (cs ! i) \<le> length (concat cs)"
  using chunk_before [of i "length cs" cs] by (simp add: chunk_off_all)

definition slice :: "u8 list \<Rightarrow> nat \<Rightarrow> nat \<Rightarrow> u8 list" where
  "slice buf offset n = take n (drop offset buf)"

definition overwrite :: "u8 list \<Rightarrow> nat \<Rightarrow> u8 list \<Rightarrow> u8 list" where
  "overwrite buf offset src = take offset buf @ src @ drop (offset + length src) buf"

lemma overwrite_length: "offset + length src \<le> length buf \<Longrightarrow> length (overwrite buf offset src) = length buf"
  by (simp add: overwrite_def)

lemma overwrite_nth:
  "offset + length src \<le> length buf \<Longrightarrow> k < length buf \<Longrightarrow>
   overwrite buf offset src ! k = (if offset \<le> k \<and> k < offset + length src then src ! (k - offset) else buf ! k)"
  by (auto simp: overwrite_def nth_append)

lemma slice_overwrite: "offset + length src \<le> length buf \<Longrightarrow> slice (overwrite buf offset src) offset (length src) = src"
  by (simp add: slice_def overwrite_def)

lemma slice_overwrite_other:
  assumes "offset + length src \<le> length buf" and "k + n \<le> length buf" and "k + n \<le> offset \<or> offset + length src \<le> k"
  shows "slice (overwrite buf offset src) k n = slice buf k n"
  using assms by (intro nth_equalityI) (auto simp: slice_def overwrite_length overwrite_nth)

lemma drop_overwrite: "offset + length src \<le> n \<Longrightarrow> n \<le> length buf \<Longrightarrow> drop n (overwrite buf offset src) = drop n buf"
  by (intro nth_equalityI) (auto simp: overwrite_length overwrite_nth)

text \<open>A buffer that holds all chunks holds the message.\<close>

lemma slices_concat:
  assumes "\<And>i. i < length cs \<Longrightarrow> slice buf (chunk_off cs i) (length (cs ! i)) = cs ! i"
  shows "take (length (concat cs)) buf = concat cs"
proof -
  have "take (chunk_off cs k) buf = concat (take k cs)" if "k \<le> length cs" for k
    using that
  proof (induction k)
    case (Suc k)
    then show ?case
      using assms [of k] by (simp add: chunk_off_Suc take_add slice_def take_Suc_conv_app_nth)
  qed simp
  from this [of "length cs"] show ?thesis by (simp add: chunk_off_all)
qed

definition received :: "u8 list list \<Rightarrow> nat list \<Rightarrow> nat" where
  "received cs got = sum_list (map (\<lambda>i. length (cs ! i)) got)"

lemma received_snoc [simp]: "received cs (got @ [i]) = received cs got + length (cs ! i)"
  by (simp add: received_def)

lemma total_sum: "length (concat cs) = (\<Sum>i < length cs. length (cs ! i))"
  by (simp add: length_concat sum_list_sum_nth atLeast0LessThan)

lemma received_sum: "distinct got \<Longrightarrow> received cs got = (\<Sum>i \<in> set got. length (cs ! i))"
  by (simp add: received_def sum_list_distinct_conv_sum_set)

lemma received_less:
  assumes "distinct got" "set got \<subseteq> {..<length cs}" "j < length cs" "j \<notin> set got" "cs ! j \<noteq> []"
  shows "received cs got < length (concat cs)"
proof -
  have "received cs got + length (cs ! j) = (\<Sum>i \<in> insert j (set got). length (cs ! i))"
    using assms(1,4) by (simp add: received_sum)
  also have "\<dots> \<le> (\<Sum>i < length cs. length (cs ! i))" using assms(2,3) by (intro sum_mono2) auto
  finally have "received cs got + length (cs ! j) \<le> length (concat cs)" unfolding total_sum .
  moreover have "0 < length (cs ! j)" using assms(5) by simp
  ultimately show ?thesis by linarith
qed

lemma received_all: "distinct got \<Longrightarrow> set got = {..<length cs} \<Longrightarrow> received cs got = length (concat cs)"
  by (simp add: received_sum total_sum)

lemma received_le: "distinct got \<Longrightarrow> set got \<subseteq> {..<length cs} \<Longrightarrow> received cs got \<le> length (concat cs)"
  unfolding received_sum total_sum by (intro sum_mono2) auto

section \<open>One request\<close>

definition fits :: "u8 list list \<Rightarrow> u8 list \<Rightarrow> nat list \<Rightarrow> bool" where
  "fits cs buf0 got \<longleftrightarrow> (\<forall>i \<in> set got. chunk_off cs i + length (cs ! i) \<le> length buf0)"

definition holds_chunks :: "u8 list list \<Rightarrow> nat list \<Rightarrow> u8 list \<Rightarrow> u8 list \<Rightarrow> bool" where
  "holds_chunks cs got buf0 buf \<longleftrightarrow> (\<forall>i \<in> set got. slice buf (chunk_off cs i) (length (cs ! i)) = cs ! i) \<and>
     drop (length (concat cs)) buf = drop (length (concat cs)) buf0"

text \<open>The request and its buffer after the chunks \<open>got\<close> of a message, when the buffer was \<open>buf0\<close> at first.\<close>

definition partly :: "u8 list list \<Rightarrow> u8 list \<Rightarrow> nat list \<Rightarrow> request \<Rightarrow> u8 list \<Rightarrow> bool" where
  "partly cs buf0 got req buf \<longleftrightarrow> \<not> req_completed req \<and> req_length req = length buf0 \<and> length buf = length buf0 \<and>
     req_remaining req + received cs got = length (concat cs) \<and>
     req_status req = (if fits cs buf0 got then UCS_OK else UCS_ERR_MESSAGE_TRUNCATED) \<and>
     (fits cs buf0 got \<longrightarrow> holds_chunks cs got buf0 buf)"

text \<open>The buffer and the status after one more chunk.\<close>

definition put_chunk :: "u8 list list \<Rightarrow> nat \<Rightarrow> request \<Rightarrow> u8 list \<Rightarrow> u8 list" where
  "put_chunk cs i req buf =
     (if req_status req = UCS_OK \<and> chunk_off cs i + length (cs ! i) \<le> length buf then overwrite buf (chunk_off cs i) (cs ! i) else buf)"

definition chunk_status :: "u8 list list \<Rightarrow> nat \<Rightarrow> request \<Rightarrow> u8 list \<Rightarrow> ucs_status" where
  "chunk_status cs i req buf =
     (if req_status req = UCS_OK \<and> \<not> chunk_off cs i + length (cs ! i) \<le> length buf then UCS_ERR_MESSAGE_TRUNCATED else req_status req)"

definition after_chunk :: "worker \<Rightarrow> nat \<Rightarrow> u8 list list \<Rightarrow> nat \<Rightarrow> request \<Rightarrow> u8 list \<Rightarrow> worker" where
  "after_chunk w p cs i req buf =
     w\<lparr>reqs := (reqs w)(p \<mapsto> req\<lparr>req_status := chunk_status cs i req buf, req_remaining := req_remaining req - length (cs ! i)\<rparr>),
       bufs := (bufs w)(req_buffer req \<mapsto> put_chunk cs i req buf)\<rparr>"

lemma unpack_chunk:
  assumes req: "reqs w p = Some req" "bufs w (req_buffer req) = Some buf" "req_length req = length buf" "req_status req = UCS_OK"
    and small: "length buf < 2 ^ 64" "length (concat cs) < 2 ^ 64" and i: "i < length cs"
  shows "ucp_request_recv_data_unpack w p (cs ! i) (chunk_off cs i) =
    Some (chunk_status cs i req buf, w\<lparr>bufs := (bufs w)(req_buffer req \<mapsto> put_chunk cs i req buf)\<rparr>)"
proof -
  have "size_add (length (cs ! i)) (chunk_off cs i) = chunk_off cs i + length (cs ! i)"
    using chunk_end [OF i] small(2) by (simp add: size_add_small)
  moreover have "w\<lparr>bufs := (bufs w)(req_buffer req \<mapsto> buf)\<rparr> = w" using req(2) by (intro worker.equality) (auto simp: fun_upd_triv)
  ultimately show ?thesis
    using req unpack_fits [of "chunk_off cs i" "cs ! i" buf] small(1)
    by (auto simp: ucp_request_recv_data_unpack_def chunk_status_def put_chunk_def overwrite_def)
qed

lemma process_chunk:
  assumes req: "reqs w p = Some req" "bufs w (req_buffer req) = Some buf" "req_length req = length buf" "\<not> req_completed req"
      "req_status req \<noteq> UCS_INPROGRESS" "length (cs ! i) \<le> req_remaining req"
    and small: "length buf < 2 ^ 64" "length (concat cs) < 2 ^ 64" and i: "i < length cs"
  shows "ucp_request_process_recv_data w p (cs ! i) (chunk_off cs i) =
    (if req_remaining req = length (cs ! i)
     then Some (chunk_status cs i req buf,
       (after_chunk w p cs i req buf)
         \<lparr>reqs := (reqs w)(p \<mapsto> req\<lparr>req_remaining := 0, req_completed := True, req_status := chunk_status cs i req buf\<rparr>),
          completions := completions w @ [(p, chunk_status cs i req buf)]\<rparr>)
     else Some (UCS_INPROGRESS, after_chunk w p cs i req buf))"
proof -
  let ?w = "w\<lparr>bufs := (bufs w)(req_buffer req \<mapsto> put_chunk cs i req buf)\<rparr>"
  have status: "chunk_status cs i req buf \<noteq> UCS_INPROGRESS" using req(5) by (simp add: chunk_status_def)
  have bad: "?w = w" "chunk_status cs i req buf = req_status req" if "req_status req \<noteq> UCS_OK"
    using that req(2) by (auto intro!: worker.equality simp: put_chunk_def chunk_status_def)
  have "(if req_status req = UCS_OK
      then map_option (\<lambda>(status, w). set_req w p (\<lambda>req. req\<lparr>req_status := status\<rparr>)) (ucp_request_recv_data_unpack w p (cs ! i) (chunk_off cs i))
      else Some w) = Some (?w\<lparr>reqs := (reqs w)(p \<mapsto> req\<lparr>req_status := chunk_status cs i req buf\<rparr>)\<rparr>)"
  proof (cases "req_status req = UCS_OK")
    case True
    then show ?thesis using unpack_chunk [OF req(1-3) True small i] req(1) by (simp add: set_req_def)
  next
    case False
    then show ?thesis using bad [OF False] req(1) by (auto intro!: worker.equality)
  qed
  then show ?thesis
    unfolding ucp_request_process_recv_data_def using req(1,4,6) status
    by (auto simp: Let_def set_req_def after_chunk_def ucp_request_complete_tag_recv_def)
qed

lemma partly_chunk:
  assumes part: "partly cs buf0 got req buf" and i: "i < length cs" "i \<notin> set got" "set got \<subseteq> {..<length cs}"
    and rem: "length (cs ! i) \<le> req_remaining req"
  shows "partly cs buf0 (got @ [i])
    (req\<lparr>req_status := chunk_status cs i req buf, req_remaining := req_remaining req - length (cs ! i)\<rparr>) (put_chunk cs i req buf)"
proof (cases "fits cs buf0 got \<and> chunk_off cs i + length (cs ! i) \<le> length buf0")
  case True
  then have len: "length buf = length buf0" and ok: "req_status req = UCS_OK" and held: "holds_chunks cs got buf0 buf"
    using part by (simp_all add: partly_def)
  let ?buf = "overwrite buf (chunk_off cs i) (cs ! i)"
  have slice: "slice ?buf (chunk_off cs j) (length (cs ! j)) = cs ! j" if j: "j \<in> set got" for j
  proof -
    have "j < length cs" "j \<noteq> i" using j i by auto
    then have "chunk_off cs j + length (cs ! j) \<le> chunk_off cs i \<or> chunk_off cs i + length (cs ! i) \<le> chunk_off cs j"
      using chunk_before [of i j cs] chunk_before [of j i cs] i(1) by (cases "j < i") auto
    then show ?thesis
      using slice_overwrite_other [of "chunk_off cs i" "cs ! i" buf "chunk_off cs j" "length (cs ! j)"] True j held len
      by (simp add: fits_def holds_chunks_def)
  qed
  have "drop (length (concat cs)) ?buf = drop (length (concat cs)) buf"
  proof (cases "length (concat cs) \<le> length buf")
    case fit: True
    show ?thesis by (rule drop_overwrite [OF chunk_end [OF i(1)] fit])
  next
    case False
    then show ?thesis using overwrite_length [of "chunk_off cs i" "cs ! i" buf] True len by simp
  qed
  then have "holds_chunks cs (got @ [i]) buf0 ?buf"
    using slice slice_overwrite [of "chunk_off cs i" "cs ! i" buf] held True len by (auto simp: holds_chunks_def)
  with True part rem len ok show ?thesis
    by (auto simp: partly_def put_chunk_def chunk_status_def overwrite_length fits_def)
next
  case False
  then have "\<not> fits cs buf0 (got @ [i])" by (auto simp: fits_def)
  moreover have "chunk_status cs i req buf = UCS_ERR_MESSAGE_TRUNCATED" "put_chunk cs i req buf = buf"
    using False part by (auto simp: partly_def chunk_status_def put_chunk_def)
  ultimately show ?thesis using part rem by (simp add: partly_def)
qed

text \<open>All chunks together.\<close>

lemma partly_all:
  assumes part: "partly cs buf0 got req buf" and got: "set got = {..<length cs}" "cs \<noteq> []"
  shows "req_status req = fit_status buf0 (concat cs)" "length (concat cs) \<le> length buf0 \<Longrightarrow> buf = fit_buffer buf0 (concat cs)"
proof -
  have "chunk_off cs (length cs - 1) + length (cs ! (length cs - 1)) = length (concat cs)"
    using got(2) chunk_off_Suc [of "length cs - 1" cs] chunk_off_all [of cs] by simp
  then have fits: "fits cs buf0 got \<longleftrightarrow> length (concat cs) \<le> length buf0"
    using got chunk_end [of _ cs] unfolding fits_def by (metis (no_types, lifting) Suc_pred' le_trans length_greater_0_conv lessI lessThan_iff)
  then show "req_status req = fit_status buf0 (concat cs)" using part by (simp add: partly_def fit_status_def)
  show "buf = fit_buffer buf0 (concat cs)" if "length (concat cs) \<le> length buf0"
  proof -
    have held: "holds_chunks cs got buf0 buf" using that fits part by (simp add: partly_def)
    then have "take (length (concat cs)) buf = concat cs" by (intro slices_concat) (simp add: holds_chunks_def got)
    with held show ?thesis
      using that append_take_drop_id [of "length (concat cs)" buf] by (simp add: fit_buffer_def holds_chunks_def)
  qed
qed

section \<open>Steps of an assembly\<close>

text \<open>The middle chunks of a message are not empty, and the message is no longer than a \<open>size_t\<close> can say.\<close>

definition msg_ok :: "u8 list list \<Rightarrow> bool" where
  "msg_ok cs \<longleftrightarrow> cs \<noteq> [] \<and> [] \<notin> set (tl cs) \<and> length (concat cs) < 2 ^ 64"

lemma msg_okD:
  assumes "msg_ok cs"
  shows "cs \<noteq> []" "length (concat cs) < 2 ^ 64" "0 < i \<Longrightarrow> i < length cs \<Longrightarrow> cs ! i \<noteq> []"
proof -
  show "cs \<noteq> []" "length (concat cs) < 2 ^ 64" using assms by (simp_all add: msg_ok_def)
  show "cs ! i \<noteq> []" if "0 < i" "i < length cs"
  proof -
    have "cs ! i \<in> set (tl cs)" using that by (cases cs; cases i) auto
    with assms show ?thesis by (auto simp: msg_ok_def)
  qed
qed

definition with_req :: "worker \<Rightarrow> nat \<Rightarrow> request \<Rightarrow> u8 list \<Rightarrow> worker" where
  "with_req w p req buf = w\<lparr>reqs := (reqs w)(p \<mapsto> req), bufs := (bufs w)(req_buffer req \<mapsto> buf)\<rparr>"

definition finish_req :: "worker \<Rightarrow> nat \<Rightarrow> request \<Rightarrow> worker" where
  "finish_req w p req = w\<lparr>reqs := (reqs w)(p \<mapsto> req\<lparr>req_completed := True\<rparr>), completions := completions w @ [(p, req_status req)]\<rparr>"

definition req_kept :: "request \<Rightarrow> request \<Rightarrow> bool" where
  "req_kept req req' \<longleftrightarrow> req_buffer req' = req_buffer req \<and> req_sender_tag req' = req_sender_tag req \<and> req_info_length req' = req_info_length req"

definition missing :: "u8 list list \<Rightarrow> nat list \<Rightarrow> bool" where
  "missing cs got \<longleftrightarrow> (\<exists>j < length cs. j \<notin> set got)"

text \<open>What is known of a request in the middle of a message; the first chunk is among those received.\<close>

definition assembling :: "u8 list list \<Rightarrow> u8 list \<Rightarrow> nat list \<Rightarrow> worker \<Rightarrow> nat \<Rightarrow> request \<Rightarrow> bool" where
  "assembling cs buf0 got w p req \<longleftrightarrow> reqs w p = Some req \<and> (\<exists>buf. bufs w (req_buffer req) = Some buf \<and> partly cs buf0 got req buf) \<and>
     msg_ok cs \<and> length buf0 < 2 ^ 64 \<and> distinct got \<and> set got \<subseteq> {..<length cs}"

lemma req_fields_order:
  "req\<lparr>req_remaining := n, req_completed := c, req_status := st\<rparr> = req\<lparr>req_status := st, req_remaining := n, req_completed := c\<rparr>"
  by (cases req) simp

lemma assembling_chunk:
  assumes asm: "assembling cs buf0 got w p req" and i: "i < length cs" "i \<notin> set got" and first: "0 \<in> set (got @ [i])"
  obtains req' buf' where "req_kept req req'" "partly cs buf0 (got @ [i]) req' buf'"
    "assembling cs buf0 (got @ [i]) (with_req w p req' buf') p req'"
    "ucp_request_process_recv_data w p (cs ! i) (chunk_off cs i) =
      Some (if missing cs (got @ [i]) then (UCS_INPROGRESS, with_req w p req' buf')
            else (req_status req', finish_req (with_req w p req' buf') p req'))"
proof -
  obtain buf where a: "reqs w p = Some req" "bufs w (req_buffer req) = Some buf" "partly cs buf0 got req buf" "msg_ok cs"
    "length buf0 < 2 ^ 64" "distinct got" "set got \<subseteq> {..<length cs}" using asm by (auto simp: assembling_def)
  note M = msg_okD [OF a(4)]
  let ?req = "req\<lparr>req_status := chunk_status cs i req buf, req_remaining := req_remaining req - length (cs ! i)\<rparr>"
  let ?buf = "put_chunk cs i req buf"
  have dist: "distinct (got @ [i])" "set (got @ [i]) \<subseteq> {..<length cs}" using a(6,7) i by auto
  have sum: "req_remaining req + received cs got = length (concat cs)" using a(3) by (simp add: partly_def)
  then have le: "length (cs ! i) \<le> req_remaining req" using received_le [OF dist] by simp
  have part: "partly cs buf0 (got @ [i]) ?req ?buf" by (rule partly_chunk [OF a(3) i a(7) le])
  have last: "req_remaining req = length (cs ! i) \<longleftrightarrow> \<not> missing cs (got @ [i])"
  proof
    assume eq: "req_remaining req = length (cs ! i)"
    show "\<not> missing cs (got @ [i])"
    proof
      assume "missing cs (got @ [i])"
      then obtain j where j: "j < length cs" "j \<notin> set (got @ [i])" unfolding missing_def by blast
      have "j \<noteq> 0" using j(2) first by metis
      then have "received cs (got @ [i]) < length (concat cs)" using received_less [OF dist j] M(3) [of j] j(1) by simp
      with eq sum show False by simp
    qed
  next
    assume "\<not> missing cs (got @ [i])"
    then have "set (got @ [i]) = {..<length cs}" using dist(2) unfolding missing_def by blast
    from received_all [OF dist(1) this] sum show "req_remaining req = length (cs ! i)" by simp
  qed
  have ok: "req_length req = length buf" "\<not> req_completed req" "req_status req \<noteq> UCS_INPROGRESS" "length buf < 2 ^ 64"
    using a(3,5) by (auto simp: partly_def)
  have "ucp_request_process_recv_data w p (cs ! i) (chunk_off cs i) =
      Some (if missing cs (got @ [i]) then (UCS_INPROGRESS, with_req w p ?req ?buf)
            else (req_status ?req, finish_req (with_req w p ?req ?buf) p ?req))"
    using process_chunk [OF a(1,2) ok(1-3) le ok(4) M(2) i(1)] last
    by (auto simp: after_chunk_def with_req_def finish_req_def req_fields_order)
  moreover have "assembling cs buf0 (got @ [i]) (with_req w p ?req ?buf) p ?req"
    using part a dist by (auto simp: assembling_def with_req_def)
  moreover have "req_kept req ?req" by (simp add: req_kept_def)
  ultimately show ?thesis using that part by blast
qed

definition mid_desc :: "u8 list list \<Rightarrow> u64 \<Rightarrow> nat \<Rightarrow> recv_desc" where
  "mid_desc cs m i = \<lparr>desc_only = False, desc_sync = None, desc_hdr = Eager_middle_hdr m (chunk_off cs i), desc_payload = cs ! i\<rparr>"

lemma req_kept_trans: "req_kept req1 req2 \<Longrightarrow> req_kept req2 req3 \<Longrightarrow> req_kept req1 req3"
  by (simp add: req_kept_def)

lemma with_req_again: "req_kept req req' \<Longrightarrow> with_req ((with_req w p req buf)\<lparr>descs := ds\<rparr>) p req' buf' = (with_req w p req' buf')\<lparr>descs := ds\<rparr>"
  by (simp add: with_req_def req_kept_def)

lemma frag_loop_ok:
  assumes "assembling cs buf0 got w p req" and "list_all2 (\<lambda>d i. descs w d = Some (mid_desc cs m i)) ds L" and "distinct ds"
    and "distinct (got @ L)" and "set L \<subseteq> {..<length cs}" and "0 \<in> set got" and "missing cs got"
  shows "\<exists>req' buf'. req_kept req req' \<and> partly cs buf0 (got @ L) req' buf' \<and>
    frag_loop w p UCS_INPROGRESS ds =
      (let w' = (with_req w p req' buf')\<lparr>descs := descs w |` (- set ds)\<rparr>
       in Some (if missing cs (got @ L) then (UCS_INPROGRESS, [], w') else (req_status req', [], finish_req w' p req')))"
  using assms
proof (induction ds arbitrary: got w req L)
  case Nil
  then obtain buf where "reqs w p = Some req" "bufs w (req_buffer req) = Some buf" "partly cs buf0 got req buf"
    by (auto simp: assembling_def)
  moreover from this have "with_req w p req buf = w"
    by (intro worker.equality) (auto simp: with_req_def)
  ultimately show ?case using Nil by (intro exI [of _ req] exI [of _ buf]) (simp add: req_kept_def)
next
  case (Cons d ds)
  then obtain i L' where L: "L = i # L'" and d: "descs w d = Some (mid_desc cs m i)"
    and rest: "list_all2 (\<lambda>d i. descs w d = Some (mid_desc cs m i)) ds L'" by (auto simp: list_all2_Cons1)
  have i: "i < length cs" "i \<notin> set got" "0 \<in> set (got @ [i])" using Cons.prems(4-6) L by auto
  obtain req1 buf1 where one: "req_kept req req1" "partly cs buf0 (got @ [i]) req1 buf1"
    "assembling cs buf0 (got @ [i]) (with_req w p req1 buf1) p req1"
    "ucp_request_process_recv_data w p (cs ! i) (chunk_off cs i) =
      Some (if missing cs (got @ [i]) then (UCS_INPROGRESS, with_req w p req1 buf1)
            else (req_status req1, finish_req (with_req w p req1 buf1) p req1))"
    using assembling_chunk [OF Cons.prems(1) i] by metis
  let ?w1 = "(with_req w p req1 buf1)\<lparr>descs := (descs w)(d := None)\<rparr>"
  have loop: "frag_loop w p UCS_INPROGRESS (d # ds) =
    (if missing cs (got @ [i]) then frag_loop ?w1 p UCS_INPROGRESS ds
     else frag_loop ((finish_req (with_req w p req1 buf1) p req1)\<lparr>descs := (descs w)(d := None)\<rparr>) p (req_status req1) ds)"
    using d one(4)
    by (simp add: mid_desc_def middle_offset_def ucp_tag_recv_request_process_rdesc_def ucp_recv_desc_release_def
      with_req_def finish_req_def)
  show ?case
  proof (cases "missing cs (got @ [i])")
    case True
    have rest1: "list_all2 (\<lambda>e i. descs ?w1 e = Some (mid_desc cs m i)) ds L'"
      using rest by (rule list.rel_mono_strong) (use Cons.prems(3) in auto)
    have asm1: "assembling cs buf0 (got @ [i]) ?w1 p req1" using one(3) by (simp add: assembling_def)
    have "distinct ds" "distinct ((got @ [i]) @ L')" "set L' \<subseteq> {..<length cs}" using Cons.prems(3-5) L by auto
    from Cons.IH [OF asm1 rest1 this i(3) True]
    obtain req' buf' where two: "req_kept req1 req'" "partly cs buf0 ((got @ [i]) @ L') req' buf'"
      "frag_loop ?w1 p UCS_INPROGRESS ds =
        (let w' = (with_req ?w1 p req' buf')\<lparr>descs := descs ?w1 |` (- set ds)\<rparr>
         in Some (if missing cs ((got @ [i]) @ L') then (UCS_INPROGRESS, [], w') else (req_status req', [], finish_req w' p req')))"
      by blast
    have "descs ?w1 |` (- set ds) = descs w |` (- set (d # ds))" by (auto simp: restrict_map_def)
    with two loop True L show ?thesis
      using req_kept_trans [OF one(1) two(1)] with_req_again [OF two(1)]
      by (intro exI [of _ req'] exI [of _ buf']) simp
  next
    case False
    then have "set L' \<subseteq> set (got @ [i])" using Cons.prems(5) L by (auto simp: missing_def)
    then have "L' = []" using Cons.prems(4) L by (cases L') auto
    then have "ds = []" using rest by simp
    have "(finish_req (with_req w p req1 buf1) p req1)\<lparr>descs := (descs w)(d := None)\<rparr> =
      finish_req ((with_req w p req1 buf1)\<lparr>descs := descs w |` (- set [d])\<rparr>) p req1"
      by (intro worker.equality) (auto simp: finish_req_def restrict_map_def fun_eq_iff)
    with \<open>L' = []\<close> \<open>ds = []\<close> loop False L one show ?thesis
      unfolding Let_def by (intro exI [of _ req1] exI [of _ buf1]) simp
  qed
qed

text \<open>The worker when a request has met its message, of which the middle chunks \<open>L\<close> had arrived.\<close>

definition matched_worker ::
  "worker \<Rightarrow> nat \<Rightarrow> u64 \<Rightarrow> u8 list list \<Rightarrow> nat list \<Rightarrow> (nat \<rightharpoonup> recv_desc) \<Rightarrow> request \<Rightarrow> u8 list \<Rightarrow> worker" where
  "matched_worker w p m cs L ds req buf =
     (let w' = (with_req w p req buf)\<lparr>descs := ds\<rparr>
      in if missing cs (0 # L) then w'\<lparr>frag_hash := (frag_hash w)(m \<mapsto> Exp_req p)\<rparr>
         else (finish_req w' p req)\<lparr>frag_hash := (frag_hash w)(m := None)\<rparr>)"

text \<open>The middle chunks of a message that wait for the first.\<close>

definition frags_wait :: "worker \<Rightarrow> (nat \<rightharpoonup> recv_desc) \<Rightarrow> u64 \<Rightarrow> u8 list list \<Rightarrow> nat list \<Rightarrow> nat list \<Rightarrow> bool" where
  "frags_wait w dm m cs ds L \<longleftrightarrow> frag_hash w m = (if ds = [] then None else Some (Unexp_q ds)) \<and> distinct ds \<and>
     list_all2 (\<lambda>d i. dm d = Some (mid_desc cs m i)) ds L"

lemma frags_wait_cong:
  assumes "frags_wait w dm m cs ds L" and "\<And>d. d \<in> set ds \<Longrightarrow> dm' d = dm d" and "frag_hash w' m = frag_hash w m"
  shows "frags_wait w' dm' m cs ds L"
proof -
  have "list_all2 (\<lambda>d i. dm d = Some (mid_desc cs m i)) ds L" using assms(1) by (simp add: frags_wait_def)
  then have "list_all2 (\<lambda>d i. dm' d = Some (mid_desc cs m i)) ds L" by (rule list.rel_mono_strong) (simp add: assms(2))
  with assms(1,3) show ?thesis by (simp add: frags_wait_def)
qed

lemma restrict_all [simp]: "f |` UNIV = f"
  by (simp add: restrict_map_def)

lemma process_queue_ok:
  assumes asm: "assembling cs buf0 [0] w p req" and wait: "frags_wait w (descs w) m cs ds L"
    and L: "distinct L" "set L \<subseteq> {1..<length cs}" and more: "missing cs [0]"
  shows "\<exists>req' buf'. req_kept req req' \<and> partly cs buf0 (0 # L) req' buf' \<and>
    ucp_tag_frag_list_process_queue True w p m = Some (matched_worker w p m cs L (descs w |` (- set ds)) req' buf')"
proof (cases "ds = []")
  case True
  then have "L = []" using wait by (simp add: frags_wait_def)
  obtain buf where "reqs w p = Some req" "bufs w (req_buffer req) = Some buf" "partly cs buf0 [0] req buf"
    using asm by (auto simp: assembling_def)
  moreover from this have "with_req w p req buf = w" by (intro worker.equality) (auto simp: with_req_def)
  ultimately show ?thesis using True \<open>L = []\<close> wait more
    by (intro exI [of _ req] exI [of _ buf])
      (simp add: req_kept_def ucp_tag_frag_list_process_queue_def matched_worker_def frags_wait_def)
next
  case False
  have "distinct ([0] @ L)" "set L \<subseteq> {..<length cs}" using L by auto
  from frag_loop_ok [OF asm, of m ds L] this wait more
  obtain req' buf' where loop: "req_kept req req'" "partly cs buf0 (0 # L) req' buf'"
    "frag_loop w p UCS_INPROGRESS ds =
      (let w' = (with_req w p req' buf')\<lparr>descs := descs w |` (- set ds)\<rparr>
       in Some (if missing cs (0 # L) then (UCS_INPROGRESS, [], w') else (req_status req', [], finish_req w' p req')))"
    by (auto simp: frags_wait_def)
  have "req_status req' \<noteq> UCS_INPROGRESS" using loop(2) by (simp add: partly_def)
  with loop False wait show ?thesis
    by (intro exI [of _ req'] exI [of _ buf'])
      (simp add: ucp_tag_frag_list_process_queue_def ucp_tag_frag_list_process_common_def matched_worker_def frags_wait_def
        Let_def finish_req_def with_req_def)
qed

lemma first_missing: "1 < length cs \<Longrightarrow> missing cs [0]"
  by (auto simp: missing_def)

text \<open>The first chunk and then the chunks that wait, as both ways to a match have it.\<close>

lemma start_ok:
  assumes asm: "assembling cs buf0 [] w p req" and many: "1 < length cs" and wait: "frags_wait w dm m cs ds L"
    and L: "distinct L" "set L \<subseteq> {1..<length cs}"
  obtains w1 req' buf' where "ucp_request_process_recv_data w p (cs ! 0) 0 = Some (UCS_INPROGRESS, w1)"
    "req_kept req req'" "partly cs buf0 (0 # L) req' buf'"
    "ucp_tag_frag_list_process_queue True (w1\<lparr>descs := dm\<rparr>) p m = Some (matched_worker w p m cs L (dm |` (- set ds)) req' buf')"
    "descs w1 = descs w"
proof -
  have zero: "0 < length cs" "0 \<notin> set []" "0 \<in> set ([] @ [0])" using many by auto
  obtain req1 buf1 where "req_kept req req1" "assembling cs buf0 ([] @ [0]) (with_req w p req1 buf1) p req1"
    "ucp_request_process_recv_data w p (cs ! 0) (chunk_off cs 0) =
      Some (if missing cs ([] @ [0]) then (UCS_INPROGRESS, with_req w p req1 buf1)
            else (req_status req1, finish_req (with_req w p req1 buf1) p req1))"
    using assembling_chunk [OF asm zero] by metis
  then have one: "req_kept req req1" "assembling cs buf0 [0] (with_req w p req1 buf1) p req1"
    "ucp_request_process_recv_data w p (cs ! 0) 0 = Some (UCS_INPROGRESS, with_req w p req1 buf1)"
    using first_missing [OF many] by simp_all
  let ?w1 = "(with_req w p req1 buf1)\<lparr>descs := dm\<rparr>"
  have "assembling cs buf0 [0] ?w1 p req1" using one(2) by (simp add: assembling_def)
  moreover have "frags_wait ?w1 (descs ?w1) m cs ds L" using wait by (simp add: frags_wait_def with_req_def)
  ultimately obtain req' buf' where two: "req_kept req1 req'" "partly cs buf0 (0 # L) req' buf'"
    "ucp_tag_frag_list_process_queue True ?w1 p m = Some (matched_worker ?w1 p m cs L (descs ?w1 |` (- set ds)) req' buf')"
    using process_queue_ok [OF _ _ L first_missing [OF many]] by blast
  have "matched_worker ?w1 p m cs L (descs ?w1 |` (- set ds)) req' buf' = matched_worker w p m cs L (dm |` (- set ds)) req' buf'"
    using two(1) by (simp add: matched_worker_def with_req_def req_kept_def Let_def)
  with one two that req_kept_trans [OF one(1) two(1)] show ?thesis by (simp add: with_req_def)
qed

section \<open>A first packet and a receive meet\<close>

text \<open>The request as the match leaves it before any data.\<close>

definition begun :: "request \<Rightarrow> u64 \<Rightarrow> nat \<Rightarrow> request" where
  "begun req tag n = req\<lparr>req_sender_tag := tag, req_info_length := n, req_remaining := n\<rparr>"

lemma begun_assembling:
  assumes "reqs w p = Some (begun req tag (length (concat cs)))" and "waiting req" and "bufs w (req_buffer req) = Some buf0"
    and "req_length req = length buf0" and "length buf0 < 2 ^ 64" and "msg_ok cs"
  shows "assembling cs buf0 [] w p (begun req tag (length (concat cs)))"
  using assms
  by (simp add: assembling_def partly_def begun_def waiting_def received_def fits_def holds_chunks_def)

lemma with_begun:
  "with_req (w\<lparr>reqs := (reqs w)(p \<mapsto> r)\<rparr>) p req buf = with_req w p req buf"
  by (simp add: with_req_def)

lemma matched_begun:
  "matched_worker (w\<lparr>reqs := (reqs w)(p \<mapsto> r)\<rparr>) p m cs L ds req buf = matched_worker w p m cs L ds req buf"
  by (simp add: matched_worker_def with_begun Let_def)

definition delivered :: "u8 list list \<Rightarrow> u8 list \<Rightarrow> nat list \<Rightarrow> u64 \<Rightarrow> nat \<Rightarrow> request \<Rightarrow> u8 list \<Rightarrow> bool" where
  "delivered cs buf0 L tag b req buf \<longleftrightarrow> req_buffer req = b \<and> req_sender_tag req = tag \<and> req_info_length req = length (concat cs) \<and>
     partly cs buf0 (0 # L) req buf"

lemma first_matched_ok:
  assumes req: "reqs w p = Some req" "waiting req" "bufs w (req_buffer req) = Some buf0" "req_length req = length buf0" "length buf0 < 2 ^ 64"
    and cs: "msg_ok cs" "1 < length cs" and wait: "frags_wait w (descs w) m cs ds L" and L: "distinct L" "set L \<subseteq> {1..<length cs}"
  obtains req' buf' where "delivered cs buf0 L tag (req_buffer req) req' buf'"
    "eager_first_matched True (ucp_eager_common_matched w p tag) p (Eager_first_hdr tag (length (concat cs)) m) (cs ! 0) =
      Some (matched_worker w p m cs L (descs w |` (- set ds)) req' buf')"
proof -
  let ?w = "w\<lparr>reqs := (reqs w)(p \<mapsto> begun req tag (length (concat cs)))\<rparr>"
  have asm: "assembling cs buf0 [] ?w p (begun req tag (length (concat cs)))"
    by (rule begun_assembling) (use req cs in simp_all)
  have wait': "frags_wait ?w (descs w) m cs ds L" using wait by (simp add: frags_wait_def)
  obtain w1 req' buf' where start: "ucp_request_process_recv_data ?w p (cs ! 0) 0 = Some (UCS_INPROGRESS, w1)"
    "req_kept (begun req tag (length (concat cs))) req'" "partly cs buf0 (0 # L) req' buf'"
    "ucp_tag_frag_list_process_queue True (w1\<lparr>descs := descs w\<rparr>) p m = Some (matched_worker ?w p m cs L (descs w |` (- set ds)) req' buf')"
    "descs w1 = descs w"
    using start_ok [OF asm cs(2) wait' L] by auto
  have "w1\<lparr>descs := descs w\<rparr> = w1" using start(5) by (intro worker.equality) simp_all
  moreover have "set_req (ucp_eager_common_matched w p tag) p
      (\<lambda>req. req\<lparr>req_info_length := length (concat cs), req_remaining := length (concat cs)\<rparr>) = ?w"
    using req(1) by (simp add: set_req_def ucp_eager_common_matched_def begun_def)
  ultimately have "eager_first_matched True (ucp_eager_common_matched w p tag) p (Eager_first_hdr tag (length (concat cs)) m) (cs ! 0) =
      Some (matched_worker w p m cs L (descs w |` (- set ds)) req' buf')"
    using start(1,4) by (simp add: eager_first_matched_def matched_begun)
  moreover have "delivered cs buf0 L tag (req_buffer req) req' buf'"
    using start(2,3) by (simp add: delivered_def req_kept_def begun_def)
  ultimately show ?thesis using that by blast
qed

definition head_desc :: "u64 \<Rightarrow> u8 list list \<Rightarrow> u64 \<Rightarrow> recv_desc" where
  "head_desc tag cs m =
     (if length cs = 1 then only_desc (tag, cs ! 0)
      else \<lparr>desc_only = False, desc_sync = None, desc_hdr = Eager_first_hdr tag (length (concat cs)) m, desc_payload = cs ! 0\<rparr>)"

lemma eager_multi_ok:
  assumes req: "reqs w p = Some req" "waiting req" "bufs w (req_buffer req) = Some buf0" "req_length req = length buf0" "length buf0 < 2 ^ 64"
    and cs: "msg_ok cs" "1 < length cs" and wait: "frags_wait w (descs w) m cs ds L" and L: "distinct L" "set L \<subseteq> {1..<length cs}"
    and d: "descs w d = Some (head_desc tag cs m)" "d \<notin> set ds"
  obtains req' buf' where "delivered cs buf0 L tag (req_buffer req) req' buf'"
    "ucp_tag_recv_eager_multi True w p d = Some (matched_worker w p m cs L (descs w |` (- set (d # ds))) req' buf')"
proof -
  let ?w = "w\<lparr>reqs := (reqs w)(p \<mapsto> begun req tag (length (concat cs)))\<rparr>"
  let ?dm = "(descs w)(d := None)"
  have asm: "assembling cs buf0 [] ?w p (begun req tag (length (concat cs)))"
    by (rule begun_assembling) (use req cs in simp_all)
  have wait': "frags_wait ?w ?dm m cs ds L" by (rule frags_wait_cong [OF wait]) (use d(2) in auto)
  obtain w1 req' buf' where start: "ucp_request_process_recv_data ?w p (cs ! 0) 0 = Some (UCS_INPROGRESS, w1)"
    "req_kept (begun req tag (length (concat cs))) req'" "partly cs buf0 (0 # L) req' buf'"
    "ucp_tag_frag_list_process_queue True (w1\<lparr>descs := ?dm\<rparr>) p m = Some (matched_worker ?w p m cs L (?dm |` (- set ds)) req' buf')"
    "descs w1 = descs w"
    using start_ok [OF asm cs(2) wait' L] by auto
  have "set_req w p (\<lambda>req. req\<lparr>req_sender_tag := tag, req_remaining := length (concat cs), req_info_length := length (concat cs)\<rparr>) = ?w"
    using req(1) by (simp add: set_req_def begun_def) (cases req, simp)
  moreover have "?dm |` (- set ds) = descs w |` (- set (d # ds))" by (auto simp: restrict_map_def)
  ultimately have "ucp_tag_recv_eager_multi True w p d = Some (matched_worker w p m cs L (descs w |` (- set (d # ds))) req' buf')"
    using start(1,4,5) d(1) cs(2)
    by (simp add: ucp_tag_recv_eager_multi_def head_desc_def ucp_rdesc_get_tag_def ucp_tag_eager_sync_send_ack_def
      ucp_tag_recv_request_process_rdesc_def ucp_recv_desc_release_def matched_begun Let_def)
  moreover have "delivered cs buf0 L tag (req_buffer req) req' buf'"
    using start(2,3) by (simp add: delivered_def req_kept_def begun_def)
  ultimately show ?thesis using that by blast
qed

end
