(* ===== verification/Ucp_Tag_Eager.thy ===== *)
theory Ucp_Tag_Eager
  imports Ucp_Tag_Frag "HOL-Library.Multiset"
begin

text \<open>
  The eager protocol as a whole: receives, first packets, middle packets and cancellations of any number of
  messages, in any order, on one worker. The specification matches first packets with receives in order and
  remembers which middle packets have come; the theory shows that the worker refines it.
\<close>

section \<open>Specification\<close>

datatype frag_op = Post nat nat u64 u64 | Head nat u64 | Middle nat u64 nat | Withdraw nat

type_synonym messages = "u64 \<Rightarrow> u64 \<times> u8 list list"

record frag_state =
  f_recvs :: "(nat \<times> u64 \<times> u64) list"
  f_msgs :: "u64 list"
  f_outs :: "(nat \<times> u64 option) list"
  f_mids :: "u64 \<Rightarrow> nat list"

fun frag_spec :: "messages \<Rightarrow> frag_state \<Rightarrow> frag_op \<Rightarrow> frag_state" where
  "frag_spec M s (Post p b tag tag_mask) =
     (case take_first (\<lambda>m. ucp_tag_is_match (fst (M m)) tag tag_mask) (f_msgs s) of
        None \<Rightarrow> s\<lparr>f_recvs := f_recvs s @ [(p, tag, tag_mask)]\<rparr>
      | Some (m, rest) \<Rightarrow> s\<lparr>f_msgs := rest, f_outs := f_outs s @ [(p, Some m)]\<rparr>)"
| "frag_spec M s (Head d m) =
     (case take_first (recv_takes (fst (M m))) (f_recvs s) of
        None \<Rightarrow> s\<lparr>f_msgs := f_msgs s @ [m]\<rparr>
      | Some ((p, t, k), rest) \<Rightarrow> s\<lparr>f_recvs := rest, f_outs := f_outs s @ [(p, Some m)]\<rparr>)"
| "frag_spec M s (Middle d m i) = s\<lparr>f_mids := (f_mids s)(m := f_mids s m @ [i])\<rparr>"
| "frag_spec M s (Withdraw p) =
     (case take_first (\<lambda>r. fst r = p) (f_recvs s) of
        None \<Rightarrow> s
      | Some (r, rest) \<Rightarrow> s\<lparr>f_recvs := rest, f_outs := f_outs s @ [(p, None)]\<rparr>)"

definition frag_spec_run :: "messages \<Rightarrow> frag_op list \<Rightarrow> frag_state" where
  "frag_spec_run M ops = foldl (frag_spec M) \<lparr>f_recvs = [], f_msgs = [], f_outs = [], f_mids = (\<lambda>m. [])\<rparr> ops"

text \<open>The calls on the worker. A message of one chunk comes as a single packet.\<close>

fun frag_step :: "messages \<Rightarrow> worker \<Rightarrow> frag_op \<Rightarrow> worker option" where
  "frag_step M w (Post p b tag tag_mask) = map_option snd (ucp_tag_recv_nb True True UCS_OK w (Some p) b tag tag_mask)"
| "frag_step M w (Head d m) =
     (let cs = snd (M m)
      in map_option snd
           (if length cs = 1 then ucp_eager_only_handler True (Pool_desc d) w (fst (M m)) (cs ! 0)
            else ucp_eager_first_handler True (Pool_desc d) w (fst (M m)) (length (concat cs)) m (cs ! 0)))"
| "frag_step M w (Middle d m i) =
     map_option snd (ucp_eager_middle_handler True (Pool_desc d) w m (chunk_off (snd (M m)) i) (snd (M m) ! i))"
| "frag_step M w (Withdraw p) = ucp_request_cancel w p"

fun frag_run :: "messages \<Rightarrow> worker \<Rightarrow> frag_op list \<Rightarrow> worker option" where
  "frag_run M w [] = Some w"
| "frag_run M w (op # ops) = (case frag_step M w op of None \<Rightarrow> None | Some w \<Rightarrow> frag_run M w ops)"

text \<open>
  Every receive has its own request and buffer, every packet its own descriptor, and no packet comes twice. \<open>H\<close> are
  the first packets seen, \<open>K\<close> the middle packets.
\<close>

fun frag_ops_ok ::
  "messages \<Rightarrow> (nat \<rightharpoonup> u8 list) \<Rightarrow> (nat \<times> nat) list \<Rightarrow> nat list \<Rightarrow> u64 list \<Rightarrow> (u64 \<times> nat) list \<Rightarrow> frag_op list \<Rightarrow> bool" where
  "frag_ops_ok M bs A D H K [] \<longleftrightarrow> True"
| "frag_ops_ok M bs A D H K (Post p b tag tag_mask # ops) \<longleftrightarrow>
     p \<notin> set (map fst A) \<and> b \<notin> set (map snd A) \<and> (case bs b of None \<Rightarrow> False | Some buf \<Rightarrow> length buf < 2 ^ 64) \<and>
     frag_ops_ok M bs ((p, b) # A) D H K ops"
| "frag_ops_ok M bs A D H K (Head d m # ops) \<longleftrightarrow> d \<notin> set D \<and> m \<notin> set H \<and> frag_ops_ok M bs A (d # D) (m # H) K ops"
| "frag_ops_ok M bs A D H K (Middle d m i # ops) \<longleftrightarrow>
     d \<notin> set D \<and> (m, i) \<notin> set K \<and> 1 \<le> i \<and> i < length (snd (M m)) \<and> frag_ops_ok M bs A (d # D) H ((m, i) # K) ops"
| "frag_ops_ok M bs A D H K (Withdraw p # ops) \<longleftrightarrow> p \<in> set (map fst A) \<and> frag_ops_ok M bs A D H K ops"

fun post_bufs :: "frag_op list \<Rightarrow> (nat \<times> nat) list" where
  "post_bufs [] = []"
| "post_bufs (Post p b tag tag_mask # ops) = (p, b) # post_bufs ops"
| "post_bufs (op # ops) = post_bufs ops"

section \<open>The relation\<close>

definition taken :: "(nat \<times> u64 option) list \<Rightarrow> u64 list" where
  "taken outs = List.map_filter snd outs"

lemma taken_append [simp]: "taken (xs @ ys) = taken xs @ taken ys"
  by (simp add: taken_def map_filter_def)

lemma taken_simps [simp]: "taken [] = []" "taken [(p, Some m)] = [m]" "taken [(p, None)] = []"
  by (simp_all add: taken_def map_filter_def)

lemma in_taken: "m \<in> set (taken outs) \<longleftrightarrow> (\<exists>p. (p, Some m) \<in> set outs)"
  by (force simp: taken_def map_filter_def)

text \<open>
  What a matched request shows: the part of the message that has come, or the whole message and its completion.
\<close>

definition out_shown :: "messages \<Rightarrow> (u64 \<Rightarrow> nat list) \<Rightarrow> u64 option \<Rightarrow> request \<Rightarrow> u8 list \<Rightarrow> u8 list \<Rightarrow> bool" where
  "out_shown M mids out req buf0 buf \<longleftrightarrow>
     (case out of
        None \<Rightarrow> req_completed req \<and> req_status req = UCS_ERR_CANCELED \<and> buf = buf0
      | Some m \<Rightarrow>
          (let cs = snd (M m)
           in req_sender_tag req = fst (M m) \<and> req_info_length req = length (concat cs) \<and>
              (if missing cs (0 # mids m) then partly cs buf0 (0 # mids m) req buf
               else req_completed req \<and> req_status req = fit_status buf0 (concat cs) \<and>
                    (length (concat cs) \<le> length buf0 \<longrightarrow> buf = fit_buffer buf0 (concat cs)))))"

definition out_ok :: "messages \<Rightarrow> (nat \<rightharpoonup> u8 list) \<Rightarrow> worker \<Rightarrow> (u64 \<Rightarrow> nat list) \<Rightarrow> nat \<times> u64 option \<Rightarrow> bool" where
  "out_ok M bs w mids out \<longleftrightarrow>
     (\<exists>req buf0 buf. reqs w (fst out) = Some req \<and> bs (req_buffer req) = Some buf0 \<and> bufs w (req_buffer req) = Some buf \<and>
        length buf0 < 2 ^ 64 \<and> out_shown M mids (snd out) req buf0 buf)"

definition msg_done :: "messages \<Rightarrow> frag_state \<Rightarrow> nat \<times> u64 option \<Rightarrow> bool" where
  "msg_done M s out \<longleftrightarrow> (case snd out of None \<Rightarrow> True | Some m \<Rightarrow> \<not> missing (snd (M m)) (0 # f_mids s m))"

definition heads_ok :: "messages \<Rightarrow> worker \<Rightarrow> frag_state \<Rightarrow> bool" where
  "heads_ok M w s \<longleftrightarrow> list_all2 (\<lambda>d m. descs w d = Some (head_desc (fst (M m)) (snd (M m)) m)) (unexp_all w) (f_msgs s)"

definition frags_ok :: "messages \<Rightarrow> worker \<Rightarrow> frag_state \<Rightarrow> bool" where
  "frags_ok M w s \<longleftrightarrow>
     (\<forall>m. m \<notin> set (taken (f_outs s)) \<longrightarrow> (\<exists>ds. frags_wait w (descs w) m (snd (M m)) ds (f_mids s m))) \<and>
     (\<forall>p m. (p, Some m) \<in> set (f_outs s) \<longrightarrow>
        frag_hash w m = (if missing (snd (M m)) (0 # f_mids s m) then Some (Exp_req p) else None))"

definition mids_ok :: "messages \<Rightarrow> (u64 \<times> nat) list \<Rightarrow> frag_state \<Rightarrow> bool" where
  "mids_ok M K s \<longleftrightarrow> (\<forall>m. distinct (f_mids s m) \<and> set (f_mids s m) \<subseteq> {1..<length (snd (M m))} \<and> (\<forall>i \<in> set (f_mids s m). (m, i) \<in> set K))"

definition seen_ok :: "nat list \<Rightarrow> u64 list \<Rightarrow> worker \<Rightarrow> frag_state \<Rightarrow> bool" where
  "seen_ok D H w s \<longleftrightarrow> dom (descs w) \<subseteq> set D \<and> distinct (f_msgs s @ taken (f_outs s)) \<and> set (f_msgs s @ taken (f_outs s)) \<subseteq> set H \<and>
     distinct (map fst (f_recvs s) @ map fst (f_outs s))"

text \<open>Every descriptor waits in a queue: none is lost.\<close>

definition owned :: "worker \<Rightarrow> bool" where
  "owned w \<longleftrightarrow> (\<forall>d \<in> dom (descs w). d \<in> set (unexp_all w) \<or> (\<exists>m ds. frag_hash w m = Some (Unexp_q ds) \<and> d \<in> set ds))"

definition completed_once :: "messages \<Rightarrow> worker \<Rightarrow> frag_state \<Rightarrow> bool" where
  "completed_once M w s \<longleftrightarrow> mset (map fst (completions w)) = mset (map fst (filter (msg_done M s) (f_outs s)))"

definition frag_rel ::
  "messages \<Rightarrow> (nat \<rightharpoonup> u8 list) \<Rightarrow> (nat \<times> nat) list \<Rightarrow> nat list \<Rightarrow> u64 list \<Rightarrow> (u64 \<times> nat) list \<Rightarrow> worker \<Rightarrow> frag_state \<Rightarrow> bool" where
  "frag_rel M bs A D H K w s \<longleftrightarrow> tm_ok w (map fst (f_recvs s)) \<and> issued_ok bs A w \<and> (\<forall>r \<in> set (f_recvs s). recv_ok bs w r) \<and>
     (\<forall>out \<in> set (f_outs s). out_ok M bs w (f_mids s) out) \<and> heads_ok M w s \<and> frags_ok M w s \<and> mids_ok M K s \<and> seen_ok D H w s \<and>
     owned w \<and> completed_once M w s"

lemma frag_relD:
  assumes "frag_rel M bs A D H K w s"
  shows "exp_ok w (map fst (f_recvs s))" "unexp_ok w" "issued_ok bs A w" "\<And>r. r \<in> set (f_recvs s) \<Longrightarrow> recv_ok bs w r"
    "\<And>out. out \<in> set (f_outs s) \<Longrightarrow> out_ok M bs w (f_mids s) out" "heads_ok M w s" "frags_ok M w s" "mids_ok M K s" "seen_ok D H w s"
    "owned w" "completed_once M w s"
  using assms by (auto simp: frag_rel_def tm_ok_def)

lemma frag_relI:
  assumes "exp_ok w (map fst (f_recvs s))" "unexp_ok w" "issued_ok bs A w" "\<And>r. r \<in> set (f_recvs s) \<Longrightarrow> recv_ok bs w r"
    "\<And>out. out \<in> set (f_outs s) \<Longrightarrow> out_ok M bs w (f_mids s) out" "heads_ok M w s" "frags_ok M w s" "mids_ok M K s" "seen_ok D H w s"
    "owned w" "completed_once M w s"
  shows "frag_rel M bs A D H K w s"
  using assms by (auto simp: frag_rel_def tm_ok_def)

section \<open>Frames\<close>

lemma msg_done_mids: "f_mids s' = f_mids s \<Longrightarrow> msg_done M s' = msg_done M s"
  by (simp add: msg_done_def fun_eq_iff split: option.splits)

lemma msg_done_other: "snd out \<noteq> Some m \<Longrightarrow> msg_done M (s\<lparr>f_mids := (f_mids s)(m := L)\<rparr>) out = msg_done M s out"
  by (auto simp: msg_done_def split: option.splits)

lemma untaken: "m \<notin> set (taken outs) \<Longrightarrow> out \<in> set outs \<Longrightarrow> snd out \<noteq> Some m"
  by (cases out) (auto simp: in_taken)

lemma completed_same:
  assumes "completed_once M w s" and "completions w' = completions w" and "f_outs s' = f_outs s" and "f_mids s' = f_mids s"
  shows "completed_once M w' s'"
  using assms(1-3) by (simp add: completed_once_def msg_done_mids [OF assms(4)])

definition own_buffer :: "worker \<Rightarrow> nat \<Rightarrow> nat \<Rightarrow> bool" where
  "own_buffer w p b \<longleftrightarrow> (\<forall>q req. q \<noteq> p \<longrightarrow> reqs w q = Some req \<longrightarrow> req_buffer req \<noteq> b)"

text \<open>Only the request \<open>p\<close> and its buffer \<open>b\<close> differ.\<close>

definition one_changed :: "worker \<Rightarrow> worker \<Rightarrow> nat \<Rightarrow> nat \<Rightarrow> bool" where
  "one_changed w w' p b \<longleftrightarrow> own_buffer w p b \<and> (\<forall>q. q \<noteq> p \<longrightarrow> reqs w' q = reqs w q) \<and> (\<forall>c. c \<noteq> b \<longrightarrow> bufs w' c = bufs w c)"

lemma recv_ok_frame:
  assumes "recv_ok bs w r" and "one_changed w w' p b" and "fst r \<noteq> p"
  shows "recv_ok bs w' r"
proof -
  obtain req buf where r: "reqs w (fst r) = Some req" "req_tag req = fst (snd r)" "req_tag_mask req = snd (snd r)"
    "bufs w (req_buffer req) = Some buf" "bs (req_buffer req) = Some buf" "req_length req = length buf" "length buf < 2 ^ 64"
    using assms(1) by (auto simp: recv_ok_def)
  moreover have "reqs w' (fst r) = Some req" "bufs w' (req_buffer req) = Some buf"
    using assms(2,3) r(1,4) by (auto simp: one_changed_def own_buffer_def)
  ultimately show ?thesis by (auto simp: recv_ok_def)
qed

lemma out_shown_cong:
  "(\<And>m. out = Some m \<Longrightarrow> mids' m = mids m) \<Longrightarrow> out_shown M mids' out req buf0 buf = out_shown M mids out req buf0 buf"
  by (cases out) (simp_all add: out_shown_def)

lemma out_ok_frame:
  assumes "out_ok M bs w mids out" and "one_changed w w' p b" and "fst out \<noteq> p" and "\<And>m. snd out = Some m \<Longrightarrow> mids' m = mids m"
  shows "out_ok M bs w' mids' out"
proof -
  obtain req buf0 buf where r: "reqs w (fst out) = Some req" "bs (req_buffer req) = Some buf0" "bufs w (req_buffer req) = Some buf"
    using assms(1) by (auto simp: out_ok_def)
  have "reqs w' (fst out) = Some req" "bufs w' (req_buffer req) = Some buf"
    using assms(2,3) r(1,3) by (auto simp: one_changed_def own_buffer_def)
  with r assms(1) out_shown_cong [OF assms(4)] show ?thesis by (auto simp: out_ok_def)
qed

lemma out_ok_same:
  assumes "out_ok M bs w mids out" and "reqs w' = reqs w" and "bufs w' = bufs w" and "\<And>m. snd out = Some m \<Longrightarrow> mids' m = mids m"
  shows "out_ok M bs w' mids' out"
  using assms(1-3) out_shown_cong [OF assms(4)] by (auto simp: out_ok_def)

lemma issued_own:
  assumes "issued_ok bs A w" and "(p, b) \<in> set A"
  shows "own_buffer w p b"
proof -
  obtain req where "reqs w p = Some req" "req_buffer req = b" using assms by (fastforce simp: issued_ok_def)
  then have rs: "reqs w = (reqs w)(p \<mapsto> req)" by auto
  show ?thesis unfolding own_buffer_def
    using issued_change(2) [OF assms rs \<open>req_buffer req = b\<close>] by blast
qed

lemma issued_buffer: "issued_ok bs A w \<Longrightarrow> reqs w p = Some req \<Longrightarrow> (p, req_buffer req) \<in> set A"
  by (force simp: issued_ok_def)

lemma issued_fresh:
  assumes "issued_ok bs A w" and "b \<notin> set (map snd A)"
  shows "own_buffer w p b"
  unfolding own_buffer_def using issued_buffer [OF assms(1)] assms(2) by force

lemma issued_one_changed:
  assumes "issued_ok bs A w" and "one_changed w w' p b" and "reqs w' p = Some req" and "req_buffer req = b" and "(p, b) \<in> set A"
  shows "issued_ok bs A w'"
proof (rule issued_change(1) [OF assms(1,5)])
  show "reqs w' = (reqs w)(p \<mapsto> req)" using assms(2,3) by (auto simp: one_changed_def)
qed (use assms(2,4) in \<open>auto simp: one_changed_def\<close>)

lemma issued_one_new:
  assumes "issued_ok bs A w" and "one_changed w w' p b" and "reqs w' p = Some req" and "req_buffer req = b"
    and "p \<notin> set (map fst A)" and "b \<notin> set (map snd A)"
  shows "issued_ok bs ((p, b) # A) w'"
proof (rule issued_change(1))
  show "issued_ok bs ((p, b) # A) (w\<lparr>reqs := (reqs w)(p \<mapsto> req)\<rparr>)" by (rule issued_new [OF assms(1,5,6,4)])
  show "reqs w' = (reqs (w\<lparr>reqs := (reqs w)(p \<mapsto> req)\<rparr>))(p \<mapsto> req)" using assms(2,3) by (auto simp: one_changed_def)
qed (use assms(2,4) in \<open>auto simp: one_changed_def\<close>)

text \<open>The header of a descriptor tells which queue it waits in.\<close>

lemma mid_desc_inj: "mid_desc cs m i = mid_desc cs' m' i' \<Longrightarrow> m = m'"
  by (simp add: mid_desc_def)

lemma mid_not_head: "mid_desc cs m i \<noteq> head_desc tag cs' m'"
  by (simp add: mid_desc_def head_desc_def only_desc_def)

lemma waiting_mid:
  assumes "frags_wait w dm m cs ds L" and "d \<in> set ds"
  obtains i where "dm d = Some (mid_desc cs m i)"
  using assms unfolding frags_wait_def by (auto simp: in_set_conv_nth list_all2_conv_all_nth)

lemma waiting_head:
  assumes "heads_ok M w s" and "d \<in> set (unexp_all w)"
  obtains m where "descs w d = Some (head_desc (fst (M m)) (snd (M m)) m)"
  using assms unfolding heads_ok_def by (auto simp: in_set_conv_nth list_all2_conv_all_nth)

lemma waiting_apart:
  assumes "frags_wait w (descs w) m cs ds L" and "frags_wait w (descs w) m' cs' ds' L'" and "m \<noteq> m'"
  shows "set ds \<inter> set ds' = {}"
proof -
  have False if "d \<in> set ds" "d \<in> set ds'" for d
    using waiting_mid [OF assms(1) that(1)] waiting_mid [OF assms(2) that(2)] mid_desc_inj assms(3) by (metis option.inject)
  then show ?thesis by blast
qed

lemma waiting_apart_heads:
  assumes "frags_wait w (descs w) m cs ds L" and "heads_ok M w s"
  shows "set ds \<inter> set (unexp_all w) = {}"
proof -
  have False if "d \<in> set ds" "d \<in> set (unexp_all w)" for d
    using waiting_mid [OF assms(1) that(1)] waiting_head [OF assms(2) that(2)] mid_not_head by (metis option.inject)
  then show ?thesis by blast
qed

section \<open>A match\<close>

definition frag_entry :: "messages \<Rightarrow> frag_state \<Rightarrow> nat \<Rightarrow> u64 \<Rightarrow> frag_match option" where
  "frag_entry M s p m = (if missing (snd (M m)) (0 # f_mids s m) then Some (Exp_req p) else None)"

text \<open>
  The descriptors of the middle packets and of the first packet, if it waited (\<open>Y\<close>), are released.
\<close>

lemma match_frags:
  assumes rel: "frag_rel M bs A D H K w s" and m: "m \<notin> set (taken (f_outs s))" "frags_wait w (descs w) m (snd (M m)) ds (f_mids s m)"
    and frag: "frag_hash w' = (frag_hash w)(m := frag_entry M s p m)"
    and dm: "descs w' = descs w |` (- (set ds \<union> Y))" "Y \<subseteq> set (unexp_all w)"
    and unexp: "unexp_all w' = filter (\<lambda>d. d \<notin> Y) (unexp_all w)"
    and s': "f_outs s' = f_outs s @ [(p, Some m)]" "f_mids s' = f_mids s"
  shows "frags_ok M w' s'" "owned w'"
proof -
  note R = frag_relD [OF rel]
  have apart: "set ds \<inter> set (unexp_all w) = {}" by (rule waiting_apart_heads [OF m(2) R(6)])
  have wait: "\<exists>ds'. frags_wait w' (descs w') m' (snd (M m')) ds' (f_mids s' m')" if m': "m' \<notin> set (taken (f_outs s'))" for m'
  proof -
    have ne: "m' \<noteq> m" "m' \<notin> set (taken (f_outs s))" using m' s' by auto
    obtain ds' where ds': "frags_wait w (descs w) m' (snd (M m')) ds' (f_mids s m')" using R(7) ne(2) by (auto simp: frags_ok_def)
    have "set ds' \<inter> set ds = {}" "set ds' \<inter> set (unexp_all w) = {}"
      using waiting_apart [OF ds' m(2) ne(1)] waiting_apart_heads [OF ds' R(6)] .
    then have "frags_wait w' (descs w') m' (snd (M m')) ds' (f_mids s m')"
      using dm(2) ne(1) by (intro frags_wait_cong [OF ds']) (auto simp: dm(1) frag restrict_map_def)
    then show ?thesis using s' by auto
  qed
  have "frag_hash w' m' = frag_entry M s' q m'" if "(q, Some m') \<in> set (f_outs s')" for q m'
  proof (cases "(q, Some m') \<in> set (f_outs s)")
    case True
    then have "m' \<noteq> m" using m(1) by (auto simp: in_taken)
    with True R(7) s' show ?thesis by (simp add: frag frags_ok_def frag_entry_def)
  next
    case False
    then show ?thesis using that s' by (simp add: frag frag_entry_def)
  qed
  with wait show "frags_ok M w' s'" unfolding frags_ok_def frag_entry_def by blast
  show "owned w'" unfolding owned_def
  proof
    fix d assume "d \<in> dom (descs w')"
    then have d: "d \<in> dom (descs w)" "d \<notin> set ds" "d \<notin> Y" by (auto simp: dm(1) restrict_map_def split: if_splits)
    with R(10) consider "d \<in> set (unexp_all w)" | m' ds' where "frag_hash w m' = Some (Unexp_q ds')" "d \<in> set ds'"
      unfolding owned_def by blast
    then show "d \<in> set (unexp_all w') \<or> (\<exists>m ds. frag_hash w' m = Some (Unexp_q ds) \<and> d \<in> set ds)"
    proof cases
      case 1
      then show ?thesis using d unexp by simp
    next
      case 2
      moreover have "m' \<noteq> m" using 2 d(2) m(2) by (auto simp: frags_wait_def split: if_splits)
      ultimately show ?thesis by (auto simp: frag)
    qed
  qed
qed

lemma match_step:
  assumes rel: "frag_rel M bs A D H K w s" and m: "m \<notin> set (taken (f_outs s))" "frags_wait w (descs w) m (snd (M m)) ds (f_mids s m)"
    and p: "p \<notin> set (map fst (f_outs s))" "p \<notin> set (map fst R')" and one: "one_changed w w' p b" and iss: "issued_ok bs A' w'"
    and exp: "exp_ok w' (map fst R')" "set R' \<subseteq> set (f_recvs s)"
    and unexp: "unexp_ok w'" "unexp_all w' = filter (\<lambda>d. d \<notin> Y) (unexp_all w)"
      "list_all2 (\<lambda>d m. descs w d = Some (head_desc (fst (M m)) (snd (M m)) m)) (unexp_all w') ms"
    and out: "out_ok M bs w' (f_mids s) (p, Some m)" and frag: "frag_hash w' = (frag_hash w)(m := frag_entry M s p m)"
    and dm: "descs w' = descs w |` (- (set ds \<union> Y))" "Y \<subseteq> set (unexp_all w)"
    and ms: "distinct (ms @ taken (f_outs s) @ [m])" "set (ms @ taken (f_outs s) @ [m]) \<subseteq> set H'" and D: "set D \<subseteq> set D'"
    and compl: "map fst (completions w') = map fst (completions w) @ (if missing (snd (M m)) (0 # f_mids s m) then [] else [p])"
  shows "frag_rel M bs A' D' H' K w' (s\<lparr>f_recvs := R', f_msgs := ms, f_outs := f_outs s @ [(p, Some m)]\<rparr>)" (is "frag_rel M bs A' D' H' K w' ?s")
proof -
  note R = frag_relD [OF rel]
  have S: "dom (descs w) \<subseteq> set D" "distinct (map fst (f_recvs s) @ map fst (f_outs s))" using R(9) by (simp_all add: seen_ok_def)
  have apart: "set ds \<inter> set (unexp_all w) = {}" by (rule waiting_apart_heads [OF m(2) R(6)])
  note fr = match_frags [OF rel m frag dm unexp(2), of ?s]
  show ?thesis
  proof (rule frag_relI)
    show "recv_ok bs w' r" if "r \<in> set (f_recvs ?s)" for r
    proof -
      have r: "r \<in> set R'" using that by simp
      then have "fst r \<noteq> p" using p(2) by auto
      then show ?thesis using recv_ok_frame [OF R(4) one] r exp(2) by blast
    qed
    show "out_ok M bs w' (f_mids ?s) x" if "x \<in> set (f_outs ?s)" for x
    proof (cases "x = (p, Some m)")
      case False
      then have x: "x \<in> set (f_outs s)" using that by simp
      then have "fst x \<noteq> p" using p(1) by auto
      then show ?thesis using out_ok_frame [OF R(5) [OF x] one] by simp
    qed (use out in simp)
    show "heads_ok M w' ?s"
    proof -
      have "list_all2 (\<lambda>d m. descs w' d = Some (head_desc (fst (M m)) (snd (M m)) m)) (unexp_all w') ms"
        using unexp(3) by (rule list.rel_mono_strong) (use unexp(2) apart in \<open>auto simp: dm(1) restrict_map_def\<close>)
      then show ?thesis by (simp add: heads_ok_def)
    qed
    show "frags_ok M w' ?s" "owned w'" using fr by simp_all
    show "mids_ok M K ?s" using R(8) by (simp add: mids_ok_def)
    show "seen_ok D' H' w' ?s"
    proof -
      have "dom (descs w') \<subseteq> dom (descs w)" by (auto simp: dm(1) restrict_map_def split: if_splits)
      then have "dom (descs w') \<subseteq> set D'" using S(1) D by blast
      moreover have "set (map fst R') \<subseteq> set (map fst (f_recvs s))" using exp(2) by auto
      then have "set (map fst R') \<inter> set (map fst (f_outs s)) = {}" using S(2) unfolding distinct_append by blast
      then have "distinct (map fst R' @ map fst (f_outs s) @ [p])"
        using S(2) p exp_okD(2) [OF exp(1)] unfolding distinct_append by simp
      ultimately show ?thesis using ms by (auto simp: seen_ok_def)
    qed
    show "completed_once M w' ?s"
    proof -
      have same: "msg_done M ?s = msg_done M s" by (rule msg_done_mids) simp
      have "msg_done M s (p, Some m) \<longleftrightarrow> \<not> missing (snd (M m)) (0 # f_mids s m)" by (simp add: msg_done_def)
      moreover have "mset (map fst (completions w')) =
        mset (map fst (completions w)) + mset (if missing (snd (M m)) (0 # f_mids s m) then [] else [p])" unfolding compl by simp
      ultimately show ?thesis using R(11) unfolding completed_once_def same by simp
    qed
  qed (use exp(1) unexp(1) iss in simp_all)
qed

text \<open>The worker after a request \<open>p\<close> with buffer \<open>b\<close> has met the message \<open>m\<close>, but for the descriptors.\<close>

definition met :: "messages \<Rightarrow> (nat \<rightharpoonup> u8 list) \<Rightarrow> frag_state \<Rightarrow> worker \<Rightarrow> worker \<Rightarrow> nat \<Rightarrow> u64 \<Rightarrow> nat \<Rightarrow> bool" where
  "met M bs s w w' p m b \<longleftrightarrow> one_changed w w' p b \<and> (\<exists>req. reqs w' p = Some req \<and> req_buffer req = b) \<and>
     out_ok M bs w' (f_mids s) (p, Some m) \<and> frag_hash w' = (frag_hash w)(m := frag_entry M s p m) \<and>
     map fst (completions w') = map fst (completions w) @ (if missing (snd (M m)) (0 # f_mids s m) then [] else [p]) \<and>
     exp_hash w' = exp_hash w \<and> exp_wildcard w' = exp_wildcard w \<and> exp_sn w' = exp_sn w \<and> sw_all_count w' = sw_all_count w \<and>
     unexp_all w' = unexp_all w \<and> unexp_hash w' = unexp_hash w"

lemma matched_worker_fields [simp]:
  "reqs (matched_worker w p m cs L dm req buf) = (reqs w)(p \<mapsto> if missing cs (0 # L) then req else req\<lparr>req_completed := True\<rparr>)"
  "bufs (matched_worker w p m cs L dm req buf) = (bufs w)(req_buffer req \<mapsto> buf)"
  "descs (matched_worker w p m cs L dm req buf) = dm"
  "frag_hash (matched_worker w p m cs L dm req buf) = (frag_hash w)(m := if missing cs (0 # L) then Some (Exp_req p) else None)"
  "map fst (completions (matched_worker w p m cs L dm req buf)) = map fst (completions w) @ (if missing cs (0 # L) then [] else [p])"
  "exp_hash (matched_worker w p m cs L dm req buf) = exp_hash w" "exp_wildcard (matched_worker w p m cs L dm req buf) = exp_wildcard w"
  "exp_sn (matched_worker w p m cs L dm req buf) = exp_sn w" "sw_all_count (matched_worker w p m cs L dm req buf) = sw_all_count w"
  "unexp_all (matched_worker w p m cs L dm req buf) = unexp_all w" "unexp_hash (matched_worker w p m cs L dm req buf) = unexp_hash w"
  by (simp_all add: matched_worker_def with_req_def finish_req_def Let_def)

lemma not_missing_all: "\<not> missing cs (0 # L) \<Longrightarrow> set L \<subseteq> {1..<length cs} \<Longrightarrow> cs \<noteq> [] \<Longrightarrow> set (0 # L) = {..<length cs}"
  by (auto simp: missing_def)

lemma met_multi:
  assumes own: "own_buffer w p b" and msg: "delivered (snd (M m)) buf0 (f_mids s m) (fst (M m)) b req buf" "msg_ok (snd (M m))"
    and mids: "mids_ok M K s" and buf: "bs b = Some buf0" "length buf0 < 2 ^ 64"
  shows "met M bs s w (matched_worker w p m (snd (M m)) (f_mids s m) dm req buf) p m b"
proof -
  let ?cs = "snd (M m)" and ?L = "f_mids s m"
  have req: "req_buffer req = b" "req_sender_tag req = fst (M m)" "req_info_length req = length (concat ?cs)" "partly ?cs buf0 (0 # ?L) req buf"
    using msg(1) by (simp_all add: delivered_def)
  have "set ?L \<subseteq> {1..<length ?cs}" using mids by (simp add: mids_ok_def)
  then have full: "set (0 # ?L) = {..<length ?cs}" if "\<not> missing ?cs (0 # ?L)" using not_missing_all [OF that] msg_okD(1) [OF msg(2)] by blast
  have "out_shown M (f_mids s) (Some m) (if missing ?cs (0 # ?L) then req else req\<lparr>req_completed := True\<rparr>) buf0 buf"
    using req partly_all [OF req(4) full msg_okD(1) [OF msg(2)]] by (simp add: out_shown_def Let_def)
  then show ?thesis using own req(1) buf by (auto simp: met_def one_changed_def frag_entry_def out_ok_def)
qed

lemma single_mids:
  assumes "mids_ok M K s" and "length (snd (M m)) = 1"
  shows "f_mids s m = []"
proof -
  have "set (f_mids s m) \<subseteq> {1..<1}" using assms unfolding mids_ok_def by metis
  then show ?thesis by simp
qed

lemma single_not_missing: "length cs = 1 \<Longrightarrow> \<not> missing cs (0 # L)"
  by (auto simp: missing_def)

lemma met_only:
  assumes own: "own_buffer w p b" and msg: "length (snd (M m)) = 1" and free: "frag_hash w m = None"
    and req: "req_buffer req = b" "req_sender_tag req = fst (M m)" "req_info_length req = length (snd (M m) ! 0)" "req_completed req"
      "req_status req = fit_status buf (snd (M m) ! 0)" and old: "bs b = Some buf" "length buf < 2 ^ 64"
    and w': "reqs w' = (reqs w)(p \<mapsto> req)" "bufs w' = (bufs w)(b \<mapsto> fit_buffer buf (snd (M m) ! 0))" "frag_hash w' = frag_hash w"
      "map fst (completions w') = map fst (completions w) @ [p]" "exp_hash w' = exp_hash w" "exp_wildcard w' = exp_wildcard w"
      "exp_sn w' = exp_sn w" "sw_all_count w' = sw_all_count w" "unexp_all w' = unexp_all w" "unexp_hash w' = unexp_hash w"
  shows "met M bs s w w' p m b"
proof -
  obtain c where c: "snd (M m) = [c]" using msg by (auto simp: length_Suc_conv)
  note full = single_not_missing [OF msg, of "f_mids s m"]
  have "out_shown M (f_mids s) (Some m) req buf (fit_buffer buf (snd (M m) ! 0))"
    using req full c by (simp add: out_shown_def Let_def)
  moreover have "frag_hash w' = (frag_hash w)(m := frag_entry M s p m)" using full free w'(3) by (auto simp: frag_entry_def)
  ultimately show ?thesis using own req(1) old w' full by (auto simp: met_def one_changed_def out_ok_def)
qed

text \<open>The middle packets of an unmatched message.\<close>

lemma wait_of:
  assumes rel: "frag_rel M bs A D H K w s" and "m \<notin> set (taken (f_outs s))"
  obtains ds where "frags_wait w (descs w) m (snd (M m)) ds (f_mids s m)" "distinct (f_mids s m)"
    "set (f_mids s m) \<subseteq> {1..<length (snd (M m))}"
  using assms(2) frag_relD(7,8) [OF rel] by (auto simp: frags_ok_def mids_ok_def)

section \<open>A first packet\<close>

lemma one_changed_reqs: "reqs w1 = reqs w \<Longrightarrow> bufs w1 = bufs w \<Longrightarrow> one_changed w1 w' p b = one_changed w w' p b"
  by (simp add: one_changed_def own_buffer_def)

text \<open>The handler finds a receive: both kinds of first packet.\<close>

lemma head_meets:
  assumes rel: "frag_rel M bs A D H K w s" and m: "m \<notin> set (taken (f_outs s))" "msg_ok (snd (M m))"
    and wait: "frags_wait w (descs w) m (snd (M m)) ds (f_mids s m)"
    and search: "ucp_tag_exp_search w (fst (M m)) = Some (Some p, w1)" "same_but_exp w w1" and r: "recv_ok bs w (p, t, k)"
    and req: "reqs w p = Some req" "waiting req"
  obtains w' where "frag_step M w (Head d m) = Some w'" "met M bs s w1 w' p m (req_buffer req)" "descs w' = descs w |` (- set ds)"
proof -
  note R = frag_relD [OF rel]
  let ?cs = "snd (M m)" and ?tag = "fst (M m)" and ?b = "req_buffer req"
  have same: "reqs w1 = reqs w" "bufs w1 = bufs w" "descs w1 = descs w" "frag_hash w1 = frag_hash w" "completions w1 = completions w"
    using search(2) by (simp_all add: same_but_exp_def)
  obtain buf where buf: "bufs w ?b = Some buf" "bs ?b = Some buf" "req_length req = length buf" "length buf < 2 ^ 64"
    using r req(1) by (auto simp: recv_ok_def)
  have own: "own_buffer w1 p ?b" using issued_own [OF R(3) issued_buffer [OF R(3) req(1)]] same(1) by (simp add: own_buffer_def)
  have L: "distinct (f_mids s m)" "set (f_mids s m) \<subseteq> {1..<length ?cs}" using R(8) by (simp_all add: mids_ok_def)
  show ?thesis
  proof (cases "length ?cs = 1")
    case True
    let ?data = "?cs ! 0"
    have len: "length ?data < 2 ^ 64" using msg_okD(2) [OF m(2)] True by (auto simp: length_Suc_conv)
    have ds: "ds = []" "frag_hash w1 m = None" using wait single_mids [OF R(8) True] same(4) by (auto simp: frags_wait_def)
    let ?w2 = "w1\<lparr>reqs := (reqs w1)(p \<mapsto> req\<lparr>req_sender_tag := ?tag\<rparr>)\<rparr>"
    let ?req' = "req\<lparr>req_sender_tag := ?tag, req_info_length := length ?data, req_completed := True, req_status := fit_status buf ?data\<rparr>"
    let ?w3 = "?w2\<lparr>reqs := (reqs ?w2)(p \<mapsto> ?req'), bufs := (bufs ?w2)(?b \<mapsto> fit_buffer buf ?data),
      completions := completions ?w2 @ [(p, fit_status buf ?data)]\<rparr>"
    have "eager_only_matched ?w2 p ?data = Some ?w3"
      using only_matched_ok [of ?w2 p "req\<lparr>req_sender_tag := ?tag\<rparr>" buf ?data] req buf len same by (simp add: waiting_def)
    then have "frag_step M w (Head d m) = Some ?w3"
      using True search(1) same req(1)
      by (simp add: ucp_eager_only_handler_def ucp_eager_tagged_handler_def ucp_eager_common_matched_def set_req_def
        ucp_tag_eager_sync_send_ack_def ucp_rdesc_get_tag_def Let_def)
    moreover have "met M bs s w1 ?w3 p m ?b"
      by (rule met_only [where M = M and m = m and req = ?req' and buf = buf, OF own True ds(2)]) (use buf in simp_all)
    moreover have "descs ?w3 = descs w |` (- set ds)" using ds same by simp
    ultimately show ?thesis using that by blast
  next
    case False
    then have many: "1 < length ?cs" using msg_okD(1) [OF m(2)] by (cases ?cs) auto
    have req1: "reqs w1 p = Some req" "bufs w1 ?b = Some buf" using same req buf by simp_all
    have wait1: "frags_wait w1 (descs w1) m ?cs ds (f_mids s m)" using wait by (simp add: frags_wait_def same)
    obtain req' buf' where first: "delivered ?cs buf (f_mids s m) ?tag ?b req' buf'"
      "eager_first_matched True (ucp_eager_common_matched w1 p ?tag) p (Eager_first_hdr ?tag (length (concat ?cs)) m) (?cs ! 0) =
        Some (matched_worker w1 p m ?cs (f_mids s m) (descs w1 |` (- set ds)) req' buf')"
      by (rule first_matched_ok [OF req1(1) req(2) req1(2) buf(3,4) m(2) many wait1 L]) (rule that)
    then have "frag_step M w (Head d m) = Some (matched_worker w1 p m ?cs (f_mids s m) (descs w1 |` (- set ds)) req' buf')"
      using False search(1)
      by (simp add: ucp_eager_first_handler_def ucp_eager_tagged_handler_def ucp_tag_eager_sync_send_ack_def ucp_rdesc_get_tag_def Let_def)
    moreover have "met M bs s w1 (matched_worker w1 p m ?cs (f_mids s m) (descs w1 |` (- set ds)) req' buf') p m ?b"
      by (rule met_multi [where M = M and m = m and s = s and bs = bs, OF own first(1) m(2) R(8) buf(2,4)])
    ultimately show ?thesis using that by (simp add: same)
  qed
qed

lemma metD:
  assumes "met M bs s w w' p m b"
  shows "one_changed w w' p b" "\<exists>req. reqs w' p = Some req \<and> req_buffer req = b" "out_ok M bs w' (f_mids s) (p, Some m)"
    "frag_hash w' = (frag_hash w)(m := frag_entry M s p m)"
    "map fst (completions w') = map fst (completions w) @ (if missing (snd (M m)) (0 # f_mids s m) then [] else [p])"
    "exp_hash w' = exp_hash w" "exp_wildcard w' = exp_wildcard w" "exp_sn w' = exp_sn w" "sw_all_count w' = sw_all_count w"
    "unexp_all w' = unexp_all w" "unexp_hash w' = unexp_hash w"
  using assms by (simp_all add: met_def)

lemma unseen:
  assumes "seen_ok D H w s" and "m \<notin> set H"
  shows "m \<notin> set (taken (f_outs s))" "distinct ((f_msgs s @ [m]) @ taken (f_outs s))" "set ((f_msgs s @ [m]) @ taken (f_outs s)) \<subseteq> set (m # H)"
  using assms by (auto simp: seen_ok_def)

lemma head_expected:
  assumes rel: "frag_rel M bs A D H K w s" and m: "m \<notin> set H" "msg_ok (snd (M m))"
    and first: "take_first (recv_takes (fst (M m))) (f_recvs s) = Some ((p, t, k), rest)"
    and search: "ucp_tag_exp_search w (fst (M m)) = Some (Some p, w1)" and w1: "same_but_exp w w1" "exp_ok w1 (map fst rest)"
  obtains w' where "frag_step M w (Head d m) = Some w'" "exp_sn w' = exp_sn w"
    "frag_rel M bs A (d # D) (m # H) K w' (s\<lparr>f_recvs := rest, f_outs := f_outs s @ [(p, Some m)]\<rparr>)"
proof -
  note R = frag_relD [OF rel]
  obtain ys zs where split: "f_recvs s = ys @ (p, t, k) # zs" "rest = ys @ zs" using take_first_Some [OF first] by blast
  have mem: "(p, t, k) \<in> set (f_recvs s)" and sub: "set rest \<subseteq> set (f_recvs s)" using split by auto
  have p: "p \<notin> set (map fst (f_outs s))" "p \<notin> set (map fst rest)" using R(9) split by (auto simp: seen_ok_def)
  obtain req where req: "reqs w p = Some req" "waiting req" using exp_okD(3) [OF R(1), of p] mem by force
  note un = unseen [OF R(9) m(1)]
  obtain ds where ds: "frags_wait w (descs w) m (snd (M m)) ds (f_mids s m)" using wait_of [OF rel un(1)] by blast
  obtain w' where w': "frag_step M w (Head d m) = Some w'" "met M bs s w1 w' p m (req_buffer req)" "descs w' = descs w |` (- set ds)"
    by (rule head_meets [OF rel un(1) m(2) ds search w1(1) R(4) [OF mem] req]) (rule that)
  note M = metD [OF w'(2)]
  have same: "reqs w1 = reqs w" "bufs w1 = bufs w" "frag_hash w1 = frag_hash w" "completions w1 = completions w" "exp_sn w1 = exp_sn w"
    "unexp_all w1 = unexp_all w" "unexp_hash w1 = unexp_hash w" using w1(1) by (simp_all add: same_but_exp_def)
  have one: "one_changed w w' p (req_buffer req)" using M(1) one_changed_reqs [OF same(1,2)] by simp
  obtain req' where req': "reqs w' p = Some req'" "req_buffer req' = req_buffer req" using M(2) by blast
  have apart: "set ds \<inter> set (unexp_all w) = {}" by (rule waiting_apart_heads [OF ds R(6)])
  have "frag_rel M bs A (d # D) (m # H) K w' (s\<lparr>f_recvs := rest, f_msgs := f_msgs s, f_outs := f_outs s @ [(p, Some m)]\<rparr>)"
  proof (rule match_step [OF rel un(1) ds p one _ _ sub])
    show "issued_ok bs A w'" by (rule issued_one_changed [OF R(3) one req' issued_buffer [OF R(3) req(1)]])
    show "exp_ok w' (map fst rest)"
      by (rule exp_ok_frame [OF w1(2)]) (use M p(2) in \<open>auto simp: one_changed_def\<close>)
    show "unexp_ok w'" by (rule unexp_ok_frame [OF R(2)]) (use M same w'(3) apart in \<open>auto simp: restrict_map_def\<close>)
    show "unexp_all w' = filter (\<lambda>d. d \<notin> {}) (unexp_all w)" using M(10) same by simp
    show "list_all2 (\<lambda>d m. descs w d = Some (head_desc (fst (M m)) (snd (M m)) m)) (unexp_all w') (f_msgs s)"
      using R(6) M(10) same by (simp add: heads_ok_def)
    show "descs w' = descs w |` (- (set ds \<union> {}))" using w'(3) by simp
  qed (use un M same in \<open>auto simp: frag_entry_def\<close>)
  then show ?thesis using that w'(1) M(8) same by simp
qed

lemma fresh_desc:
  assumes rel: "frag_rel M bs A D H K w s" and d: "d \<notin> set D"
  shows "descs w d = None" "d \<notin> set (unexp_all w)" "frags_wait w (descs w) m cs ds L \<Longrightarrow> d \<notin> set ds"
proof -
  show none: "descs w d = None" using frag_relD(9) [OF rel] d by (auto simp: seen_ok_def)
  show "d \<notin> set (unexp_all w)" using unexp_okD(3) [OF frag_relD(2) [OF rel]] none by blast
  show "d \<notin> set ds" if w: "frags_wait w (descs w) m cs ds L"
  proof
    assume "d \<in> set ds"
    from waiting_mid [OF w this] none show False by (metis option.distinct(1))
  qed
qed

text \<open>A new descriptor leaves the fragments that wait alone.\<close>

lemma frags_ok_add:
  assumes rel: "frag_rel M bs A D H K w s" and d: "d \<notin> set D"
    and w': "descs w' = (descs w)(d \<mapsto> rd)" "frag_hash w' = frag_hash w" and s': "f_outs s' = f_outs s" "f_mids s' = f_mids s"
  shows "frags_ok M w' s'"
proof -
  have "\<exists>ds. frags_wait w' (descs w') m (snd (M m)) ds (f_mids s m)" if m: "m \<notin> set (taken (f_outs s))" for m
  proof -
    obtain ds where ds: "frags_wait w (descs w) m (snd (M m)) ds (f_mids s m)" using wait_of [OF rel m] by blast
    have "frags_wait w' (descs w') m (snd (M m)) ds (f_mids s m)"
      by (rule frags_wait_cong [OF ds]) (use fresh_desc(3) [OF rel d ds] w' in auto)
    then show ?thesis by blast
  qed
  with frag_relD(7) [OF rel] show ?thesis by (simp add: frags_ok_def s' w'(2))
qed

lemma head_desc_tag [simp]: "ucp_rdesc_get_tag (head_desc tag cs m) = tag"
  by (simp add: head_desc_def only_desc_def ucp_rdesc_get_tag_def)

lemma head_unexpected:
  assumes rel: "frag_rel M bs A D H K w s" and d: "d \<notin> set D" and m: "m \<notin> set H"
    and search: "ucp_tag_exp_search w (fst (M m)) = Some (None, w)"
  obtains w' where "frag_step M w (Head d m) = Some w'" "exp_sn w' = exp_sn w"
    "frag_rel M bs A (d # D) (m # H) K w' (s\<lparr>f_msgs := f_msgs s @ [m]\<rparr>)"
proof -
  note R = frag_relD [OF rel]
  note fresh = fresh_desc(1,2) [OF rel d]
  note un = unseen [OF R(9) m]
  let ?rd = "head_desc (fst (M m)) (snd (M m)) m"
  let ?w = "w\<lparr>descs := (descs w)(d \<mapsto> ?rd)\<rparr>"
  have ok: "unexp_ok ?w" by (rule unexp_ok_frame [OF R(2)]) (use fresh in auto)
  have pre: "d \<notin> set (unexp_all ?w)" "descs ?w d = Some ?rd" using fresh by simp_all
  obtain h where "ucp_tag_unexp_recv ?w d (ucp_rdesc_get_tag ?rd) = Some (?w\<lparr>unexp_hash := h, unexp_all := unexp_all ?w @ [d]\<rparr>)"
    "unexp_ok (?w\<lparr>unexp_hash := h, unexp_all := unexp_all ?w @ [d]\<rparr>)"
    by (rule unexp_recv_ok [OF ok pre]) (rule that)
  then have h: "ucp_tag_unexp_recv ?w d (fst (M m)) = Some (?w\<lparr>unexp_hash := h, unexp_all := unexp_all w @ [d]\<rparr>)"
    "unexp_ok (?w\<lparr>unexp_hash := h, unexp_all := unexp_all w @ [d]\<rparr>)" by simp_all
  define w' where "w' = ?w\<lparr>unexp_hash := h, unexp_all := unexp_all w @ [d]\<rparr>"
  let ?s = "s\<lparr>f_msgs := f_msgs s @ [m]\<rparr>"
  have "frag_rel M bs A (d # D) (m # H) K w' ?s"
  proof (rule frag_relI)
    show "exp_ok w' (map fst (f_recvs ?s))" using exp_ok_frame [OF R(1), of w'] by (simp add: w'_def)
    show "unexp_ok w'" using h(2) by (simp add: w'_def)
    show "issued_ok bs A w'" using R(3) by (simp add: issued_ok_def w'_def)
    show "recv_ok bs w' r" if "r \<in> set (f_recvs ?s)" for r using R(4) [of r] that by (simp add: recv_ok_def w'_def)
    show "out_ok M bs w' (f_mids ?s) out" if "out \<in> set (f_outs ?s)" for out
      using out_ok_same [OF R(5), of out w' "f_mids s"] that by (simp add: w'_def)
    show "heads_ok M w' ?s"
    proof -
      have "list_all2 (\<lambda>e m. descs w' e = Some (head_desc (fst (M m)) (snd (M m)) m)) (unexp_all w) (f_msgs s)"
        using R(6) unfolding heads_ok_def by (rule list.rel_mono_strong) (use fresh in \<open>auto simp: w'_def\<close>)
      then show ?thesis by (auto simp: heads_ok_def w'_def intro!: list_all2_appendI)
    qed
    show "frags_ok M w' ?s" by (rule frags_ok_add [OF rel d]) (simp_all add: w'_def)
    show "mids_ok M K ?s" using R(8) by (simp add: mids_ok_def)
    show "seen_ok (d # D) (m # H) w' ?s" using R(9) un by (auto simp: seen_ok_def w'_def)
    show "owned w'" using R(10) by (auto simp: owned_def w'_def)
    show "completed_once M w' ?s" by (rule completed_same [OF R(11)]) (simp_all add: w'_def)
  qed
  moreover have "frag_step M w (Head d m) = Some w'"
    using search h(1) unfolding w'_def
    by (cases "length (snd (M m)) = 1")
      (simp_all add: ucp_eager_only_handler_def ucp_eager_first_handler_def ucp_eager_tagged_handler_def ucp_recv_desc_init_def
        only_desc_def head_desc_def ucp_rdesc_get_tag_def Let_def)
  moreover have "exp_sn w' = exp_sn w" by (simp add: w'_def)
  ultimately show ?thesis using that by blast
qed

lemma head_ok:
  assumes rel: "frag_rel M bs A D H K w s" and d: "d \<notin> set D" and m: "m \<notin> set H" "msg_ok (snd (M m))"
  obtains w' where "frag_step M w (Head d m) = Some w'" "exp_sn w' = exp_sn w" "frag_rel M bs A (d # D) (m # H) K w' (frag_spec M s (Head d m))"
proof -
  note R = frag_relD [OF rel]
  let ?tag = "fst (M m)"
  let ?r = "find (req_matches (reqs w) ?tag) (map fst (f_recvs s))"
  have r: "?r = map_option (\<lambda>r. fst (fst r)) (take_first (recv_takes ?tag) (f_recvs s))"
    by (rule take_first_find) (rule recv_takes_eq [OF R(4)])
  obtain w1 where w1: "ucp_tag_exp_search w ?tag = Some (?r, w1)" "same_but_exp w w1"
    "exp_ok w1 (case ?r of None \<Rightarrow> map fst (f_recvs s) | Some p \<Rightarrow> remove1 p (map fst (f_recvs s)))" "?r = None \<Longrightarrow> w1 = w"
    using exp_search_ok [OF R(1)] by blast
  show ?thesis
  proof (cases "take_first (recv_takes ?tag) (f_recvs s)")
    case None
    then have "ucp_tag_exp_search w ?tag = Some (None, w)" using w1 r by auto
    from head_unexpected [OF rel d m(1) this] None that show ?thesis by auto
  next
    case (Some x)
    obtain p t k rest where x: "x = ((p, t, k), rest)" by (metis prod.exhaust)
    have "map fst rest = remove1 p (map fst (f_recvs s))"
      using take_first_remove1 [of _ _ _ _ fst, OF Some [unfolded x] exp_okD(2) [OF R(1)]] by simp
    then have "ucp_tag_exp_search w ?tag = Some (Some p, w1)" "exp_ok w1 (map fst rest)" using w1(1,3) r Some x by auto
    from head_expected [OF rel m Some [unfolded x] this(1) w1(2) this(2), of d] Some x that show ?thesis by auto
  qed
qed

section \<open>A middle packet\<close>

lemma mids_snoc:
  assumes "mids_ok M K s" and "(m, i) \<notin> set K" "1 \<le> i" "i < length (snd (M m))"
  shows "mids_ok M ((m, i) # K) (s\<lparr>f_mids := (f_mids s)(m := f_mids s m @ [i])\<rparr>)" "i \<notin> set (f_mids s m)"
  using assms by (auto simp: mids_ok_def)

lemma middle_waits:
  assumes rel: "frag_rel M bs A D H K w s" and d: "d \<notin> set D" and i: "(m, i) \<notin> set K" "1 \<le> i" "i < length (snd (M m))"
    and m: "m \<notin> set (taken (f_outs s))"
  obtains w' where "frag_step M w (Middle d m i) = Some w'" "exp_sn w' = exp_sn w"
    "frag_rel M bs A (d # D) H ((m, i) # K) w' (frag_spec M s (Middle d m i))"
proof -
  note R = frag_relD [OF rel]
  note fresh = fresh_desc(1,2) [OF rel d]
  let ?cs = "snd (M m)"
  obtain ds where ds: "frags_wait w (descs w) m ?cs ds (f_mids s m)" using wait_of [OF rel m] by blast
  have entry: "frag_hash w m = (if ds = [] then None else Some (Unexp_q ds))" using ds by (simp add: frags_wait_def)
  define w' where "w' = w\<lparr>descs := (descs w)(d \<mapsto> mid_desc ?cs m i), frag_hash := (frag_hash w)(m \<mapsto> Unexp_q (ds @ [d]))\<rparr>"
  let ?s = "s\<lparr>f_mids := (f_mids s)(m := f_mids s m @ [i])\<rparr>"
  have outs: "m' \<noteq> m" if "(q, Some m') \<in> set (f_outs s)" for q m' using that m by (auto simp: in_taken)
  have "frag_rel M bs A (d # D) H ((m, i) # K) w' ?s"
  proof (rule frag_relI)
    show "exp_ok w' (map fst (f_recvs ?s))" using exp_ok_frame [OF R(1), of w'] by (simp add: w'_def)
    show "unexp_ok w'" by (rule unexp_ok_frame [OF R(2)]) (use fresh in \<open>auto simp: w'_def\<close>)
    show "issued_ok bs A w'" using R(3) by (simp add: issued_ok_def w'_def)
    show "recv_ok bs w' r" if "r \<in> set (f_recvs ?s)" for r using R(4) [of r] that by (simp add: recv_ok_def w'_def)
    show "out_ok M bs w' (f_mids ?s) out" if out: "out \<in> set (f_outs ?s)" for out
    proof (rule out_ok_same [OF R(5), of out])
      show "f_mids ?s m' = f_mids s m'" if "snd out = Some m'" for m'
        using outs [of "fst out" m'] out that by (cases out) auto
    qed (use out in \<open>simp_all add: w'_def\<close>)
    show "heads_ok M w' ?s"
      using R(6) unfolding heads_ok_def by (auto simp: w'_def elim!: list.rel_mono_strong) (use fresh in auto)
    show "frags_ok M w' ?s" unfolding frags_ok_def
    proof (intro conjI allI impI)
      fix m' assume m': "m' \<notin> set (taken (f_outs ?s))"
      show "\<exists>ds. frags_wait w' (descs w') m' (snd (M m')) ds (f_mids ?s m')"
      proof (cases "m' = m")
        case True
        have "d \<notin> set ds" by (rule fresh_desc(3) [OF rel d ds])
        have "frags_wait w (descs w') m ?cs ds (f_mids s m)"
          by (rule frags_wait_cong [OF ds]) (use \<open>d \<notin> set ds\<close> in \<open>auto simp: w'_def\<close>)
        then have "frags_wait w' (descs w') m ?cs (ds @ [d]) (f_mids s m @ [i])"
          using \<open>d \<notin> set ds\<close> by (auto simp: frags_wait_def w'_def intro!: list_all2_appendI)
        with True show ?thesis by auto
      next
        case False
        obtain ds' where ds': "frags_wait w (descs w) m' (snd (M m')) ds' (f_mids s m')" using wait_of [OF rel, of m'] m' by auto
        have "frags_wait w' (descs w') m' (snd (M m')) ds' (f_mids s m')"
          by (rule frags_wait_cong [OF ds']) (use fresh_desc(3) [OF rel d ds'] False in \<open>auto simp: w'_def\<close>)
        with False show ?thesis by auto
      qed
    next
      fix q m' assume "(q, Some m') \<in> set (f_outs ?s)"
      with outs [of q m'] R(7) show "frag_hash w' m' = (if missing (snd (M m')) (0 # f_mids ?s m') then Some (Exp_req q) else None)"
        by (simp add: w'_def frags_ok_def)
    qed
    show "mids_ok M ((m, i) # K) ?s" by (rule mids_snoc(1) [OF R(8) i])
    show "seen_ok (d # D) H w' ?s" using R(9) by (auto simp: seen_ok_def w'_def)
    show "owned w'" unfolding owned_def
    proof
      fix e assume "e \<in> dom (descs w')"
      then consider "e = d" | "e \<in> dom (descs w)" by (auto simp: w'_def split: if_splits)
      then show "e \<in> set (unexp_all w') \<or> (\<exists>m ds. frag_hash w' m = Some (Unexp_q ds) \<and> e \<in> set ds)"
      proof cases
        case 1
        then show ?thesis by (auto simp: w'_def intro!: exI [of _ m])
      next
        case 2
        then consider "e \<in> set (unexp_all w)" | m' ds' where "frag_hash w m' = Some (Unexp_q ds')" "e \<in> set ds'"
          using R(10) unfolding owned_def by blast
        then show ?thesis
        proof cases
          case 2
          then show ?thesis using entry by (cases "m' = m") (auto simp: w'_def split: if_splits)
        qed (simp add: w'_def)
      qed
    qed
    show "completed_once M w' ?s"
    proof -
      have "filter (msg_done M ?s) (f_outs s) = filter (msg_done M s) (f_outs s)"
        by (rule filter_cong) (use untaken [OF m] in \<open>auto simp: msg_done_other\<close>)
      with R(11) show ?thesis by (simp add: completed_once_def w'_def)
    qed
  qed
  moreover have "frag_step M w (Middle d m i) = Some w'"
    using entry by (auto simp: ucp_eager_middle_handler_def ucp_recv_desc_init_def middle_assert_def w'_def mid_desc_def)
  moreover have "exp_sn w' = exp_sn w" by (simp add: w'_def)
  ultimately show ?thesis using that by simp
qed

lemma filter_one_more:
  assumes "distinct xs" and "x \<in> set xs" and "\<not> P x" and "\<And>y. y \<in> set xs \<Longrightarrow> y \<noteq> x \<Longrightarrow> P' y = P y"
  shows "mset (filter P' xs) = mset (filter P xs) + mset (if P' x then [x] else [])"
  using assms
proof (induction xs)
  case (Cons y xs)
  show ?case
  proof (cases "y = x")
    case True
    then have "filter P' xs = filter P xs" using Cons.prems(1,4) by (intro filter_cong) auto
    with True Cons.prems(3) show ?thesis by simp
  next
    case False
    then show ?thesis using Cons by auto
  qed
qed simp

lemma taken_once: "distinct (taken outs) \<Longrightarrow> (p, Some m) \<in> set outs \<Longrightarrow> (q, Some m) \<in> set outs \<Longrightarrow> distinct (map fst outs) \<Longrightarrow> q = p"
proof (induction outs)
  case (Cons x outs)
  have taken: "taken (x # outs) = taken [x] @ taken outs" using taken_append [of "[x]" outs] by simp
  consider "(p, Some m) = x" "(q, Some m) = x" | "(p, Some m) = x" "(q, Some m) \<in> set outs" | "(q, Some m) = x" "(p, Some m) \<in> set outs"
    | "(p, Some m) \<in> set outs" "(q, Some m) \<in> set outs" using Cons.prems(2,3) by auto
  then show ?case
  proof cases
    case 2
    then have "m \<in> set (taken outs)" by (auto simp: in_taken)
    with 2 Cons.prems(1) taken show ?thesis by auto
  next
    case 3
    then have "m \<in> set (taken outs)" by (auto simp: in_taken)
    with 3 Cons.prems(1) taken show ?thesis by auto
  qed (use Cons taken in auto)
qed simp

text \<open>The worker after a middle packet for a matched request.\<close>

definition middle_worker :: "worker \<Rightarrow> nat \<Rightarrow> u64 \<Rightarrow> u8 list list \<Rightarrow> nat list \<Rightarrow> request \<Rightarrow> u8 list \<Rightarrow> worker" where
  "middle_worker w p m cs got req buf =
     (if missing cs got then with_req w p req buf
      else (finish_req (with_req w p req buf) p req)\<lparr>frag_hash := (frag_hash w)(m := None)\<rparr>)"

lemma middle_worker_fields [simp]:
  "reqs (middle_worker w p m cs got req buf) = (reqs w)(p \<mapsto> if missing cs got then req else req\<lparr>req_completed := True\<rparr>)"
  "bufs (middle_worker w p m cs got req buf) = (bufs w)(req_buffer req \<mapsto> buf)" "descs (middle_worker w p m cs got req buf) = descs w"
  "frag_hash (middle_worker w p m cs got req buf) = (if missing cs got then frag_hash w else (frag_hash w)(m := None))"
  "map fst (completions (middle_worker w p m cs got req buf)) = map fst (completions w) @ (if missing cs got then [] else [p])"
  "exp_hash (middle_worker w p m cs got req buf) = exp_hash w" "exp_wildcard (middle_worker w p m cs got req buf) = exp_wildcard w"
  "exp_sn (middle_worker w p m cs got req buf) = exp_sn w" "sw_all_count (middle_worker w p m cs got req buf) = sw_all_count w"
  "unexp_all (middle_worker w p m cs got req buf) = unexp_all w" "unexp_hash (middle_worker w p m cs got req buf) = unexp_hash w"
  by (simp_all add: middle_worker_def with_req_def finish_req_def)

lemma middle_delivers:
  assumes rel: "frag_rel M bs A D H K w s" and i: "(m, i) \<notin> set K" "1 \<le> i" "i < length (snd (M m))"
    and p: "(p, Some m) \<in> set (f_outs s)" and cs: "msg_ok (snd (M m))"
  obtains req' buf' where "frag_step M w (Middle d m i) = Some (middle_worker w p m (snd (M m)) (0 # f_mids s m @ [i]) req' buf')"
    "own_buffer w p (req_buffer req')" "(p, req_buffer req') \<in> set A"
    "out_ok M bs (middle_worker w p m (snd (M m)) (0 # f_mids s m @ [i]) req' buf') ((f_mids s)(m := f_mids s m @ [i])) (p, Some m)"
    "frag_hash w m = Some (Exp_req p)"
proof -
  note R = frag_relD [OF rel]
  let ?cs = "snd (M m)" and ?L = "f_mids s m"
  note mids = mids_snoc [OF R(8) i]
  have L: "distinct ?L" "set ?L \<subseteq> {1..<length ?cs}" using R(8) by (simp_all add: mids_ok_def)
  have miss: "missing ?cs (0 # ?L)" using i mids(2) by (auto simp: missing_def)
  have entry: "frag_hash w m = Some (Exp_req p)" using R(7) p miss by (simp add: frags_ok_def)
  obtain req buf0 buf where out: "reqs w p = Some req" "bs (req_buffer req) = Some buf0" "bufs w (req_buffer req) = Some buf"
    "length buf0 < 2 ^ 64" "req_sender_tag req = fst (M m)" "req_info_length req = length (concat ?cs)" "partly ?cs buf0 (0 # ?L) req buf"
    using R(5) [OF p] miss by (auto simp: out_ok_def out_shown_def Let_def)
  have "0 < length ?cs" using i(3) by linarith
  then have asm: "assembling ?cs buf0 (0 # ?L) w p req" using out cs L by (auto simp: assembling_def)
  have i': "i \<notin> set (0 # ?L)" "0 \<in> set ((0 # ?L) @ [i])" using i(2) mids(2) by auto
  obtain req' buf' where step: "req_kept req req'" "partly ?cs buf0 ((0 # ?L) @ [i]) req' buf'"
    "ucp_request_process_recv_data w p (?cs ! i) (chunk_off ?cs i) =
      Some (if missing ?cs ((0 # ?L) @ [i]) then (UCS_INPROGRESS, with_req w p req' buf')
            else (req_status req', finish_req (with_req w p req' buf') p req'))"
    using assembling_chunk [OF asm i(3) i'] by metis
  let ?w' = "middle_worker w p m ?cs (0 # ?L @ [i]) req' buf'"
  have b: "req_buffer req' = req_buffer req" using step(1) by (simp add: req_kept_def)
  have "req_status req' \<noteq> UCS_INPROGRESS" using step(2) by (simp add: partly_def)
  then have "frag_step M w (Middle d m i) = Some ?w'"
    using entry step(3) by (simp add: ucp_eager_middle_handler_def middle_worker_def finish_req_def with_req_def)
  moreover have "own_buffer w p (req_buffer req')" "(p, req_buffer req') \<in> set A"
    using issued_own [OF R(3) issued_buffer [OF R(3) out(1)]] issued_buffer [OF R(3) out(1)] b by simp_all
  moreover have "out_ok M bs ?w' ((f_mids s)(m := ?L @ [i])) (p, Some m)"
  proof -
    have full: "set ((0 # ?L) @ [i]) = {..<length ?cs}" if "\<not> missing ?cs (0 # ?L @ [i])"
      using not_missing_all [OF that _ msg_okD(1) [OF cs]] L i by auto
    have "out_shown M ((f_mids s)(m := ?L @ [i])) (Some m)
        (if missing ?cs (0 # ?L @ [i]) then req' else req'\<lparr>req_completed := True\<rparr>) buf0 buf'"
      using out(5,6) step(1,2) partly_all [OF step(2) full msg_okD(1) [OF cs]] by (simp add: out_shown_def req_kept_def Let_def)
    then show ?thesis using out(2,4) b by (auto simp: out_ok_def)
  qed
  ultimately show ?thesis using that entry by blast
qed

lemma middle_matched:
  assumes rel: "frag_rel M bs A D H K w s" and i: "(m, i) \<notin> set K" "1 \<le> i" "i < length (snd (M m))"
    and m: "m \<in> set (taken (f_outs s))" "msg_ok (snd (M m))"
  obtains w' where "frag_step M w (Middle d m i) = Some w'" "exp_sn w' = exp_sn w"
    "frag_rel M bs A (d # D) H ((m, i) # K) w' (frag_spec M s (Middle d m i))"
proof -
  note R = frag_relD [OF rel]
  obtain p where p: "(p, Some m) \<in> set (f_outs s)" using m(1) by (auto simp: in_taken)
  let ?cs = "snd (M m)" and ?L = "f_mids s m" and ?mids = "(f_mids s)(m := f_mids s m @ [i])"
  note mids = mids_snoc [OF R(8) i]
  obtain req' buf' where step: "frag_step M w (Middle d m i) = Some (middle_worker w p m ?cs (0 # ?L @ [i]) req' buf')"
    "own_buffer w p (req_buffer req')" "(p, req_buffer req') \<in> set A"
    "out_ok M bs (middle_worker w p m ?cs (0 # ?L @ [i]) req' buf') ?mids (p, Some m)" "frag_hash w m = Some (Exp_req p)"
    by (rule middle_delivers [OF rel i p m(2)]) (rule that)
  define w' where "w' = middle_worker w p m ?cs (0 # ?L @ [i]) req' buf'"
  let ?s = "s\<lparr>f_mids := ?mids\<rparr>"
  have dist: "distinct (map fst (f_recvs s) @ map fst (f_outs s))" "distinct (taken (f_outs s))" using R(9) by (simp_all add: seen_ok_def)
  have p_recv: "p \<notin> set (map fst (f_recvs s))" using dist(1) p by force
  have other: "fst out \<noteq> p" "snd out \<noteq> Some m" if "out \<in> set (f_outs s)" "out \<noteq> (p, Some m)" for out
  proof -
    obtain q x where out: "out = (q, x)" by fastforce
    have "distinct (map fst (f_outs s))" using dist(1) by simp
    note unique = taken_once [OF dist(2) p _ this] eq_key_imp_eq_value [OF this]
    show "fst out \<noteq> p" using that p unique(2) [of p x "Some m"] unfolding out by (metis fst_conv)
    show "snd out \<noteq> Some m" using that unique(1) [of q] unfolding out by (metis snd_conv)
  qed
  have one: "one_changed w w' p (req_buffer req')" using step(2) by (simp add: one_changed_def w'_def)
  have "frag_rel M bs A (d # D) H ((m, i) # K) w' ?s"
  proof (rule frag_relI)
    show "exp_ok w' (map fst (f_recvs ?s))"
    proof -
      have "reqs w' q = reqs w q" if "q \<in> set (map fst (f_recvs s))" for q
        using that p_recv one by (auto simp: one_changed_def)
      then show ?thesis using exp_ok_frame [OF R(1), of w'] by (simp add: w'_def)
    qed
    show "unexp_ok w'" by (rule unexp_ok_frame [OF R(2)]) (simp_all add: w'_def)
    show "issued_ok bs A w'" 
      by (rule issued_one_changed [where req = "if missing ?cs (0 # ?L @ [i]) then req' else req'\<lparr>req_completed := True\<rparr>",
        OF R(3) one _ _ step(3)]) (simp_all add: w'_def)
    show "recv_ok bs w' r" if "r \<in> set (f_recvs ?s)" for r
      using recv_ok_frame [OF R(4) one, of r] that p_recv by force
    show "out_ok M bs w' (f_mids ?s) out" if out: "out \<in> set (f_outs ?s)" for out
    proof (cases "out = (p, Some m)")
      case False
      then have o: "fst out \<noteq> p" "snd out \<noteq> Some m" using other [of out] out by auto
      show ?thesis by (rule out_ok_frame [OF R(5) one o(1)]) (use out o(2) in auto)
    qed (use step(4) in \<open>simp add: w'_def\<close>)
    show "heads_ok M w' ?s" using R(6) by (simp add: heads_ok_def w'_def)
    show "frags_ok M w' ?s" unfolding frags_ok_def
    proof (intro conjI allI impI)
      fix m' assume m': "m' \<notin> set (taken (f_outs ?s))"
      then have "m' \<noteq> m" using m(1) by auto
      obtain ds where ds: "frags_wait w (descs w) m' (snd (M m')) ds (f_mids s m')" using wait_of [OF rel, of m'] m' by auto
      have "frags_wait w' (descs w') m' (snd (M m')) ds (f_mids s m')"
        by (rule frags_wait_cong [OF ds]) (use \<open>m' \<noteq> m\<close> in \<open>auto simp: w'_def\<close>)
      then show "\<exists>ds. frags_wait w' (descs w') m' (snd (M m')) ds (f_mids ?s m')" using \<open>m' \<noteq> m\<close> by auto
    next
      fix q m' assume q: "(q, Some m') \<in> set (f_outs ?s)"
      show "frag_hash w' m' = (if missing (snd (M m')) (0 # f_mids ?s m') then Some (Exp_req q) else None)"
      proof (cases "m' = m")
        case True
        then have "q = p" using other [of "(q, Some m')"] q by auto
        with True step(5) show ?thesis by (simp add: w'_def)
      next
        case False
        with q R(7) show ?thesis by (simp add: w'_def frags_ok_def)
      qed
    qed
    show "mids_ok M ((m, i) # K) ?s" by (rule mids(1))
    show "seen_ok (d # D) H w' ?s" using R(9) by (auto simp: seen_ok_def w'_def)
    show "owned w'" unfolding owned_def
    proof
      fix e assume "e \<in> dom (descs w')"
      then have "e \<in> dom (descs w)" by (simp add: w'_def)
      then consider "e \<in> set (unexp_all w)" | m' ds' where "frag_hash w m' = Some (Unexp_q ds')" "e \<in> set ds'"
        using R(10) unfolding owned_def by blast
      then show "e \<in> set (unexp_all w') \<or> (\<exists>m ds. frag_hash w' m = Some (Unexp_q ds) \<and> e \<in> set ds)"
      proof cases
        case 2
        then have "m' \<noteq> m" using step(5) by auto
        with 2 have "frag_hash w' m' = Some (Unexp_q ds')" by (simp add: w'_def)
        with 2 show ?thesis by blast
      qed (simp add: w'_def)
    qed
    show "completed_once M w' ?s"
    proof -
      have old: "\<not> msg_done M s (p, Some m)" using i mids(2) by (auto simp: msg_done_def missing_def)
      have new: "msg_done M ?s (p, Some m) \<longleftrightarrow> \<not> missing ?cs (0 # ?L @ [i])" by (simp add: msg_done_def)
      have "mset (filter (msg_done M ?s) (f_outs s)) =
          mset (filter (msg_done M s) (f_outs s)) + mset (if msg_done M ?s (p, Some m) then [(p, Some m)] else [])"
      proof (rule filter_one_more [where P = "msg_done M s", OF _ p old])
        show "distinct (f_outs s)" using dist(1) by (simp add: distinct_map)
        show "msg_done M ?s y = msg_done M s y" if "y \<in> set (f_outs s)" "y \<noteq> (p, Some m)" for y
          by (rule msg_done_other) (rule other(2) [OF that])
      qed
      then have "mset (map fst (filter (msg_done M ?s) (f_outs s))) =
          mset (map fst (filter (msg_done M s) (f_outs s))) + mset (if missing ?cs (0 # ?L @ [i]) then [] else [p])"
        using new by (simp flip: image_mset_union)
      with R(11) show ?thesis by (simp add: completed_once_def w'_def)
    qed
  qed
  moreover have "exp_sn w' = exp_sn w" by (simp add: w'_def)
  ultimately show ?thesis using that step(1) by (simp add: w'_def)
qed

end
