(* ===== verification/Ucp_Tag_Protocol.thy ===== *)
theory Ucp_Tag_Protocol
  imports Ucp_Tag_Eager
begin

text \<open>
  The eager protocol, continued: receive calls and cancellations, and runs of all operations together. The last section
  is about the paths on which memory is short or completion must be immediate.
\<close>

section \<open>A receive\<close>

lemma take_first_rel:
  assumes "list_all2 Q xs ys" and "\<And>x y. Q x y \<Longrightarrow> P x = P' y"
  shows "rel_option (\<lambda>(x, xs') (y, ys'). Q x y \<and> list_all2 Q xs' ys') (take_first P xs) (take_first P' ys)"
  using assms(1)
proof (induction rule: list_all2_induct)
  case (Cons x xs y ys)
  then show ?case
    by (cases "P x"; cases "take_first P xs"; cases "take_first P' ys") (auto simp: assms(2) rel_option_iff split: option.splits)
qed simp

definition head_of :: "messages \<Rightarrow> worker \<Rightarrow> nat \<Rightarrow> u64 \<Rightarrow> bool" where
  "head_of M w d m \<longleftrightarrow> descs w d = Some (head_desc (fst (M m)) (snd (M m)) m)"

lemma heads_of: "heads_ok M w s \<longleftrightarrow> list_all2 (head_of M w) (unexp_all w) (f_msgs s)"
  by (simp add: heads_ok_def head_of_def [abs_def])

lemma head_matches: "head_of M w d m \<Longrightarrow> desc_matches (descs w) tag tag_mask d = ucp_tag_is_match (fst (M m)) tag tag_mask"
  by (simp add: head_of_def desc_matches_def tag_of_def)

lemma fresh_post:
  assumes rel: "frag_rel M bs A D H K w s" and p: "p \<notin> set (map fst A)"
  shows "reqs w p = None" "p \<notin> set (map fst (f_recvs s))" "p \<notin> set (map fst (f_outs s))"
proof -
  note R = frag_relD [OF rel]
  show none: "reqs w p = None" using R(3) p by (auto simp: issued_ok_def)
  show "p \<notin> set (map fst (f_recvs s))" using exp_okD(3) [OF R(1), of p] none by auto
  show "p \<notin> set (map fst (f_outs s))"
  proof
    assume "p \<in> set (map fst (f_outs s))"
    then obtain x where "(p, x) \<in> set (f_outs s)" by auto
    from R(5) [OF this] none show False by (simp add: out_ok_def)
  qed
qed

lemma post_waits:
  assumes rel: "frag_rel M bs A D H K w s" and p: "p \<notin> set (map fst A)" "b \<notin> set (map snd A)" "bs b = Some buf" "length buf < 2 ^ 64"
    and sn: "exp_sn w \<noteq> -1" and search: "ucp_tag_unexp_search w tag tag_mask True = Some (None, w)"
  obtains w' where "frag_step M w (Post p b tag tag_mask) = Some w'" "exp_sn w' = exp_sn w + 1"
    "frag_rel M bs ((p, b) # A) D H K w' (s\<lparr>f_recvs := f_recvs s @ [(p, tag, tag_mask)]\<rparr>)"
proof -
  note R = frag_relD [OF rel]
  note fresh = fresh_post [OF rel p(1)]
  let ?req = "new_request (nb_param True UCS_OK) b (length buf) tag tag_mask"
  let ?w0 = "w\<lparr>reqs := (reqs w)(p \<mapsto> ?req)\<rparr>"
  have ok0: "exp_ok ?w0 (map fst (f_recvs s))" by (rule exp_ok_frame [OF R(1)]) (use fresh(2) in auto)
  have q: "ucp_tag_exp_get_req_queue ?req = ucp_tag_exp_get_queue tag tag_mask"
    by (simp add: ucp_tag_exp_get_req_queue_def new_request_def)
  have "waiting ?req" by (simp add: waiting_def new_request_def)
  then obtain w1 w' where w': "ucp_tag_offload_try_post ?w0 p (ucp_tag_exp_get_queue tag tag_mask) = Some w1"
    "ucp_tag_exp_push w1 (ucp_tag_exp_get_queue tag tag_mask) p = Some w'" "exp_ok w' (map fst (f_recvs s) @ [p])"
    "reqs w' = (reqs w)(p \<mapsto> ?req\<lparr>req_sn := exp_sn w\<rparr>)" "exp_sn w' = exp_sn w + 1"
    "same_but_exp (?w0\<lparr>reqs := (reqs w)(p \<mapsto> ?req\<lparr>req_sn := exp_sn w\<rparr>), exp_sn := exp_sn w + 1\<rparr>) w'"
    using post_ok [OF ok0 fresh(2), of ?req] sn unfolding q by auto
  have same: "bufs w' = bufs w" "descs w' = descs w" "unexp_all w' = unexp_all w" "unexp_hash w' = unexp_hash w"
    "completions w' = completions w" "frag_hash w' = frag_hash w" using w'(6) by (simp_all add: same_but_exp_def)
  have buf: "bufs w b = Some buf" using R(3) p(2,3) by (simp add: issued_ok_def)
  have step: "frag_step M w (Post p b tag tag_mask) = Some w'"
    using search buf w'(1,2)
    by (simp add: ucp_tag_recv_nb_def ucp_tag_recv_nbx_def ucp_tag_recv_common_def nb_param_def Let_def)
  have one: "one_changed w w' p b" using issued_fresh [OF R(3) p(2)] by (simp add: one_changed_def w'(4) same)
  let ?s = "s\<lparr>f_recvs := f_recvs s @ [(p, tag, tag_mask)]\<rparr>"
  have "frag_rel M bs ((p, b) # A) D H K w' ?s"
  proof (rule frag_relI)
    show "exp_ok w' (map fst (f_recvs ?s))" using w'(3) by simp
    show "unexp_ok w'" by (rule unexp_ok_frame [OF R(2)]) (simp_all add: same)
    show "issued_ok bs ((p, b) # A) w'"
      by (rule issued_one_new [where req = "?req\<lparr>req_sn := exp_sn w\<rparr>", OF R(3) one _ _ p(1,2)]) (simp_all add: w'(4) new_request_def)
    show "recv_ok bs w' r" if "r \<in> set (f_recvs ?s)" for r
    proof (cases "r = (p, tag, tag_mask)")
      case True
      then show ?thesis using p(3,4) buf by (simp add: recv_ok_def w'(4) same new_request_def)
    next
      case False
      then have "r \<in> set (f_recvs s)" using that by simp
      then show ?thesis using recv_ok_frame [OF R(4) one, of r] fresh(2) by force
    qed
    show "out_ok M bs w' (f_mids ?s) out" if "out \<in> set (f_outs ?s)" for out
    proof -
      have "fst out \<noteq> p" using that fresh(3) by auto
      then show ?thesis using out_ok_frame [OF R(5) one, of out "f_mids s"] that by simp
    qed
    show "heads_ok M w' ?s" using R(6) by (simp add: heads_ok_def same)
    show "frags_ok M w' ?s" using R(7) by (simp add: frags_ok_def frags_wait_def same)
    show "mids_ok M K ?s" using R(8) by (simp add: mids_ok_def)
    show "seen_ok D H w' ?s" using R(9) fresh by (auto simp: seen_ok_def same)
    show "owned w'" using R(10) by (simp add: owned_def same)
    show "completed_once M w' ?s" by (rule completed_same [OF R(11)]) (simp_all add: same)
  qed
  with that step w'(5) show ?thesis by blast
qed

text \<open>The receive finds a message: a single packet, or the first of several.\<close>

lemma post_meets:
  assumes rel: "frag_rel M bs A D H K w s" and p: "p \<notin> set (map fst A)" "b \<notin> set (map snd A)" "bs b = Some buf" "length buf < 2 ^ 64"
    and d: "head_of M w d m" "d \<in> set (unexp_all w)" and wait: "frags_wait w (descs w) m (snd (M m)) ds (f_mids s m)"
    and cs: "msg_ok (snd (M m))"
    and search: "ucp_tag_unexp_search w tag tag_mask True = Some (Some d, ucp_tag_unexp_remove w d)"
  obtains w' where "frag_step M w (Post p b tag tag_mask) = Some w'" "met M bs s (ucp_tag_unexp_remove w d) w' p m b"
    "descs w' = descs w |` (- (set ds \<union> {d}))"
proof -
  note R = frag_relD [OF rel]
  note fresh = fresh_post [OF rel p(1)]
  let ?cs = "snd (M m)" and ?tag = "fst (M m)"
  let ?rd = "head_desc ?tag ?cs m" and ?w1 = "ucp_tag_unexp_remove w d"
  have rd: "descs w d = Some ?rd" using d(1) by (simp add: head_of_def)
  have same: "reqs ?w1 = reqs w" "bufs ?w1 = bufs w" "descs ?w1 = descs w" "frag_hash ?w1 = frag_hash w" "completions ?w1 = completions w"
    by (simp_all add: ucp_tag_unexp_remove_def)
  have buf: "bufs w b = Some buf" using R(3) p(2,3) by (simp add: issued_ok_def)
  have own: "own_buffer ?w1 p b" using issued_fresh [OF R(3) p(2)] same(1) by (simp add: own_buffer_def)
  have L: "distinct (f_mids s m)" "set (f_mids s m) \<subseteq> {1..<length ?cs}" using R(8) by (simp_all add: mids_ok_def)
  show ?thesis
  proof (cases "length ?cs = 1")
    case True
    have ds: "ds = []" "frag_hash ?w1 m = None" using wait single_mids [OF R(8) True] same(4) by (auto simp: frags_wait_def)
    have only: "desc_payload ?rd = ?cs ! 0" "desc_only ?rd" "desc_sync ?rd = None" using True by (simp_all add: head_desc_def only_desc_def)
    let ?w' = "?w1\<lparr>descs := (descs w)(d := None), bufs := (bufs w)(b \<mapsto> fit_buffer buf (?cs ! 0)),
      reqs := (reqs w)(p \<mapsto> done_request b buf ?rd), completions := completions w @ [(p, fit_status buf (?cs ! 0))]\<rparr>"
    have "recv_only_matched (nb_param True UCS_OK) ?w1 p b d ?rd = Some (Ret_req p, ?w')"
      using recv_only_ok [of ?w1 b buf ?rd p d] buf p(4) by (simp add: same only)
    then have "frag_step M w (Post p b tag tag_mask) = Some ?w'"
      using search buf rd only(2) by (simp add: ucp_tag_recv_nb_def ucp_tag_recv_nbx_def ucp_tag_recv_common_def same)
    moreover have "met M bs s ?w1 ?w' p m b"
      by (rule met_only [where M = M and m = m and req = "done_request b buf ?rd" and buf = buf, OF own True ds(2)])
        (use p(3,4) only in \<open>simp_all add: done_request_def new_request_def same\<close>)
    moreover have "descs ?w' = descs w |` (- (set ds \<union> {d}))" using ds by (auto simp: restrict_map_def)
    ultimately show ?thesis using that by blast
  next
    case False
    then have many: "1 < length ?cs" using msg_okD(1) [OF cs] by (cases ?cs) auto
    let ?req = "new_request (nb_param True UCS_OK) b (length buf) tag tag_mask"
    let ?w2 = "?w1\<lparr>reqs := (reqs w)(p \<mapsto> ?req)\<rparr>"
    have req: "reqs ?w2 p = Some ?req" "waiting ?req" "bufs ?w2 (req_buffer ?req) = Some buf" "req_length ?req = length buf"
      "req_buffer ?req = b" using buf same by (simp_all add: waiting_def new_request_def)
    have wait2: "frags_wait ?w2 (descs ?w2) m ?cs ds (f_mids s m)" using wait by (simp add: frags_wait_def same)
    have d2: "descs ?w2 d = Some ?rd" "d \<notin> set ds" using rd waiting_apart_heads [OF wait R(6)] d(2) by (auto simp: same)
    obtain req' buf' where multi: "delivered ?cs buf (f_mids s m) ?tag (req_buffer ?req) req' buf'"
      "ucp_tag_recv_eager_multi True ?w2 p d = Some (matched_worker ?w2 p m ?cs (f_mids s m) (descs ?w2 |` (- set (d # ds))) req' buf')"
      by (rule eager_multi_ok [OF req(1-4) p(4) cs many wait2 L d2]) (rule that)
    let ?w' = "matched_worker ?w1 p m ?cs (f_mids s m) (descs ?w2 |` (- set (d # ds))) req' buf'"
    have eager: "ucp_tag_recv_eager_multi True ?w2 p d = Some ?w'"
      using multi(2) matched_begun [of ?w1 p ?req] by (simp add: same)
    have "\<not> desc_only ?rd" using many by (simp add: head_desc_def)
    then have "frag_step M w (Post p b tag tag_mask) = Some ?w'"
      using search buf rd eager
      by (simp add: ucp_tag_recv_nb_def ucp_tag_recv_nbx_def ucp_tag_recv_common_def nb_param_def out_completed_def same Let_def)
    moreover have "met M bs s ?w1 ?w' p m b"
      using met_multi [where M = M and m = m and s = s and bs = bs, OF own _ cs R(8) p(3,4)] multi(1) req(5) by simp
    moreover have "descs ?w' = descs w |` (- (set ds \<union> {d}))" by (auto simp: same restrict_map_def)
    ultimately show ?thesis using that by blast
  qed
qed

lemma remove1_distinct: "distinct xs \<Longrightarrow> remove1 x xs = filter (\<lambda>y. y \<noteq> x) xs"
  by (auto simp: distinct_remove1_removeAll removeAll_filter_not_eq intro: filter_cong)

lemma post_takes:
  assumes rel: "frag_rel M bs A D H K w s" and p: "p \<notin> set (map fst A)" "b \<notin> set (map snd A)" "bs b = Some buf" "length buf < 2 ^ 64"
    and first: "take_first (desc_matches (descs w) tag tag_mask) (unexp_all w) = Some (d, rest)"
      "take_first (\<lambda>m. ucp_tag_is_match (fst (M m)) tag tag_mask) (f_msgs s) = Some (m, ms)"
    and d: "head_of M w d m" "list_all2 (head_of M w) rest ms" and cs: "msg_ok (snd (M m))"
    and search: "ucp_tag_unexp_search w tag tag_mask True = Some (Some d, ucp_tag_unexp_remove w d)"
  obtains w' where "frag_step M w (Post p b tag tag_mask) = Some w'" "exp_sn w' = exp_sn w"
    "frag_rel M bs ((p, b) # A) D H K w' (s\<lparr>f_msgs := ms, f_outs := f_outs s @ [(p, Some m)]\<rparr>)"
proof -
  note R = frag_relD [OF rel]
  note fresh = fresh_post [OF rel p(1)]
  obtain ys zs where split: "unexp_all w = ys @ d # zs" "rest = ys @ zs" using take_first_Some [OF first(1)] by blast
  obtain us vs where msplit: "f_msgs s = us @ m # vs" "ms = us @ vs" using take_first_Some [OF first(2)] by blast
  have dm: "d \<in> set (unexp_all w)" using split by simp
  have rest: "remove1 d (unexp_all w) = rest" "d \<notin> set rest" using split unexp_okD(2) [OF R(2)] by (auto simp: remove1_append)
  have un: "m \<notin> set (taken (f_outs s))" "distinct (ms @ taken (f_outs s) @ [m])" "set (ms @ taken (f_outs s) @ [m]) \<subseteq> set H"
    using R(9) msplit by (auto simp: seen_ok_def)
  obtain ds where ds: "frags_wait w (descs w) m (snd (M m)) ds (f_mids s m)" using wait_of [OF rel un(1)] by blast
  let ?w1 = "ucp_tag_unexp_remove w d"
  obtain w' where w': "frag_step M w (Post p b tag tag_mask) = Some w'" "met M bs s ?w1 w' p m b" "descs w' = descs w |` (- (set ds \<union> {d}))"
    by (rule post_meets [OF rel p d(1) dm ds cs search]) (rule that)
  note T = metD [OF w'(2)]
  have same: "reqs ?w1 = reqs w" "bufs ?w1 = bufs w" "descs ?w1 = descs w" "frag_hash ?w1 = frag_hash w" "completions ?w1 = completions w"
    "exp_sn ?w1 = exp_sn w" "exp_hash ?w1 = exp_hash w" "exp_wildcard ?w1 = exp_wildcard w" "sw_all_count ?w1 = sw_all_count w"
    "unexp_all ?w1 = rest" using rest(1) by (simp_all add: ucp_tag_unexp_remove_def)
  have one: "one_changed w w' p b" using T(1) one_changed_reqs [OF same(1,2)] by simp
  obtain req' where req': "reqs w' p = Some req'" "req_buffer req' = b" using T(2) by blast
  have apart: "set ds \<inter> set (unexp_all w) = {}" by (rule waiting_apart_heads [OF ds R(6)])
  have "frag_rel M bs ((p, b) # A) D H K w' (s\<lparr>f_recvs := f_recvs s, f_msgs := ms, f_outs := f_outs s @ [(p, Some m)]\<rparr>)"
  proof (rule match_step [OF rel un(1) ds fresh(3,2) one])
    show "issued_ok bs ((p, b) # A) w'" by (rule issued_one_new [OF R(3) one req' p(1,2)])
    show "exp_ok w' (map fst (f_recvs s))"
      by (rule exp_ok_frame [OF R(1)]) (use T same fresh(2) in \<open>auto simp: one_changed_def\<close>)
    show "unexp_ok w'"
    proof (rule unexp_ok_frame [OF unexp_remove_ok [OF R(2), of d]])
      show "descs w' e = descs ?w1 e" if "e \<in> set (unexp_all ?w1)" for e
        using that rest split apart by (auto simp: w'(3) same restrict_map_def)
    qed (use T in simp_all)
    show "unexp_all w' = filter (\<lambda>e. e \<notin> {d}) (unexp_all w)"
      using T(10) same(10) rest(1) remove1_distinct [OF unexp_okD(2) [OF R(2)]] by simp
    show "list_all2 (\<lambda>d m. descs w d = Some (head_desc (fst (M m)) (snd (M m)) m)) (unexp_all w') ms"
      using d(2) T(10) same(10) by (simp add: head_of_def [abs_def])
    show "descs w' = descs w |` (- (set ds \<union> {d}))" by (rule w'(3))
  qed (use un T same dm in \<open>auto simp: frag_entry_def\<close>)
  then show ?thesis using that w'(1) T(8) same by simp
qed

lemma post_step_ok:
  assumes rel: "frag_rel M bs A D H K w s" and p: "p \<notin> set (map fst A)" "b \<notin> set (map snd A)" "bs b = Some buf" "length buf < 2 ^ 64"
    and sn: "exp_sn w \<noteq> -1" and ok: "\<And>m. msg_ok (snd (M m))"
  obtains w' where "frag_step M w (Post p b tag tag_mask) = Some w'" "exp_sn w' = exp_sn w \<or> exp_sn w' = exp_sn w + 1"
    "frag_rel M bs ((p, b) # A) D H K w' (frag_spec M s (Post p b tag tag_mask))"
proof -
  note R = frag_relD [OF rel]
  let ?P = "desc_matches (descs w) tag tag_mask" and ?P' = "\<lambda>m. ucp_tag_is_match (fst (M m)) tag tag_mask"
  have both: "rel_option (\<lambda>(x, xs') (y, ys'). head_of M w x y \<and> list_all2 (head_of M w) xs' ys')
      (take_first ?P (unexp_all w)) (take_first ?P' (f_msgs s))"
    by (rule take_first_rel) (use R(6) head_matches in \<open>auto simp: heads_of\<close>)
  have found: "find ?P (unexp_all w) = map_option fst (take_first ?P (unexp_all w))"
    using take_first_find [of "unexp_all w" ?P ?P "\<lambda>x. x"] by simp
  note search = unexp_search_ok [OF R(2), of tag tag_mask True]
  show ?thesis
  proof (cases "take_first ?P (unexp_all w)")
    case None
    then have none: "take_first ?P' (f_msgs s) = None" using both by (simp add: rel_option_iff split: option.splits)
    have "ucp_tag_unexp_search w tag tag_mask True = Some (None, w)" using search found None by (simp add: Let_def)
    from post_waits [OF rel p sn this] none that show ?thesis by auto
  next
    case (Some x)
    obtain d rest where x: "x = (d, rest)" by fastforce
    with Some both obtain m ms where m: "take_first ?P' (f_msgs s) = Some (m, ms)" "head_of M w d m" "list_all2 (head_of M w) rest ms"
      by (auto simp: rel_option_iff split: option.splits)
    have "ucp_tag_unexp_search w tag tag_mask True = Some (Some d, ucp_tag_unexp_remove w d)"
      using search found Some x by (simp add: Let_def)
    from post_takes [OF rel p Some [unfolded x] m ok this] m(1) that show ?thesis by auto
  qed
qed

section \<open>Cancellation\<close>

lemma withdraw_waiting:
  assumes rel: "frag_rel M bs A D H K w s" and first: "take_first (\<lambda>r. fst r = p) (f_recvs s) = Some (r, rest)"
  obtains w' where "frag_step M w (Withdraw p) = Some w'" "exp_sn w' = exp_sn w"
    "frag_rel M bs A D H K w' (s\<lparr>f_recvs := rest, f_outs := f_outs s @ [(p, None)]\<rparr>)"
proof -
  note R = frag_relD [OF rel]
  obtain ys zs where split: "f_recvs s = ys @ r # zs" "rest = ys @ zs" "fst r = p" using take_first_Some [OF first] by blast
  have mem: "r \<in> set (f_recvs s)" and sub: "set rest \<subseteq> set (f_recvs s)" using split by auto
  have pE: "p \<in> set (map fst (f_recvs s))" using mem split(3) by auto
  have p: "p \<notin> set (map fst rest)" "p \<notin> set (map fst (f_outs s))" using R(9) split by (auto simp: seen_ok_def)
  have rest: "remove1 p (map fst (f_recvs s)) = map fst rest"
    using take_first_remove1 [of _ _ _ _ fst, OF first exp_okD(2) [OF R(1)]] split(3) by simp
  obtain req buf where req: "reqs w p = Some req" "bufs w (req_buffer req) = Some buf" "bs (req_buffer req) = Some buf" "length buf < 2 ^ 64"
    using R(4) [OF mem] split(3) by (auto simp: recv_ok_def)
  have waiting: "waiting req" using exp_okD(3) [OF R(1) pE] req(1) by auto
  obtain w1 where w1: "ucp_tag_exp_remove w p = Some (True, w1)" "exp_ok w1 (map fst rest)" "same_but_exp w w1"
    using exp_remove_ok [OF R(1) req(1)] pE rest by auto
  have same: "reqs w1 = reqs w" "bufs w1 = bufs w" "descs w1 = descs w" "unexp_all w1 = unexp_all w" "frag_hash w1 = frag_hash w"
    "unexp_hash w1 = unexp_hash w" "completions w1 = completions w" "exp_sn w1 = exp_sn w"
    using w1(3) by (simp_all add: same_but_exp_def)
  let ?req' = "req\<lparr>req_completed := True, req_status := UCS_ERR_CANCELED\<rparr>"
  define w' where "w' = w1\<lparr>reqs := (reqs w)(p \<mapsto> ?req'), completions := completions w @ [(p, UCS_ERR_CANCELED)]\<rparr>"
  have step: "frag_step M w (Withdraw p) = Some w'"
    using req(1) w1(1) waiting by (simp add: ucp_request_cancel_def ucp_request_complete_tag_recv_def waiting_def same w'_def)
  have pA: "(p, req_buffer req) \<in> set A" by (rule issued_buffer [OF R(3) req(1)])
  have one: "one_changed w w' p (req_buffer req)" using issued_own [OF R(3) pA] by (simp add: one_changed_def w'_def same)
  let ?s = "s\<lparr>f_recvs := rest, f_outs := f_outs s @ [(p, None)]\<rparr>"
  have "frag_rel M bs A D H K w' ?s"
  proof (rule frag_relI)
    have "exp_ok w' (map fst rest)" by (rule exp_ok_frame [OF w1(2)]) (use p(1) same in \<open>auto simp: w'_def\<close>)
    then show "exp_ok w' (map fst (f_recvs ?s))" by simp
    show "unexp_ok w'" by (rule unexp_ok_frame [OF R(2)]) (simp_all add: same w'_def)
    show "issued_ok bs A w'" by (rule issued_one_changed [where req = ?req', OF R(3) one _ _ pA]) (simp_all add: w'_def)
    show "recv_ok bs w' x" if "x \<in> set (f_recvs ?s)" for x
      using recv_ok_frame [OF R(4) one, of x] that p(1) sub by force
    show "out_ok M bs w' (f_mids ?s) out" if "out \<in> set (f_outs ?s)" for out
    proof (cases "out = (p, None)")
      case True
      then show ?thesis using req by (auto simp: out_ok_def out_shown_def w'_def same)
    next
      case False
      then have out: "out \<in> set (f_outs s)" using that by simp
      then have "fst out \<noteq> p" using p(2) by auto
      then show ?thesis using out_ok_frame [OF R(5) [OF out] one] by simp
    qed
    show "heads_ok M w' ?s" using R(6) by (simp add: heads_ok_def same w'_def)
    show "frags_ok M w' ?s" using R(7) by (simp add: frags_ok_def frags_wait_def same w'_def)
    show "mids_ok M K ?s" using R(8) by (simp add: mids_ok_def)
    have "set (map fst rest) \<inter> set (map fst (f_outs s)) = {}" "distinct (map fst rest)" using R(9) split by (auto simp: seen_ok_def)
    then show "seen_ok D H w' ?s" using R(9) p by (auto simp: seen_ok_def same w'_def)
    show "owned w'" using R(10) by (simp add: owned_def same w'_def)
    show "completed_once M w' ?s"
    proof -
      have "msg_done M ?s = msg_done M s" by (rule msg_done_mids) simp
      moreover have "msg_done M s (p, None)" by (simp add: msg_done_def)
      ultimately show ?thesis using R(11) by (simp add: completed_once_def w'_def)
    qed
  qed
  then show ?thesis using that step same by (simp add: w'_def)
qed

lemma withdraw_ok:
  assumes rel: "frag_rel M bs A D H K w s" and p: "p \<in> set (map fst A)"
  obtains w' where "frag_step M w (Withdraw p) = Some w'" "exp_sn w' = exp_sn w" "frag_rel M bs A D H K w' (frag_spec M s (Withdraw p))"
proof (cases "take_first (\<lambda>r. fst r = p) (f_recvs s)")
  case None
  note R = frag_relD [OF rel]
  obtain req where req: "reqs w p = Some req" using R(3) p by (force simp: issued_ok_def)
  have "p \<notin> set (map fst (f_recvs s))" using None by (auto simp: take_first_None)
  then have "frag_step M w (Withdraw p) = Some w"
    using exp_remove_ok [OF R(1) req] req by (auto simp: ucp_request_cancel_def)
  with None rel that show ?thesis by simp
next
  case (Some x)
  obtain r rest where "x = (r, rest)" by fastforce
  with Some withdraw_waiting [OF rel, of p r rest] that show ?thesis by auto
qed

section \<open>Runs\<close>

lemma frag_run_ok:
  assumes "frag_rel M bs A D H K w s" and "frag_ops_ok M bs A D H K ops" and "unat (exp_sn w) + length ops < 2 ^ 64"
    and ok: "\<And>m. msg_ok (snd (M m))"
  shows "\<exists>w' D' H' K'. frag_run M w ops = Some w' \<and> frag_rel M bs (rev (post_bufs ops) @ A) D' H' K' w' (foldl (frag_spec M) s ops)"
  using assms(1-3)
proof (induction ops arbitrary: A D H K w s)
  case Nil
  then show ?case by auto
next
  case (Cons op ops)
  have sn: "unat (exp_sn w) + Suc (length ops) < 2 ^ 64" using Cons.prems(3) by simp
  obtain w' A' D' H' K' where w': "frag_step M w op = Some w'" "exp_sn w' = exp_sn w \<or> exp_sn w' = exp_sn w + 1"
    "frag_rel M bs A' D' H' K' w' (frag_spec M s op)" "frag_ops_ok M bs A' D' H' K' ops"
    "rev (post_bufs (op # ops)) @ A = rev (post_bufs ops) @ A'"
  proof (cases op)
    case (Post p b tag tag_mask)
    then have p: "p \<notin> set (map fst A)" "b \<notin> set (map snd A)" "frag_ops_ok M bs ((p, b) # A) D H K ops"
      and "\<exists>buf. bs b = Some buf \<and> length buf < 2 ^ 64" using Cons.prems(2) by (auto split: option.splits)
    then obtain buf where "bs b = Some buf" "length buf < 2 ^ 64" by blast
    then obtain w' where "frag_step M w op = Some w'" "exp_sn w' = exp_sn w \<or> exp_sn w' = exp_sn w + 1"
      "frag_rel M bs ((p, b) # A) D H K w' (frag_spec M s op)"
      using post_step_ok [OF Cons.prems(1) p(1,2) _ _ sn_not_last [OF sn] ok] Post by metis
    then show ?thesis using that [of w' "(p, b) # A" D H K] Post p(3) by simp
  next
    case (Head d m)
    then have "d \<notin> set D" "m \<notin> set H" "frag_ops_ok M bs A (d # D) (m # H) K ops" using Cons.prems(2) by auto
    moreover from this obtain w' where "frag_step M w op = Some w'" "exp_sn w' = exp_sn w"
      "frag_rel M bs A (d # D) (m # H) K w' (frag_spec M s op)" using head_ok [OF Cons.prems(1) _ _ ok] Head by metis
    ultimately show ?thesis using that [of w' A "d # D" "m # H" K] Head by simp
  next
    case (Middle d m i)
    then have i: "d \<notin> set D" "(m, i) \<notin> set K" "1 \<le> i" "i < length (snd (M m))" "frag_ops_ok M bs A (d # D) H ((m, i) # K) ops"
      using Cons.prems(2) by auto
    moreover obtain w' where "frag_step M w op = Some w'" "exp_sn w' = exp_sn w"
      "frag_rel M bs A (d # D) H ((m, i) # K) w' (frag_spec M s op)"
      using middle_waits [OF Cons.prems(1) i(1-4)] middle_matched [OF Cons.prems(1) i(2-4) _ ok] Middle by metis
    ultimately show ?thesis using that [of w' A "d # D" H "(m, i) # K"] Middle by simp
  next
    case (Withdraw p)
    then have "p \<in> set (map fst A)" "frag_ops_ok M bs A D H K ops" using Cons.prems(2) by auto
    moreover from this obtain w' where "frag_step M w op = Some w'" "exp_sn w' = exp_sn w" "frag_rel M bs A D H K w' (frag_spec M s op)"
      using withdraw_ok [OF Cons.prems(1)] Withdraw by metis
    ultimately show ?thesis using that [of w' A D H K] Withdraw by simp
  qed
  with Cons.IH [OF w'(3,4) sn_step [OF w'(2) sn]] show ?case by auto
qed

lemma idle_frag_rel:
  assumes "ucp_tag_match_init mem1 mem2 w0 = (UCS_OK, w)" and "exp_wildcard w0 = empty_queue"
    and "reqs w0 = Map.empty" and "descs w0 = Map.empty" and "completions w0 = []"
  shows "frag_rel M (bufs w0) [] [] [] [] w \<lparr>f_recvs = [], f_msgs = [], f_outs = [], f_mids = (\<lambda>m. [])\<rparr>" "exp_sn w = 0"
proof -
  have same: "reqs w = Map.empty" "descs w = Map.empty" "completions w = []" "bufs w = bufs w0" "unexp_all w = []" "frag_hash w = Map.empty"
    using assms(1,3-5) by (auto simp: ucp_tag_match_init_def Let_def split: if_splits)
  show "exp_sn w = 0" using assms(1) by (auto simp: ucp_tag_match_init_def Let_def split: if_splits)
  show "frag_rel M (bufs w0) [] [] [] [] w \<lparr>f_recvs = [], f_msgs = [], f_outs = [], f_mids = (\<lambda>m. [])\<rparr>"
    using tag_match_init_ok [OF assms(1,2)] same
    by (simp add: frag_rel_def issued_ok_def heads_ok_def frags_ok_def frags_wait_def mids_ok_def seen_ok_def owned_def completed_once_def)
qed

text \<open>
  C1. The eager protocol delivers whole messages. From an initialised worker, and with every allocation
  succeeding, any sequence of receives, first packets, middle packets and cancellations runs without a fault, whatever the order in which the packets of the
  messages come and mix. First packets and receives meet as the specification says, each with the first partner that
  matches. A matched request is complete when and only when all packets of its message have come, completes
  exactly once, and then shows the sender's tag, the length and the whole message in the buffer of the call, or a
  truncation if the message is longer. What is left of the queues is what the specification has left, and every
  descriptor that was not released waits in one of them.
\<close>

theorem eager_protocol_delivers:
  assumes "ucp_tag_match_init mem1 mem2 w0 = (UCS_OK, w)" and "exp_wildcard w0 = empty_queue"
    and "reqs w0 = Map.empty" and "descs w0 = Map.empty" and "completions w0 = []"
    and "\<And>m. msg_ok (snd (M m))" and "frag_ops_ok M (bufs w0) [] [] [] [] ops" and "length ops < 2 ^ 64"
  shows "\<exists>w'. frag_run M w ops = Some w' \<and>
    (let s = frag_spec_run M ops
     in tm_ok w' (map fst (f_recvs s)) \<and> heads_ok M w' s \<and> frags_ok M w' s \<and> owned w' \<and>
        (\<forall>out \<in> set (f_outs s). out_ok M (bufs w0) w' (f_mids s) out) \<and> completed_once M w' s \<and>
        (\<forall>(p, b) \<in> set (post_bufs ops). \<exists>req. reqs w' p = Some req \<and> req_buffer req = b))"
proof -
  note start = idle_frag_rel(1) [OF assms(1-5), of M] idle_frag_rel(2) [OF assms(1-5)]
  from frag_run_ok [OF start(1) assms(7) _ assms(6)] assms(8) start(2)
  obtain w' D H K where w': "frag_run M w ops = Some w'" "frag_rel M (bufs w0) (rev (post_bufs ops)) D H K w' (frag_spec_run M ops)"
    by (auto simp: frag_spec_run_def)
  note R = frag_relD [OF w'(2)]
  have "\<forall>(p, b) \<in> set (post_bufs ops). \<exists>req. reqs w' p = Some req \<and> req_buffer req = b" using R(3) by (simp add: issued_ok_def)
  with w'(1) R show ?thesis by (auto simp: tm_ok_def Let_def)
qed

text \<open>
  A message of three chunks whose last chunk comes before the first, and a single packet in between that a wildcard
  receive takes.
\<close>

definition two_messages :: messages where
  "two_messages m = (if m = 5 then (7, [[1, 2], [3, 4], [5]]) else (9, [[6]]))"

theorem eager_protocol_delivers_witness:
  "\<exists>w'. frag_run two_messages (snd (ucp_tag_match_init True True (idle_worker [10 \<mapsto> [0, 0, 0, 0, 0, 9], 11 \<mapsto> [0]])))
      [Middle 20 5 2, Post 4 10 7 UCP_TAG_MASK_FULL, Head 21 5, Post 6 11 0 0, Head 22 8, Middle 23 5 1] = Some w' \<and>
    bufs w' 10 = Some [1, 2, 3, 4, 5, 9] \<and> bufs w' 11 = Some [6] \<and> mset (map fst (completions w')) = {#4, 6#}"
proof -
  let ?bs = "[10 \<mapsto> [0, 0, 0, 0, 0, 9], 11 \<mapsto> [0]] :: nat \<rightharpoonup> u8 list"
  let ?ops = "[Middle 20 5 2, Post 4 10 7 UCP_TAG_MASK_FULL, Head 21 5, Post 6 11 0 0, Head 22 8, Middle 23 5 1]"
  let ?w0 = "idle_worker ?bs" and ?M = two_messages
  have init: "ucp_tag_match_init True True ?w0 = (UCS_OK, snd (ucp_tag_match_init True True ?w0))"
    by (simp add: ucp_tag_match_init_def Let_def)
  have ops: "frag_ops_ok ?M (bufs ?w0) [] [] [] [] ?ops" by (simp add: idle_worker_def two_messages_def)
  have msgs: "msg_ok (snd (?M m))" for m by (simp add: two_messages_def msg_ok_def)
  define s where "s = frag_spec_run ?M ?ops"
  have spec: "f_outs s = [(4, Some 5), (6, Some 8)]" "f_mids s 5 = [2, 1]"
    "f_mids s 8 = []"
    by (simp_all add: s_def frag_spec_run_def recv_takes_def ucp_tag_is_match_def UCP_TAG_MASK_FULL_def two_messages_def)
  obtain w' where w': "frag_run ?M (snd (ucp_tag_match_init True True ?w0)) ?ops = Some w'"
    "out_ok ?M (bufs ?w0) w' (f_mids s) (4, Some 5)" "out_ok ?M (bufs ?w0) w' (f_mids s) (6, Some 8)"
    "completed_once ?M w' s"
    "\<exists>req. reqs w' 4 = Some req \<and> req_buffer req = 10" "\<exists>req. reqs w' 6 = Some req \<and> req_buffer req = 11"
    using eager_protocol_delivers [where M = ?M, OF init _ _ _ _ msgs ops] unfolding Let_def s_def [symmetric] spec(1) by (auto simp: idle_worker_def)
  have full: "\<not> missing [[1, 2], [3, 4], [5 :: u8]] [0, 2, 1]" "\<not> missing [[6 :: u8]] [0]"
    by (auto simp: missing_def less_Suc_eq numeral_3_eq_3)
  from w'(5,6) obtain r1 r2 where r: "reqs w' 4 = Some r1" "req_buffer r1 = 10" "reqs w' 6 = Some r2" "req_buffer r2 = 11" by blast
  have "bufs w' 10 = Some (fit_buffer [0, 0, 0, 0, 0, 9] [1, 2, 3, 4, 5])"
    using w'(2) full by (simp add: out_ok_def out_shown_def spec r idle_worker_def two_messages_def Let_def)
  then have "bufs w' 10 = Some [1, 2, 3, 4, 5, 9]" by (simp add: fit_buffer_def)
  moreover have "bufs w' 11 = Some (fit_buffer [0] [6])"
    using w'(3) full by (simp add: out_ok_def out_shown_def spec r idle_worker_def two_messages_def Let_def)
  then have "bufs w' 11 = Some [6]" by (simp add: fit_buffer_def)
  moreover have "mset (map fst (completions w')) = {#4, 6#}"
    using w'(4) full by (simp add: completed_once_def spec msg_done_def two_messages_def)
  ultimately show ?thesis using w'(1) by (intro exI [of _ w'] conjI)
qed

section \<open>Lost messages and leaked fragments\<close>

text \<open>
  C26. A receive that must complete immediately loses a message of several packets. When the first matching message is
  not a single packet, the receive fails with \<open>UCS_ERR_NO_RESOURCE\<close>, but the search has already taken the
  descriptor out of both lists and nothing puts it back or releases it. A second receive does not find the
  message.
\<close>

theorem immediate_receive_loses_message:
  assumes ok: "unexp_ok w" and d: "find (desc_matches (descs w) tag tag_mask) (unexp_all w) = Some d" "descs w d = Some rdesc" "\<not> desc_only rdesc"
    and buf: "bufs w b \<noteq> None" and imm: "force_imm_cmpl param"
  shows "\<exists>w'. ucp_tag_recv_nbx kh_ok param w (Some p) b tag tag_mask = Some (Ret_status UCS_ERR_NO_RESOURCE None, w') \<and>
    unexp_ok w' \<and> descs w' = descs w \<and> unexp_all w' = remove1 d (unexp_all w) \<and> frag_hash w' = frag_hash w \<and>
    (\<forall>t k rem. \<exists>r w''. ucp_tag_unexp_search w' t k rem = Some (r, w'') \<and> r \<noteq> Some d)"
proof -
  let ?w1 = "ucp_tag_unexp_remove w d"
  let ?w' = "ucp_request_put ?w1 p"
  have same: "descs ?w' = descs w" "unexp_all ?w' = remove1 d (unexp_all w)" "frag_hash ?w' = frag_hash w" "bufs ?w1 = bufs w" "descs ?w1 = descs w"
    by (simp_all add: ucp_request_put_def ucp_tag_unexp_remove_def)
  have ok': "unexp_ok ?w'" by (rule unexp_ok_frame [OF unexp_remove_ok [OF ok, of d]]) (simp_all add: ucp_request_put_def)
  have "ucp_tag_recv_nbx kh_ok param w (Some p) b tag tag_mask = Some (Ret_status UCS_ERR_NO_RESOURCE None, ?w')"
    using unexp_search_ok [OF ok, of tag tag_mask True] d buf imm
    by (auto simp: ucp_tag_recv_nbx_def ucp_tag_recv_common_def same Let_def)
  moreover have "\<exists>r w''. ucp_tag_unexp_search ?w' t k rem = Some (r, w'') \<and> r \<noteq> Some d" for t k rem
  proof -
    have "d \<notin> set (unexp_all ?w')" using unexp_okD(2) [OF ok] by (simp add: same)
    then have "find (desc_matches (descs ?w') t k) (unexp_all ?w') \<noteq> Some d" using find_SomeD by fastforce
    then show ?thesis using unexp_search_ok [OF ok', of t k rem] by (auto simp: Let_def)
  qed
  ultimately show ?thesis using ok' same by blast
qed

text \<open>A first packet of two that waits in its bucket.\<close>

definition unmatched_head :: worker where
  "unmatched_head =
     (let w = snd (ucp_tag_match_init True True (idle_worker [10 \<mapsto> [0, 0]]))
      in snd (the (ucp_eager_first_handler True (Pool_desc 20) w 7 2 5 [1])))"

lemma unmatched_head_eq:
  "\<exists>h. unmatched_head = (snd (ucp_tag_match_init True True (idle_worker [10 \<mapsto> [0, 0]])))
     \<lparr>descs := [20 \<mapsto> head_desc 7 [[1], [2]] 5], unexp_hash := h, unexp_all := [20]\<rparr> \<and> unexp_ok unmatched_head"
proof -
  let ?start = "idle_worker [10 \<mapsto> [0, 0]]"
  let ?w = "snd (ucp_tag_match_init True True ?start)"
  have "ucp_tag_match_init True True ?start = (UCS_OK, ?w)" by (simp add: ucp_tag_match_init_def Let_def)
  from idle_frag_rel(1) [OF this, of two_messages] have rel: "frag_rel two_messages (bufs ?start) [] [] [] [] ?w
      \<lparr>f_recvs = [], f_msgs = [], f_outs = [], f_mids = (\<lambda>m. [])\<rparr>" by (simp add: idle_worker_def empty_queue_def)
  have search: "ucp_tag_exp_search ?w 7 = Some (None, ?w)"
    using exp_search_ok [OF frag_relD(1) [OF rel], of 7] by auto
  have same: "descs ?w = Map.empty" "unexp_all ?w = []" by (simp_all add: ucp_tag_match_init_def idle_worker_def Let_def)
  let ?next = "?w\<lparr>descs := (descs ?w)(20 \<mapsto> head_desc 7 [[1], [2]] 5)\<rparr>"
  have "unexp_ok ?next" by (rule unexp_ok_frame [OF frag_relD(2) [OF rel]]) (simp_all add: same)
  then obtain h where h: "ucp_tag_unexp_recv ?next 20 (ucp_rdesc_get_tag (head_desc 7 [[1], [2]] 5)) =
      Some (?next\<lparr>unexp_hash := h, unexp_all := unexp_all ?next @ [20]\<rparr>)" "unexp_ok (?next\<lparr>unexp_hash := h, unexp_all := unexp_all ?next @ [20]\<rparr>)"
    using unexp_recv_ok [of ?next 20 "head_desc 7 [[1], [2]] 5"] same by auto
  have "unmatched_head = ?next\<lparr>unexp_hash := h, unexp_all := unexp_all ?next @ [20]\<rparr>"
    using search h(1)
    by (simp add: unmatched_head_def ucp_eager_first_handler_def ucp_eager_tagged_handler_def ucp_recv_desc_init_def
      ucp_rdesc_get_tag_def head_desc_def Let_def numeral_2_eq_2)
  with h(2) same show ?thesis by auto
qed

theorem immediate_receive_loses_message_witness:
  "\<exists>w'. ucp_tag_recv_nbx True \<lparr>force_imm_cmpl = True, no_imm_cmpl = False, want_recv_info = False, contig = True, dt_init = UCS_OK\<rparr>
      unmatched_head (Some 4) 10 7 UCP_TAG_MASK_FULL = Some (Ret_status UCS_ERR_NO_RESOURCE None, w') \<and>
    unexp_all unmatched_head = [20] \<and> unexp_all w' = [] \<and> descs w' 20 \<noteq> None"
proof -
  obtain h where h: "unmatched_head = (snd (ucp_tag_match_init True True (idle_worker [10 \<mapsto> [0, 0]])))
     \<lparr>descs := [20 \<mapsto> head_desc 7 [[1], [2]] 5], unexp_hash := h, unexp_all := [20]\<rparr>" "unexp_ok unmatched_head"
    using unmatched_head_eq by blast
  have w: "descs unmatched_head = [20 \<mapsto> head_desc 7 [[1], [2]] 5]" "unexp_all unmatched_head = [20]" "bufs unmatched_head 10 \<noteq> None"
    unfolding h(1) by (simp_all add: ucp_tag_match_init_def idle_worker_def Let_def)
  have d: "find (desc_matches (descs unmatched_head) 7 UCP_TAG_MASK_FULL) (unexp_all unmatched_head) = Some 20"
    by (simp add: w desc_matches_def tag_of_def full_mask_match)
  have "\<not> desc_only (head_desc 7 [[1], [2]] 5)" by (simp add: head_desc_def)
  from immediate_receive_loses_message [OF h(2) d _ this w(3),
      where param = "\<lparr>force_imm_cmpl = True, no_imm_cmpl = False, want_recv_info = False, contig = True, dt_init = UCS_OK\<rparr>" and kh_ok = True and p = 4]
  show ?thesis by (auto simp: w)
qed

lemma cleanup_loop_descs: "descs (cleanup_loop w l) = descs w |` (- set l)"
proof (induction l arbitrary: w)
  case (Cons d l)
  show ?case by (rule ext) (simp add: Cons.IH restrict_map_def)
qed simp

lemma frag_queue_descs:
  assumes rel: "frag_rel M bs A D H K w s" and q: "frag_hash w m = Some (Unexp_q ds)" "d \<in> set ds"
  shows "d \<in> dom (descs w)" "d \<notin> set (unexp_all w)"
proof -
  note R = frag_relD [OF rel]
  have "m \<notin> set (taken (f_outs s))"
  proof
    assume "m \<in> set (taken (f_outs s))"
    then obtain p where "(p, Some m) \<in> set (f_outs s)" by (auto simp: in_taken)
    with R(7) q(1) show False by (auto simp: frags_ok_def split: if_splits)
  qed
  then obtain ds' where wait: "frags_wait w (descs w) m (snd (M m)) ds' (f_mids s m)" using wait_of [OF rel] by blast
  then have ds: "ds' = ds" using q by (auto simp: frags_wait_def split: if_splits)
  obtain i where "descs w d = Some (mid_desc (snd (M m)) m i)" using waiting_mid [OF wait] q(2) ds by blast
  then show "d \<in> dom (descs w)" by auto
  show "d \<notin> set (unexp_all w)" using waiting_apart_heads [OF wait R(6)] q(2) ds by blast
qed

text \<open>
  C30. \<open>ucp_tag_match_cleanup\<close> releases the descriptors of unexpected messages and no others: after any run
  of the protocol the descriptors that stay allocated are exactly those of middle packets that wait for their
  first packet or for a receive.
\<close>

theorem cleanup_leaks_fragments:
  assumes "ucp_tag_match_init mem1 mem2 w0 = (UCS_OK, w)" and "exp_wildcard w0 = empty_queue"
    and "reqs w0 = Map.empty" and "descs w0 = Map.empty" and "completions w0 = []"
    and "\<And>m. msg_ok (snd (M m))" and "frag_ops_ok M (bufs w0) [] [] [] [] ops" and "length ops < 2 ^ 64"
  shows "\<exists>w'. frag_run M w ops = Some w' \<and>
    dom (descs (ucp_tag_match_cleanup w')) = {d. \<exists>m ds. frag_hash w' m = Some (Unexp_q ds) \<and> d \<in> set ds}"
proof -
  note start = idle_frag_rel(1) [OF assms(1-5), of M] idle_frag_rel(2) [OF assms(1-5)]
  from frag_run_ok [OF start(1) assms(7) _ assms(6)] assms(8) start(2)
  obtain w' D H K where w': "frag_run M w ops = Some w'" "frag_rel M (bufs w0) (rev (post_bufs ops)) D H K w' (frag_spec_run M ops)"
    by (auto simp: frag_spec_run_def)
  have "dom (descs (ucp_tag_match_cleanup w')) = dom (descs w') - set (unexp_all w')"
    by (simp add: ucp_tag_match_cleanup_def cleanup_loop_descs) blast
  also have "\<dots> = {d. \<exists>m ds. frag_hash w' m = Some (Unexp_q ds) \<and> d \<in> set ds}"
    using frag_relD(10) [OF w'(2)] frag_queue_descs [OF w'(2)] unfolding owned_def by blast
  finally show ?thesis using w'(1) by blast
qed

theorem cleanup_leaks_fragments_witness:
  "\<exists>w'. frag_run two_messages (snd (ucp_tag_match_init True True (idle_worker Map.empty))) [Middle 20 5 2] = Some w' \<and>
    dom (descs (ucp_tag_match_cleanup w')) = {20}"
proof -
  let ?start = "idle_worker Map.empty"
  let ?w = "snd (ucp_tag_match_init True True ?start)"
  have init: "ucp_tag_match_init True True ?start = (UCS_OK, ?w)" by (simp add: ucp_tag_match_init_def Let_def)
  have msgs: "msg_ok (snd (two_messages m))" for m by (simp add: two_messages_def msg_ok_def)
  have ops: "frag_ops_ok two_messages (bufs ?start) [] [] [] [] [Middle 20 5 2]" by (simp add: two_messages_def)
  obtain w' where w': "frag_run two_messages ?w [Middle 20 5 2] = Some w'"
    "dom (descs (ucp_tag_match_cleanup w')) = {d. \<exists>m ds. frag_hash w' m = Some (Unexp_q ds) \<and> d \<in> set ds}"
    using cleanup_leaks_fragments [OF init _ _ _ _ msgs ops] by (auto simp: idle_worker_def)
  have "frag_hash ?w = Map.empty" by (simp add: ucp_tag_match_init_def idle_worker_def Let_def)
  then have "frag_hash w' = [5 \<mapsto> Unexp_q [20]]"
    using w'(1) by (auto simp: two_messages_def ucp_eager_middle_handler_def ucp_recv_desc_init_def middle_assert_def)
  then have "{d. \<exists>m ds. frag_hash w' m = Some (Unexp_q ds) \<and> d \<in> set ds} = {20}" by auto
  with w' show ?thesis by auto
qed

end
