(* ===== verification/Coll_Network.thy ===== *)
theory Coll_Network
  imports Mpi_Ucx_Prelude
begin

text \<open>
  The processes of a communicator running a collective operation over point-to-point messages.

  A collective of \<^verbatim>\<open>ompi/mca/coll/base\<close> is, for each rank, a sequence of calls of the point-to-point
  layer: \<open>isend\<close>, \<open>irecv\<close>, waiting for one receive, waiting for the sends. Which calls these are depends
  on the rank and the arguments and not on the data, so the code of a rank is a list of calls. This
  theory gives the calls their MPI semantics and lets the ranks run in every interleaving.

  \<^item> Messages of one source to one destination do not overtake each other: the \<open>k\<close>-th receive posted for
    a source gets the \<open>k\<close>-th message sent by it.
  \<^item> A receive ends when its message was sent; a send ends when the receive it matches was posted, or at
    once when the layer buffers it (\<open>eager\<close>). Which messages are buffered is arbitrary.
  \<^item> A message that is longer than the receive is the error \<open>MPI_ERR_TRUNCATE\<close>. Touching memory outside
    of the buffer, posting a receive over the region of a pending receive or send, sending from the region
    of a pending receive, and storing over the handle of a pending receive are faults.
  \<^item> \<open>seen\<close> is the set of the ranks whose entry into the operation happened before: it is carried by the
    messages and is not part of the program.

  The locale \<open>schedule\<close> is the contract between a collective and this network: what each rank receives
  and a logical time for each call, checked rank by rank on sequential code. It gives the absence of
  deadlock and the final state of every interleaving.
\<close>

section \<open>Calls and processes\<close>

type_synonym rank = int

datatype pml_op =
    Isend nat nat rank
  | Irecv nat nat rank nat
  | Wait nat
  | Wait_sends

datatype outcome = Fine | Truncated | Fault

type_synonym 'a message = "'a list \<times> rank set"

record pending =
  handle :: nat
  source :: rank
  ticket :: nat
  region :: "nat \<times> nat"

record 'a proc =
  code :: "pml_op list"
  buf :: "'a list"
  sent :: "rank \<Rightarrow> 'a message list"
  posted :: "rank \<Rightarrow> nat"
  recvs :: "pending list"
  sends :: "(rank \<times> nat \<times> (nat \<times> nat)) list"
  seen :: "rank set"
  outcome :: outcome

definition apart :: "nat \<times> nat \<Rightarrow> nat \<times> nat \<Rightarrow> bool" where
  "apart a b \<longleftrightarrow> snd a = 0 \<or> snd b = 0 \<or> fst a + snd a \<le> fst b \<or> fst b + snd b \<le> fst a"

definition stop :: "outcome \<Rightarrow> 'a proc \<Rightarrow> 'a proc" where
  "stop out p = p\<lparr>code := [], outcome := out\<rparr>"

definition isend :: "nat \<Rightarrow> nat \<Rightarrow> rank \<Rightarrow> 'a proc \<Rightarrow> 'a proc" where
  "isend off n d p =
     (if off + n \<le> length (buf p) \<and> (\<forall>rv \<in> set (recvs p). apart (off, n) (region rv))
      then p\<lparr>sent := (sent p)(d := sent p d @ [(take n (drop off (buf p)), seen p)]),
             sends := sends p @ [(d, length (sent p d), (off, n))]\<rparr>
      else stop Fault p)"

definition irecv :: "nat \<Rightarrow> nat \<Rightarrow> rank \<Rightarrow> nat \<Rightarrow> 'a proc \<Rightarrow> 'a proc" where
  "irecv off n s i p =
     (if (\<forall>rv \<in> set (recvs p). handle rv \<noteq> i \<and> apart (off, n) (region rv)) \<and>
         (\<forall>(_, _, reg) \<in> set (sends p). apart (off, n) reg)
      then p\<lparr>posted := (posted p)(s := posted p s + 1),
             recvs := recvs p @ [\<lparr>handle = i, source = s, ticket = posted p s, region = (off, n)\<rparr>]\<rparr>
      else stop Fault p)"

definition deliver :: "pending \<Rightarrow> 'a message \<Rightarrow> 'a proc \<Rightarrow> 'a proc" where
  "deliver rv m p =
     (if length (fst m) > snd (region rv) then stop Truncated p
      else if fst (region rv) + length (fst m) > length (buf p) then stop Fault p
      else p\<lparr>buf := take (fst (region rv)) (buf p) @ fst m @ drop (fst (region rv) + length (fst m)) (buf p),
             recvs := filter (\<lambda>rv'. handle rv' \<noteq> handle rv) (recvs p), seen := seen p \<union> snd m\<rparr>)"

text \<open>
  One call of a process. \<open>inbox s\<close> holds the messages sent to it by \<open>s\<close> so far, \<open>taken d k\<close> says whether
  its \<open>k\<close>-th message to \<open>d\<close> may be completed. \<open>None\<close> is a call that has to wait. Waiting for a handle with no
  pending receive returns at once, as it does for \<open>MPI_REQUEST_NULL\<close>.
\<close>

definition proc_exec :: "(rank \<Rightarrow> 'a message list) \<Rightarrow> (rank \<Rightarrow> nat \<Rightarrow> bool) \<Rightarrow> 'a proc \<Rightarrow> 'a proc option" where
  "proc_exec inbox taken p =
     (case code p of
        [] \<Rightarrow> None
      | op # ops \<Rightarrow>
          (let q = p\<lparr>code := ops\<rparr>
           in case op of
                Isend off n d \<Rightarrow> Some (isend off n d q)
              | Irecv off n s i \<Rightarrow> Some (irecv off n s i q)
              | Wait i \<Rightarrow>
                  (case find (\<lambda>rv. handle rv = i) (recvs p) of
                     None \<Rightarrow> Some q
                   | Some rv \<Rightarrow>
                       (if ticket rv < length (inbox (source rv)) then Some (deliver rv (inbox (source rv) ! ticket rv) q)
                        else None))
              | Wait_sends \<Rightarrow> (if \<forall>(d, k, _) \<in> set (sends p). taken d k then Some (q\<lparr>sends := []\<rparr>) else None)))"

section \<open>The network\<close>

type_synonym 'a net = "rank \<Rightarrow> 'a proc"

definition proc_step :: "(rank \<Rightarrow> rank \<Rightarrow> nat \<Rightarrow> bool) \<Rightarrow> 'a net \<Rightarrow> rank \<Rightarrow> 'a proc option" where
  "proc_step eager \<sigma> r =
     proc_exec (\<lambda>s. sent (\<sigma> s) r) (\<lambda>d k. eager r d k \<or> k < posted (\<sigma> d) r) (\<sigma> r)"

inductive net_steps :: "rank set \<Rightarrow> (rank \<Rightarrow> rank \<Rightarrow> nat \<Rightarrow> bool) \<Rightarrow> 'a net \<Rightarrow> nat \<Rightarrow> 'a net \<Rightarrow> bool"
  for R eager \<sigma>0 where
  start: "net_steps R eager \<sigma>0 0 \<sigma>0"
| step: "net_steps R eager \<sigma>0 k \<sigma> \<Longrightarrow> r \<in> R \<Longrightarrow> proc_step eager \<sigma> r = Some p \<Longrightarrow> net_steps R eager \<sigma>0 (Suc k) (\<sigma>(r := p))"

text \<open>A process that is about to start the calls \<open>ops\<close> with the data \<open>xs\<close>.\<close>

definition entering :: "pml_op list \<Rightarrow> 'a list \<Rightarrow> rank \<Rightarrow> 'a proc" where
  "entering ops xs r =
     \<lparr>code = ops, buf = xs, sent = (\<lambda>_. []), posted = (\<lambda>_. 0), recvs = [], sends = [], seen = {r}, outcome = Fine\<rparr>"

section \<open>Sequential runs against a schedule\<close>

definition sends_to :: "rank \<Rightarrow> pml_op \<Rightarrow> bool" where
  "sends_to d op = (case op of Isend _ _ d' \<Rightarrow> d' = d | _ \<Rightarrow> False)"

definition recvs_from :: "rank \<Rightarrow> pml_op \<Rightarrow> bool" where
  "recvs_from s op = (case op of Irecv _ _ s' _ \<Rightarrow> s' = s | _ \<Rightarrow> False)"

text \<open>How many of the calls that satisfy \<open>P\<close> have a time before \<open>t\<close>.\<close>

definition before :: "nat list \<Rightarrow> pml_op list \<Rightarrow> (pml_op \<Rightarrow> bool) \<Rightarrow> nat \<Rightarrow> nat" where
  "before ts ops P t = length (filter (\<lambda>(u, op). u < t \<and> P op) (zip ts ops))"

text \<open>A call is in time when what it waits for has an earlier time.\<close>

definition in_time :: "(rank \<Rightarrow> nat \<Rightarrow> nat) \<Rightarrow> (rank \<Rightarrow> nat \<Rightarrow> nat) \<Rightarrow> nat \<Rightarrow> 'a proc \<Rightarrow> bool" where
  "in_time sb pb t p =
     (case code p of
        Wait i # _ \<Rightarrow>
          (case find (\<lambda>rv. handle rv = i) (recvs p) of None \<Rightarrow> True | Some rv \<Rightarrow> ticket rv < sb (source rv) t)
      | Wait_sends # _ \<Rightarrow> (\<forall>(d, k, _) \<in> set (sends p). k < pb d t)
      | _ \<Rightarrow> True)"

fun timed_run ::
  "(rank \<Rightarrow> 'a message list) \<Rightarrow> (rank \<Rightarrow> nat \<Rightarrow> nat) \<Rightarrow> (rank \<Rightarrow> nat \<Rightarrow> nat) \<Rightarrow> nat list \<Rightarrow> 'a proc \<Rightarrow> 'a proc option" where
  "timed_run inbox sb pb [] p = Some p"
| "timed_run inbox sb pb (t # ts) p =
     (if in_time sb pb t p then
        (case proc_exec inbox (\<lambda>_ _. True) p of None \<Rightarrow> None | Some q \<Rightarrow> timed_run inbox sb pb ts q)
      else None)"

lemma timed_run_append:
  "timed_run inbox sb pb (ts @ us) p =
     (case timed_run inbox sb pb ts p of None \<Rightarrow> None | Some q \<Rightarrow> timed_run inbox sb pb us q)"
  by (induction ts arbitrary: p) (auto split: option.splits)

text \<open>The calls of a run that go well, one by one.\<close>

named_theorems run_call \<open>a timed run does its next call\<close>

lemma run_Isend [run_call]:
  "code p = Isend off n d # ops \<Longrightarrow> off + n \<le> length (buf p) \<Longrightarrow> \<forall>rv \<in> set (recvs p). apart (off, n) (region rv) \<Longrightarrow>
   timed_run inbox sb pb (t # ts) p =
     timed_run inbox sb pb ts (p\<lparr>code := ops, sent := (sent p)(d := sent p d @ [(take n (drop off (buf p)), seen p)]),
       sends := sends p @ [(d, length (sent p d), (off, n))]\<rparr>)"
  by (simp add: in_time_def proc_exec_def isend_def Let_def)

lemma run_Irecv [run_call]:
  "code p = Irecv off n s i # ops \<Longrightarrow> \<forall>rv \<in> set (recvs p). handle rv \<noteq> i \<and> apart (off, n) (region rv) \<Longrightarrow>
   \<forall>(_, _, reg) \<in> set (sends p). apart (off, n) reg \<Longrightarrow>
   timed_run inbox sb pb (t # ts) p =
     timed_run inbox sb pb ts (p\<lparr>code := ops, posted := (posted p)(s := posted p s + 1),
       recvs := recvs p @ [\<lparr>handle = i, source = s, ticket = posted p s, region = (off, n)\<rparr>]\<rparr>)"
  by (simp add: in_time_def proc_exec_def irecv_def Let_def)

lemma run_Wait [run_call]:
  "code p = Wait i # ops \<Longrightarrow> find (\<lambda>rv. handle rv = i) (recvs p) = Some rv \<Longrightarrow> ticket rv < sb (source rv) t \<Longrightarrow>
   ticket rv < length (inbox (source rv)) \<Longrightarrow> inbox (source rv) ! ticket rv = (xs, heard) \<Longrightarrow>
   length xs \<le> snd (region rv) \<Longrightarrow> fst (region rv) + length xs \<le> length (buf p) \<Longrightarrow>
   timed_run inbox sb pb (t # ts) p =
     timed_run inbox sb pb ts
       (p\<lparr>code := ops, buf := take (fst (region rv)) (buf p) @ xs @ drop (fst (region rv) + length xs) (buf p),
          recvs := filter (\<lambda>rv'. handle rv' \<noteq> handle rv) (recvs p), seen := seen p \<union> heard\<rparr>)"
  by (simp add: in_time_def proc_exec_def deliver_def Let_def)

lemma run_Wait_sends [run_call]:
  "code p = Wait_sends # ops \<Longrightarrow> \<forall>(d, k, _) \<in> set (sends p). k < pb d t \<Longrightarrow>
   timed_run inbox sb pb (t # ts) p = timed_run inbox sb pb ts (p\<lparr>code := ops, sends := []\<rparr>)"
  by (simp add: in_time_def proc_exec_def Let_def)

lemmas call_defs = isend_def irecv_def deliver_def stop_def

text \<open>What one call does to the code and to the counters of a process that does not fail.\<close>

lemma exec_outcome: "proc_exec inbox taken p = Some q \<Longrightarrow> outcome q = Fine \<Longrightarrow> outcome p = Fine"
  by (auto simp: proc_exec_def call_defs Let_def split: list.splits pml_op.splits option.splits if_splits)

lemma exec_Fine:
  assumes "proc_exec inbox taken p = Some q" "outcome q = Fine"
  obtains op where "code p = op # code q"
    "length (sent q d) = length (sent p d) + (if sends_to d op then 1 else 0)"
    "\<exists>ms. sent q d = sent p d @ ms"
    "posted q s = posted p s + (if recvs_from s op then 1 else 0)"
  using assms
  by (auto simp: proc_exec_def call_defs Let_def sends_to_def recvs_from_def
      split: list.splits pml_op.splits option.splits if_splits)

lemma run_outcome: "timed_run inbox sb pb ts p = Some q \<Longrightarrow> outcome q = Fine \<Longrightarrow> outcome p = Fine"
  by (induction ts arbitrary: p) (auto split: option.splits if_splits dest: exec_outcome)

lemma run_Fine:
  assumes "timed_run inbox sb pb ts p = Some q" "outcome q = Fine"
  shows "length ts \<le> length (code p) \<and> code q = drop (length ts) (code p) \<and>
    length (sent q d) = length (sent p d) + length (filter (sends_to d) (take (length ts) (code p))) \<and>
    (\<exists>ms. sent q d = sent p d @ ms) \<and>
    posted q s = posted p s + length (filter (recvs_from s) (take (length ts) (code p)))"
  using assms
proof (induction ts arbitrary: p)
  case (Cons t ts)
  then obtain p' where p': "proc_exec inbox (\<lambda>_ _. True) p = Some p'" "timed_run inbox sb pb ts p' = Some q"
    by (auto split: option.splits if_splits)
  have fine: "outcome p' = Fine" by (rule run_outcome [OF p'(2) Cons.prems(2)])
  obtain op where "code p = op # code p'"
    "length (sent p' d) = length (sent p d) + (if sends_to d op then 1 else 0)"
    "\<exists>ms. sent p' d = sent p d @ ms"
    "posted p' s = posted p s + (if recvs_from s op then 1 else 0)"
    by (rule exec_Fine [OF p'(1) fine, of d s])
  with Cons.IH [OF p'(2) Cons.prems(2)] show ?case by auto
qed simp

lemma run_grows: "timed_run inbox sb pb ts p = Some q \<Longrightarrow> outcome q = Fine \<Longrightarrow> \<exists>ms. sent q d = sent p d @ ms"
  using run_Fine by blast

lemma before_le: "length ts = length ops \<Longrightarrow> before ts ops P t \<le> length (filter P ops)"
  by (induction ts ops rule: list_induct2) (auto simp: before_def)

lemma in_time_exec:
  assumes "proc_exec inbox0 taken0 p = Some q" "in_time sb pb t p"
    and sb: "\<And>s. sb s t \<le> length (inbox s)" and pb: "\<And>d k. k < pb d t \<Longrightarrow> taken d k"
  shows "proc_exec inbox taken p \<noteq> None"
proof (cases "code p")
  case (Cons op ops)
  show ?thesis
  proof (cases op)
    case (Wait i)
    with assms(2) Cons show ?thesis using less_le_trans [OF _ sb]
      by (auto simp: in_time_def proc_exec_def Let_def split: option.splits)
  next
    case Wait_sends
    with assms(2) Cons pb show ?thesis by (fastforce simp: in_time_def proc_exec_def Let_def)
  qed (simp_all add: Cons proc_exec_def Let_def)
qed (use assms(1) in \<open>simp add: proc_exec_def\<close>)

section \<open>Every interleaving follows the schedule\<close>

locale schedule =
  fixes valid :: "'c \<Rightarrow> bool"
    and ranks :: "'c \<Rightarrow> rank set"
    and prog :: "'c \<Rightarrow> rank \<Rightarrow> pml_op list"
    and data :: "'c \<Rightarrow> rank \<Rightarrow> 'a list"
    and times :: "'c \<Rightarrow> rank \<Rightarrow> nat list"
    and msgs :: "'c \<Rightarrow> rank \<Rightarrow> rank \<Rightarrow> 'a message list"
    and final :: "'c \<Rightarrow> rank \<Rightarrow> 'a proc"
  assumes finite_ranks: "valid c \<Longrightarrow> finite (ranks c)"
    and others: "valid c \<Longrightarrow> r \<notin> ranks c \<Longrightarrow> prog c r = [] \<and> times c r = []"
    and sorted_times: "valid c \<Longrightarrow> r \<in> ranks c \<Longrightarrow> sorted (times c r)"
    and length_times: "valid c \<Longrightarrow> r \<in> ranks c \<Longrightarrow> length (times c r) = length (prog c r)"
    and local_run: "valid c \<Longrightarrow> r \<in> ranks c \<Longrightarrow>
      timed_run (\<lambda>s. msgs c s r) (\<lambda>s. before (times c s) (prog c s) (sends_to r))
        (\<lambda>d. before (times c d) (prog c d) (recvs_from r)) (times c r) (entering (prog c r) (data c r) r) = Some (final c r)"
    and local_fine: "valid c \<Longrightarrow> r \<in> ranks c \<Longrightarrow> outcome (final c r) = Fine"
    and local_sent: "valid c \<Longrightarrow> r \<in> ranks c \<Longrightarrow> sent (final c r) = msgs c r"
begin

definition run_to :: "'c \<Rightarrow> rank \<Rightarrow> nat list \<Rightarrow> 'a proc \<Rightarrow> 'a proc option" where
  "run_to c r = timed_run (\<lambda>s. msgs c s r) (\<lambda>s. before (times c s) (prog c s) (sends_to r))
     (\<lambda>d. before (times c d) (prog c d) (recvs_from r))"

definition at :: "'c \<Rightarrow> rank \<Rightarrow> nat \<Rightarrow> 'a proc \<Rightarrow> bool" where
  "at c r j p \<longleftrightarrow> j \<le> length (times c r) \<and>
     run_to c r (take j (times c r)) (entering (prog c r) (data c r) r) = Some p \<and>
     (r \<in> ranks c \<longrightarrow> run_to c r (drop j (times c r)) p = Some (final c r))"

lemma at_start: "valid c \<Longrightarrow> at c r 0 (entering (prog c r) (data c r) r)"
  using local_run [of c r] by (simp add: at_def run_to_def)

lemma at_Fine: "valid c \<Longrightarrow> at c r j p \<Longrightarrow> outcome p = Fine"
  using others [of c r] local_fine [of c r] run_outcome
  by (cases "r \<in> ranks c") (auto simp: at_def run_to_def entering_def)

lemma at_prefix:
  assumes "valid c" "at c r j p"
  shows "code p = drop j (prog c r)" "length (sent p d) = length (filter (sends_to d) (take j (prog c r)))"
    "posted p s = length (filter (recvs_from s) (take j (prog c r)))"
proof -
  have "length (take j (times c r)) = j" using assms(2) by (simp add: at_def)
  then show "code p = drop j (prog c r)" "length (sent p d) = length (filter (sends_to d) (take j (prog c r)))"
    "posted p s = length (filter (recvs_from s) (take j (prog c r)))"
    using run_Fine [of _ _ _ "take j (times c r)" "entering (prog c r) (data c r) r" p d s] at_Fine [OF assms] assms(2)
    by (auto simp: at_def run_to_def entering_def)
qed

lemma at_sent:
  assumes "valid c" "at c r j p" "k < length (sent p d)"
  shows "r \<in> ranks c \<and> k < length (msgs c r d) \<and> sent p d ! k = msgs c r d ! k"
proof -
  have r: "r \<in> ranks c" using at_prefix(2) [OF assms(1,2), of d] assms(3) others [OF assms(1)] by (cases "r \<in> ranks c") auto
  obtain ms where "sent (final c r) d = sent p d @ ms"
    using run_grows [OF _ local_fine [OF assms(1) r], of _ _ _ "drop j (times c r)" p d] assms(2) r
    unfolding at_def run_to_def by blast
  then have "msgs c r d = sent p d @ ms" by (simp add: local_sent [OF assms(1) r])
  then show ?thesis using assms(3) r by (simp add: nth_append)
qed

lemma at_next:
  assumes "valid c" "r \<in> ranks c" "at c r j p" "j < length (times c r)"
  obtains q where "at c r (Suc j) q" "proc_exec (\<lambda>s. msgs c s r) (\<lambda>_ _. True) p = Some q"
    "in_time (\<lambda>s. before (times c s) (prog c s) (sends_to r)) (\<lambda>d. before (times c d) (prog c d) (recvs_from r)) (times c r ! j) p"
proof -
  have "run_to c r (times c r ! j # drop (Suc j) (times c r)) p = Some (final c r)"
    using assms by (simp add: at_def Cons_nth_drop_Suc)
  then obtain q where q: "proc_exec (\<lambda>s. msgs c s r) (\<lambda>_ _. True) p = Some q"
    "run_to c r (drop (Suc j) (times c r)) q = Some (final c r)"
    "in_time (\<lambda>s. before (times c s) (prog c s) (sends_to r)) (\<lambda>d. before (times c d) (prog c d) (recvs_from r)) (times c r ! j) p"
    by (auto simp: run_to_def split: option.splits if_splits)
  then have "run_to c r (take (Suc j) (times c r)) (entering (prog c r) (data c r) r) = Some q"
    using assms by (simp add: at_def run_to_def take_Suc_conv_app_nth timed_run_append)
  then show thesis using q assms(4) by (intro that [of q]) (simp_all add: at_def)
qed

lemma step_follows:
  assumes v: "valid c" and r: "r \<in> ranks c" and at: "\<And>s. at c s (J s) (\<sigma> s)" and st: "proc_step eager \<sigma> r = Some p"
  shows "J r < length (times c r) \<and> at c r (Suc (J r)) p"
proof -
  have "code (\<sigma> r) \<noteq> []" using st by (auto simp: proc_step_def proc_exec_def split: list.splits)
  then have j: "J r < length (times c r)"
    using at_prefix(1) [OF v at, of r] length_times [OF v r] at [of r] by (auto simp: at_def)
  obtain q where q: "at c r (Suc (J r)) q" "proc_exec (\<lambda>s. msgs c s r) (\<lambda>_ _. True) (\<sigma> r) = Some q"
    by (rule at_next [OF v r at j])
  have "p = q"
    using st q(2) at_sent [OF v at, of _ _ r]
    by (auto simp: proc_step_def proc_exec_def Let_def split: list.splits pml_op.splits option.splits if_splits)
  with q(1) j show ?thesis by simp
qed

lemma reach_at:
  assumes v: "valid c" and st: "net_steps (ranks c) eager (\<lambda>r. entering (prog c r) (data c r) r) k \<sigma>"
  shows "\<exists>J. (\<forall>r. at c r (J r) (\<sigma> r)) \<and> k = (\<Sum>r \<in> ranks c. J r)"
  using st
proof (induction k \<sigma>)
  case start
  then show ?case by (intro exI [of _ "\<lambda>_. 0"]) (simp add: at_start v)
next
  case (step k \<sigma> r p)
  then obtain J where J: "\<And>r. at c r (J r) (\<sigma> r)" "k = (\<Sum>r \<in> ranks c. J r)" by auto
  have p: "at c r (Suc (J r)) p" using step_follows [OF v step.hyps(2) J(1) step.hyps(3)] by simp
  have "(\<Sum>s \<in> ranks c. (J(r := Suc (J r))) s) = Suc (\<Sum>s \<in> ranks c. J s)"
    using sum.remove [OF finite_ranks [OF v] step.hyps(2), of J]
      sum.remove [OF finite_ranks [OF v] step.hyps(2), of "J(r := Suc (J r))"] by simp
  then show ?case using J p by (intro exI [of _ "J(r := Suc (J r))"]) auto
qed

lemma before_done:
  assumes v: "valid c" and j: "j \<le> length (times c s)"
    and late: "j < length (times c s) \<Longrightarrow> t \<le> times c s ! j"
  shows "before (times c s) (prog c s) P t \<le> length (filter P (take j (prog c s)))"
proof (cases "s \<in> ranks c")
  case True
  let ?z = "zip (times c s) (prog c s)"
  have len: "length (prog c s) = length (times c s)" using length_times [OF v True] by simp
  have "\<not> u < t" if mem: "(u, op) \<in> set (drop j ?z)" for u op
  proof -
    from mem obtain i where i: "i < length (drop j ?z)" "drop j ?z ! i = (u, op)" unfolding in_set_conv_nth by blast
    then have "u = times c s ! (j + i)" "j + i < length (times c s)" using len by auto
    with sorted_nth_mono [OF sorted_times [OF v True], of j "j + i"] late show ?thesis by auto
  qed
  then have rest: "filter (\<lambda>(u, op). u < t \<and> P op) (drop j ?z) = []" by (auto simp: filter_empty_conv)
  have "before (times c s) (prog c s) P t = length (filter (\<lambda>(u, op). u < t \<and> P op) (take j ?z @ drop j ?z))"
    by (simp add: before_def)
  also have "\<dots> = before (take j (times c s)) (take j (prog c s)) P t"
    unfolding filter_append rest by (simp add: take_zip before_def)
  finally show ?thesis using before_le [of "take j (times c s)" "take j (prog c s)" P t] len by simp
next
  case False
  then show ?thesis using others [OF v] by (simp add: before_def)
qed

lemma some_moves:
  assumes v: "valid c" and at: "\<And>r. at c r (J r) (\<sigma> r)" and u: "u \<in> ranks c" "J u < length (times c u)"
  shows "\<exists>r \<in> ranks c. proc_step eager \<sigma> r \<noteq> None"
proof -
  let ?open = "\<lambda>r. r \<in> ranks c \<and> J r < length (times c r)"
  obtain r where r: "?open r" "\<And>s. ?open s \<Longrightarrow> times c r ! J r \<le> times c s ! J s"
    using ex_has_least_nat [of ?open u "\<lambda>s. times c s ! J s"] u by blast
  let ?t = "times c r ! J r"
  have passed: "before (times c s) (prog c s) P ?t \<le> length (filter P (take (J s) (prog c s)))" for s P
  proof (rule before_done [OF v])
    show "J s \<le> length (times c s)" using at [of s] by (simp add: at_def)
    show "?t \<le> times c s ! J s" if "J s < length (times c s)"
      using that r(2) [of s] others [OF v, of s] by (cases "s \<in> ranks c") auto
  qed
  have sent: "before (times c s) (prog c s) (sends_to r) ?t \<le> length (sent (\<sigma> s) r)"
    and posted: "before (times c s) (prog c s) (recvs_from r) ?t \<le> posted (\<sigma> s) r" for s
    using passed [of s "sends_to r"] passed [of s "recvs_from r"] at_prefix [OF v at] by simp_all
  obtain q where q: "proc_exec (\<lambda>s. msgs c s r) (\<lambda>_ _. True) (\<sigma> r) = Some q"
    "in_time (\<lambda>s. before (times c s) (prog c s) (sends_to r)) (\<lambda>d. before (times c d) (prog c d) (recvs_from r)) ?t (\<sigma> r)"
    using at_next [OF v _ at, of r] r(1) by blast
  have "proc_step eager \<sigma> r \<noteq> None"
    unfolding proc_step_def using posted by (intro in_time_exec [OF q sent]) (auto intro: less_le_trans)
  with r(1) show ?thesis by blast
qed

text \<open>A rank that returned did what its schedule says, whatever the others did so far.\<close>

lemma returned:
  assumes v: "valid c" and st: "net_steps (ranks c) eager (\<lambda>r. entering (prog c r) (data c r) r) k \<sigma>"
    and r: "r \<in> ranks c" "code (\<sigma> r) = []"
  shows "\<sigma> r = final c r"
proof -
  obtain J where J: "\<And>r. at c r (J r) (\<sigma> r)" using reach_at [OF v st] by blast
  have "J r = length (times c r)"
    using at_prefix(1) [OF v J, of r] r length_times [OF v r(1)] J [of r] by (auto simp: at_def)
  then show ?thesis using J [of r] r(1) by (simp add: at_def run_to_def)
qed

text \<open>Executions are bounded, and one that cannot go on has brought every rank to its final state.\<close>

lemma bounded:
  assumes v: "valid c" and st: "net_steps (ranks c) eager (\<lambda>r. entering (prog c r) (data c r) r) k \<sigma>"
  shows "k \<le> (\<Sum>r \<in> ranks c. length (prog c r))"
proof -
  obtain J where J: "\<And>r. at c r (J r) (\<sigma> r)" "k = (\<Sum>r \<in> ranks c. J r)" using reach_at [OF v st] by blast
  show ?thesis unfolding J(2)
  proof (rule sum_mono)
    show "J r \<le> length (prog c r)" if "r \<in> ranks c" for r
      using J(1) [of r] length_times [OF v that] by (simp add: at_def)
  qed
qed

lemma completes:
  assumes v: "valid c" and st: "net_steps (ranks c) eager (\<lambda>r. entering (prog c r) (data c r) r) k \<sigma>"
    and stuck: "\<And>r. r \<in> ranks c \<Longrightarrow> proc_step eager \<sigma> r = None" and r: "r \<in> ranks c"
  shows "\<sigma> r = final c r"
proof (rule returned [OF v st r])
  obtain J where J: "\<And>r. at c r (J r) (\<sigma> r)" using reach_at [OF v st] by blast
  have "\<not> J r < length (times c r)" using some_moves [OF v J r, of eager] stuck by fastforce
  then show "code (\<sigma> r) = []"
    using at_prefix(1) [OF v J, of r] length_times [OF v r] by simp
qed

end

section \<open>What a rank has seen\<close>

text \<open>A rank that was seen by another has entered: it made a call.\<close>

definition entered :: "'a net \<Rightarrow> 'a net \<Rightarrow> rank \<Rightarrow> bool" where
  "entered \<sigma>0 \<sigma> r \<longleftrightarrow> length (code (\<sigma> r)) < length (code (\<sigma>0 r))"

definition seen_entered :: "'a net \<Rightarrow> 'a net \<Rightarrow> bool" where
  "seen_entered \<sigma>0 \<sigma> \<longleftrightarrow>
     (\<forall>r. length (code (\<sigma> r)) \<le> length (code (\<sigma>0 r)) \<and> (\<forall>x \<in> seen (\<sigma> r). x = r \<or> entered \<sigma>0 \<sigma> x) \<and>
          (\<forall>d. \<forall>m \<in> set (sent (\<sigma> r) d). \<forall>x \<in> snd m. entered \<sigma>0 \<sigma> x))"

lemma exec_calls:
  assumes "proc_exec inbox taken p = Some q"
  shows "length (code q) < length (code p)"
    "x \<in> seen q \<Longrightarrow> x \<in> seen p \<or> (\<exists>s. \<exists>m \<in> set (inbox s). x \<in> snd m)"
    "m \<in> set (sent q d) \<Longrightarrow> m \<in> set (sent p d) \<or> snd m = seen p"
  using assms nth_mem
  by (fastforce simp: proc_exec_def call_defs Let_def split: list.splits pml_op.splits option.splits if_splits)+

lemma steps_seen:
  assumes "net_steps R eager \<sigma>0 k \<sigma>" "seen_entered \<sigma>0 \<sigma>0"
  shows "seen_entered \<sigma>0 \<sigma>"
  using assms
proof (induction k \<sigma>)
  case (step k \<sigma> r p)
  let ?\<tau> = "\<sigma>(r := p)"
  have IH: "seen_entered \<sigma>0 \<sigma>" using step by simp
  have ex: "proc_exec (\<lambda>s. sent (\<sigma> s) r) (\<lambda>d k. eager r d k \<or> k < posted (\<sigma> d) r) (\<sigma> r) = Some p"
    using step.hyps by (simp add: proc_step_def)
  have len: "length (code (\<sigma> s)) \<le> length (code (\<sigma>0 s))"
    and see: "x \<in> seen (\<sigma> s) \<Longrightarrow> x = s \<or> entered \<sigma>0 \<sigma> x"
    and msg: "m \<in> set (sent (\<sigma> s) d) \<Longrightarrow> x \<in> snd m \<Longrightarrow> entered \<sigma>0 \<sigma> x" for s x m d
    using IH unfolding seen_entered_def by blast+
  have r: "entered \<sigma>0 ?\<tau> r" using exec_calls(1) [OF ex] len [of r] by (simp add: entered_def)
  have mono: "entered \<sigma>0 ?\<tau> x" if "entered \<sigma>0 \<sigma> x" for x using that r by (auto simp: entered_def)
  have "x = s \<or> entered \<sigma>0 ?\<tau> x" if "x \<in> seen (?\<tau> s)" for x s
  proof (cases "s = r")
    case True
    then have "x \<in> seen p" using that by simp
    from exec_calls(2) [OF ex this] see msg mono True show ?thesis by blast
  next
    case False
    then have "x \<in> seen (\<sigma> s)" using that by simp
    with see mono show ?thesis by blast
  qed
  moreover have "entered \<sigma>0 ?\<tau> x" if "m \<in> set (sent (?\<tau> s) d)" "x \<in> snd m" for m x s d
  proof (cases "s = r")
    case True
    then have "m \<in> set (sent p d)" using that by simp
    from exec_calls(3) [OF ex this] show ?thesis using see msg mono r that(2) by blast
  next
    case False
    then have "m \<in> set (sent (\<sigma> s) d)" using that by simp
    with msg mono that(2) show ?thesis by blast
  qed
  moreover have "length (code (?\<tau> s)) \<le> length (code (\<sigma>0 s))" for s
    using len [of s] exec_calls(1) [OF ex] by (cases "s = r") auto
  ultimately show ?case unfolding seen_entered_def by blast
qed simp

lemma entering_seen: "seen_entered (\<lambda>r. entering (f r) (g r) r) (\<lambda>r. entering (f r) (g r) r)"
  by (simp add: seen_entered_def entering_def)

end
