(* ===== verification/Coll_Exchange.thy ===== *)
theory Coll_Exchange
  imports Coll_Network
begin

text \<open>
  Collectives that proceed in rounds of empty messages. In a round a rank may post a receive, send to one
  rank and wait for the receive it posted in this or an earlier round. The locale \<open>exchange\<close> states when the
  rounds of the ranks fit together; it is a \<open>schedule\<close>, so every interleaving ends, and a rank that returned
  has heard of the ranks that the rounds connect it with.
\<close>

section \<open>Rounds\<close>

type_synonym partners = "nat \<Rightarrow> rank \<Rightarrow> rank option"

definition block :: "partners \<Rightarrow> partners \<Rightarrow> partners \<Rightarrow> rank \<Rightarrow> nat \<Rightarrow> (nat \<times> pml_op) list" where
  "block post to get r k =
     (case post k r of None \<Rightarrow> [] | Some s \<Rightarrow> [(2 * k, Irecv 0 0 s 0)]) @
     (case to k r of None \<Rightarrow> [] | Some d \<Rightarrow> [(2 * k, Isend 0 0 d), (2 * k + 1, Wait_sends)]) @
     (case get k r of None \<Rightarrow> [] | Some _ \<Rightarrow> [(2 * k + 1, Wait 0)])"

definition plan :: "partners \<Rightarrow> partners \<Rightarrow> partners \<Rightarrow> nat list \<Rightarrow> rank \<Rightarrow> (nat \<times> pml_op) list" where
  "plan post to get ks r = concat (map (block post to get r) ks)"

text \<open>How often \<open>f\<close> names \<open>x\<close> in the rounds before \<open>k\<close>.\<close>

primrec times_named :: "partners \<Rightarrow> rank \<Rightarrow> rank \<Rightarrow> nat \<Rightarrow> nat" where
  "times_named f r x 0 = 0"
| "times_named f r x (Suc k) = times_named f r x k + (if f k r = Some x then 1 else 0)"

text \<open>The receive that is pending before round \<open>k\<close>, and the one that round \<open>k\<close> may wait for.\<close>

primrec waiting :: "partners \<Rightarrow> partners \<Rightarrow> rank \<Rightarrow> nat \<Rightarrow> (rank \<times> nat) option" where
  "waiting post get r 0 = None"
| "waiting post get r (Suc k) =
     (if get k r \<noteq> None then None
      else case post k r of Some s \<Rightarrow> Some (s, times_named post r s k) | None \<Rightarrow> waiting post get r k)"

definition current :: "partners \<Rightarrow> partners \<Rightarrow> rank \<Rightarrow> nat \<Rightarrow> (rank \<times> nat) option" where
  "current post get r k =
     (case post k r of Some s \<Rightarrow> Some (s, times_named post r s k) | None \<Rightarrow> waiting post get r k)"

lemma waiting_same: "waiting f f r k = None"
  by (induction k) (auto split: option.splits)

lemma waiting_agree: "(\<And>i. i < k \<Longrightarrow> post i r = get i r) \<Longrightarrow> waiting post get r k = None"
  by (induction k) (auto split: option.splits)

lemma named_agree: "(\<And>i. i < k \<Longrightarrow> f i r = g i r) \<Longrightarrow> times_named f r x k = times_named g r x k"
  by (induction k) auto

lemma current_same: "f k r = Some s \<Longrightarrow> current f f r k = Some (s, times_named f r s k)"
  by (simp add: current_def)

definition sent_in :: "(nat \<Rightarrow> rank \<Rightarrow> rank set) \<Rightarrow> partners \<Rightarrow> rank \<Rightarrow> nat \<Rightarrow> rank \<Rightarrow> 'a message list" where
  "sent_in known to r k d = map (\<lambda>i. ([], known i r)) (filter (\<lambda>i. to i r = Some d) [0..<k])"

lemma sent_in_length: "length (sent_in known to r k d) = times_named to r d k"
  by (induction k) (auto simp: sent_in_def)

lemma sent_in_Suc:
  "sent_in known to r (Suc k) d = sent_in known to r k d @ (if to k r = Some d then [([], known k r)] else [])"
  by (simp add: sent_in_def)

lemma sent_in_nth:
  "i < k \<Longrightarrow> to i r = Some d \<Longrightarrow>
   times_named to r d i < length (sent_in known to r k d) \<and> sent_in known to r k d ! times_named to r d i = ([], known i r)"
proof (induction k)
  case (Suc k)
  then show ?case
    by (cases "i = k") (auto simp: sent_in_Suc nth_append sent_in_length)
qed simp

definition pend :: "(rank \<times> nat) option \<Rightarrow> pending list" where
  "pend w = (case w of None \<Rightarrow> [] | Some (s, j) \<Rightarrow> [\<lparr>handle = 0, source = s, ticket = j, region = (0, 0)\<rparr>])"

definition after_rounds :: "(nat \<Rightarrow> rank \<Rightarrow> rank set) \<Rightarrow> partners \<Rightarrow> partners \<Rightarrow> partners \<Rightarrow> rank \<Rightarrow> nat \<Rightarrow> nat \<Rightarrow> 'a proc" where
  "after_rounds known post to get r m k =
     \<lparr>code = map snd (plan post to get [k..<m] r), buf = [], sent = sent_in known to r k,
      posted = (\<lambda>s. times_named post r s k), recvs = pend (waiting post get r k), sends = [],
      seen = known k r, outcome = Fine\<rparr>"

lemma filter_upt_sorted: "sorted xs \<Longrightarrow> distinct xs \<Longrightarrow> set xs \<subseteq> {0..<m} \<Longrightarrow> filter (\<lambda>k. k \<in> set xs) [0..<m] = xs"
  by (rule sorted_distinct_set_unique) (auto simp: sorted_wrt_filter)

text \<open>Only the rounds \<open>xs\<close> in which a rank takes part matter.\<close>

lemma plan_active:
  assumes "sorted xs" "distinct xs" "set xs \<subseteq> {0..<m}"
    and idle: "\<And>k. k < m \<Longrightarrow> k \<notin> set xs \<Longrightarrow> post k r = None \<and> to k r = None \<and> get k r = None"
  shows "plan post to get [0..<m] r = plan post to get xs r"
proof -
  have "plan post to get ks r = plan post to get (filter (\<lambda>k. k \<in> set xs) ks) r" if "set ks \<subseteq> {0..<m}" for ks
    using that idle by (induction ks) (auto simp: plan_def block_def)
  from this [of "[0..<m]"] show ?thesis by (simp add: filter_upt_sorted assms(1-3))
qed

lemma plan_sorted: "sorted (map fst (plan post to get [0..<m] r))"
proof (induction m)
  case (Suc m)
  have "t < 2 * m" if "t \<in> fst ` set (plan post to get [0..<m] r)" for t
    using that by (fastforce simp: plan_def block_def split: option.splits)
  then have "t \<le> u" if "t \<in> fst ` set (plan post to get [0..<m] r)" "u \<in> fst ` set (block post to get r m)" for t u
    using that by (fastforce simp: block_def split: option.splits)
  moreover have "sorted (map fst (block post to get r m))" by (auto simp: block_def split: option.splits)
  ultimately show ?case using Suc by (auto simp: plan_def sorted_append)
qed (simp add: plan_def)

lemma before_plan:
  "before (map fst (plan post to get [0..<m] r)) (map snd (plan post to get [0..<m] r)) P t =
     (\<Sum>k<m. length (filter (\<lambda>(u, op). u < t \<and> P op) (block post to get r k)))"
  unfolding before_def zip_map_fst_snd
  by (induction m) (simp_all add: plan_def)

lemma before_rounds:
  assumes "k < m"
  shows "before (map fst (plan post to get [0..<m] r)) (map snd (plan post to get [0..<m] r)) (sends_to x) (2 * k + 1)
      = times_named to r x (Suc k)"
    "before (map fst (plan post to get [0..<m] r)) (map snd (plan post to get [0..<m] r)) (recvs_from x) (2 * k + 1)
      = times_named post r x (Suc k)"
proof -
  have count: "(\<Sum>i<m. if i \<le> k \<and> f i r = Some x then 1 else 0) = times_named f r x (Suc k)" for f :: partners
  proof -
    have "(\<Sum>i<m. if i \<le> k \<and> f i r = Some x then 1 else 0) = (\<Sum>i<Suc k. if f i r = Some x then 1 else (0::nat))"
      using assms by (intro sum.mono_neutral_cong_right) auto
    moreover have "(\<Sum>i<n. if f i r = Some x then 1 else 0) = times_named f r x n" for n by (induction n) auto
    ultimately show ?thesis by simp
  qed
  have "length (filter (\<lambda>(u, op). u < 2 * k + 1 \<and> sends_to x op) (block post to get r i)) =
      (if i \<le> k \<and> to i r = Some x then 1 else 0)"
    "length (filter (\<lambda>(u, op). u < 2 * k + 1 \<and> recvs_from x op) (block post to get r i)) =
      (if i \<le> k \<and> post i r = Some x then 1 else 0)" for i
    by (auto simp: block_def sends_to_def recvs_from_def split: option.splits)
  then show "before (map fst (plan post to get [0..<m] r)) (map snd (plan post to get [0..<m] r)) (sends_to x) (2 * k + 1)
      = times_named to r x (Suc k)"
    "before (map fst (plan post to get [0..<m] r)) (map snd (plan post to get [0..<m] r)) (recvs_from x) (2 * k + 1)
      = times_named post r x (Suc k)"
    by (simp_all only: before_plan count)
qed

section \<open>One round\<close>

lemma pend_find: "find (\<lambda>rv. handle rv = 0) (pend w) =
    (case w of None \<Rightarrow> None | Some (s, j) \<Rightarrow> Some \<lparr>handle = 0, source = s, ticket = j, region = (0, 0)\<rparr>)"
  by (auto simp: pend_def split: option.splits)

lemma round_runs:
  assumes code: "code p = map snd (block post to get r k) @ ops"
    and p: "buf p = []" "recvs p = pend w" "sends p = []"
    and post: "post k r \<noteq> None \<Longrightarrow> w = None"
    and to: "\<And>d. to k r = Some d \<Longrightarrow> length (sent p d) < pb d (2 * k + 1)"
    and get: "\<And>s. get k r = Some s \<Longrightarrow>
      \<exists>j. (case post k r of Some s \<Rightarrow> Some (s, posted p s) | None \<Rightarrow> w) = Some (s, j) \<and>
          j < sb s (2 * k + 1) \<and> j < length (inbox s) \<and> inbox s ! j = ([], heard)"
  shows "timed_run inbox sb pb (map fst (block post to get r k)) p = Some (p\<lparr>code := ops,
     sent := (case to k r of None \<Rightarrow> sent p | Some d \<Rightarrow> (sent p)(d := sent p d @ [([], seen p)])),
     posted := (case post k r of None \<Rightarrow> posted p | Some s \<Rightarrow> (posted p)(s := posted p s + 1)),
     recvs := pend (if get k r \<noteq> None then None else case post k r of Some s \<Rightarrow> Some (s, posted p s) | None \<Rightarrow> w),
     seen := seen p \<union> (if get k r = None then {} else heard)\<rparr>)"
proof (cases "get k r")
  case None
  then show ?thesis using assms
    by (cases "post k r"; cases "to k r") (simp_all add: block_def run_call pend_def apart_def del: timed_run.simps(2))
next
  case (Some s)
  with get [of s] obtain j where j: "(case post k r of Some s \<Rightarrow> Some (s, posted p s) | None \<Rightarrow> w) = Some (s, j)"
    "j < sb s (2 * k + 1)" "j < length (inbox s)" "inbox s ! j = ([], heard)" by blast
  with Some code p post to show ?thesis
    by (cases "post k r"; cases "to k r")
      (simp_all add: block_def run_call pend_def apart_def del: timed_run.simps(2))
qed

lemma round_follows:
  assumes k: "k < m" and r: "post k r \<noteq> None \<Longrightarrow> waiting post get r k = None"
    and to: "\<And>d. to k r = Some d \<Longrightarrow> times_named to r d k < pb d (2 * k + 1)"
    and get: "\<And>s. get k r = Some s \<Longrightarrow> \<exists>j. current post get r k = Some (s, j) \<and>
      j < sb s (2 * k + 1) \<and> j < length (inbox s) \<and> inbox s ! j = ([], heard)"
    and known: "known (Suc k) r = known k r \<union> (if get k r = None then {} else heard)"
  shows "timed_run inbox sb pb (map fst (block post to get r k)) (after_rounds known post to get r m k) =
    Some (after_rounds known post to get r m (Suc k))"
proof -
  let ?p = "after_rounds known post to get r m k"
  have "[k..<m] = k # [Suc k..<m]" using k by (simp add: upt_conv_Cons)
  then have code: "code ?p = map snd (block post to get r k) @ map snd (plan post to get [Suc k..<m] r)"
    by (simp add: after_rounds_def plan_def)
  show ?thesis
    by (subst round_runs [OF code, where w = "waiting post get r k" and heard = heard])
      (use r to get known in \<open>auto simp: after_rounds_def current_def sent_in_length sent_in_Suc fun_eq_iff split: option.splits\<close>)
qed

section \<open>The contract\<close>

text \<open>The ranks a rank has heard of before round \<open>k\<close>, when messages are got in the round they are sent.\<close>

primrec known :: "partners \<Rightarrow> nat \<Rightarrow> rank \<Rightarrow> rank set" where
  "known get 0 r = {r}"
| "known get (Suc k) r = known get k r \<union> (case get k r of None \<Rightarrow> {} | Some s \<Rightarrow> known get k s)"

lemma known_self: "r \<in> known get k r"
  by (induction k) auto

lemma known_mono: "i \<le> k \<Longrightarrow> known get i r \<subseteq> known get k r"
  by (induction k) (auto simp: le_Suc_eq)

lemma known_idle: "(\<And>i. i < k \<Longrightarrow> get i r = None) \<Longrightarrow> known get k r = {r}"
  by (induction k) auto

lemma mono_named: "i \<le> k \<Longrightarrow> times_named f r x i \<le> times_named f r x k"
  by (induction k) (auto simp: le_Suc_eq)

lemma waiting_posted: "waiting post get r k = Some (s, j) \<Longrightarrow> j < times_named post r s k"
  by (induction k) (auto split: if_splits option.splits)

lemma current_posted: "current post get r k = Some (s, j) \<Longrightarrow> j < times_named post r s (Suc k)"
  using waiting_posted [of post get r k s j] by (auto simp: current_def split: option.splits)

lemma matched_named:
  assumes "\<And>i. i < k \<Longrightarrow> to i s = Some r \<longleftrightarrow> get i r = Some s"
  shows "times_named to s r k = times_named get r s k"
  using assms by (induction k) auto

locale exchange =
  fixes ok :: "'c \<Rightarrow> bool"
    and members :: "'c \<Rightarrow> rank set"
    and rounds :: "'c \<Rightarrow> nat"
    and post :: "'c \<Rightarrow> partners"
    and to :: "'c \<Rightarrow> partners"
    and get :: "'c \<Rightarrow> partners"
  assumes finite_members: "ok c \<Longrightarrow> finite (members c)"
    and outside: "ok c \<Longrightarrow> r \<notin> members c \<Longrightarrow> k < rounds c \<Longrightarrow> post c k r = None \<and> to c k r = None \<and> get c k r = None"
    and matched: "ok c \<Longrightarrow> k < rounds c \<Longrightarrow> to c k r = Some d \<longleftrightarrow> get c k d = Some r"
    and one_receive: "ok c \<Longrightarrow> r \<in> members c \<Longrightarrow> k < rounds c \<Longrightarrow> post c k r \<noteq> None \<Longrightarrow>
      waiting (post c) (get c) r k = None"
    and posted_for: "ok c \<Longrightarrow> r \<in> members c \<Longrightarrow> k < rounds c \<Longrightarrow> get c k r = Some s \<Longrightarrow>
      current (post c) (get c) r k = Some (s, times_named (get c) r s k)"
begin

definition round_prog :: "'c \<Rightarrow> rank \<Rightarrow> pml_op list" where
  "round_prog c r = map snd (plan (post c) (to c) (get c) [0..<rounds c] r)"

definition round_times :: "'c \<Rightarrow> rank \<Rightarrow> nat list" where
  "round_times c r = map fst (plan (post c) (to c) (get c) [0..<rounds c] r)"

definition round_msgs :: "'c \<Rightarrow> rank \<Rightarrow> rank \<Rightarrow> u8 message list" where
  "round_msgs c r = sent_in (known (get c)) (to c) r (rounds c)"

definition round_end :: "'c \<Rightarrow> rank \<Rightarrow> u8 proc" where
  "round_end c r = after_rounds (known (get c)) (post c) (to c) (get c) r (rounds c) (rounds c)"

lemma same_count: "ok c \<Longrightarrow> k \<le> rounds c \<Longrightarrow> times_named (to c) s r k = times_named (get c) r s k"
  by (rule matched_named) (simp add: matched)

lemma rounds_follow:
  assumes ok: "ok c" and r: "r \<in> members c" and k: "k \<le> rounds c"
  shows "timed_run (\<lambda>s. round_msgs c s r) (\<lambda>s. before (round_times c s) (round_prog c s) (sends_to r))
      (\<lambda>d. before (round_times c d) (round_prog c d) (recvs_from r))
      (map fst (plan (post c) (to c) (get c) [0..<k] r)) (entering (round_prog c r) [] r)
    = Some (after_rounds (known (get c)) (post c) (to c) (get c) r (rounds c) k)"
  using k
proof (induction k)
  case 0
  then show ?case
    by (auto simp: plan_def entering_def after_rounds_def round_prog_def sent_in_def pend_def fun_eq_iff)
next
  case (Suc k)
  then have k: "k < rounds c" by simp
  let ?run = "timed_run (\<lambda>s. round_msgs c s r) (\<lambda>s. before (round_times c s) (round_prog c s) (sends_to r))
      (\<lambda>d. before (round_times c d) (round_prog c d) (recvs_from r))"
  let ?heard = "case get c k r of None \<Rightarrow> {} | Some s \<Rightarrow> known (get c) k s"
  have "?run (map fst (block (post c) (to c) (get c) r k)) (after_rounds (known (get c)) (post c) (to c) (get c) r (rounds c) k)
    = Some (after_rounds (known (get c)) (post c) (to c) (get c) r (rounds c) (Suc k))"
  proof (rule round_follows [where heard = ?heard])
    show "k < rounds c" by (rule k)
    show "waiting (post c) (get c) r k = None" if "post c k r \<noteq> None" by (rule one_receive [OF ok r k that])
    show "known (get c) (Suc k) r = known (get c) k r \<union> (if get c k r = None then {} else ?heard)" by simp
    show "times_named (to c) r d k < before (round_times c d) (round_prog c d) (recvs_from r) (2 * k + 1)"
      if d: "to c k r = Some d" for d
    proof -
      have got: "get c k d = Some r" using matched [OF ok k] d by simp
      then have "d \<in> members c" using outside [OF ok _ k] by fastforce
      then have "times_named (get c) d r k < times_named (post c) d r (Suc k)"
        using current_posted [OF posted_for [OF ok _ k got]] by blast
      then show ?thesis
        using same_count [OF ok, of k r d] k by (simp add: round_times_def round_prog_def before_rounds(2) [OF k, simplified])
    qed
    show "\<exists>j. current (post c) (get c) r k = Some (s, j) \<and>
        j < before (round_times c s) (round_prog c s) (sends_to r) (2 * k + 1) \<and>
        j < length (round_msgs c s r) \<and> round_msgs c s r ! j = ([], ?heard)"
      if s: "get c k r = Some s" for s
      using posted_for [OF ok r k s] s sent_in_nth [of k "rounds c" "to c" s r "known (get c)"] k
        matched [OF ok k, of s r] same_count [OF ok, of k s r]
      by (auto simp: round_times_def round_prog_def round_msgs_def before_rounds(1) [OF k, simplified])
  qed
  then show ?case using Suc by (simp add: timed_run_append plan_def)
qed

end

sublocale exchange \<subseteq> schedule ok members round_prog "\<lambda>_ _. [] :: u8 list" round_times round_msgs round_end
proof
  fix c assume c: "ok c"
  show "finite (members c)" by (rule finite_members [OF c])
  fix r
  show "round_prog c r = [] \<and> round_times c r = []" if "r \<notin> members c"
    using outside [OF c that] by (simp add: round_prog_def round_times_def plan_def block_def)
  show "sorted (round_times c r)" by (simp add: round_times_def plan_sorted)
  show "length (round_times c r) = length (round_prog c r)" by (simp add: round_times_def round_prog_def)
  show "outcome (round_end c r) = Fine" "sent (round_end c r) = round_msgs c r"
    by (simp_all add: round_end_def after_rounds_def round_msgs_def)
  show "timed_run (\<lambda>s. round_msgs c s r) (\<lambda>s. before (round_times c s) (round_prog c s) (sends_to r))
     (\<lambda>d. before (round_times c d) (round_prog c d) (recvs_from r)) (round_times c r) (entering (round_prog c r) [] r)
     = Some (round_end c r)" if "r \<in> members c"
    using rounds_follow [OF c that order_refl] by (simp add: round_times_def round_end_def)
qed

section \<open>Barriers\<close>

text \<open>
  The ranks \<open>0\<close> to \<open>n - 1\<close> about to run \<open>prog\<close>, and what makes it a barrier: the calls are defined for every
  rank; every interleaving is finite and cannot get stuck before every rank has returned without an error; and
  when a rank has returned, every rank has entered.
\<close>

definition barrier_net :: "int \<Rightarrow> (rank \<Rightarrow> pml_op list option) \<Rightarrow> u8 net" where
  "barrier_net n prog r =
     entering (if 0 \<le> r \<and> r < n then (case prog r of None \<Rightarrow> [] | Some ops \<Rightarrow> ops) else []) [] r"

definition synchronising :: "int \<Rightarrow> (rank \<Rightarrow> pml_op list option) \<Rightarrow> bool" where
  "synchronising n prog \<longleftrightarrow>
     (\<forall>r \<in> {0..<n}. prog r \<noteq> None) \<and>
     (\<forall>eager k \<sigma>. net_steps {0..<n} eager (barrier_net n prog) k \<sigma> \<longrightarrow>
        k \<le> (\<Sum>r \<in> {0..<n}. length (code (barrier_net n prog r))) \<and>
        ((\<forall>r \<in> {0..<n}. proc_step eager \<sigma> r = None) \<longrightarrow> (\<forall>r \<in> {0..<n}. code (\<sigma> r) = [] \<and> outcome (\<sigma> r) = Fine)) \<and>
        (\<forall>r \<in> {0..<n}. code (\<sigma> r) = [] \<longrightarrow> (\<forall>q \<in> {0..<n}. entered (barrier_net n prog) \<sigma> q)))"

lemma synchronising_cong:
  assumes "synchronising n f" "\<And>r. 0 \<le> r \<Longrightarrow> r < n \<Longrightarrow> f r = g r"
  shows "synchronising n g"
proof -
  have "barrier_net n g = barrier_net n f" using assms(2) by (auto simp: barrier_net_def fun_eq_iff)
  then show ?thesis using assms by (auto simp: synchronising_def)
qed

context exchange begin

text \<open>A rank that returned from rounds that connect it with every rank returned after all of them entered.\<close>

lemma synchronises:
  assumes ok: "ok c" and st: "net_steps (members c) eager (\<lambda>r. entering (round_prog c r) ([] :: u8 list) r) n \<sigma>"
    and r: "r \<in> members c" "code (\<sigma> r) = []" and q: "q \<in> known (get c) (rounds c) r"
  shows "q = r \<or> entered (\<lambda>r. entering (round_prog c r) ([] :: u8 list) r) \<sigma> q"
proof -
  have "seen (\<sigma> r) = known (get c) (rounds c) r"
    using returned [OF ok st r] by (simp add: round_end_def after_rounds_def)
  then show ?thesis using steps_seen [OF st entering_seen] q by (auto simp: seen_entered_def)
qed

lemma round_prog_idle: "round_prog c r = [] \<Longrightarrow> known (get c) (rounds c) r = {r}"
  by (rule known_idle) (force simp: round_prog_def plan_def block_def split: option.splits)

lemma barrier:
  assumes ok: "ok c" and n: "members c = {0..<n}" "2 \<le> n"
    and prog: "\<And>r. r \<in> {0..<n} \<Longrightarrow> prog r = Some (round_prog c r)"
    and all: "\<And>r. r \<in> {0..<n} \<Longrightarrow> {0..<n} \<subseteq> known (get c) (rounds c) r"
  shows "synchronising n prog"
proof -
  have busy: "round_prog c r \<noteq> []" if "r \<in> {0..<n}" for r
  proof
    assume "round_prog c r = []"
    then have "{0..<n} \<subseteq> {r}" using all [OF that] round_prog_idle by simp
    moreover have "0 \<in> {0..<n}" "1 \<in> {0..<n}" using n(2) by simp_all
    ultimately have "0 = r" "1 = r" by blast+
    then show False by simp
  qed
  have net: "barrier_net n prog = (\<lambda>r. entering (round_prog c r) [] r)"
    using prog others [OF ok] by (auto simp: barrier_net_def n(1) fun_eq_iff)
  have code: "code (barrier_net n prog r) = round_prog c r" for r by (simp add: net entering_def)
  show ?thesis unfolding synchronising_def
  proof (intro conjI allI impI ballI)
    show "prog r \<noteq> None" if "r \<in> {0..<n}" for r using prog [OF that] by simp
    fix eager k \<sigma> assume st: "net_steps {0..<n} eager (barrier_net n prog) k \<sigma>"
    then have st': "net_steps (members c) eager (\<lambda>r. entering (round_prog c r) [] r) k \<sigma>" by (simp add: net n(1))
    show "k \<le> (\<Sum>r \<in> {0..<n}. length (code (barrier_net n prog r)))"
      using bounded [OF ok st'] by (simp add: code n(1))
    have ends: "\<sigma> r = round_end c r" if "\<forall>r \<in> {0..<n}. proc_step eager \<sigma> r = None" "r \<in> {0..<n}" for r
      using completes [OF ok st', of r] that by (simp add: n(1))
    show "code (\<sigma> r) = []" "outcome (\<sigma> r) = Fine"
      if "\<forall>r \<in> {0..<n}. proc_step eager \<sigma> r = None" "r \<in> {0..<n}" for r
      using ends [OF that] by (simp_all add: round_end_def after_rounds_def plan_def)
    show "entered (barrier_net n prog) \<sigma> q" if "r \<in> {0..<n}" "code (\<sigma> r) = []" "q \<in> {0..<n}" for r q
    proof (cases "q = r")
      case True
      then show ?thesis using busy [OF that(1)] that(2) by (simp add: entered_def code)
    next
      case False
      then show ?thesis using synchronises [OF ok st', of r q] that all [OF that(1)] by (auto simp: n(1) net)
    qed
  qed
qed

end

end
