(* ===== verification/Opal_Bit_Ops.thy ===== *)
theory Opal_Bit_Ops
  imports Mpi_Ucx_Prelude
begin

unbundle bit_operations_syntax

text \<open>
  The powers of two of \<^verbatim>\<open>opal/util/bit_ops.h\<close>. The sources apply \<open>/\<close> and \<open>%\<close> to operands that are not
  negative, where they are \<open>div\<close> and \<open>mod\<close>. Of the two variants of each function in the header, the loops
  are modelled; the other uses a compiler builtin.
\<close>

section \<open>Definitions\<close>

function next_pow2_loop :: "int \<Rightarrow> int \<Rightarrow> int option" where
  "next_pow2_loop value pow2 =
     (if value > 0 then do { p \<leftarrow> c_int (2 * pow2); next_pow2_loop (value div 2) p } else Some pow2)"
  by pat_completeness auto
termination
  by (relation "measure (\<lambda>(v, _). nat v)") auto

definition opal_next_poweroftwo :: "int \<Rightarrow> int option" where
  "opal_next_poweroftwo value = next_pow2_loop value 1"

partial_function (option) pow2_inclusive_loop :: "int \<Rightarrow> int \<Rightarrow> int option" where
  "pow2_inclusive_loop value pow2 =
     (if pow2 < value then do { p \<leftarrow> c_int (2 * pow2); pow2_inclusive_loop value p } else Some pow2)"

definition opal_next_poweroftwo_inclusive :: "int \<Rightarrow> int option" where
  "opal_next_poweroftwo_inclusive value = pow2_inclusive_loop value 1"

section \<open>Powers of two\<close>

declare next_pow2_loop.simps [simp del]

text \<open>The number of doublings that take 1 to at least \<open>n\<close>.\<close>

definition doublings :: "int \<Rightarrow> nat" where
  "doublings n = (LEAST k. n \<le> 2 ^ k)"

lemma power_above: "\<exists>k. n \<le> 2 ^ k" for n :: int
proof -
  have "int (nat n) < int (2 ^ nat n)" unfolding of_nat_less_iff by (rule less_exp)
  then have "n \<le> 2 ^ nat n" by (cases "0 \<le> n") auto
  then show ?thesis ..
qed

lemma doublings_le: "n \<le> 2 ^ k \<longleftrightarrow> doublings n \<le> k"
proof
  show "n \<le> 2 ^ k \<Longrightarrow> doublings n \<le> k" unfolding doublings_def by (rule Least_le)
  have "n \<le> 2 ^ doublings n" unfolding doublings_def by (rule LeastI_ex [OF power_above])
  then show "n \<le> 2 ^ k" if "doublings n \<le> k" using power_increasing [OF that, of "2 :: int"] by linarith
qed

lemma doublings_less: "2 ^ k < n \<longleftrightarrow> k < doublings n"
  using doublings_le [of n k] by (simp add: not_le [symmetric])

lemma small_power: "2 ^ k < (n :: int) \<Longrightarrow> n \<le> 2 ^ 30 \<Longrightarrow> (2 :: int) * 2 ^ k < 2 ^ 31"
  by simp

lemma next_pow2_loop_works:
  "v < 2 ^ k \<Longrightarrow> (k = 0 \<longrightarrow> v \<le> 0) \<Longrightarrow> (0 < k \<longrightarrow> 2 ^ (k - 1) \<le> v) \<Longrightarrow> 0 < p \<Longrightarrow> p * 2 ^ k < 2 ^ 31 \<Longrightarrow>
   next_pow2_loop v p = Some (p * 2 ^ k)"
proof (induction k arbitrary: v p)
  case 0
  then show ?case by (simp add: next_pow2_loop.simps)
next
  case (Suc k)
  have pos: "0 < v" using Suc.prems(3) by (simp add: less_le_trans [of 0 "2 ^ k" v])
  have "2 * p * 2 ^ k = p * 2 ^ Suc k" by simp
  moreover have "2 * p \<le> 2 * p * 2 ^ k" using Suc.prems(4) by simp
  ultimately have fits: "2 * p < 2 ^ 31" using Suc.prems(5) by linarith
  have "v div 2 < 2 ^ k" using Suc.prems(1) by simp
  moreover have "k = 0 \<longrightarrow> v div 2 \<le> 0" using Suc.prems(1) by auto
  moreover have "0 < k \<longrightarrow> 2 ^ (k - 1) \<le> v div 2"
    using Suc.prems(3) by (cases k) (auto simp: zdiv_mono1 [of "2 * 2 ^ _" v 2, simplified])
  ultimately have "next_pow2_loop (v div 2) (2 * p) = Some (2 * p * 2 ^ k)"
    using Suc.IH [of "v div 2" "2 * p"] Suc.prems(4,5) by simp
  then show ?case using pos fits Suc.prems(4) by (subst next_pow2_loop.simps) simp
qed

lemma next_poweroftwo_works:
  assumes "0 \<le> v" "v < 2 ^ 30"
  shows "opal_next_poweroftwo v = Some (2 ^ doublings (v + 1))"
proof -
  let ?k = "doublings (v + 1)"
  have le: "v < 2 ^ ?k" using doublings_le [of "v + 1" ?k] by simp
  have ge: "0 < ?k \<longrightarrow> 2 ^ (?k - 1) \<le> v" using doublings_less [of "?k - 1" "v + 1"] by auto
  have "?k \<le> 30" using doublings_le [of "v + 1" 30] assms by simp
  then have "(2 :: int) ^ ?k < 2 ^ 31" by (intro power_strict_increasing) simp_all
  moreover have "?k = 0 \<longrightarrow> v \<le> 0" using le by auto
  ultimately show ?thesis
    using next_pow2_loop_works [of v ?k 1] le ge by (simp add: opal_next_poweroftwo_def)
qed

lemma pow2_inclusive_works: "k \<le> doublings n \<Longrightarrow> n \<le> 2 ^ 30 \<Longrightarrow> pow2_inclusive_loop n (2 ^ k) = Some (2 ^ doublings n)"
proof (induction "doublings n - k" arbitrary: k)
  case 0
  then show ?case using doublings_less [of k n] by (simp add: pow2_inclusive_loop.simps)
next
  case (Suc d)
  then have k: "2 ^ k < n" using doublings_less [of k n] by simp
  have "c_int (2 * 2 ^ k) = Some (2 ^ Suc k)" using small_power [OF k Suc.prems(2)] by simp
  with k Suc.hyps(1) [of "Suc k"] Suc.hyps(2) Suc.prems show ?case by (subst pow2_inclusive_loop.simps) simp
qed

lemma next_poweroftwo_inclusive_works: "n \<le> 2 ^ 30 \<Longrightarrow> opal_next_poweroftwo_inclusive n = Some (2 ^ doublings n)"
  using pow2_inclusive_works [of 0 n] by (simp add: opal_next_poweroftwo_inclusive_def)

section \<open>Single bits\<close>

lemma xor_power: "r XOR 2 ^ k = (if odd (r div 2 ^ k) then r - 2 ^ k else r + 2 ^ k)" for r :: int
proof -
  have "r XOR 2 ^ k = flip_bit k r" by (simp add: flip_bit_eq_xor push_bit_of_1)
  also have "\<dots> = (if odd (r div 2 ^ k) then r - 2 ^ k else r + 2 ^ k)"
    by (simp add: flip_bit_eq_if set_bit_eq unset_bit_eq bit_iff_odd)
  finally show ?thesis .
qed

lemma xor_power_inverse: "(r XOR 2 ^ k) XOR 2 ^ k = r" for r :: int
  by (simp add: xor.assoc)

lemma and_power_less: "r AND (2 ^ k - 1) = r mod 2 ^ k" for r :: int
  by (simp add: take_bit_eq_mask [symmetric] mask_eq_exp_minus_1 [symmetric] take_bit_eq_mod)

lemma mod_power_Suc: "r mod 2 ^ Suc k = r mod 2 ^ k + (if odd (r div 2 ^ k) then 2 ^ k else 0)" for r :: int
  using zmod_zmult2_eq [of "2" r "2 ^ k"] by (auto simp: odd_iff_mod_2_eq_one mult.commute)

lemma xor_power_mod: "(r XOR 2 ^ k) mod 2 ^ k = r mod 2 ^ k" for r :: int
  by (auto simp: xor_power minus_mod_self2)

lemma xor_power_div: "(r XOR 2 ^ k) div 2 ^ Suc k = r div 2 ^ Suc k" for r :: int
proof -
  have half: "r div 2 ^ Suc k = (r div 2 ^ k) div 2" for r :: int by (simp add: zdiv_zmult2_eq [symmetric] mult.commute)
  have flip: "(r XOR 2 ^ k) div 2 ^ k = (if odd (r div 2 ^ k) then r div 2 ^ k - 1 else r div 2 ^ k + 1)"
    using div_add_self2 [of "2 ^ k" "r - 2 ^ k"] div_add_self2 [of "2 ^ k" r] by (simp add: xor_power)
  have "(if odd q then q - 1 else q + 1) div 2 = q div 2" for q :: int by (cases "odd q") presburger+
  then show ?thesis by (simp only: half flip)
qed

end
