(* ===== verification/Coll_Base_Barrier.thy ===== *)
theory Coll_Base_Barrier
  imports Coll_Exchange Opal_Bit_Ops
begin

unbundle bit_operations_syntax

text \<open>
  The barriers of \<^verbatim>\<open>ompi/mca/coll/base/coll_base_barrier.c\<close>. Each function gives the calls that one rank of
  a communicator makes; \<open>None\<close> is a signed overflow. \<open>ompi_coll_base_barrier_intra_basic_linear\<close> receives from
  any source and is not modelled, nor are the paths after a call that fails. A synchronous send ends like a
  standard one that is not buffered, so both are \<open>Isend\<close> and the results hold for either.
\<close>

section \<open>Calls\<close>

definition ompi_coll_base_sendrecv_zero :: "rank \<Rightarrow> rank \<Rightarrow> pml_op list" where
  "ompi_coll_base_sendrecv_zero dest src = [Irecv 0 0 src 0, Isend 0 0 dest, Wait_sends, Wait 0]"

text \<open>The blocking calls with no data.\<close>

definition recv_zero :: "rank \<Rightarrow> pml_op list" where
  "recv_zero src = [Irecv 0 0 src 0, Wait 0]"

definition send_zero :: "rank \<Rightarrow> pml_op list" where
  "send_zero dest = [Isend 0 0 dest, Wait_sends]"

definition ompi_coll_base_barrier_intra_doublering :: "int \<Rightarrow> rank \<Rightarrow> pml_op list option" where
  "ompi_coll_base_barrier_intra_doublering n rank =
     (if n = 1 then Some []
      else do {
        sum \<leftarrow> c_int (n + rank);
        let left = (sum - 1) mod n;
        succ \<leftarrow> c_int (rank + 1);
        let right = succ mod n;
        Some ((if rank > 0 then recv_zero left else []) @ send_zero right @
              (if rank = 0 then recv_zero left else []) @
              (if rank > 0 then recv_zero left else []) @ send_zero right @
              (if rank = 0 then recv_zero left else []))
      })"

text \<open>The loop over \<open>mask\<close>.\<close>

partial_function (option) recursivedoubling_loop :: "rank \<Rightarrow> int \<Rightarrow> int \<Rightarrow> pml_op list option" where
  "recursivedoubling_loop rank adjsize msk =
     (if msk < adjsize then do {
        let remote = rank XOR msk;
        msk' \<leftarrow> c_int (2 * msk);
        rest \<leftarrow> recursivedoubling_loop rank adjsize msk';
        Some ((if remote \<ge> adjsize then [] else ompi_coll_base_sendrecv_zero remote remote) @ rest)
      }
      else Some [])"

definition ompi_coll_base_barrier_intra_recursivedoubling :: "int \<Rightarrow> rank \<Rightarrow> pml_op list option" where
  "ompi_coll_base_barrier_intra_recursivedoubling n rank =
     (if n = 1 then Some []
      else do {
        p \<leftarrow> opal_next_poweroftwo n;
        let adjsize = p div 2;
        exchange \<leftarrow> (if rank < adjsize then recursivedoubling_loop rank adjsize 1 else Some []);
        Some ((if adjsize \<noteq> n
               then (if rank \<ge> adjsize then ompi_coll_base_sendrecv_zero (rank - adjsize) (rank - adjsize)
                     else if rank < n - adjsize then recv_zero (rank + adjsize) else [])
               else []) @
              exchange @
              (if adjsize \<noteq> n \<and> rank < n - adjsize then send_zero (rank + adjsize) else []))
      })"

partial_function (option) bruck_loop :: "int \<Rightarrow> rank \<Rightarrow> int \<Rightarrow> pml_op list option" where
  "bruck_loop n rank distance =
     (if distance < n then do {
        sum \<leftarrow> c_int (rank + n);
        let from = (sum - distance) mod n;
        sum' \<leftarrow> c_int (rank + distance);
        let to = sum' mod n;
        distance' \<leftarrow> c_int (2 * distance);
        rest \<leftarrow> bruck_loop n rank distance';
        Some (ompi_coll_base_sendrecv_zero to from @ rest)
      }
      else Some [])"

definition ompi_coll_base_barrier_intra_bruck :: "int \<Rightarrow> rank \<Rightarrow> pml_op list option" where
  "ompi_coll_base_barrier_intra_bruck n rank = (if n = 1 then Some [] else bruck_loop n rank 1)"

text \<open>\<open>Inl\<close> is \<open>MPI_ERR_UNSUPPORTED_OPERATION\<close>.\<close>

definition ompi_coll_base_barrier_intra_two_procs :: "int \<Rightarrow> rank \<Rightarrow> (unit + pml_op list)" where
  "ompi_coll_base_barrier_intra_two_procs n rank =
     (if n = 1 then Inr []
      else if n \<noteq> 2 then Inl ()
      else (let remote = (rank + 1) AND 1 in Inr (ompi_coll_base_sendrecv_zero remote remote)))"

partial_function (option) tree_up :: "int \<Rightarrow> rank \<Rightarrow> int \<Rightarrow> int \<Rightarrow> pml_op list option" where
  "tree_up n rank depth jump =
     (if jump < depth then do {
        let partner = rank XOR jump;
        jump' \<leftarrow> c_int (2 * jump);
        rest \<leftarrow> tree_up n rank depth jump';
        Some ((if partner AND (jump - 1) = 0 \<and> partner < n
               then (if partner > rank then recv_zero partner else if partner < rank then send_zero partner else [])
               else []) @ rest)
      }
      else Some [])"

function tree_down :: "int \<Rightarrow> rank \<Rightarrow> int \<Rightarrow> pml_op list" where
  "tree_down n rank jump =
     (if jump > 0 then
        (let partner = rank XOR jump
         in (if partner AND (jump - 1) = 0 \<and> partner < n
             then (if partner > rank then send_zero partner else if partner < rank then recv_zero partner else [])
             else []) @ tree_down n rank (jump div 2))
      else [])"
  by pat_completeness auto
termination
  by (relation "measure (\<lambda>(_, _, j). nat j)") auto

definition ompi_coll_base_barrier_intra_tree :: "int \<Rightarrow> rank \<Rightarrow> pml_op list option" where
  "ompi_coll_base_barrier_intra_tree n rank =
     (if n = 1 then Some []
      else do {
        depth \<leftarrow> opal_next_poweroftwo_inclusive n;
        up \<leftarrow> tree_up n rank depth 1;
        Some (up @ tree_down n rank (depth div 2))
      })"

declare tree_down.simps [simp del]

section \<open>Bruck\<close>

text \<open>
  The configurations: communicators of at least two and less than \<open>2 ^ 30\<close> processes, as \<open>rank + n\<close> and the next
  power of two after \<open>n\<close> are of type \<open>int\<close>.
\<close>

definition comm_ok :: "int \<Rightarrow> bool" where
  "comm_ok n \<longleftrightarrow> 2 \<le> n \<and> n < 2 ^ 30"

definition ranks_of :: "int \<Rightarrow> rank set" where
  "ranks_of n = {0..<n}"

definition bruck_to :: "int \<Rightarrow> partners" where
  "bruck_to n k r = (if 0 \<le> r \<and> r < n then Some ((r + 2 ^ k) mod n) else None)"

definition bruck_from :: "int \<Rightarrow> partners" where
  "bruck_from n k r = (if 0 \<le> r \<and> r < n then Some ((r - 2 ^ k) mod n) else None)"

lemma shift_inverse: "0 \<le> r \<and> r < n \<and> (r + a) mod n = d \<longleftrightarrow> 0 \<le> d \<and> d < n \<and> (d - a) mod n = r" if "0 < n" for n :: int
proof
  show "0 \<le> d \<and> d < n \<and> (d - a) mod n = r" if "0 \<le> r \<and> r < n \<and> (r + a) mod n = d"
    using that \<open>0 < n\<close> by (auto simp: mod_diff_left_eq)
  show "0 \<le> r \<and> r < n \<and> (r + a) mod n = d" if "0 \<le> d \<and> d < n \<and> (d - a) mod n = r"
    using that \<open>0 < n\<close> by (auto simp: mod_add_left_eq)
qed

interpretation bruck: exchange comm_ok ranks_of doublings bruck_from bruck_to bruck_from
proof
  fix n assume n: "comm_ok n"
  show "finite (ranks_of n)" by (simp add: ranks_of_def)
  fix r k
  show "bruck_from n k r = None \<and> bruck_to n k r = None \<and> bruck_from n k r = None" if "r \<notin> ranks_of n"
    using that by (auto simp: ranks_of_def bruck_to_def bruck_from_def)
  show "bruck_to n k r = Some d \<longleftrightarrow> bruck_from n k d = Some r" for d
    using shift_inverse [of n r "2 ^ k" d] n by (auto simp: bruck_to_def bruck_from_def comm_ok_def)
  show "waiting (bruck_from n) (bruck_from n) r k = None" by (rule waiting_same)
  show "current (bruck_from n) (bruck_from n) r k = Some (s, times_named (bruck_from n) r s k)"
    if "bruck_from n k r = Some s" for s using that by (rule current_same)
qed

lemma bruck_loop_plan:
  assumes n: "comm_ok n" and r: "0 \<le> r" "r < n" and k: "k \<le> doublings n"
  shows "bruck_loop n r (2 ^ k) = Some (map snd (plan (bruck_from n) (bruck_to n) (bruck_from n) [k..<doublings n] r))"
  using k
proof (induction "doublings n - k" arbitrary: k)
  case 0
  then have "\<not> 2 ^ k < n" by (simp add: doublings_less)
  with 0 show ?case by (simp add: bruck_loop.simps plan_def)
next
  case (Suc m)
  then have k: "k < doublings n" by simp
  then have less: "2 ^ k < n" by (simp add: doublings_less)
  have fits: "c_int (r + n) = Some (r + n)" "c_int (r + 2 ^ k) = Some (r + 2 ^ k)" "c_int (2 * 2 ^ k) = Some (2 ^ Suc k)"
    using n r less by (auto simp: comm_ok_def)
  have "bruck_loop n r (2 ^ Suc k) = Some (map snd (plan (bruck_from n) (bruck_to n) (bruck_from n) [Suc k..<doublings n] r))"
    using Suc.hyps(1) [of "Suc k"] Suc.hyps(2) k by simp
  moreover have "(r + n - 2 ^ k) mod n = (r - 2 ^ k) mod n" using mod_add_self2 [of "r - 2 ^ k" n] by (simp add: algebra_simps)
  ultimately show ?case
    using less r by (subst bruck_loop.simps)
      (simp add: fits upt_conv_Cons [OF k] plan_def block_def bruck_from_def bruck_to_def ompi_coll_base_sendrecv_zero_def
        del: power_Suc)
qed

lemma bruck_known:
  assumes r: "0 \<le> r" "r < n" and j: "0 \<le> j" "j < 2 ^ k"
  shows "(r - j) mod n \<in> known (bruck_from n) k r"
  using r j
proof (induction k arbitrary: r j)
  case (Suc k)
  show ?case
  proof (cases "j < 2 ^ k")
    case False
    have "((r - 2 ^ k) mod n - (j - 2 ^ k)) mod n = (r - j) mod n" by (simp add: mod_diff_left_eq)
    with Suc.IH [of "(r - 2 ^ k) mod n" "j - 2 ^ k"] Suc.prems False show ?thesis by (simp add: bruck_from_def)
  qed (use Suc in simp)
qed simp

lemma bruck_barrier:
  assumes n: "comm_ok n"
  shows "synchronising n (ompi_coll_base_barrier_intra_bruck n)"
proof (rule bruck.barrier [OF n])
  show "ranks_of n = {0..<n}" "2 \<le> n" using n by (simp_all add: ranks_of_def comm_ok_def)
  fix r :: rank assume r: "r \<in> {0..<n}"
  show "ompi_coll_base_barrier_intra_bruck n r = Some (bruck.round_prog n r)"
    using bruck_loop_plan [OF n, of r 0] r n by (simp add: ompi_coll_base_barrier_intra_bruck_def bruck.round_prog_def comm_ok_def)
  show "{0..<n} \<subseteq> known (bruck_from n) (doublings n) r"
  proof
    fix q assume q: "q \<in> {0..<n}"
    have "(r - (r - q) mod n) mod n = q" using q by (simp add: mod_diff_right_eq)
    moreover have "(r - q) mod n < n" using n by (simp add: comm_ok_def)
    then have "(r - q) mod n < 2 ^ doublings n" using doublings_le [of n "doublings n"] by simp
    ultimately show "q \<in> known (bruck_from n) (doublings n) r"
      using bruck_known [of r n "(r - q) mod n" "doublings n"] r n by (simp add: comm_ok_def)
  qed
qed

section \<open>Double ring\<close>

definition ring_to :: "int \<Rightarrow> partners" where
  "ring_to n k r = (if 0 \<le> r \<and> r < n \<and> r = int k mod n then Some ((int k + 1) mod n) else None)"

definition ring_from :: "int \<Rightarrow> partners" where
  "ring_from n k r = (if 0 \<le> r \<and> r < n \<and> r = (int k + 1) mod n then Some (int k mod n) else None)"

definition ring_rounds :: "int \<Rightarrow> nat" where
  "ring_rounds n = 2 * nat n"

interpretation ring: exchange comm_ok ranks_of ring_rounds ring_from ring_to ring_from
proof
  fix n assume n: "comm_ok n"
  show "finite (ranks_of n)" by (simp add: ranks_of_def)
  fix r k
  show "ring_from n k r = None \<and> ring_to n k r = None \<and> ring_from n k r = None" if "r \<notin> ranks_of n"
    using that by (auto simp: ranks_of_def ring_to_def ring_from_def)
  show "ring_to n k r = Some d \<longleftrightarrow> ring_from n k d = Some r" for d
    using n by (auto simp: ring_to_def ring_from_def comm_ok_def)
  show "waiting (ring_from n) (ring_from n) r k = None" by (rule waiting_same)
  show "current (ring_from n) (ring_from n) r k = Some (s, times_named (ring_from n) r s k)"
    if "ring_from n k r = Some s" for s using that by (rule current_same)
qed

lemma lap_mod: "k < 2 * N \<Longrightarrow> int k mod int N = (if k < N then int k else int k - int N)"
  using minus_mod_self2 [of "int k" "int N"] mod_pos_pos_trivial [of "int k - int N" "int N"] by simp

lemma ring_rules:
  assumes "R < N" "k < 2 * N"
  shows "ring_to (int N) k (int R) = (if k = R \<or> k = N + R then Some ((int R + 1) mod int N) else None)"
    "ring_from (int N) k (int R) = (if Suc k = R \<or> Suc k = N + R \<or> (R = 0 \<and> Suc k = 2 * N) then Some ((int N + int R - 1) mod int N) else None)"
proof -
  have k: "int k mod int N = (if k < N then int k else int k - int N)" by (rule lap_mod [OF assms(2)])
  have k': "(int k + 1) mod int N = (if Suc k < N then int k + 1 else if Suc k < 2 * N then int k + 1 - int N else 0)"
  proof (cases "Suc k = 2 * N")
    case True
    then have "int k + 1 = 2 * int N" by linarith
    with True show ?thesis using assms by simp
  qed (use lap_mod [of "Suc k" N] assms in \<open>auto simp: add.commute\<close>)
  have R: "(int N + int R - 1) mod int N = (if R = 0 then int N - 1 else int R - 1)"
    using lap_mod [of "N + R - 1" N] assms by (auto simp: of_nat_diff)
  have R': "(int R + 1) mod int N = (if Suc R = N then 0 else int R + 1)"
    using lap_mod [of "Suc R" N] assms by (auto simp: add.commute)
  show "ring_to (int N) k (int R) = (if k = R \<or> k = N + R then Some ((int R + 1) mod int N) else None)"
    unfolding ring_to_def k k' R' using assms by auto
  show "ring_from (int N) k (int R) = (if Suc k = R \<or> Suc k = N + R \<or> (R = 0 \<and> Suc k = 2 * N) then Some ((int N + int R - 1) mod int N) else None)"
    unfolding ring_from_def k k' R using assms by auto
qed

lemma ring_plan:
  assumes "2 \<le> N" "R < N"
  shows "map snd (plan (ring_from (int N)) (ring_to (int N)) (ring_from (int N)) [0..<2 * N] (int R)) =
    (let left = (int N + int R - 1) mod int N; right = (int R + 1) mod int N
     in (if R > 0 then recv_zero left else []) @ send_zero right @
        (if R = 0 then recv_zero left else []) @ (if R > 0 then recv_zero left else []) @ send_zero right @
        (if R = 0 then recv_zero left else []))"
proof -
  note rules = ring_rules [OF assms(2)]
  have *: "map snd (plan (ring_from (int N)) (ring_to (int N)) (ring_from (int N)) [0..<2 * N] (int R)) =
    map snd (plan (ring_from (int N)) (ring_to (int N)) (ring_from (int N)) ks (int R))"
    if "ks = (if R = 0 then [0, N - 1, N, 2 * N - 1] else [R - 1, R, N + R - 1, N + R])" for ks
    by (rule arg_cong [OF plan_active]) (use assms rules that in \<open>auto split: if_splits\<close>)
  show ?thesis
  proof (cases "R = 0")
    case True
    then show ?thesis using assms rules
      by (subst * [OF refl]) (auto simp: plan_def block_def recv_zero_def send_zero_def Let_def)
  next
    case False
    then show ?thesis using assms rules
      by (subst * [OF refl]) (auto simp: plan_def block_def recv_zero_def send_zero_def Let_def)
  qed
qed

lemma ring_known_lap1: "2 \<le> N \<Longrightarrow> R < N \<Longrightarrow> int ` {0..R} \<subseteq> known (ring_from (int N)) R (int R)"
proof (induction R)
  case (Suc R)
  have "ring_from (int N) R (int (Suc R)) = Some (int R)"
    using ring_rules(2) [of "Suc R" N R] Suc.prems lap_mod [of "N + R" N] by (simp add: algebra_simps)
  then show ?case using Suc by (auto simp: atLeastAtMostSuc_conv known_self)
qed simp

lemma ring_known_lap2:
  assumes "2 \<le> N" "R < N"
  shows "int ` {0..<N} \<subseteq> known (ring_from (int N)) (N + R) (int R)"
  using assms
proof (induction R)
  case 0
  then obtain M where M: "N = Suc M" by (cases N) auto
  have "ring_from (int N) M 0 = Some (int M)"
    using ring_rules(2) [of 0 N M] 0 M lap_mod [of M N] by simp
  then show ?case using ring_known_lap1 [of N M] 0 M by (auto simp: atLeastLessThanSuc_atLeastAtMost)
next
  case (Suc R)
  have "ring_from (int N) (N + R) (int (Suc R)) = Some (int R)"
    using ring_rules(2) [of "Suc R" N "N + R"] Suc.prems lap_mod [of "N + R" N] by (simp add: algebra_simps)
  then show ?case using Suc by auto
qed

lemma doublering_barrier:
  assumes n: "comm_ok n"
  shows "synchronising n (ompi_coll_base_barrier_intra_doublering n)"
proof (rule ring.barrier [OF n])
  obtain N where N: "n = int N" "2 \<le> N" using n by (cases n) (auto simp: comm_ok_def)
  show "ranks_of n = {0..<n}" "2 \<le> n" using n by (simp_all add: ranks_of_def comm_ok_def)
  fix r :: rank assume "r \<in> {0..<n}"
  then obtain R where R: "r = int R" "R < N" using N by (cases r) auto
  have "map snd (plan (ring_from n) (ring_to n) (ring_from n) [0..<2 * N] r) = ring.round_prog n r"
    by (simp add: ring.round_prog_def ring_rounds_def N)
  then show "ompi_coll_base_barrier_intra_doublering n r = Some (ring.round_prog n r)"
    using ring_plan [OF N(2) R(2)] n N R
    by (auto simp: ompi_coll_base_barrier_intra_doublering_def comm_ok_def Let_def)
  have "{0..<n} \<subseteq> int ` {0..<N}" using N(1) by (auto simp: image_int_atLeastLessThan)
  also have "\<dots> \<subseteq> known (ring_from n) (ring_rounds n) r"
    using ring_known_lap2 [OF N(2) R(2)] known_mono [of "N + R" "2 * N" "ring_from n" r] R N by (auto simp: ring_rounds_def)
  finally show "{0..<n} \<subseteq> known (ring_from n) (ring_rounds n) r" .
qed

section \<open>Tree\<close>

text \<open>Rounds \<open>0\<close> to \<open>a - 1\<close> go up the tree, rounds \<open>a\<close> to \<open>2 * a - 1\<close> down, where \<open>2 ^ a\<close> is the depth.\<close>

definition tree_rounds :: "int \<Rightarrow> nat" where
  "tree_rounds n = 2 * doublings n"

definition to_parent :: "int \<Rightarrow> nat \<Rightarrow> rank \<Rightarrow> rank option" where
  "to_parent n j r = (if 0 \<le> r \<and> r < n \<and> r mod 2 ^ Suc j = 2 ^ j then Some (r - 2 ^ j) else None)"

definition to_child :: "int \<Rightarrow> nat \<Rightarrow> rank \<Rightarrow> rank option" where
  "to_child n j r = (if 0 \<le> r \<and> r + 2 ^ j < n \<and> r mod 2 ^ Suc j = 0 then Some (r + 2 ^ j) else None)"

definition tree_to :: "int \<Rightarrow> partners" where
  "tree_to n k = (if k < doublings n then to_parent n k else to_child n (2 * doublings n - 1 - k))"

definition tree_from :: "int \<Rightarrow> partners" where
  "tree_from n k = (if k < doublings n then to_child n k else to_parent n (2 * doublings n - 1 - k))"

lemma mod_Suc_cases:
  "r mod 2 ^ Suc j = 0 \<longleftrightarrow> r mod 2 ^ j = 0 \<and> even (r div 2 ^ j)"
  "r mod 2 ^ Suc j = 2 ^ j \<longleftrightarrow> r mod 2 ^ j = 0 \<and> odd (r div 2 ^ j)" for r :: int
proof -
  have split: "(m + (if b then p else 0) = 0 \<longleftrightarrow> m = 0 \<and> \<not> b) \<and> (m + (if b then p else 0) = p \<longleftrightarrow> m = 0 \<and> b)"
    if "0 \<le> m" "m < p" for m p :: int and b
    using that by auto
  show "r mod 2 ^ Suc j = 0 \<longleftrightarrow> r mod 2 ^ j = 0 \<and> even (r div 2 ^ j)"
    "r mod 2 ^ Suc j = 2 ^ j \<longleftrightarrow> r mod 2 ^ j = 0 \<and> odd (r div 2 ^ j)"
    unfolding mod_power_Suc using split [of "r mod 2 ^ j" "2 ^ j" "odd (r div 2 ^ j)"] by simp_all
qed

lemma parent_child: "to_parent n j r = Some d \<longleftrightarrow> to_child n j d = Some r"
proof -
  have "(r - 2 ^ j) mod 2 ^ j = r mod 2 ^ j" "(r - 2 ^ j) div 2 ^ j = r div 2 ^ j - 1"
    using minus_mod_self2 [of r "2 ^ j"] div_add_self2 [of "2 ^ j" "r - 2 ^ j"] by simp_all
  moreover have "2 ^ j \<le> r" if "0 \<le> r" "odd (r div 2 ^ j)"
    using that div_pos_pos_trivial [of r "2 ^ j"] by (cases "r < 2 ^ j") auto
  ultimately show ?thesis unfolding to_parent_def to_child_def mod_Suc_cases by auto
qed

lemma outside_tree: "\<not> (0 \<le> r \<and> r < n) \<Longrightarrow> to_parent n j r = None \<and> to_child n j r = None"
  using le_less_trans [of r "r + 2 ^ j" n] by (auto simp: to_parent_def to_child_def)

interpretation tree: exchange comm_ok ranks_of tree_rounds tree_from tree_to tree_from
proof
  fix n assume n: "comm_ok n"
  show "finite (ranks_of n)" by (simp add: ranks_of_def)
  fix r k
  show "tree_from n k r = None \<and> tree_to n k r = None \<and> tree_from n k r = None" if "r \<notin> ranks_of n"
    using that outside_tree by (auto simp: ranks_of_def tree_to_def tree_from_def)
  show "tree_to n k r = Some d \<longleftrightarrow> tree_from n k d = Some r" for d
    by (auto simp: tree_to_def tree_from_def parent_child)
  show "waiting (tree_from n) (tree_from n) r k = None" by (rule waiting_same)
  show "current (tree_from n) (tree_from n) r k = Some (s, times_named (tree_from n) r s k)"
    if "tree_from n k r = Some s" for s using that by (rule current_same)
qed

text \<open>The test of the sources for a partner, at a power of two.\<close>

lemma partner_test:
  assumes r: "0 \<le> r" "r < n"
  shows "(if (r XOR 2 ^ j) AND (2 ^ j - 1) = 0 \<and> r XOR 2 ^ j < n
          then (if r XOR 2 ^ j > r then f (r XOR 2 ^ j) else if r XOR 2 ^ j < r then g (r XOR 2 ^ j) else []) else []) =
    (case to_child n j r of Some p \<Rightarrow> f p | None \<Rightarrow> (case to_parent n j r of Some p \<Rightarrow> g p | None \<Rightarrow> []))"
proof -
  have mod: "(r XOR 2 ^ j) AND (2 ^ j - 1) = r mod 2 ^ j" by (simp add: and_power_less xor_power_mod)
  show ?thesis unfolding mod to_child_def to_parent_def mod_Suc_cases using r by (auto simp: xor_power)
qed

lemma tree_block:
  "map snd (block (tree_from n) (tree_to n) (tree_from n) r k) =
     (case tree_from n k r of Some p \<Rightarrow> (case tree_to n k r of Some q \<Rightarrow> ompi_coll_base_sendrecv_zero q p | None \<Rightarrow> recv_zero p)
      | None \<Rightarrow> (case tree_to n k r of Some q \<Rightarrow> send_zero q | None \<Rightarrow> []))"
  by (auto simp: block_def ompi_coll_base_sendrecv_zero_def recv_zero_def send_zero_def split: option.splits)

lemma child_not_parent: "to_child n j r = Some p \<Longrightarrow> to_parent n j r = None"
  by (auto simp: to_child_def to_parent_def split: if_splits)

lemma tree_up_plan:
  assumes n: "comm_ok n" and r: "0 \<le> r" "r < n" and k: "k \<le> doublings n"
  shows "tree_up n r (2 ^ doublings n) (2 ^ k) =
    Some (map snd (plan (tree_from n) (tree_to n) (tree_from n) [k..<doublings n] r))"
  using k
proof (induction "doublings n - k" arbitrary: k)
  case 0
  then show ?case by (simp add: tree_up.simps plan_def)
next
  case (Suc m)
  then have k: "k < doublings n" by simp
  then have less: "2 ^ k < n" by (simp add: doublings_less)
  then have fits: "c_int (2 * 2 ^ k) = Some (2 ^ Suc k)" using n by (auto simp: comm_ok_def)
  have "tree_up n r (2 ^ doublings n) (2 ^ Suc k) =
    Some (map snd (plan (tree_from n) (tree_to n) (tree_from n) [Suc k..<doublings n] r))"
    using Suc.hyps(1) [of "Suc k"] Suc.hyps(2) k by simp
  then show ?case
    using k by (subst tree_up.simps)
      (simp add: fits partner_test [OF r] upt_conv_Cons plan_def tree_block tree_from_def tree_to_def child_not_parent
        del: power_Suc split: option.split)
qed

lemma tree_down_step:
  assumes r: "0 \<le> r" "r < n" and j: "j < doublings n"
  shows "tree_down n r (2 ^ j) =
    map snd (block (tree_from n) (tree_to n) (tree_from n) r (2 * doublings n - 1 - j)) @ tree_down n r (2 ^ j div 2)"
proof -
  have "tree_from n (2 * doublings n - 1 - j) = to_parent n j" "tree_to n (2 * doublings n - 1 - j) = to_child n j"
    using j by (auto simp: tree_from_def tree_to_def)
  then have "map snd (block (tree_from n) (tree_to n) (tree_from n) r (2 * doublings n - 1 - j)) =
    (case to_child n j r of Some p \<Rightarrow> send_zero p | None \<Rightarrow> (case to_parent n j r of Some p \<Rightarrow> recv_zero p | None \<Rightarrow> []))"
    by (simp add: tree_block child_not_parent split: option.split)
  then show ?thesis by (subst tree_down.simps) (simp add: Let_def partner_test [OF r])
qed

lemma tree_down_plan:
  assumes r: "0 \<le> r" "r < n" and j: "j < doublings n"
  shows "tree_down n r (2 ^ j) =
    map snd (plan (tree_from n) (tree_to n) (tree_from n) [2 * doublings n - 1 - j..<2 * doublings n] r)"
  using j
proof (induction j)
  case 0
  then have "[2 * doublings n - 1..<2 * doublings n] = [2 * doublings n - 1]" by (simp add: upt_conv_Cons)
  then show ?case using tree_down_step [OF r 0] by (simp add: tree_down.simps [of _ _ 0] plan_def)
next
  case (Suc j)
  have "[2 * doublings n - 1 - Suc j..<2 * doublings n] = (2 * doublings n - 1 - Suc j) # [2 * doublings n - 1 - j..<2 * doublings n]"
    using Suc.prems by (subst upt_conv_Cons) (simp_all add: Suc_diff_Suc)
  then show ?case using tree_down_step [OF r Suc.prems] Suc by (simp add: plan_def)
qed

lemma tree_known_up:
  "0 \<le> r \<Longrightarrow> r < n \<Longrightarrow> r mod 2 ^ k = 0 \<Longrightarrow> k \<le> doublings n \<Longrightarrow> {r..<min n (r + 2 ^ k)} \<subseteq> known (tree_from n) k r"
proof (induction k arbitrary: r)
  case (Suc k)
  have low: "r mod 2 ^ k = 0" by (rule conjunct1 [OF iffD1 [OF mod_Suc_cases(1)]]) (rule Suc.prems(3))
  have IH: "{r..<min n (r + 2 ^ k)} \<subseteq> known (tree_from n) k r" using Suc low by simp
  show ?case
  proof (cases "r + 2 ^ k < n")
    case True
    then have "tree_from n k r = Some (r + 2 ^ k)" using Suc.prems by (simp add: tree_from_def to_child_def)
    moreover have "{r + 2 ^ k..<min n (r + 2 ^ Suc k)} \<subseteq> known (tree_from n) k (r + 2 ^ k)"
      using Suc.IH [of "r + 2 ^ k"] Suc.prems low True by (simp add: add.assoc)
    moreover have "{r..<min n (r + 2 ^ Suc k)} \<subseteq> {r..<min n (r + 2 ^ k)} \<union> {r + 2 ^ k..<min n (r + 2 ^ Suc k)}" by auto
    ultimately show ?thesis using IH by auto
  next
    case False
    then have "{r..<min n (r + 2 ^ Suc k)} \<subseteq> {r..<min n (r + 2 ^ k)}" by auto
    then show ?thesis by (rule subset_trans) (rule subset_trans [OF IH known_mono], simp)
  qed
qed auto

lemma tree_known_down:
  assumes n: "comm_ok n" and r: "0 \<le> r" "r < n" and i: "i \<le> doublings n" "r mod 2 ^ (doublings n - i) = 0"
  shows "{0..<n} \<subseteq> known (tree_from n) (doublings n + i) r"
  using r i
proof (induction i arbitrary: r)
  case 0
  then have "r = 0" using doublings_le [of n "doublings n"] by simp
  then show ?case using tree_known_up [of 0 n "doublings n"] doublings_le [of n "doublings n"] n
    by (simp add: comm_ok_def min_absorb1)
next
  case (Suc i)
  let ?j = "doublings n - Suc i"
  have j: "doublings n - i = Suc ?j" using Suc.prems(3) by simp
  have from_eq: "tree_from n (doublings n + i) = to_parent n ?j" using Suc.prems(3)
    by (simp add: tree_from_def)
  show ?case
  proof (cases "even (r div 2 ^ ?j)")
    case True
    then have "r mod 2 ^ (doublings n - i) = 0" using Suc.prems(4) mod_Suc_cases(1) [of r ?j] by (simp add: j)
    then have "{0..<n} \<subseteq> known (tree_from n) (doublings n + i) r" using Suc by simp
    then show ?thesis by (rule subset_trans) (rule known_mono, simp)
  next
    case False
    then have "r mod 2 ^ Suc ?j = 2 ^ ?j" using Suc.prems(4) by (simp only: mod_Suc_cases(2) simp_thms)
    then have p: "to_parent n ?j r = Some (r - 2 ^ ?j)" using Suc.prems by (simp add: to_parent_def)
    then have "to_child n ?j (r - 2 ^ ?j) = Some r" by (simp add: parent_child)
    then have "0 \<le> r - 2 ^ ?j" "(r - 2 ^ ?j) mod 2 ^ (doublings n - i) = 0" by (auto simp: to_child_def j split: if_splits)
    then have "{0..<n} \<subseteq> known (tree_from n) (doublings n + i) (r - 2 ^ ?j)"
      using Suc.IH [of "r - 2 ^ ?j"] Suc.prems by (simp add: le_less_trans [of "r - 2 ^ ?j" r])
    then show ?thesis using p from_eq by auto
  qed
qed

lemma tree_barrier:
  assumes n: "comm_ok n"
  shows "synchronising n (ompi_coll_base_barrier_intra_tree n)"
proof (rule tree.barrier [OF n])
  show "ranks_of n = {0..<n}" "2 \<le> n" using n by (simp_all add: ranks_of_def comm_ok_def)
  fix r :: rank assume r': "r \<in> {0..<n}"
  then have r: "0 \<le> r" "r < n" by auto
  have pos: "0 < doublings n" using n doublings_less [of 0 n] by (simp add: comm_ok_def)
  have "[0..<2 * doublings n] = [0..<doublings n] @ [2 * doublings n - 1 - (doublings n - 1)..<2 * doublings n]"
    using pos upt_add_eq_append [of 0 "doublings n" "doublings n"] by (simp add: mult_2)
  then have prog: "tree.round_prog n r = map snd (plan (tree_from n) (tree_to n) (tree_from n) [0..<doublings n] r) @
      map snd (plan (tree_from n) (tree_to n) (tree_from n) [2 * doublings n - 1 - (doublings n - 1)..<2 * doublings n] r)"
    by (simp add: tree.round_prog_def tree_rounds_def plan_def)
  show "ompi_coll_base_barrier_intra_tree n r = Some (tree.round_prog n r)"
    using tree_up_plan [OF n r, of 0] tree_down_plan [OF r, of "doublings n - 1"] pos n next_poweroftwo_inclusive_works [of n] prog
    by (simp add: ompi_coll_base_barrier_intra_tree_def comm_ok_def power_diff)
  show "{0..<n} \<subseteq> known (tree_from n) (tree_rounds n) r"
    using tree_known_down [OF n r, of "doublings n"] by (simp add: tree_rounds_def mult_2)
qed

section \<open>Recursive doubling\<close>

text \<open>
  With \<open>2 ^ a\<close> the largest power of two up to \<open>n\<close>: in round 0 the ranks from \<open>2 ^ a\<close> on report to their lower
  partner, rounds 1 to \<open>a\<close> exchange, and in round \<open>a + 1\<close> the lower partners release them. A high rank posts its
  receive in round 0 and waits for it in the last one.
\<close>

definition rd_dim :: "int \<Rightarrow> nat" where
  "rd_dim n = doublings (n + 1) - 1"

definition rd_rounds :: "int \<Rightarrow> nat" where
  "rd_rounds n = rd_dim n + 2"

definition rd_pair :: "int \<Rightarrow> nat \<Rightarrow> rank \<Rightarrow> rank option" where
  "rd_pair n k r = (if 0 \<le> r \<and> r < 2 ^ rd_dim n then Some (r XOR 2 ^ (k - 1)) else None)"

definition rd_low :: "int \<Rightarrow> rank \<Rightarrow> rank option" where
  "rd_low n r = (if 2 ^ rd_dim n \<le> r \<and> r < n then Some (r - 2 ^ rd_dim n) else None)"

definition rd_high :: "int \<Rightarrow> rank \<Rightarrow> rank option" where
  "rd_high n r = (if 0 \<le> r \<and> r + 2 ^ rd_dim n < n then Some (r + 2 ^ rd_dim n) else None)"

definition rd_post :: "int \<Rightarrow> partners" where
  "rd_post n k r =
     (if k = 0 then (if 2 ^ rd_dim n \<le> r then rd_low n r else rd_high n r)
      else if k \<le> rd_dim n then rd_pair n k r else None)"

definition rd_to :: "int \<Rightarrow> partners" where
  "rd_to n k r = (if k = 0 then rd_low n r else if k \<le> rd_dim n then rd_pair n k r else rd_high n r)"

definition rd_get :: "int \<Rightarrow> partners" where
  "rd_get n k r = (if k = 0 then rd_high n r else if k \<le> rd_dim n then rd_pair n k r else rd_low n r)"

lemma rd_dim_bounds: assumes "comm_ok n" shows "2 ^ rd_dim n \<le> n" "n < 2 * 2 ^ rd_dim n" "0 < rd_dim n" "rd_dim n \<le> 30"
proof -
  have pos: "1 < doublings (n + 1)" using assms doublings_less [of 1 "n + 1"] by (simp add: comm_ok_def)
  then have d: "doublings (n + 1) = Suc (rd_dim n)" by (simp add: rd_dim_def)
  show "0 < rd_dim n" using pos by (simp add: rd_dim_def)
  show le: "2 ^ rd_dim n \<le> n" using doublings_less [of "rd_dim n" "n + 1"] d by simp
  show "n < 2 * 2 ^ rd_dim n" using doublings_le [of "n + 1" "Suc (rd_dim n)"] d by simp
  have "(2 :: int) ^ rd_dim n \<le> 2 ^ 30" using le assms unfolding comm_ok_def by linarith
  then show "rd_dim n \<le> 30" by (simp only: power_increasing_iff one_less_numeral_iff num.simps semiring_norm)
qed

lemma rd_pair_inverse:
  assumes "0 < k" "k \<le> rd_dim n"
  shows "rd_pair n k r = Some d \<longleftrightarrow> rd_pair n k d = Some r"
proof -
  have less: "(2 :: int) ^ (k - 1) < 2 ^ rd_dim n" using assms by (intro power_strict_increasing) auto
  have "0 \<le> x XOR 2 ^ (k - 1) \<and> x XOR 2 ^ (k - 1) < 2 ^ rd_dim n" if "0 \<le> x" "x < 2 ^ rd_dim n" for x :: int
    using that less XOR_upper [of x "rd_dim n" "2 ^ (k - 1)"] by simp
  then show ?thesis using xor_power_inverse [of r "k - 1"] xor_power_inverse [of d "k - 1"]
    by (auto simp: rd_pair_def split: if_splits)
qed

lemma rd_low_high: "comm_ok n \<Longrightarrow> rd_low n r = Some d \<longleftrightarrow> rd_high n d = Some r"
  by (auto simp: rd_low_def rd_high_def split: if_splits)

lemma rd_sides:
  assumes "comm_ok n"
  shows "r < 2 ^ rd_dim n \<Longrightarrow> rd_low n r = None" "2 ^ rd_dim n \<le> r \<Longrightarrow> rd_high n r = None \<and> rd_pair n k r = None"
  using rd_dim_bounds [OF assms] by (auto simp: rd_low_def rd_high_def rd_pair_def)

interpretation rd: exchange comm_ok ranks_of rd_rounds rd_post rd_to rd_get
proof
  fix n assume n: "comm_ok n"
  note b = rd_dim_bounds [OF n]
  show "finite (ranks_of n)" by (simp add: ranks_of_def)
  fix r k
  show "rd_post n k r = None \<and> rd_to n k r = None \<and> rd_get n k r = None" if "r \<notin> ranks_of n"
    using that b le_less_trans [of r "r + 2 ^ rd_dim n" n] less_le_trans [of r "2 ^ rd_dim n" n]
    by (auto simp: ranks_of_def rd_post_def rd_to_def rd_get_def rd_low_def rd_high_def rd_pair_def)
  show "rd_to n k r = Some d \<longleftrightarrow> rd_get n k d = Some r" for d
    using rd_pair_inverse [of k n r d] rd_low_high [OF n, of r d] rd_low_high [OF n, of d r] by (auto simp: rd_to_def rd_get_def)
  have low: "rd_post n i r = rd_get n i r" if "r < 2 ^ rd_dim n" for i
    using that rd_sides(1) [OF n that] by (auto simp: rd_post_def rd_get_def)
  have high: "waiting (rd_post n) (rd_get n) r i = (if 0 < i \<and> i \<le> Suc (rd_dim n) then Some (r - 2 ^ rd_dim n, 0) else None)"
    if "2 ^ rd_dim n \<le> r" "r < n" "i \<le> Suc (rd_dim n)" for i
    using that(3)
  proof (induction i)
    case (Suc i)
    then show ?case using that(1,2) rd_sides(2) [OF n that(1)] by (auto simp: rd_get_def rd_post_def rd_low_def)
  qed simp
  show "waiting (rd_post n) (rd_get n) r k = None" if "r \<in> ranks_of n" "k < rd_rounds n" "rd_post n k r \<noteq> None"
  proof (cases "r < 2 ^ rd_dim n")
    case True
    show ?thesis by (rule waiting_agree) (rule low [OF True])
  next
    case False
    then have "k = 0" using that rd_sides(2) [OF n, of r] by (auto simp: rd_post_def split: if_splits)
    then show ?thesis by simp
  qed
  show "current (rd_post n) (rd_get n) r k = Some (s, times_named (rd_get n) r s k)"
    if "r \<in> ranks_of n" "k < rd_rounds n" "rd_get n k r = Some s" for s
  proof (cases "r < 2 ^ rd_dim n")
    case True
    have "times_named (rd_post n) r s k = times_named (rd_get n) r s k" by (rule named_agree) (rule low [OF True])
    then show ?thesis using that(3) low [OF True, of k] by (simp add: current_def)
  next
    case False
    then have r: "2 ^ rd_dim n \<le> r" "r < n" using that(1) by (auto simp: ranks_of_def)
    note sides = rd_sides(2) [OF n r(1)]
    have k: "k = Suc (rd_dim n)" using that sides by (auto simp: rd_get_def rd_rounds_def split: if_splits)
    then have s: "s = r - 2 ^ rd_dim n" using that(3) r by (simp add: rd_get_def rd_low_def)
    have "times_named (rd_get n) r s i = 0" if "i \<le> Suc (rd_dim n)" for i
      using that sides by (induction i) (auto simp: rd_get_def)
    then show ?thesis using high [OF r, of k] k s
      by (simp add: current_def rd_post_def del: waiting.simps times_named.simps)
  qed
qed

lemma rd_loop_plan:
  assumes n: "comm_ok n" and r: "0 \<le> r" "r < 2 ^ rd_dim n" and k: "k \<le> rd_dim n"
  shows "recursivedoubling_loop r (2 ^ rd_dim n) (2 ^ k) =
    Some (map snd (plan (rd_post n) (rd_to n) (rd_get n) [Suc k..<Suc (rd_dim n)] r))"
  using k
proof (induction "rd_dim n - k" arbitrary: k)
  case 0
  then show ?case by (simp add: recursivedoubling_loop.simps plan_def)
next
  case (Suc m)
  then have k: "k < rd_dim n" by simp
  then have less: "(2 :: int) ^ k < 2 ^ rd_dim n" by simp
  have "(2 :: int) ^ rd_dim n \<le> 2 ^ 30" using rd_dim_bounds(1) [OF n] n unfolding comm_ok_def by linarith
  then have "2 ^ k < (2 :: int) ^ 30" by (rule less_le_trans [OF less])
  then have "2 * 2 ^ k < (2 :: int) ^ 31" by simp
  then have fits: "c_int (2 * 2 ^ k) = Some (2 ^ Suc k)" using c_int_Some [of "2 * 2 ^ k"] by simp
  have IH: "recursivedoubling_loop r (2 ^ rd_dim n) (2 ^ Suc k) =
    Some (map snd (plan (rd_post n) (rd_to n) (rd_get n) [Suc (Suc k)..<Suc (rd_dim n)] r))"
    using Suc.hyps(1) [of "Suc k"] Suc.hyps(2) k by simp
  have pair: "rd_pair n (Suc k) r = Some (r XOR 2 ^ k)" using r by (simp add: rd_pair_def)
  then have "rd_pair n (Suc k) (r XOR 2 ^ k) = Some r" using rd_pair_inverse [of "Suc k" n] k by simp
  then have "\<not> r XOR 2 ^ k \<ge> 2 ^ rd_dim n" by (auto simp: rd_pair_def split: if_splits)
  then show ?case using less k pair IH
    by (subst recursivedoubling_loop.simps)
      (simp add: Let_def fits upt_conv_Cons plan_def block_def rd_post_def rd_to_def rd_get_def ompi_coll_base_sendrecv_zero_def
        del: power_Suc upt_Suc)
qed

lemma rd_prog:
  assumes n: "comm_ok n" and r: "0 \<le> r" "r < n"
  shows "ompi_coll_base_barrier_intra_recursivedoubling n r = Some (rd.round_prog n r)"
proof -
  note b = rd_dim_bounds [OF n]
  have p: "opal_next_poweroftwo n = Some (2 * 2 ^ rd_dim n)"
  proof -
    have "doublings (n + 1) = Suc (rd_dim n)" using b(3) by (simp add: rd_dim_def)
    then show ?thesis using next_poweroftwo_works [of n] n by (simp add: comm_ok_def)
  qed
  have "[0..<rd_rounds n] = 0 # [Suc 0..<Suc (rd_dim n)] @ [Suc (rd_dim n)]"
    by (simp add: rd_rounds_def upt_conv_Cons)
  then have plan: "rd.round_prog n r = map snd (block (rd_post n) (rd_to n) (rd_get n) r 0) @
      map snd (plan (rd_post n) (rd_to n) (rd_get n) [Suc 0..<Suc (rd_dim n)] r) @
      map snd (block (rd_post n) (rd_to n) (rd_get n) r (Suc (rd_dim n)))"
    by (simp add: rd.round_prog_def plan_def)
  show ?thesis
  proof (cases "r < 2 ^ rd_dim n")
    case True
    then show ?thesis
      using rd_loop_plan [OF n r(1) True, of 0] rd_sides(1) [OF n True] p n r b
      by (simp add: Let_def plan ompi_coll_base_barrier_intra_recursivedoubling_def comm_ok_def block_def rd_post_def rd_to_def rd_get_def
          rd_high_def recv_zero_def send_zero_def)
  next
    case False
    then have high: "2 ^ rd_dim n \<le> r" by simp
    note sides = rd_sides(2) [OF n high]
    have "plan (rd_post n) (rd_to n) (rd_get n) [Suc 0..<Suc (rd_dim n)] r = []"
      using sides by (auto simp: plan_def block_def rd_post_def rd_to_def rd_get_def)
    then show ?thesis
      using sides p n r b high
      by (simp add: Let_def plan ompi_coll_base_barrier_intra_recursivedoubling_def comm_ok_def block_def rd_post_def rd_to_def rd_get_def
          rd_low_def ompi_coll_base_sendrecv_zero_def)
  qed
qed

lemma rd_known:
  assumes n: "comm_ok n" and r: "0 \<le> r" "r < 2 ^ rd_dim n" and k: "k \<le> rd_dim n"
    and x: "x \<in> {0..<n}" "x mod 2 ^ rd_dim n div 2 ^ k = r div 2 ^ k"
  shows "x \<in> known (rd_get n) (Suc k) r"
  using r k x(2)
proof (induction k arbitrary: r)
  case 0
  note b = rd_dim_bounds [OF n]
  have "x mod 2 ^ rd_dim n = (if x < 2 ^ rd_dim n then x else x - 2 ^ rd_dim n)"
    using x(1) b(2) minus_mod_self2 [of x "2 ^ rd_dim n"] mod_pos_pos_trivial [of "x - 2 ^ rd_dim n" "2 ^ rd_dim n"] by simp
  then have "x = r \<or> x = r + 2 ^ rd_dim n" using 0 by (auto split: if_splits)
  then show ?case using 0 x(1) by (auto simp: rd_get_def rd_high_def)
next
  case (Suc k)
  let ?y = "x mod 2 ^ rd_dim n" and ?s = "r XOR 2 ^ k"
  have pair: "rd_pair n (Suc k) r = Some ?s" using Suc.prems by (simp add: rd_pair_def)
  then have "rd_pair n (Suc k) ?s = Some r" using rd_pair_inverse [of "Suc k" n] Suc.prems by simp
  then have s: "0 \<le> ?s" "?s < 2 ^ rd_dim n" by (auto simp: rd_pair_def split: if_splits)
  have half: "z div 2 ^ Suc k = z div 2 ^ k div 2" for z :: int by (simp add: zdiv_zmult2_eq [symmetric] mult.commute)
  have flip: "?s div 2 ^ k = (if odd (r div 2 ^ k) then r div 2 ^ k - 1 else r div 2 ^ k + 1)"
    using div_add_self2 [of "2 ^ k" "r - 2 ^ k"] div_add_self2 [of "2 ^ k" r] by (simp add: xor_power)
  have "q' = q \<or> q' = (if odd q then q - 1 else q + 1)" if "q' div 2 = q div 2" for q q' :: int using that by presburger
  then have "?y div 2 ^ k = r div 2 ^ k \<or> ?y div 2 ^ k = ?s div 2 ^ k" using Suc.prems(4) unfolding half flip by blast
  then have "x \<in> known (rd_get n) (Suc k) r \<or> x \<in> known (rd_get n) (Suc k) ?s"
    using Suc.IH [of r] Suc.IH [of ?s] Suc.prems s by (auto simp del: known.simps)
  then show ?case using pair Suc.prems(3) by (subst known.simps) (auto simp: rd_get_def simp del: known.simps)
qed

lemma recursivedoubling_barrier:
  assumes n: "comm_ok n"
  shows "synchronising n (ompi_coll_base_barrier_intra_recursivedoubling n)"
proof (rule rd.barrier [OF n])
  show "ranks_of n = {0..<n}" "2 \<le> n" using n by (simp_all add: ranks_of_def comm_ok_def)
  fix r :: rank assume r: "r \<in> {0..<n}"
  show "ompi_coll_base_barrier_intra_recursivedoubling n r = Some (rd.round_prog n r)" using rd_prog [OF n] r by simp
  have low: "{0..<n} \<subseteq> known (rd_get n) (Suc (rd_dim n)) q" if "0 \<le> q" "q < 2 ^ rd_dim n" for q
    using rd_known [OF n that order_refl] that by (auto simp del: known.simps)
  show "{0..<n} \<subseteq> known (rd_get n) (rd_rounds n) r"
  proof (cases "r < 2 ^ rd_dim n")
    case True
    have "{0..<n} \<subseteq> known (rd_get n) (Suc (rd_dim n)) r" using low True r by simp
    then show ?thesis by (rule subset_trans) (rule known_mono, simp add: rd_rounds_def)
  next
    case False
    then have "rd_get n (Suc (rd_dim n)) r = Some (r - 2 ^ rd_dim n)" using r by (simp add: rd_get_def rd_low_def)
    moreover have "{0..<n} \<subseteq> known (rd_get n) (Suc (rd_dim n)) (r - 2 ^ rd_dim n)"
      using low [of "r - 2 ^ rd_dim n"] False r rd_dim_bounds(2) [OF n] by (simp del: known.simps)
    moreover have "rd_rounds n = Suc (Suc (rd_dim n))" by (simp add: rd_rounds_def)
    ultimately show ?thesis by (simp only: known.simps(2) [of _ "Suc (rd_dim n)"] option.simps) blast
  qed
qed

lemma two_procs_bruck:
  assumes "r = 0 \<or> r = 1"
  shows "ompi_coll_base_barrier_intra_bruck 2 r =
    (case ompi_coll_base_barrier_intra_two_procs 2 r of Inl _ \<Rightarrow> None | Inr ops \<Rightarrow> Some ops)"
  using assms
  by (auto simp: ompi_coll_base_barrier_intra_two_procs_def ompi_coll_base_barrier_intra_bruck_def bruck_loop.simps)

section \<open>Properties\<close>

text \<open>
  C2. The barriers synchronise. For two or more and less than \<open>2 ^ 30\<close> ranks the calls of the double ring,
  recursive doubling, Bruck and tree barriers are free of overflow; whatever the interleaving of the ranks and
  whichever sends are buffered, the execution is finite, it cannot get stuck before every rank has returned without
  an error, and whenever some rank has returned, every rank has entered. The barrier for two processes does the same
  for two ranks and refuses three or more.
\<close>

theorem barriers_synchronise:
  assumes "2 \<le> n" "n < 2 ^ 30"
  shows "synchronising n (ompi_coll_base_barrier_intra_doublering n) \<and>
    synchronising n (ompi_coll_base_barrier_intra_recursivedoubling n) \<and>
    synchronising n (ompi_coll_base_barrier_intra_bruck n) \<and>
    synchronising n (ompi_coll_base_barrier_intra_tree n) \<and>
    (if n = 2 then synchronising n (\<lambda>r. case ompi_coll_base_barrier_intra_two_procs n r of Inl _ \<Rightarrow> None | Inr ops \<Rightarrow> Some ops)
     else \<forall>r. ompi_coll_base_barrier_intra_two_procs n r = Inl ())"
proof -
  have n: "comm_ok n" using assms by (simp add: comm_ok_def)
  have "synchronising 2 (\<lambda>r. case ompi_coll_base_barrier_intra_two_procs 2 r of Inl _ \<Rightarrow> None | Inr ops \<Rightarrow> Some ops)"
  proof (rule synchronising_cong)
    show "synchronising 2 (ompi_coll_base_barrier_intra_bruck 2)" by (rule bruck_barrier) (simp add: comm_ok_def)
    show "ompi_coll_base_barrier_intra_bruck 2 r = (case ompi_coll_base_barrier_intra_two_procs 2 r of Inl _ \<Rightarrow> None | Inr ops \<Rightarrow> Some ops)"
      if "0 \<le> r" "r < 2" for r
      using that by (intro two_procs_bruck) auto
  qed
  then show ?thesis
    using assms doublering_barrier [OF n] recursivedoubling_barrier [OF n] bruck_barrier [OF n] tree_barrier [OF n]
    by (auto simp: ompi_coll_base_barrier_intra_two_procs_def)
qed

theorem barriers_synchronise_witness:
  "synchronising 6 (ompi_coll_base_barrier_intra_doublering 6) \<and>
   synchronising 6 (ompi_coll_base_barrier_intra_recursivedoubling 6) \<and>
   synchronising 6 (ompi_coll_base_barrier_intra_bruck 6) \<and> synchronising 6 (ompi_coll_base_barrier_intra_tree 6)"
  using barriers_synchronise [of 6] by simp

end
