(* ===== verification/Coll_Tree.thy ===== *)
theory Coll_Tree
  imports Mpi_Ucx_Prelude
begin

text \<open>
  The trees along which collectives pass data (\<^verbatim>\<open>ompi/mca/coll/base/coll_base_topo.h\<close>). Every rank builds its own
  record of its parent and its children; nothing is exchanged. \<open>builds_tree\<close> is what the builders promise: the
  records of all ranks fit together to one tree that is rooted at \<open>root\<close> and spans the communicator.
\<close>

section \<open>The record of one rank\<close>

text \<open>The fields of the object that \<open>malloc\<close> gives are indeterminate (\<open>None\<close>) until they are written.\<close>

record coll_tree =
  tree_root :: "int option"
  tree_fanout :: "int option"
  tree_bmtree :: "int option"
  tree_prev :: "int option"
  tree_nextsize :: "int option"
  tree_next :: "int option list"

definition MAXTREEFANOUT :: nat where
  "MAXTREEFANOUT = 32"

text \<open>An object with room for \<open>k\<close> children.\<close>

definition new_tree :: "nat \<Rightarrow> coll_tree" where
  "new_tree k = \<lparr>tree_root = None, tree_fanout = None, tree_bmtree = None, tree_prev = None, tree_nextsize = None,
     tree_next = replicate k None\<rparr>"

text \<open>The children that a user of the record reads: all of them lie inside the array and are initialised.\<close>

definition tree_kids :: "coll_tree \<Rightarrow> int list option" where
  "tree_kids t =
     (case tree_nextsize t of
        None \<Rightarrow> None
      | Some m \<Rightarrow> if 0 \<le> m \<and> m \<le> int (length (tree_next t)) then mapo (\<lambda>c. c) (take (nat m) (tree_next t)) else None)"

text \<open>\<open>ompi_coll_base_topo_destroy_tree\<close>: the pointer after the call.\<close>

definition ompi_coll_base_topo_destroy_tree :: "coll_tree option \<Rightarrow> coll_tree option" where
  "ompi_coll_base_topo_destroy_tree tree = None"

section \<open>Spanning trees\<close>

definition spanning :: "int \<Rightarrow> int \<Rightarrow> (int \<Rightarrow> int) \<Rightarrow> (int \<Rightarrow> int list) \<Rightarrow> bool" where
  "spanning n root par kids \<longleftrightarrow>
     0 \<le> root \<and> root < n \<and>
     (\<forall>r \<in> {0..<n}. distinct (kids r) \<and> set (kids r) = {c \<in> {0..<n}. c \<noteq> root \<and> par c = r}) \<and>
     (\<forall>c \<in> {0..<n}. c \<noteq> root \<longrightarrow> par c \<in> {0..<n}) \<and>
     (\<exists>depth :: int \<Rightarrow> nat. \<forall>c \<in> {0..<n}. c \<noteq> root \<longrightarrow> depth (par c) < depth c)"

definition builds_tree :: "int \<Rightarrow> int \<Rightarrow> (int \<Rightarrow> coll_tree option option) \<Rightarrow> bool" where
  "builds_tree n root build \<longleftrightarrow>
     (\<exists>par kids. spanning n root par kids \<and>
        (\<forall>r \<in> {0..<n}. \<exists>t. build r = Some (Some t) \<and> tree_root t = Some root \<and> tree_kids t = Some (kids r) \<and>
           (r \<noteq> root \<longrightarrow> tree_prev t = Some (par r))))"

text \<open>A tree rooted at 0 is turned into one rooted at \<open>root\<close> by shifting the ranks.\<close>

definition unshift :: "int \<Rightarrow> int \<Rightarrow> int \<Rightarrow> int" where
  "unshift n root v = (v + root) mod n"

definition shift :: "int \<Rightarrow> int \<Rightarrow> int \<Rightarrow> int" where
  "shift n root r = (r - root) mod n"

lemma shift_unshift: "0 \<le> v \<Longrightarrow> v < n \<Longrightarrow> shift n root (unshift n root v) = v"
  by (simp add: shift_def unshift_def mod_diff_left_eq)

lemma unshift_shift: "0 \<le> r \<Longrightarrow> r < n \<Longrightarrow> unshift n root (shift n root r) = r"
  by (simp add: shift_def unshift_def mod_add_left_eq)

lemma shift_range: "0 < n \<Longrightarrow> shift n root r \<in> {0..<n}" "0 < n \<Longrightarrow> unshift n root v \<in> {0..<n}"
  by (simp_all add: shift_def unshift_def)

lemma shift_root:
  assumes "0 \<le> r" "r < n" "0 \<le> root" "root < n"
  shows "shift n root r = 0 \<longleftrightarrow> r = root"
proof
  assume "shift n root r = 0"
  with assms show "r = root" using unshift_shift [of r n root] by (simp add: unshift_def)
qed (simp add: shift_def)

lemma spanning_shift:
  assumes s: "spanning n 0 par kids" and root: "0 \<le> root" "root < n"
  shows "spanning n root (\<lambda>r. unshift n root (par (shift n root r))) (\<lambda>r. map (unshift n root) (kids (shift n root r)))"
proof -
  have n: "0 < n" using root by simp
  have kids: "distinct (kids v)" "set (kids v) = {c \<in> {0..<n}. c \<noteq> 0 \<and> par c = v}" if "v \<in> {0..<n}" for v
    using s that by (auto simp: spanning_def)
  have par: "par c \<in> {0..<n}" if "c \<in> {0..<n}" "c \<noteq> 0" for c using s that by (auto simp: spanning_def)
  obtain depth :: "int \<Rightarrow> nat" where depth: "\<And>c. c \<in> {0..<n} \<Longrightarrow> c \<noteq> 0 \<Longrightarrow> depth (par c) < depth c"
    using s unfolding spanning_def by blast
  have inj: "inj_on (unshift n root) {0..<n}"
    using shift_unshift [of _ n root] by (intro inj_on_inverseI [where g = "shift n root"]) auto
  have nonroot: "shift n root c \<in> {0..<n} \<and> shift n root c \<noteq> 0" if "c \<in> {0..<n}" "c \<noteq> root" for c
    using that shift_root [of c n root] shift_range(1) [OF n] root by auto
  have same: "unshift n root (par (shift n root c)) = r \<longleftrightarrow> par (shift n root c) = shift n root r"
    if "c \<in> {0..<n}" "c \<noteq> root" "r \<in> {0..<n}" for c r
  proof
    have "par (shift n root c) \<in> {0..<n}" using par nonroot [OF that(1,2)] by blast
    then show "par (shift n root c) = shift n root r" if "unshift n root (par (shift n root c)) = r"
      using shift_unshift [of "par (shift n root c)" n root] that by simp
    show "unshift n root (par (shift n root c)) = r" if "par (shift n root c) = shift n root r"
      using unshift_shift [of r n root] \<open>r \<in> {0..<n}\<close> that by simp
  qed
  show ?thesis unfolding spanning_def
  proof (intro conjI ballI impI)
    show "0 \<le> root" "root < n" by (rule root)+
    fix r assume r: "r \<in> {0..<n}"
    let ?v = "shift n root r"
    have v: "?v \<in> {0..<n}" by (rule shift_range(1) [OF n])
    have "inj_on (unshift n root) (set (kids ?v))" by (rule inj_on_subset [OF inj]) (auto simp: kids(2) [OF v])
    then show "distinct (map (unshift n root) (kids ?v))" using kids(1) [OF v] by (simp add: distinct_map)
    show "set (map (unshift n root) (kids ?v)) = {c \<in> {0..<n}. c \<noteq> root \<and> unshift n root (par (shift n root c)) = r}"
    proof (intro set_eqI iffI)
      fix c assume "c \<in> set (map (unshift n root) (kids ?v))"
      then obtain w where w: "c = unshift n root w" "w \<in> {0..<n}" "w \<noteq> 0" "par w = ?v" using kids(2) [OF v] by auto
      then have c: "shift n root c = w" "c \<in> {0..<n}" using shift_unshift [of w n root] shift_range(2) [OF n] by auto
      have "c \<noteq> root" using c(1) w(3) by (auto simp: shift_def)
      moreover have "unshift n root (par (shift n root c)) = r" using unshift_shift [of r n root] r by (simp add: c(1) w(4))
      ultimately show "c \<in> {c \<in> {0..<n}. c \<noteq> root \<and> unshift n root (par (shift n root c)) = r}" using c(2) by simp
    next
      fix c assume "c \<in> {c \<in> {0..<n}. c \<noteq> root \<and> unshift n root (par (shift n root c)) = r}"
      then have c: "c \<in> {0..<n}" "c \<noteq> root" "par (shift n root c) = ?v" using same r by auto
      then have "shift n root c \<in> set (kids ?v)" using nonroot kids(2) [OF v] by auto
      then show "c \<in> set (map (unshift n root) (kids ?v))" using c(1) unshift_shift [of c n root] by force
    qed
  next
    fix c assume "c \<in> {0..<n}" "c \<noteq> root"
    then show "unshift n root (par (shift n root c)) \<in> {0..<n}" by (intro shift_range(2) [OF n])
  next
    have "depth (shift n root (unshift n root (par (shift n root c)))) < depth (shift n root c)"
      if "c \<in> {0..<n}" "c \<noteq> root" for c
      using nonroot [OF that] par depth shift_unshift [of "par (shift n root c)" n root] by auto
    then show "\<exists>d :: int \<Rightarrow> nat. \<forall>c \<in> {0..<n}. c \<noteq> root \<longrightarrow> d (unshift n root (par (shift n root c))) < d c"
      by (intro exI [of _ "\<lambda>c. depth (shift n root c)"]) blast
  qed
qed

end
