(* ===== verification/Coll_Base_Topo.thy ===== *)
theory Coll_Base_Topo
  imports Coll_Tree Opal_Bit_Ops
begin

unbundle bit_operations_syntax

text \<open>
  The tree builders of \<^verbatim>\<open>ompi/mca/coll/base/coll_base_topo.c\<close>, in the order of the file. \<open>n\<close> is the size of the
  communicator, \<open>rank\<close> the rank of the caller and \<open>mem_ok\<close> says whether \<open>malloc\<close> succeeds. The result is \<open>None\<close> for a
  fault (signed overflow, access outside of the array of children, endless loop) and \<open>Some None\<close> for the null
  pointer. Debug output is left out.
\<close>

section \<open>Helpers\<close>

primrec pown_loop :: "int \<Rightarrow> nat \<Rightarrow> int \<Rightarrow> int option" where
  "pown_loop fanout 0 p = Some p"
| "pown_loop fanout (Suc j) p = do { p' \<leftarrow> c_int (p * fanout); pown_loop fanout j p' }"

definition pown :: "int \<Rightarrow> int \<Rightarrow> int option" where
  "pown fanout num =
     (if num < 0 then Some 0
      else if num = 1 then Some fanout
      else if fanout = 2 then (if num < 31 then Some (2 ^ nat num) else None)
      else pown_loop fanout (nat num) 1)"

partial_function (option) level_loop :: "int \<Rightarrow> int \<Rightarrow> int \<Rightarrow> int \<Rightarrow> int option" where
  "level_loop fanout rank level num =
     (if num \<le> rank then do {
        p \<leftarrow> pown fanout level;
        num' \<leftarrow> c_int (num + p);
        level' \<leftarrow> c_int (level + 1);
        level_loop fanout rank level' num'
      }
      else Some (level - 1))"

definition calculate_level :: "int \<Rightarrow> int \<Rightarrow> int option" where
  "calculate_level fanout rank = (if rank < 0 then Some (-1) else level_loop fanout rank 0 0)"

definition calculate_num_nodes_up_to_level :: "int \<Rightarrow> int \<Rightarrow> int option" where
  "calculate_num_nodes_up_to_level fanout level =
     (if fanout = 1 then Some level else do { p \<leftarrow> pown fanout level; Some ((p - 1) div (fanout - 1)) })"

text \<open>Writing the \<open>k\<close>-th child.\<close>

definition put_child :: "coll_tree \<Rightarrow> int \<Rightarrow> int \<Rightarrow> coll_tree option" where
  "put_child t k c = do { next \<leftarrow> arr_set (tree_next t) k (Some c); Some (t\<lparr>tree_next := next\<rparr>) }"

text \<open>The loops that set the first children to -1.\<close>

definition clear_children :: "coll_tree \<Rightarrow> int \<Rightarrow> coll_tree" where
  "clear_children t k = t\<lparr>tree_next := map (\<lambda>(i, c). if i < k then Some (-1) else c) (zip [0..int (length (tree_next t)) - 1] (tree_next t))\<rparr>"

section \<open>Tree of a given fanout\<close>

text \<open>The loop over the children, left at the first one outside of the communicator.\<close>

fun fanout_children :: "int \<Rightarrow> int \<Rightarrow> int \<Rightarrow> int \<Rightarrow> int list \<Rightarrow> coll_tree \<Rightarrow> coll_tree option" where
  "fanout_children n root shiftedrank delta [] t = Some t"
| "fanout_children n root shiftedrank delta (i # is) t = do {
     step \<leftarrow> c_int (delta * (i + 1));
     schild \<leftarrow> c_int (shiftedrank + step);
     if schild < n then do {
       sum \<leftarrow> c_int (schild + root);
       t' \<leftarrow> put_child t i (sum mod n);
       fanout_children n root shiftedrank delta is (t'\<lparr>tree_nextsize := map_option (\<lambda>k. k + 1) (tree_nextsize t')\<rparr>)
     }
     else Some t }"

partial_function (option) parent_loop :: "int \<Rightarrow> int \<Rightarrow> int \<Rightarrow> int option" where
  "parent_loop slimit step sparent = (if sparent \<ge> slimit then parent_loop slimit step (sparent - step) else Some sparent)"

definition ompi_coll_base_topo_build_tree :: "bool \<Rightarrow> int \<Rightarrow> int \<Rightarrow> int \<Rightarrow> int \<Rightarrow> coll_tree option option" where
  "ompi_coll_base_topo_build_tree mem_ok fanout n rank root =
     (if fanout < 1 \<or> fanout > int MAXTREEFANOUT \<or> \<not> mem_ok then Some None
      else
        (let t = clear_children ((new_tree MAXTREEFANOUT)\<lparr>tree_root := Some root, tree_fanout := Some fanout, tree_bmtree := Some 0,
                   tree_prev := Some (-1), tree_nextsize := Some 0\<rparr>) fanout
         in if n < 2 then Some (Some t)
            else do {
              let shiftedrank = (if rank - root < 0 then rank - root + n else rank - root);
              level \<leftarrow> calculate_level fanout shiftedrank;
              delta \<leftarrow> pown fanout level;
              t \<leftarrow> fanout_children n root shiftedrank delta [0..fanout - 1] t;
              slimit \<leftarrow> calculate_num_nodes_up_to_level fanout level;
              sparent \<leftarrow> (if shiftedrank < fanout then Some 0 else parent_loop slimit (delta div fanout) shiftedrank);
              sum \<leftarrow> c_int (sparent + root);
              Some (Some (t\<lparr>tree_prev := Some (sum mod n)\<rparr>))
            }))"

section \<open>In-order binary tree\<close>

text \<open>
  The descent to the place of the caller. \<open>prev\<close> is the parent found so far; the result also holds the two
  children, -1 for none.
\<close>

partial_function (option) bintree_loop ::
  "int \<Rightarrow> int \<Rightarrow> int \<Rightarrow> int \<Rightarrow> int \<Rightarrow> (int \<times> int \<times> int) option" where
  "bintree_loop n myrank parent delta prev =
     (let rightsize = n div 2;
          lchild = (if n - 1 > 0 then parent - 1 else -1);
          rchild = (if n - 1 > 0 \<and> parent - 1 > 0 then rightsize - 1 else -1)
      in if myrank = parent
         then Some (prev, if lchild \<ge> 0 then lchild + delta else -1, if rchild \<ge> 0 then rchild + delta else -1)
         else if myrank > rchild
         then bintree_loop (n - rightsize - 1) (myrank - rightsize) (n - rightsize - 1 - 1) (delta + rightsize)
                (if myrank = lchild then parent + delta else prev)
         else bintree_loop rightsize myrank rchild delta (if myrank = rchild then parent + delta else prev))"

definition ompi_coll_base_topo_build_in_order_bintree :: "bool \<Rightarrow> int \<Rightarrow> int \<Rightarrow> coll_tree option option" where
  "ompi_coll_base_topo_build_in_order_bintree mem_ok n rank =
     (if \<not> mem_ok then Some None
      else do {
        (prev, l, r) \<leftarrow> bintree_loop n rank (n - 1) 0 (-1);
        t \<leftarrow> put_child ((new_tree MAXTREEFANOUT)\<lparr>tree_root := Some (n - 1), tree_fanout := Some 2, tree_bmtree := Some 0,
               tree_prev := Some prev\<rparr>) 0 l;
        t \<leftarrow> put_child t 1 r;
        let nextsize = (if l \<ge> 0 then 1 else 0);
        Some (Some (t\<lparr>tree_nextsize := Some (if r \<ge> 0 then nextsize + 1 else nextsize)\<rparr>))
      })"

section \<open>Binomial trees\<close>

text \<open>The loop that fills the children; \<open>Some None\<close> is the null pointer of the check of the array size.\<close>

partial_function (option) bmtree_children ::
  "int \<Rightarrow> int \<Rightarrow> int \<Rightarrow> int \<Rightarrow> int \<Rightarrow> coll_tree \<Rightarrow> (coll_tree \<times> int) option option" where
  "bmtree_children n root index msk childs t =
     (if msk < n \<and> \<not> index XOR msk \<ge> n then do {
        sum \<leftarrow> c_int ((index XOR msk) + root);
        let remote = (if sum \<ge> n then sum - n else sum);
        if childs = int MAXTREEFANOUT then Some None
        else do {
          t' \<leftarrow> put_child t childs remote;
          msk' \<leftarrow> c_int (2 * msk);
          bmtree_children n root index msk' (childs + 1) t'
        }
      }
      else Some (Some (t, childs)))"

definition ompi_coll_base_topo_build_bmtree :: "bool \<Rightarrow> int \<Rightarrow> int \<Rightarrow> int \<Rightarrow> coll_tree option option" where
  "ompi_coll_base_topo_build_bmtree mem_ok n rank root =
     (if \<not> mem_ok then Some None
      else do {
        let t = clear_children ((new_tree MAXTREEFANOUT)\<lparr>tree_bmtree := Some 1\<rparr>) (int MAXTREEFANOUT);
        let index = (if rank - root < 0 then rank - root + n else rank - root);
        msk \<leftarrow> opal_next_poweroftwo index;
        prev \<leftarrow> (if root = rank then Some root
                 else do {
                   remote \<leftarrow> c_int ((index XOR (msk div 2)) + root);
                   Some (if remote \<ge> n then remote - n else remote)
                 });
        res \<leftarrow> bmtree_children n root index msk 0 (t\<lparr>tree_prev := Some prev\<rparr>);
        case res of
          None \<Rightarrow> Some None
        | Some (t, childs) \<Rightarrow> Some (Some (t\<lparr>tree_nextsize := Some childs, tree_root := Some root\<rparr>))
      })"

partial_function (option) in_order_bmtree_loop ::
  "int \<Rightarrow> int \<Rightarrow> int \<Rightarrow> int \<Rightarrow> int \<Rightarrow> coll_tree \<Rightarrow> (coll_tree \<times> int) option option" where
  "in_order_bmtree_loop n root vrank msk childs t =
     (if msk < n then do {
        let remote = vrank XOR msk;
        if remote < vrank then do {
          sum \<leftarrow> c_int (remote + root);
          Some (Some (t\<lparr>tree_prev := Some (sum mod n)\<rparr>, childs))
        }
        else if remote < n then do {
          sum \<leftarrow> c_int (remote + root);
          t' \<leftarrow> put_child t childs (sum mod n);
          if childs + 1 = int MAXTREEFANOUT then Some None
          else do {
            msk' \<leftarrow> c_int (2 * msk);
            in_order_bmtree_loop n root vrank msk' (childs + 1) t'
          }
        }
        else do {
          msk' \<leftarrow> c_int (2 * msk);
          in_order_bmtree_loop n root vrank msk' childs t
        }
      }
      else Some (Some (t, childs)))"

definition ompi_coll_base_topo_build_in_order_bmtree :: "bool \<Rightarrow> int \<Rightarrow> int \<Rightarrow> int \<Rightarrow> coll_tree option option" where
  "ompi_coll_base_topo_build_in_order_bmtree mem_ok n rank root = do {
     sum \<leftarrow> c_int (rank - root + n);
     let vrank = sum mod n;
     if \<not> mem_ok then Some None
     else do {
       let t = clear_children ((new_tree MAXTREEFANOUT)\<lparr>tree_bmtree := Some 1\<rparr>) (int MAXTREEFANOUT);
       res \<leftarrow> in_order_bmtree_loop n root vrank 1 0 (if root = rank then t\<lparr>tree_prev := Some root\<rparr> else t);
       case res of
         None \<Rightarrow> Some None
       | Some (t, childs) \<Rightarrow> Some (Some (t\<lparr>tree_nextsize := Some childs, tree_root := Some root\<rparr>))
     }
   }"

section \<open>K-nomial tree\<close>

definition MPI_PROC_NULL :: int where
  "MPI_PROC_NULL = -2"

partial_function (option) log_radix_loop :: "int \<Rightarrow> int \<Rightarrow> int \<Rightarrow> int \<Rightarrow> int option" where
  "log_radix_loop n radix i log_radix =
     (if i < n then do {
        log_radix' \<leftarrow> c_int (log_radix + 1);
        i' \<leftarrow> c_int (i * radix);
        log_radix_loop n radix i' log_radix'
      }
      else Some log_radix)"

text \<open>Division of \<open>int\<close> truncates towards 0.\<close>

definition c_div :: "int \<Rightarrow> int \<Rightarrow> int option" where
  "c_div a b = (if b = 0 then None else c_int (sgn a * sgn b * (\<bar>a\<bar> div \<bar>b\<bar>)))"

lemma c_div_pos:
  assumes "0 \<le> a" "a < 2 ^ 31" "0 < b"
  shows "c_div a b = Some (a div b)"
proof -
  have "0 \<le> a div b" "a div b \<le> a" using assms zdiv_mono2 [of a 1 b] by (simp_all add: pos_imp_zdiv_nonneg_iff)
  then have "c_int (a div b) = Some (a div b)" using assms by (intro c_int_Some) linarith+
  then show ?thesis using assms by (cases "a = 0") (simp_all add: c_div_def)
qed

text \<open>The parent, if the loop finds one, and the last value of \<open>mask\<close>.\<close>

partial_function (option) kmtree_parent :: "int \<Rightarrow> int \<Rightarrow> int \<Rightarrow> int \<Rightarrow> (int option \<times> int) option" where
  "kmtree_parent n radix vrank msk =
     (if msk < n then do {
        rm \<leftarrow> c_int (radix * msk);
        if rm = 0 then None
        else if vrank mod rm \<noteq> 0 then do { q \<leftarrow> c_div vrank rm; p \<leftarrow> c_int (q * rm); Some (Some p, msk) }
        else do { msk' \<leftarrow> c_int (msk * radix); kmtree_parent n radix vrank msk' }
      }
      else Some (None, msk))"

text \<open>The inner loop over \<open>r\<close> and the loop over the masks.\<close>

fun kmtree_row :: "int \<Rightarrow> int \<Rightarrow> int \<Rightarrow> int \<Rightarrow> int list \<Rightarrow> coll_tree \<times> int \<Rightarrow> (coll_tree \<times> int) option" where
  "kmtree_row n root vrank msk [] (t, nchilds) = Some (t, nchilds)"
| "kmtree_row n root vrank msk (r # rs) (t, nchilds) = do {
     step \<leftarrow> c_int (msk * r);
     child \<leftarrow> c_int (vrank + step);
     if child < n then do {
       sum \<leftarrow> c_int (child + root);
       t' \<leftarrow> put_child t nchilds (sum mod n);
       kmtree_row n root vrank msk rs (t', nchilds + 1)
     }
     else kmtree_row n root vrank msk rs (t, nchilds) }"

partial_function (option) kmtree_children ::
  "int \<Rightarrow> int \<Rightarrow> int \<Rightarrow> int \<Rightarrow> int \<Rightarrow> coll_tree \<times> int \<Rightarrow> (coll_tree \<times> int) option" where
  "kmtree_children n root radix vrank msk tk =
     (if msk > 0 then do {
        tk' \<leftarrow> kmtree_row n root vrank msk [1..radix - 1] tk;
        msk' \<leftarrow> c_div msk radix;
        kmtree_children n root radix vrank msk' tk'
      }
      else Some tk)"

definition ompi_coll_base_topo_build_kmtree :: "bool \<Rightarrow> int \<Rightarrow> int \<Rightarrow> int \<Rightarrow> int \<Rightarrow> coll_tree option option" where
  "ompi_coll_base_topo_build_kmtree mem_ok n rank root radix = do {
     log_radix \<leftarrow> log_radix_loop n radix 1 0;
     nchilds_max \<leftarrow> c_int ((radix - 1) * log_radix);
     sum \<leftarrow> c_int (rank - root + n);
     let vrank = sum mod n;
     if \<not> mem_ok then Some None
     else do {
       (prev, msk) \<leftarrow> kmtree_parent n radix vrank 1;
       prev \<leftarrow> (case prev of None \<Rightarrow> Some MPI_PROC_NULL | Some p \<Rightarrow> do { s \<leftarrow> c_int (p + root); Some (s mod n) });
       msk \<leftarrow> c_div msk radix;
       (t, nchilds) \<leftarrow> kmtree_children n root radix vrank msk
          ((new_tree (nat nchilds_max))\<lparr>tree_bmtree := Some 0, tree_root := Some root, tree_prev := Some prev, tree_nextsize := Some 0\<rparr>, 0);
       Some (Some (t\<lparr>tree_nextsize := Some nchilds\<rparr>))
     }
   }"

section \<open>Chain\<close>

text \<open>The heads of the chains below the root.\<close>

fun chain_heads :: "int \<Rightarrow> int \<Rightarrow> int \<Rightarrow> int \<Rightarrow> int list \<Rightarrow> coll_tree \<Rightarrow> coll_tree option" where
  "chain_heads n maxchainlen mark before [] t = Some t"
| "chain_heads n maxchainlen mark before (i # is) t = do {
     head \<leftarrow> c_int (before + maxchainlen);
     let head = (if i > mark then head - 1 else head) mod n;
     t' \<leftarrow> put_child t i head;
     chain_heads n maxchainlen mark head is t' }"

definition ompi_coll_base_topo_build_chain :: "bool \<Rightarrow> int \<Rightarrow> int \<Rightarrow> int \<Rightarrow> int \<Rightarrow> coll_tree option option" where
  "ompi_coll_base_topo_build_chain mem_ok fanout n rank root =
     (let fanout = (if fanout < 1 then 1 else fanout);
          fanout = (if fanout > int MAXTREEFANOUT then int MAXTREEFANOUT else fanout)
      in if \<not> mem_ok then Some None
         else
           (let t = clear_children ((new_tree MAXTREEFANOUT)\<lparr>tree_root := Some root\<rparr>) fanout;
                fanout = (if n - 1 < fanout then n - 1 else fanout);
                t = t\<lparr>tree_nextsize := Some fanout\<rparr>;
                srank = (if rank - root < 0 then rank - root + n else rank - root)
            in if fanout = 1 then do {
                 prev \<leftarrow> (if srank = 0 then Some (-1) else do { s \<leftarrow> c_int (srank - 1 + root); Some (s mod n) });
                 (if srank + 1 \<ge> n then do {
                    t \<leftarrow> put_child t 0 (-1);
                    Some (Some (t\<lparr>tree_prev := Some prev, tree_nextsize := Some 0\<rparr>)) }
                  else do {
                    s \<leftarrow> c_int (srank + 1 + root);
                    t \<leftarrow> put_child t 0 (s mod n);
                    Some (Some (t\<lparr>tree_prev := Some prev, tree_nextsize := Some 1\<rparr>)) })
               }
               else if n = 1 then do {
                 t \<leftarrow> put_child t 0 (-1);
                 Some (Some (t\<lparr>tree_nextsize := Some 0, tree_prev := Some (-1)\<rparr>))
               }
               else
                 (let exact = ((n - 1) mod fanout = 0);
                      maxchainlen = (if exact then (n - 1) div fanout else (n - 1) div fanout + 1);
                      mark = (if exact then fanout + 1 else (n - 1) mod fanout)
                  in if srank \<noteq> 0 then do {
                       limit \<leftarrow> c_int (mark * maxchainlen);
                       let first = (srank - 1 < limit);
                       let column = (if first then (srank - 1) div maxchainlen else mark + (srank - 1 - limit) div (maxchainlen - 1));
                       let head = (if first then 1 + column * maxchainlen else limit + 1 + (column - mark) * (maxchainlen - 1));
                       let len = (if first then maxchainlen else maxchainlen - 1);
                       let prev = (if srank = head then 0 else srank - 1);
                       s \<leftarrow> c_int (prev + root);
                       (if srank = head + len - 1 \<or> \<not> srank + 1 < n then do {
                          t \<leftarrow> put_child t 0 (-1);
                          Some (Some (t\<lparr>tree_prev := Some (s mod n), tree_nextsize := Some 0\<rparr>)) }
                        else do {
                          s' \<leftarrow> c_int (srank + 1 + root);
                          t \<leftarrow> put_child t 0 (s' mod n);
                          Some (Some (t\<lparr>tree_prev := Some (s mod n), tree_nextsize := Some 1\<rparr>)) })
                     }
                     else do {
                       s \<leftarrow> c_int (root + 1);
                       t \<leftarrow> put_child t 0 (s mod n);
                       t \<leftarrow> chain_heads n maxchainlen mark (s mod n) [1..fanout - 1] t;
                       Some (Some (t\<lparr>tree_prev := Some (-1), tree_nextsize := Some fanout\<rparr>))
                     })))"

section \<open>Filling the array of children\<close>

definition with_kids :: "coll_tree \<Rightarrow> int list \<Rightarrow> coll_tree" where
  "with_kids t xs = t\<lparr>tree_next := map Some xs @ drop (length xs) (tree_next t)\<rparr>"

lemma with_no_kids: "with_kids t [] = t"
  by (simp add: with_kids_def)

lemma put_next_child:
  assumes "length xs < length (tree_next t)"
  shows "put_child (with_kids t xs) (int (length xs)) c = Some (with_kids t (xs @ [c]))"
proof -
  have "drop (length xs) (tree_next t) = tree_next t ! length xs # drop (Suc (length xs)) (tree_next t)"
    using assms by (simp add: Cons_nth_drop_Suc)
  then show ?thesis using assms by (simp add: put_child_def with_kids_def arr_set_def list_update_append)
qed

lemma put_first_child: "tree_next t \<noteq> [] \<Longrightarrow> put_child t 0 c = Some (with_kids t [c])"
  using put_next_child [of "[]" t c] by (simp add: with_no_kids)

lemma with_kids_kids:
  assumes "tree_next u = tree_next (with_kids t xs)" "tree_nextsize u = Some (int (length xs))"
  shows "tree_kids u = Some xs"
proof -
  have "mapo (\<lambda>c. c) (map Some xs) = Some xs" by (induction xs) auto
  then show ?thesis using assms by (simp add: tree_kids_def with_kids_def)
qed

lemma new_tree_next [simp]: "tree_next (new_tree k) = replicate k None"
  by (simp add: new_tree_def)

lemma clear_children_length [simp]: "length (tree_next (clear_children t k)) = length (tree_next t)"
  by (simp add: clear_children_def)

lemma clear_children_fields [simp]:
  "tree_root (clear_children t k) = tree_root t" "tree_nextsize (clear_children t k) = tree_nextsize t"
  "tree_prev (clear_children t k) = tree_prev t"
  by (simp_all add: clear_children_def)

section \<open>Shifted ranks\<close>

lemma shift_if: "0 \<le> r \<Longrightarrow> r < n \<Longrightarrow> 0 \<le> root \<Longrightarrow> root < n \<Longrightarrow> (if r - root < 0 then r - root + n else r - root) = shift n root r"
  using mod_add_self2 [of "r - root" n] mod_pos_pos_trivial [of "r - root + n" n] mod_pos_pos_trivial [of "r - root" n]
  by (auto simp: shift_def)

lemma shift_mod: "(r - root + n) mod n = shift n root r"
  by (simp add: shift_def)

lemma unshift_if: "0 \<le> v \<Longrightarrow> v < n \<Longrightarrow> 0 \<le> root \<Longrightarrow> root < n \<Longrightarrow> (if v + root \<ge> n then v + root - n else v + root) = unshift n root v"
  using minus_mod_self2 [of "v + root" n] mod_pos_pos_trivial [of "v + root - n" n] by (auto simp: unshift_def)

lemma unshift_mod: "(v + root) mod n = unshift n root v"
  by (simp add: unshift_def)

lemma c_int_ranks: "0 \<le> v \<Longrightarrow> v < n \<Longrightarrow> 0 \<le> root \<Longrightarrow> root < n \<Longrightarrow> n \<le> 2 ^ 30 \<Longrightarrow> c_int (v + root) = Some (v + root)"
  by (rule c_int_Some) simp_all

text \<open>A builder whose records are those of a tree of shifted ranks builds a tree.\<close>

lemma builds_shifted:
  assumes "spanning n 0 par kids" "0 \<le> root" "root < n"
    and "\<And>r v. 0 \<le> r \<Longrightarrow> r < n \<Longrightarrow> v = shift n root r \<Longrightarrow> 0 \<le> v \<Longrightarrow> v < n \<Longrightarrow>
      \<exists>t. build r = Some (Some t) \<and> tree_root t = Some root \<and> tree_kids t = Some (map (unshift n root) (kids v)) \<and>
        (r \<noteq> root \<longrightarrow> tree_prev t = Some (unshift n root (par v)))"
  shows "builds_tree n root build"
proof -
  have "shift n root r \<in> {0..<n}" for r using assms(2,3) by (intro shift_range) simp
  then show ?thesis
    using spanning_shift [OF assms(1-3)] assms(4) unfolding builds_tree_def
    by (intro exI [of _ "\<lambda>r. unshift n root (par (shift n root r))"] exI [of _ "\<lambda>r. map (unshift n root) (kids (shift n root r))"]) auto
qed

end
