(* ===== verification/Coll_Topo_Binomial.thy ===== *)
theory Coll_Topo_Binomial
  imports Coll_Base_Topo
begin

unbundle bit_operations_syntax

text \<open>
  The binomial and k-nomial trees. In \<open>ompi_coll_base_topo_build_bmtree\<close> the parent of a shifted rank clears its
  highest bit; in the in-order and the k-nomial tree it clears the lowest digit that is not 0.
\<close>

section \<open>Clearing the highest bit\<close>

lemma doublings_Suc: "2 ^ j \<le> c \<Longrightarrow> c < 2 ^ Suc j \<Longrightarrow> doublings (c + 1) = Suc j"
  using doublings_le [of "c + 1" "Suc j"] doublings_less [of j "c + 1"] by simp

definition high_par :: "int \<Rightarrow> int" where
  "high_par v = v - 2 ^ (doublings (v + 1) - 1)"

definition high_kids :: "int \<Rightarrow> int \<Rightarrow> nat \<Rightarrow> int list" where
  "high_kids n v j = map (\<lambda>i. v + 2 ^ i) (filter (\<lambda>i. v + 2 ^ i < n) [j..<doublings n])"

lemma high_bit:
  assumes "0 < c"
  obtains j where "2 ^ j \<le> c" "c < 2 ^ Suc j" "high_par c = c - 2 ^ j" "doublings (c + 1) = Suc j"
proof -
  let ?j = "doublings (c + 1) - 1"
  have "0 < doublings (c + 1)" using assms doublings_less [of 0 "c + 1"] by simp
  then have d: "doublings (c + 1) = Suc ?j" by simp
  show thesis
    using doublings_less [of ?j "c + 1"] doublings_le [of "c + 1" "Suc ?j"] d
    by (intro that [of ?j]) (simp_all add: high_par_def)
qed

lemma high_par_less:
  assumes "0 < c"
  shows "0 \<le> high_par c \<and> high_par c < c"
proof -
  obtain j where "2 ^ j \<le> c" "high_par c = c - 2 ^ j" by (rule high_bit [OF assms])
  then show ?thesis by simp
qed

lemma high_spanning:
  assumes "0 < n"
  shows "spanning n 0 high_par (\<lambda>v. high_kids n v (doublings (v + 1)))"
  unfolding spanning_def
proof (intro conjI ballI impI)
  fix v assume v: "v \<in> {0..<n}"
  have "inj (\<lambda>i. v + 2 ^ i)" by (rule injI) simp
  then show "distinct (high_kids n v (doublings (v + 1)))"
    unfolding high_kids_def by (subst distinct_map) (auto intro: inj_on_subset)
  show "set (high_kids n v (doublings (v + 1))) = {c \<in> {0..<n}. c \<noteq> 0 \<and> high_par c = v}"
  proof (intro set_eqI iffI)
    fix c assume "c \<in> set (high_kids n v (doublings (v + 1)))"
    then obtain i where i: "c = v + 2 ^ i" "c < n" "doublings (v + 1) \<le> i" by (auto simp: high_kids_def)
    have "v < 2 ^ i" using i(3) doublings_le [of "v + 1" i] by simp
    then have "doublings (c + 1) = Suc i" using i(1) v by (intro doublings_Suc) auto
    moreover have "0 < c" unfolding i(1) using v by (intro add_nonneg_pos) auto
    ultimately show "c \<in> {c \<in> {0..<n}. c \<noteq> 0 \<and> high_par c = v}" using i v by (auto simp: high_par_def)
  next
    fix c assume "c \<in> {c \<in> {0..<n}. c \<noteq> 0 \<and> high_par c = v}"
    then have c: "0 < c" "c < n" "high_par c = v" by auto
    obtain j where j: "2 ^ j \<le> c" "c < 2 ^ Suc j" "high_par c = c - 2 ^ j" by (rule high_bit [OF c(1)])
    have "doublings (v + 1) \<le> j" using j c(3) doublings_le [of "v + 1" j] by simp
    moreover have "j < doublings n" using j(1) c(2) doublings_less [of j n] by simp
    ultimately show "c \<in> set (high_kids n v (doublings (v + 1)))" using c j(3) by (force simp: high_kids_def)
  qed
next
  fix c assume "c \<in> {0..<n}" "c \<noteq> 0"
  then show "high_par c \<in> {0..<n}" using high_par_less [of c] by auto
next
  have "nat (high_par c) < nat c" if "c \<in> {0..<n}" "c \<noteq> 0" for c using that high_par_less [of c] by auto
  then show "\<exists>depth :: int \<Rightarrow> nat. \<forall>c \<in> {0..<n}. c \<noteq> 0 \<longrightarrow> depth (high_par c) < depth c" by (intro exI [of _ nat]) blast
qed (use assms in simp_all)

lemma high_kids_step:
  "j < doublings n \<Longrightarrow> v + 2 ^ j < n \<Longrightarrow> high_kids n v j = (v + 2 ^ j) # high_kids n v (Suc j)"
  by (simp add: high_kids_def upt_conv_Cons)

lemma high_kids_end:
  assumes "\<not> v + 2 ^ j < n"
  shows "high_kids n v j = []"
proof -
  have "\<not> v + 2 ^ i < n" if "j \<le> i" for i using power_increasing [OF that, of "2 :: int"] assms by linarith
  then show ?thesis by (auto simp: high_kids_def filter_empty_conv)
qed

lemma bmtree_children_fills:
  assumes n: "n < 2 ^ 30" and root: "0 \<le> root" "root < n" and t: "length (tree_next t) = MAXTREEFANOUT"
    and v: "0 \<le> v" "v < 2 ^ j" and len: "length xs \<le> j" "j \<le> 30"
  shows "bmtree_children n root v (2 ^ j) (int (length xs)) (with_kids t xs) =
    (let ys = xs @ map (unshift n root) (high_kids n v j) in Some (Some (with_kids t ys, int (length ys))))"
  using v len
proof (induction "30 - j" arbitrary: j xs)
  case 0
  then have "\<not> v + 2 ^ j < n" using n by simp
  moreover have "\<not> 2 ^ j < n" using 0 n by simp
  ultimately show ?case by (subst bmtree_children.simps) (simp add: high_kids_end)
next
  case (Suc m)
  have xor: "v XOR 2 ^ j = v + 2 ^ j" using Suc.prems by (simp add: xor_power)
  show ?case
  proof (cases "v + 2 ^ j < n")
    case True
    then have less: "2 ^ j < n" using Suc.prems by simp
    then have j: "j < doublings n" by (simp add: doublings_less)
    have fits: "c_int (v + 2 ^ j + root) = Some (v + 2 ^ j + root)" "c_int (2 * 2 ^ j) = Some (2 ^ Suc j)"
      using True root n less Suc.prems by (auto intro!: c_int_Some)
    have xs: "length xs < length (tree_next t)" using Suc.prems t by (simp add: MAXTREEFANOUT_def)
    have "bmtree_children n root v (2 ^ Suc j) (int (length xs) + 1) (with_kids t (xs @ [unshift n root (v + 2 ^ j)])) =
      Some (Some (with_kids t (xs @ unshift n root (v + 2 ^ j) # map (unshift n root) (high_kids n v (Suc j))),
        int (length xs) + 1 + int (length (high_kids n v (Suc j)))))"
      using Suc.hyps(1) [of "Suc j" "xs @ [unshift n root (v + 2 ^ j)]"] Suc.hyps(2) Suc.prems
      by (simp add: Let_def algebra_simps)
    moreover have "(if v + 2 ^ j + root \<ge> n then v + 2 ^ j + root - n else v + 2 ^ j + root) = unshift n root (v + 2 ^ j)"
      using True root Suc.prems by (intro unshift_if) auto
    moreover have "int (length xs) \<noteq> int MAXTREEFANOUT" using xs t by simp
    ultimately show ?thesis
      using True less fits xs
      by (subst bmtree_children.simps)
        (simp add: xor put_next_child high_kids_step [OF j True] Let_def del: power_Suc split del: if_split)
  next
    case False
    then show ?thesis by (subst bmtree_children.simps) (simp add: xor high_kids_end)
  qed
qed

lemma bmtree_builds:
  assumes n: "n < 2 ^ 30" and root: "0 \<le> root" "root < n"
  shows "builds_tree n root (\<lambda>r. ompi_coll_base_topo_build_bmtree True n r root)"
proof (rule builds_shifted [OF high_spanning])
  show "0 < n" "0 \<le> root" "root < n" using root by simp_all
  fix r v assume r: "0 \<le> r" "r < n" and v: "v = shift n root r" "0 \<le> v" "v < n"
  let ?k = "doublings (v + 1)"
  let ?prev = "if root = r then root else unshift n root (high_par v)"
  let ?t = "clear_children ((new_tree MAXTREEFANOUT)\<lparr>tree_bmtree := Some 1\<rparr>) (int MAXTREEFANOUT)"
  let ?u = "?t\<lparr>tree_prev := Some ?prev\<rparr>"
  have k: "v < 2 ^ ?k" "?k \<le> 30" using doublings_le [of "v + 1" ?k] doublings_le [of "v + 1" 30] v n by simp_all
  have pow: "opal_next_poweroftwo v = Some (2 ^ ?k)" using v n by (intro next_poweroftwo_works) simp_all
  have prev: "(if root = r then Some root
      else do { remote \<leftarrow> c_int ((v XOR (2 ^ ?k div 2)) + root); Some (if remote \<ge> n then remote - n else remote) }) = Some ?prev"
  proof (cases "root = r")
    case False
    then have pos: "0 < v" using shift_root [of r n root] r root v by simp
    obtain j where j: "2 ^ j \<le> v" "v < 2 ^ Suc j" "high_par v = v - 2 ^ j" "?k = Suc j" by (rule high_bit [OF pos])
    have "v div 2 ^ j = 1" using j(1,2) by (simp add: div_eq_dividend_iff div_pos_geq)
    then have "v XOR (2 ^ ?k div 2) = high_par v" by (simp add: j xor_power)
    moreover have "0 \<le> high_par v" "high_par v < n" using j v by auto
    ultimately show ?thesis using False root n unshift_if [of "high_par v" n root] by simp
  qed simp
  have "bmtree_children n root v (2 ^ ?k) 0 ?u =
    Some (Some (with_kids ?u (map (unshift n root) (high_kids n v ?k)), int (length (high_kids n v ?k))))"
    using bmtree_children_fills [OF n root, of ?u v ?k "[]"] k v by (simp add: with_no_kids Let_def)
  then have "ompi_coll_base_topo_build_bmtree True n r root = Some (Some
      ((with_kids ?u (map (unshift n root) (high_kids n v ?k)))\<lparr>tree_nextsize := Some (int (length (high_kids n v ?k))), tree_root := Some root\<rparr>))"
    unfolding ompi_coll_base_topo_build_bmtree_def Let_def shift_if [OF r root] v(1) [symmetric] pow bind.bind_lunit prev
    by simp
  then show "\<exists>t. ompi_coll_base_topo_build_bmtree True n r root = Some (Some t) \<and> tree_root t = Some root \<and>
      tree_kids t = Some (map (unshift n root) (high_kids n v ?k)) \<and> (r \<noteq> root \<longrightarrow> tree_prev t = Some (unshift n root (high_par v)))"
    by (auto simp: with_kids_def intro!: with_kids_kids [of _ ?u])
qed

section \<open>Clearing the lowest digit\<close>

text \<open>The position of the lowest digit of \<open>v\<close> to the base \<open>R\<close> that is not 0, and \<open>v\<close> without it.\<close>

definition low_digit :: "int \<Rightarrow> int \<Rightarrow> nat" where
  "low_digit R v = (LEAST j. \<not> R ^ Suc j dvd v)"

definition low_par :: "int \<Rightarrow> int \<Rightarrow> int" where
  "low_par R v = v - v mod R ^ Suc (low_digit R v)"

definition low_child :: "int \<Rightarrow> int \<Rightarrow> int \<Rightarrow> bool" where
  "low_child R v c \<longleftrightarrow> (\<exists>j r. 1 \<le> r \<and> r < R \<and> R ^ Suc j dvd v \<and> c = v + R ^ j * r)"

lemma base_power_gt: "2 \<le> R \<Longrightarrow> int k < R ^ k" for R :: int
proof (induction k)
  case (Suc k)
  then have "int (Suc k) \<le> R ^ k" by simp
  also have "\<dots> < R * R ^ k" using Suc.prems zero_less_power [of R k] by simp
  finally show ?case by simp
qed simp

lemma low_digit_eq:
  assumes "R ^ j dvd v" "\<not> R ^ Suc j dvd v"
  shows "low_digit R v = j"
  unfolding low_digit_def
proof (rule Least_equality)
  show "\<not> R ^ Suc j dvd v" by (rule assms)
  fix i assume i: "\<not> R ^ Suc i dvd v"
  show "j \<le> i"
  proof (rule ccontr)
    assume "\<not> j \<le> i"
    then have "R ^ Suc i dvd R ^ j" by (intro le_imp_power_dvd) simp
    then show False using i assms(1) dvd_trans by blast
  qed
qed

lemma low_digit_works:
  assumes R: "2 \<le> R" and v: "0 < v"
  shows "R ^ low_digit R v dvd v" "\<not> R ^ Suc (low_digit R v) dvd v"
proof -
  have "v < R ^ Suc (nat v)" using base_power_gt [OF R, of "Suc (nat v)"] v by simp
  then have ex: "\<not> R ^ Suc (nat v) dvd v" using v zdvd_not_zless by blast
  then show "\<not> R ^ Suc (low_digit R v) dvd v"
    unfolding low_digit_def by (rule LeastI [where P = "\<lambda>j. \<not> R ^ Suc j dvd v"])
  show "R ^ low_digit R v dvd v"
  proof (cases "low_digit R v")
    case (Suc i)
    then have "i < low_digit R v" by simp
    then have "R ^ Suc i dvd v" unfolding low_digit_def using not_less_Least by blast
    then show ?thesis by (simp add: Suc)
  qed simp
qed

lemma low_child_par:
  assumes R: "2 \<le> R" and v: "0 \<le> v"
  shows "low_child R v c \<longleftrightarrow> 0 < c \<and> low_par R c = v"
proof
  assume "low_child R v c"
  then obtain j r where jr: "1 \<le> r" "r < R" "R ^ Suc j dvd v" "c = v + R ^ j * r" by (auto simp: low_child_def)
  have pos: "0 < R ^ j" using R by simp
  have "R ^ j dvd v" by (rule dvd_trans [OF le_imp_power_dvd jr(3)]) simp
  then have dvd: "R ^ j dvd c" unfolding jr(4) by simp
  have small: "0 < R ^ j * r" "R ^ j * r < R ^ Suc j" using pos jr(1,2) by simp_all
  have mod: "c mod R ^ Suc j = R ^ j * r"
  proof -
    have "c mod R ^ Suc j = (R ^ j * r) mod R ^ Suc j"
      unfolding jr(4) using jr(3) by (metis mod_add_left_eq add_0 dvd_eq_mod_eq_0)
    then show ?thesis using small by (simp del: power_Suc)
  qed
  then have "\<not> R ^ Suc j dvd c" using small(1) unfolding dvd_eq_mod_eq_0 by linarith
  then have "low_digit R c = j" using dvd by (rule low_digit_eq [rotated])
  then show "0 < c \<and> low_par R c = v" using mod small(1) v by (simp add: low_par_def jr(4))
next
  assume c: "0 < c \<and> low_par R c = v"
  let ?j = "low_digit R c"
  note low = low_digit_works [OF R conjunct1 [OF c]]
  have pos: "0 < R ^ ?j" using R by simp
  have "R ^ ?j dvd c mod R ^ Suc ?j" using low(1) by (simp add: dvd_mod)
  then obtain r where r: "c mod R ^ Suc ?j = R ^ ?j * r" by (auto simp: dvd_def)
  have "c mod R ^ Suc ?j < R ^ Suc ?j" "0 \<le> c mod R ^ Suc ?j" "c mod R ^ Suc ?j \<noteq> 0"
    using R low(2) by (simp_all add: dvd_eq_mod_eq_0 del: power_Suc)
  then have "0 < R ^ ?j * r \<and> R ^ ?j * r < R ^ ?j * R"
    unfolding r power_Suc2 [symmetric] by linarith
  then have "1 \<le> r" "r < R" using pos by (auto simp only: zero_less_mult_iff mult_less_cancel_left_pos)
  moreover have "R ^ Suc ?j dvd v" using c by (auto simp: low_par_def simp del: power_Suc)
  moreover have "c = v + R ^ ?j * r" using c r by (simp add: low_par_def)
  ultimately show "low_child R v c" unfolding low_child_def by blast
qed

lemma low_par_less: "2 \<le> R \<Longrightarrow> 0 < c \<Longrightarrow> 0 \<le> low_par R c \<and> low_par R c < c"
proof -
  assume R: "2 \<le> R" and c: "0 < c"
  have "0 \<le> c - c mod R ^ Suc (low_digit R c)" using c R by (simp add: zmod_le_nonneg_dividend del: power_Suc)
  moreover have "0 < c mod R ^ Suc (low_digit R c)"
    using R low_digit_works(2) [OF R c] pos_mod_sign [of "R ^ Suc (low_digit R c)" c]
    by (simp add: dvd_eq_mod_eq_0 less_le del: power_Suc)
  ultimately show ?thesis by (simp add: low_par_def)
qed

lemma low_spanning:
  assumes R: "2 \<le> R" and n: "0 < n"
    and kids: "\<And>v. 0 \<le> v \<Longrightarrow> v < n \<Longrightarrow> distinct (kids v) \<and> set (kids v) = {c. low_child R v c \<and> c < n}"
  shows "spanning n 0 (low_par R) kids"
  unfolding spanning_def
proof (intro conjI ballI impI)
  fix v assume v: "v \<in> {0..<n}"
  show "distinct (kids v)" using kids v by simp
  have "set (kids v) = {c. low_child R v c \<and> c < n}" using kids v by simp
  also have "\<dots> = {c \<in> {0..<n}. c \<noteq> 0 \<and> low_par R c = v}"
    using v by (intro Collect_cong) (auto simp: low_child_par [OF R])
  finally show "set (kids v) = {c \<in> {0..<n}. c \<noteq> 0 \<and> low_par R c = v}" .
next
  fix c assume "c \<in> {0..<n}" "c \<noteq> 0"
  then show "low_par R c \<in> {0..<n}" using low_par_less [OF R, of c] by auto
next
  have "nat (low_par R c) < nat c" if "c \<in> {0..<n}" "c \<noteq> 0" for c using that low_par_less [OF R, of c] by auto
  then show "\<exists>depth :: int \<Rightarrow> nat. \<forall>c \<in> {0..<n}. c \<noteq> 0 \<longrightarrow> depth (low_par R c) < depth c" by (intro exI [of _ nat]) blast
qed (use n in simp_all)

section \<open>The in-order binomial tree\<close>

definition in_order_kids :: "int \<Rightarrow> int \<Rightarrow> nat \<Rightarrow> int list" where
  "in_order_kids n v j = map (\<lambda>i. v + 2 ^ i) (filter (\<lambda>i. 2 ^ Suc i dvd v \<and> v + 2 ^ i < n) [j..<doublings n])"

lemma in_order_spanning:
  assumes "0 < n"
  shows "spanning n 0 (low_par 2) (\<lambda>v. in_order_kids n v 0)"
proof (rule low_spanning)
  fix v :: int assume v: "0 \<le> v" "v < n"
  have "inj (\<lambda>i. v + 2 ^ i)" by (rule injI) simp
  then have "distinct (in_order_kids n v 0)"
    unfolding in_order_kids_def by (subst distinct_map) (auto intro: inj_on_subset)
  moreover have bound: "i < doublings n" if "v + 2 ^ i < n" for i unfolding doublings_less [symmetric] using that v(1) by linarith
  have "set (in_order_kids n v 0) = {c. (\<exists>j. 2 ^ Suc j dvd v \<and> c = v + 2 ^ j) \<and> c < n}"
  proof (intro set_eqI iffI)
    fix c assume "c \<in> {c. (\<exists>j. 2 ^ Suc j dvd v \<and> c = v + 2 ^ j) \<and> c < n}"
    then obtain j where "2 ^ Suc j dvd v" "c = v + 2 ^ j" "v + 2 ^ j < n" by blast
    with bound [of j] show "c \<in> set (in_order_kids n v 0)" by (simp add: in_order_kids_def del: power_Suc)
  qed (auto simp: in_order_kids_def simp del: power_Suc)
  moreover have "low_child 2 v c \<longleftrightarrow> (\<exists>j. 2 ^ Suc j dvd v \<and> c = v + 2 ^ j)" for c
  proof -
    have "1 \<le> r \<and> r < 2 \<longleftrightarrow> r = 1" for r :: int by auto
    then show ?thesis unfolding low_child_def conj_assoc [symmetric] by simp
  qed
  ultimately show "distinct (in_order_kids n v 0) \<and> set (in_order_kids n v 0) = {c. low_child 2 v c \<and> c < n}"
    by simp
qed (use assms in simp_all)

lemma power_dvd_odd: "2 ^ j dvd v \<Longrightarrow> odd (v div 2 ^ j) \<longleftrightarrow> \<not> 2 ^ Suc j dvd v" for v :: int
  by (auto simp: mult.commute [of 2])

lemma in_order_kids_step:
  assumes "j < doublings n"
  shows "in_order_kids n v j = (if 2 ^ Suc j dvd v \<and> v + 2 ^ j < n then [v + 2 ^ j] else []) @ in_order_kids n v (Suc j)"
  using assms by (simp add: in_order_kids_def upt_conv_Cons)

lemma in_order_kids_end:
  assumes "\<not> 2 ^ Suc j dvd v"
  shows "in_order_kids n v j = []"
proof -
  have "\<not> 2 ^ Suc i dvd v" if "j \<le> i" for i
  proof
    have "(2 :: int) ^ Suc j dvd 2 ^ Suc i" by (rule le_imp_power_dvd) (use that in simp)
    moreover assume "2 ^ Suc i dvd v"
    ultimately show False using assms dvd_trans by blast
  qed
  then show ?thesis by (auto simp: in_order_kids_def filter_empty_conv simp del: power_Suc)
qed

definition in_order_record :: "int \<Rightarrow> int \<Rightarrow> int \<Rightarrow> coll_tree \<Rightarrow> int list \<Rightarrow> coll_tree" where
  "in_order_record n root v t ys = with_kids (if v = 0 then t else t\<lparr>tree_prev := Some (unshift n root (low_par 2 v))\<rparr>) ys"

lemma in_order_fills:
  assumes n: "n < 2 ^ 30" and root: "0 \<le> root" "root < n" and t: "length (tree_next t) = MAXTREEFANOUT"
    and v: "0 \<le> v" "v < n" and dvd: "2 ^ j dvd v" and len: "length xs \<le> j" "j \<le> 30"
  shows "in_order_bmtree_loop n root v (2 ^ j) (int (length xs)) (with_kids t xs) =
    (let ys = xs @ map (unshift n root) (in_order_kids n v j) in Some (Some (in_order_record n root v t ys, int (length ys))))"
  using dvd len
proof (induction "30 - j" arbitrary: j xs)
  case 0
  have "doublings n \<le> j" using doublings_le [of n 30] 0 n by simp
  moreover have "v = 0" using 0 n v zdvd_not_zless [of v "2 ^ j"] by force
  moreover have "\<not> 2 ^ j < n" using 0 n by simp
  ultimately show ?case by (subst in_order_bmtree_loop.simps) (simp add: in_order_kids_def in_order_record_def)
next
  case (Suc m)
  show ?case
  proof (cases "2 ^ j < n")
    case False
    then have "doublings n \<le> j" using doublings_le [of n j] by simp
    moreover have "v = 0" using False Suc.prems v zdvd_not_zless [of v "2 ^ j"] by force
    ultimately show ?thesis using False by (subst in_order_bmtree_loop.simps) (simp add: in_order_kids_def in_order_record_def)
  next
    case less: True
    then have j: "j < doublings n" by (simp add: doublings_less)
    have xs: "length xs < length (tree_next t)" "int (length xs) + 1 \<noteq> int MAXTREEFANOUT"
      using Suc.prems Suc.hyps(2) t by (simp_all add: MAXTREEFANOUT_def)
    show ?thesis
    proof (cases "2 ^ Suc j dvd v")
      case False
      then have odd: "odd (v div 2 ^ j)" using power_dvd_odd Suc.prems by blast
      have low: "low_digit 2 v = j" by (rule low_digit_eq) (use False Suc.prems in simp_all)
      have pos: "v \<noteq> 0" using False by auto
      then have le: "2 ^ j \<le> v" using Suc.prems v zdvd_imp_le [of "2 ^ j" v] by simp
      have "v mod 2 ^ Suc j = 2 ^ j" unfolding mod_power_Suc using odd Suc.prems by simp
      then have par: "low_par 2 v = v - 2 ^ j" by (simp add: low_par_def low)
      have "v - 2 ^ j \<le> v" by simp
      then have "c_int (v - 2 ^ j + root) = Some (v - 2 ^ j + root)" using le v root n by (intro c_int_ranks [of _ n]) linarith+
      then show ?thesis using less odd pos
        by (subst in_order_bmtree_loop.simps)
          (simp add: xor_power in_order_kids_end [OF False] in_order_record_def unshift_mod par with_kids_def)
    next
      case True
      then have xor: "v XOR 2 ^ j = v + 2 ^ j" using power_dvd_odd Suc.prems by (simp add: xor_power)
      have msk: "c_int (2 * 2 ^ j) = Some (2 ^ Suc j)" using less n by (auto intro!: c_int_Some)
      show ?thesis
      proof (cases "v + 2 ^ j < n")
        case False
        have "in_order_bmtree_loop n root v (2 ^ Suc j) (int (length xs)) (with_kids t xs) =
          (let ys = xs @ map (unshift n root) (in_order_kids n v j) in Some (Some (in_order_record n root v t ys, int (length ys))))"
          using Suc.hyps(1) [of "Suc j" xs] Suc.hyps(2) Suc.prems True False by (simp add: in_order_kids_step [OF j] del: power_Suc)
        then show ?thesis using less msk False
          by (subst in_order_bmtree_loop.simps) (simp add: xor del: power_Suc)
      next
        case kid: True
        let ?c = "unshift n root (v + 2 ^ j)"
        have "in_order_bmtree_loop n root v (2 ^ Suc j) (int (length xs) + 1) (with_kids t (xs @ [?c])) =
          (let ys = xs @ map (unshift n root) (in_order_kids n v j) in Some (Some (in_order_record n root v t ys, int (length ys))))"
          using Suc.hyps(1) [of "Suc j" "xs @ [?c]"] Suc.hyps(2) Suc.prems True kid
          by (simp add: in_order_kids_step [OF j] add.commute del: power_Suc)
        moreover have "c_int (v + 2 ^ j + root) = Some (v + 2 ^ j + root)" using kid v root n by (intro c_int_Some) auto
        ultimately show ?thesis using less msk kid xs
          by (subst in_order_bmtree_loop.simps) (simp add: xor put_next_child unshift_mod del: power_Suc)
      qed
    qed
  qed
qed

lemma in_order_bmtree_builds:
  assumes n: "n < 2 ^ 30" and root: "0 \<le> root" "root < n"
  shows "builds_tree n root (\<lambda>r. ompi_coll_base_topo_build_in_order_bmtree True n r root)"
proof (rule builds_shifted [OF in_order_spanning])
  show "0 < n" "0 \<le> root" "root < n" using root by simp_all
  fix r v assume r: "0 \<le> r" "r < n" and v: "v = shift n root r" "0 \<le> v" "v < n"
  let ?t = "clear_children ((new_tree MAXTREEFANOUT)\<lparr>tree_bmtree := Some 1\<rparr>) (int MAXTREEFANOUT)"
  let ?u = "if root = r then ?t\<lparr>tree_prev := Some root\<rparr> else ?t"
  let ?ys = "map (unshift n root) (in_order_kids n v 0)"
  have "in_order_bmtree_loop n root v 1 0 ?u = Some (Some (in_order_record n root v ?u ?ys, int (length ?ys)))"
    using in_order_fills [OF n root, of ?u v 0 "[]"] v by (simp add: with_no_kids Let_def)
  moreover have "c_int (r - root + n) = Some (r - root + n)" using r root n by (intro c_int_Some) auto
  ultimately have "ompi_coll_base_topo_build_in_order_bmtree True n r root =
      Some (Some ((in_order_record n root v ?u ?ys)\<lparr>tree_nextsize := Some (int (length ?ys)), tree_root := Some root\<rparr>))"
    unfolding ompi_coll_base_topo_build_in_order_bmtree_def Let_def
    by (simp add: shift_def v(1) split del: if_split)
  moreover have "v \<noteq> 0" if "r \<noteq> root" using that shift_root [of r n root] r root v by simp
  ultimately show "\<exists>t. ompi_coll_base_topo_build_in_order_bmtree True n r root = Some (Some t) \<and> tree_root t = Some root \<and>
      tree_kids t = Some ?ys \<and> (r \<noteq> root \<longrightarrow> tree_prev t = Some (unshift n root (low_par 2 v)))"
    by (auto simp: in_order_record_def with_kids_def intro!: with_kids_kids [of _ ?u])
qed

end
