(* ===== verification/Coll_Topo_Knomial.thy ===== *)
theory Coll_Topo_Knomial
  imports Coll_Topo_Binomial
begin

text \<open>
  The k-nomial tree of \<open>ompi_coll_base_topo_build_kmtree\<close>: the parent of a shifted rank clears its lowest digit
  to the base \<open>radix\<close> that is not 0, and the children fill the digits below it. The array of children that the
  builder allocates has room for all of them.
\<close>

section \<open>The children\<close>

definition km_row :: "int \<Rightarrow> int \<Rightarrow> int \<Rightarrow> nat \<Rightarrow> int list" where
  "km_row R n v j = filter (\<lambda>c. c < n) (map (\<lambda>r. v + R ^ j * r) [1..R - 1])"

fun km_rows :: "int \<Rightarrow> int \<Rightarrow> int \<Rightarrow> nat \<Rightarrow> int list" where
  "km_rows R n v 0 = []"
| "km_rows R n v (Suc j) = km_row R n v j @ km_rows R n v j"

text \<open>The number of digits of the ranks below \<open>n\<close>, and the number of rows of children of \<open>v\<close>.\<close>

definition digits :: "int \<Rightarrow> int \<Rightarrow> nat" where
  "digits R n = (LEAST m. n \<le> R ^ m)"

definition km_height :: "int \<Rightarrow> int \<Rightarrow> int \<Rightarrow> nat" where
  "km_height R n v = (if v = 0 then digits R n else low_digit R v)"

lemma digits_le:
  assumes R: "2 \<le> R"
  shows "n \<le> R ^ k \<longleftrightarrow> digits R n \<le> k"
proof
  show "n \<le> R ^ k \<Longrightarrow> digits R n \<le> k" unfolding digits_def by (rule Least_le)
  have "n \<le> R ^ nat n" using base_power_gt [OF R, of "nat n"] by linarith
  then have "n \<le> R ^ digits R n" unfolding digits_def by (rule LeastI)
  then show "n \<le> R ^ k" if "digits R n \<le> k" using power_increasing [OF that, of R] R by linarith
qed

lemma digits_less: "2 \<le> R \<Longrightarrow> R ^ k < n \<longleftrightarrow> k < digits R n"
  using digits_le [of R n k] by (simp add: not_le [symmetric])

lemma low_digit_dvd:
  assumes R: "2 \<le> R" and v: "0 < v"
  shows "R ^ Suc j dvd v \<longleftrightarrow> j < low_digit R v"
proof
  assume j: "j < low_digit R v"
  then have "R ^ Suc j dvd R ^ low_digit R v" by (intro le_imp_power_dvd) simp
  then show "R ^ Suc j dvd v" using low_digit_works(1) [OF R v] dvd_trans by blast
next
  assume dvd: "R ^ Suc j dvd v"
  show "j < low_digit R v"
  proof (rule ccontr)
    assume "\<not> j < low_digit R v"
    then have "R ^ Suc (low_digit R v) dvd R ^ Suc j" by (intro le_imp_power_dvd) simp
    then show False using low_digit_works(2) [OF R v] dvd dvd_trans by blast
  qed
qed

lemma km_row_bounds:
  assumes "2 \<le> R" "c \<in> set (km_row R n v j)"
  shows "v + R ^ j \<le> c" "c < v + R ^ Suc j"
proof -
  obtain r where r: "c = v + R ^ j * r" "1 \<le> r" "r \<le> R - 1" using assms(2) by (auto simp: km_row_def)
  have pos: "0 < R ^ j" using assms(1) by simp
  show "v + R ^ j \<le> c" using mult_left_mono [of 1 r "R ^ j"] r pos by simp
  have "R ^ j * r < R ^ j * R" using r pos by simp
  then show "c < v + R ^ Suc j" using r(1) by (simp add: mult.commute)
qed

lemma km_rows_below: "2 \<le> R \<Longrightarrow> c \<in> set (km_rows R n v k) \<Longrightarrow> c < v + R ^ k"
proof (induction k)
  case (Suc k)
  have "R ^ k \<le> R ^ Suc k" by (rule power_increasing) (use Suc.prems in simp_all)
  then have "c < v + R ^ Suc k" if "c < v + R ^ k" using that by linarith
  then show ?case using Suc km_row_bounds(2) [of R c n v k] by (auto simp del: power_Suc)
qed simp

lemma km_rows_distinct: "2 \<le> R \<Longrightarrow> distinct (km_rows R n v k)"
proof (induction k)
  case (Suc k)
  have "inj (\<lambda>r. v + R ^ k * r)" using Suc.prems by (intro injI) simp
  then have "distinct (km_row R n v k)" unfolding km_row_def by (intro distinct_filter) (auto simp: distinct_map intro: inj_on_subset)
  moreover have "set (km_row R n v k) \<inter> set (km_rows R n v k) = {}"
    using km_row_bounds(1) [of R _ n v k] km_rows_below [of R _ n v k] Suc.prems by force
  ultimately show ?case using Suc by simp
qed simp

lemma km_rows_set: "set (km_rows R n v k) = {c. (\<exists>j r. j < k \<and> 1 \<le> r \<and> r < R \<and> c = v + R ^ j * r) \<and> c < n}"
proof (induction k)
  case (Suc k)
  have "set (km_row R n v k) = {c. (\<exists>r. 1 \<le> r \<and> r < R \<and> c = v + R ^ k * r) \<and> c < n}" by (auto simp: km_row_def)
  then show ?case using Suc by (auto simp: less_Suc_eq)
qed simp

lemma km_spanning:
  assumes R: "2 \<le> R" and n: "0 < n"
  shows "spanning n 0 (low_par R) (\<lambda>v. km_rows R n v (km_height R n v))"
proof (rule low_spanning [OF R n], rule conjI)
  fix v :: int assume v: "0 \<le> v" "v < n"
  show "distinct (km_rows R n v (km_height R n v))" by (rule km_rows_distinct [OF R])
  have "R ^ Suc j dvd v \<longleftrightarrow> j < km_height R n v" if "1 \<le> r" "v + R ^ j * r < n" for j r
  proof (cases "v = 0")
    case True
    have "R ^ j \<le> R ^ j * r" using that(1) R by simp
    then show ?thesis using True that(2) digits_less [OF R, of j n] by (simp add: km_height_def)
  next
    case False
    then show ?thesis using low_digit_dvd [OF R, of v j] v by (simp add: km_height_def)
  qed
  then show "set (km_rows R n v (km_height R n v)) = {c. low_child R v c \<and> c < n}"
    unfolding km_rows_set low_child_def by blast
qed

section \<open>The loops\<close>

lemma radix_power_fits:
  assumes "2 \<le> R" "R ^ k < n" "n * R < 2 ^ 31"
  shows "c_int (R * R ^ k) = Some (R ^ Suc k)" "c_int (R ^ k * R) = Some (R ^ Suc k)" "R ^ Suc k \<noteq> 0"
proof -
  have "R ^ k * R < n * R" using assms(1,2) by (intro mult_strict_right_mono) simp_all
  then have "R ^ Suc k < 2 ^ 31" unfolding power_Suc2 using assms(3) by (rule less_trans)
  moreover have "0 < R ^ Suc k" using assms(1) by simp
  ultimately have "c_int (R ^ Suc k) = Some (R ^ Suc k)" by (intro c_int_Some) linarith+
  then show "c_int (R * R ^ k) = Some (R ^ Suc k)" "c_int (R ^ k * R) = Some (R ^ Suc k)" by (simp_all add: mult.commute)
  show "R ^ Suc k \<noteq> 0" using assms(1) by simp
qed

lemma log_radix_works:
  assumes R: "2 \<le> R" and n: "n * R < 2 ^ 31" "n \<le> 2 ^ 30" "k \<le> digits R n"
  shows "log_radix_loop n R (R ^ k) (int k) = Some (int (digits R n))"
  using n(3)
proof (induction "digits R n - k" arbitrary: k)
  case 0
  then have "\<not> R ^ k < n" using digits_less [OF R, of k n] by simp
  then show ?case using 0 by (subst log_radix_loop.simps) simp
next
  case (Suc m)
  then have less: "R ^ k < n" using digits_less [OF R, of k n] by simp
  note radix_power_fits(2) [OF R less n(1)]
  moreover have "c_int (int k + 1) = Some (int (Suc k))" using base_power_gt [OF R, of k] less n(2) by (subst c_int_Some) auto
  moreover have "log_radix_loop n R (R ^ Suc k) (int (Suc k)) = Some (int (digits R n))" using Suc by (intro Suc.hyps(1)) simp_all
  ultimately show ?case using less by (subst log_radix_loop.simps) simp
qed

lemma kmtree_parent_works:
  assumes R: "2 \<le> R" and n: "n * R < 2 ^ 31" "k \<le> digits R n" and v: "0 \<le> v" "v < n" and dvd: "R ^ k dvd v"
  shows "kmtree_parent n R v (R ^ k) = Some (if v = 0 then None else Some (low_par R v), R ^ km_height R n v)"
  using n(2) dvd
proof (induction "digits R n - k" arbitrary: k)
  case 0
  then have "\<not> R ^ k < n" using digits_less [OF R, of k n] by simp
  moreover from this have "v = 0" using 0 v zdvd_not_zless [of v "R ^ k"] by force
  ultimately show ?case using 0 by (subst kmtree_parent.simps) (simp add: km_height_def)
next
  case (Suc m)
  then have less: "R ^ k < n" using digits_less [OF R, of k n] by simp
  note fits = radix_power_fits [OF R less n(1)]
  have v31: "v < 2 ^ 31" using v n(1) mult_left_mono [of 1 R n] R by linarith
  show ?case
  proof (cases "R ^ Suc k dvd v")
    case True
    then have "kmtree_parent n R v (R ^ Suc k) = Some (if v = 0 then None else Some (low_par R v), R ^ km_height R n v)"
      using Suc by (intro Suc.hyps(1)) simp_all
    then show ?thesis using less fits True by (subst kmtree_parent.simps) (simp del: power_Suc)
  next
    case False
    then have low: "low_digit R v = k" using Suc.prems by (intro low_digit_eq)
    have "v \<noteq> 0" using False by auto
    moreover have "v div R ^ Suc k * R ^ Suc k = low_par R v"
      using div_mult_mod_eq [of v "R ^ Suc k"] by (simp add: low_par_def low)
    moreover have "c_div v (R ^ Suc k) = Some (v div R ^ Suc k)" using v v31 fits(3) R by (intro c_div_pos) simp_all
    moreover have "c_int (low_par R v) = Some (low_par R v)"
      using low_par_less [OF R, of v] \<open>v \<noteq> 0\<close> v v31 by (intro c_int_Some) linarith+
    ultimately show ?thesis using less fits False low
      by (subst kmtree_parent.simps) (simp add: km_height_def dvd_eq_mod_eq_0 del: power_Suc)
  qed
qed

lemma kmtree_row_fills:
  assumes root: "0 \<le> root" "root < n" and n: "n \<le> 2 ^ 30" and v: "0 \<le> v" "v < n"
    and len: "length xs + length rs \<le> length (tree_next t)"
    and rs: "\<And>r. r \<in> set rs \<Longrightarrow> 0 \<le> msk * r \<and> v + msk * r < 2 ^ 31"
  shows "kmtree_row n root v msk rs (with_kids t xs, int (length xs)) =
    (let ys = xs @ map (unshift n root) (filter (\<lambda>c. c < n) (map (\<lambda>r. v + msk * r) rs)) in Some (with_kids t ys, int (length ys)))"
  using len rs
proof (induction rs arbitrary: xs)
  case (Cons r rs)
  have r: "0 \<le> msk * r" "v + msk * r < 2 ^ 31" using Cons.prems(2) by simp_all
  then have fits: "c_int (msk * r) = Some (msk * r)" "c_int (v + msk * r) = Some (v + msk * r)" using v by (auto intro!: c_int_Some)
  show ?case
  proof (cases "v + msk * r < n")
    case True
    have "c_int (v + msk * r + root) = Some (v + msk * r + root)" using True r v root n by (intro c_int_ranks) simp_all
    moreover have "length xs < length (tree_next t)" using Cons.prems(1) by simp
    moreover have "int (length xs) + 1 = int (length (xs @ [unshift n root (v + msk * r)]))" by simp
    ultimately show ?thesis
      using Cons.IH [of "xs @ [unshift n root (v + msk * r)]"] Cons.prems True
      by (simp add: fits put_next_child unshift_mod Let_def del: length_append of_nat_add)
  next
    case False
    then show ?thesis using Cons by (simp add: fits)
  qed
qed simp

lemma kmtree_children_fills:
  assumes R: "2 \<le> R" and root: "0 \<le> root" "root < n" and n: "n \<le> 2 ^ 30" "n * R < 2 ^ 31" and v: "0 \<le> v" "v < n"
    and k: "k \<le> digits R n" and len: "length xs + nat (R - 1) * k \<le> length (tree_next t)"
  shows "kmtree_children n root R v (R ^ k div R) (with_kids t xs, int (length xs)) =
    (let ys = xs @ map (unshift n root) (km_rows R n v k) in Some (with_kids t ys, int (length ys)))"
  using k len
proof (induction k arbitrary: xs)
  case 0
  then show ?case using R by (subst kmtree_children.simps) simp
next
  case (Suc k)
  have pow: "R ^ Suc k div R = R ^ k" using R by simp
  have pos: "0 < R ^ k" using R by simp
  have less: "R ^ k < n" using digits_less [OF R, of k n] Suc.prems by simp
  have "n < 2 ^ 31" using n(1) by simp
  then have step: "c_div (R ^ k) R = Some (R ^ k div R)" using pos less R by (intro c_div_pos) linarith+
  have rs: "0 \<le> R ^ k * r \<and> v + R ^ k * r < 2 ^ 31" if "r \<in> set [1..R - 1]" for r
  proof -
    have "R ^ k * r \<le> n * (R - 1)" using that less root by (intro mult_mono) auto
    moreover have "n * (R - 1) = n * R - n" by (simp add: algebra_simps)
    ultimately show ?thesis using that pos v n(2) by auto
  qed
  let ?ys = "map (unshift n root) (km_row R n v k)"
  have len: "length ?ys \<le> nat (R - 1)" unfolding km_row_def by (simp add: length_filter_le [THEN order_trans])
  have "kmtree_row n root v (R ^ k) [1..R - 1] (with_kids t xs, int (length xs)) = Some (with_kids t (xs @ ?ys), int (length (xs @ ?ys)))"
    using kmtree_row_fills [OF root n(1) v, of xs "[1..R - 1]" t "R ^ k"] Suc.prems rs by (simp add: km_row_def Let_def)
  moreover have "kmtree_children n root R v (R ^ k div R) (with_kids t (xs @ ?ys), int (length (xs @ ?ys))) =
      (let ys = (xs @ ?ys) @ map (unshift n root) (km_rows R n v k) in Some (with_kids t ys, int (length ys)))"
    by (rule Suc.IH) (use Suc.prems len in simp_all)
  ultimately show ?case using pos by (subst kmtree_children.simps) (simp add: pow step del: power_Suc)
qed

section \<open>The builder\<close>

lemma kmtree_builds:
  assumes R: "2 \<le> R" and n: "n \<le> 2 ^ 30" "n * R < 2 ^ 31" and root: "0 \<le> root" "root < n"
  shows "builds_tree n root (\<lambda>r. ompi_coll_base_topo_build_kmtree True n r root R)"
proof (rule builds_shifted [OF km_spanning [OF R]])
  show "0 < n" "0 \<le> root" "root < n" using root by simp_all
  fix r v assume r: "0 \<le> r" "r < n" and v: "v = shift n root r" "0 \<le> v" "v < n"
  let ?m = "digits R n"
  let ?prev = "if v = 0 then MPI_PROC_NULL else unshift n root (low_par R v)"
  let ?u = "(new_tree (nat ((R - 1) * int ?m)))\<lparr>tree_bmtree := Some 0, tree_root := Some root, tree_prev := Some ?prev, tree_nextsize := Some 0\<rparr>"
  let ?ys = "map (unshift n root) (km_rows R n v (km_height R n v))"
  have height: "km_height R n v \<le> ?m"
  proof (cases "v = 0")
    case False
    then have "R ^ low_digit R v \<le> v" using low_digit_works(1) [OF R, of v] v by (intro zdvd_imp_le) simp_all
    then show ?thesis using False v digits_less [OF R, of "low_digit R v" n] by (simp add: km_height_def)
  qed (simp add: km_height_def)
  have msk: "c_div (R ^ km_height R n v) R = Some (R ^ km_height R n v div R)"
  proof (cases "km_height R n v")
    case 0
    then show ?thesis using R by (intro c_div_pos) simp_all
  next
    case (Suc k)
    then have "R ^ k < n" using height digits_less [OF R, of k n] by simp
    then have "R ^ k * R < n * R" using R by (intro mult_strict_right_mono) simp_all
    then have "R ^ Suc k < 2 ^ 31" unfolding power_Suc2 using n(2) by (rule less_trans)
    then show ?thesis using R unfolding Suc by (intro c_div_pos) simp_all
  qed
  have "?m \<le> nat n" unfolding digits_le [OF R, symmetric] using base_power_gt [OF R, of "nat n"] by linarith
  then have "(R - 1) * int ?m \<le> R * n" using R root by (intro mult_mono) auto
  then have max: "c_int ((R - 1) * int ?m) = Some ((R - 1) * int ?m)" using n(2) R by (intro c_int_Some) (auto simp: mult.commute)
  have log: "log_radix_loop n R 1 0 = Some (int ?m)" using log_radix_works [OF R n(2,1), of 0] by simp
  have par: "kmtree_parent n R v 1 = Some (if v = 0 then None else Some (low_par R v), R ^ km_height R n v)"
    using kmtree_parent_works [OF R n(2), of 0 v] v by simp
  have prev: "(case if v = 0 then None else Some (low_par R v) of None \<Rightarrow> Some MPI_PROC_NULL
      | Some p \<Rightarrow> do { s \<leftarrow> c_int (p + root); Some (s mod n) }) = Some ?prev"
  proof (cases "v = 0")
    case False
    then have "c_int (low_par R v + root) = Some (low_par R v + root)"
      using low_par_less [OF R, of v] v root n(1) by (intro c_int_ranks) auto
    then show ?thesis using False by (simp add: unshift_mod)
  qed simp
  have "nat (R - 1) * km_height R n v \<le> nat (R - 1) * ?m" using height by simp
  then have "kmtree_children n root R v (R ^ km_height R n v div R) (?u, 0) = Some (with_kids ?u ?ys, int (length ?ys))"
    using kmtree_children_fills [OF R root n v(2,3) height, of "[]" ?u] R by (simp add: with_no_kids Let_def nat_mult_distrib)
  moreover have vr: "(r - root) mod n = v" by (simp add: v(1) shift_def)
  moreover have "c_int (r - root + n) = Some (r - root + n)" using r root n by (intro c_int_Some) auto
  ultimately have "ompi_coll_base_topo_build_kmtree True n r root R = Some (Some ((with_kids ?u ?ys)\<lparr>tree_nextsize := Some (int (length ?ys))\<rparr>))"
    unfolding ompi_coll_base_topo_build_kmtree_def Let_def log max bind.bind_lunit
    by (simp add: vr par prev msk split del: if_split)
  moreover have "v \<noteq> 0" if "r \<noteq> root" using that shift_root [of r n root] r root v by simp
  ultimately show "\<exists>t. ompi_coll_base_topo_build_kmtree True n r root R = Some (Some t) \<and> tree_root t = Some root \<and>
      tree_kids t = Some ?ys \<and> (r \<noteq> root \<longrightarrow> tree_prev t = Some (unshift n root (low_par R v)))"
    by (auto simp: with_kids_def intro!: with_kids_kids [of _ ?u])
qed

end
