(* ===== verification/Coll_Topo_Fanout.thy ===== *)
theory Coll_Topo_Fanout
  imports Coll_Base_Topo
begin

text \<open>
  The tree of \<open>ompi_coll_base_topo_build_tree\<close>: level \<open>k\<close> holds \<open>f ^ k\<close> shifted ranks, numbered level by level, and
  the parent of the rank at position \<open>q\<close> of a level is at position \<open>q mod f ^ (k - 1)\<close> of the level above.
\<close>

section \<open>Levels\<close>

fun nodes_above :: "int \<Rightarrow> nat \<Rightarrow> int" where
  "nodes_above f 0 = 0"
| "nodes_above f (Suc k) = nodes_above f k + f ^ k"

definition level_of :: "int \<Rightarrow> int \<Rightarrow> nat" where
  "level_of f v = (LEAST k. v < nodes_above f (Suc k))"

lemma nodes_above_mono: "1 \<le> f \<Longrightarrow> j \<le> k \<Longrightarrow> nodes_above f j \<le> nodes_above f k"
  by (induction k) (auto simp: le_Suc_eq intro: order_trans)

lemma nodes_above_ge: "1 \<le> f \<Longrightarrow> int k \<le> nodes_above f k"
proof (induction k)
  case (Suc k)
  moreover have "1 \<le> f ^ k" using Suc.prems by simp
  ultimately show ?case unfolding nodes_above.simps of_nat_Suc by linarith
qed simp

lemma nodes_above_sum: "nodes_above f k * (f - 1) = f ^ k - 1"
  by (induction k) (auto simp: algebra_simps)

lemma level_of_eq:
  assumes "1 \<le> f" "nodes_above f k \<le> v" "v < nodes_above f (Suc k)"
  shows "level_of f v = k"
  unfolding level_of_def
proof (rule Least_equality)
  fix j assume j: "v < nodes_above f (Suc j)"
  show "k \<le> j"
  proof (rule ccontr)
    assume "\<not> k \<le> j"
    then have "nodes_above f (Suc j) \<le> nodes_above f k" using assms(1) by (intro nodes_above_mono) simp_all
    then show False using j assms(2) by linarith
  qed
qed (rule assms(3))

lemma level_of_works:
  assumes f: "1 \<le> f" and v: "0 \<le> v"
  shows "nodes_above f (level_of f v) \<le> v" "v < nodes_above f (Suc (level_of f v))"
proof -
  have "v < nodes_above f (Suc (nat v))" using nodes_above_ge [OF f, of "Suc (nat v)"] v by linarith
  then show "v < nodes_above f (Suc (level_of f v))" unfolding level_of_def by (rule LeastI)
  show "nodes_above f (level_of f v) \<le> v"
  proof (cases "level_of f v")
    case (Suc k)
    then have "k < level_of f v" by simp
    then have "\<not> v < nodes_above f (Suc k)" unfolding level_of_def by (rule not_less_Least)
    then show ?thesis by (simp add: Suc)
  qed (simp add: v)
qed

section \<open>Parents and children\<close>

definition fan_par :: "int \<Rightarrow> int \<Rightarrow> int" where
  "fan_par f v = nodes_above f (level_of f v - 1) + (v - nodes_above f (level_of f v)) mod f ^ (level_of f v - 1)"

definition fan_kids :: "int \<Rightarrow> int \<Rightarrow> int \<Rightarrow> int list" where
  "fan_kids f n v = filter (\<lambda>c. c < n) (map (\<lambda>i. v + f ^ level_of f v * (i + 1)) [0..f - 1])"

lemma fan_child_par:
  assumes f: "1 \<le> f" and v: "0 \<le> v" and i: "0 \<le> i" "i < f"
  shows "fan_par f (v + f ^ level_of f v * (i + 1)) = v"
proof -
  let ?k = "level_of f v"
  let ?q = "v - nodes_above f ?k"
  let ?c = "v + f ^ ?k * (i + 1)"
  have q: "0 \<le> ?q" "?q < f ^ ?k" using level_of_works [OF f v] by simp_all
  have pos: "0 < f ^ ?k" using f by simp
  have c: "?c - nodes_above f (Suc ?k) = ?q + f ^ ?k * i" by (simp add: algebra_simps)
  have "f ^ ?k * i + f ^ ?k \<le> f ^ ?k * f" using mult_left_mono [of "i + 1" f "f ^ ?k"] i pos by (simp add: algebra_simps)
  moreover have "0 \<le> f ^ ?k * i" using i pos by simp
  ultimately have "0 \<le> ?c - nodes_above f (Suc ?k)" "?c - nodes_above f (Suc ?k) < f ^ Suc ?k"
    unfolding c using q by (simp_all add: mult.commute)
  then have "level_of f ?c = Suc ?k" by (intro level_of_eq [OF f]) simp_all
  then have "fan_par f ?c = nodes_above f ?k + (?q + f ^ ?k * i) mod f ^ ?k"
    by (simp only: fan_par_def c [symmetric] diff_Suc_1)
  then show ?thesis using q by simp
qed

lemma fan_par_child:
  assumes f: "1 \<le> f" and c: "0 < c"
  shows "0 \<le> fan_par f c \<and> (\<exists>i. 0 \<le> i \<and> i < f \<and> c = fan_par f c + f ^ level_of f (fan_par f c) * (i + 1))"
proof -
  have "0 < level_of f c" using level_of_works(2) [OF f, of c] c by (cases "level_of f c") simp_all
  then obtain k where k: "level_of f c = Suc k" using gr0_implies_Suc by blast
  let ?q = "c - nodes_above f (Suc k)"
  have q: "0 \<le> ?q" "?q < f ^ Suc k" using level_of_works [OF f, of c] c unfolding k by simp_all
  have pos: "0 < f ^ k" using f by simp
  have par: "fan_par f c = nodes_above f k + ?q mod f ^ k" by (simp add: fan_par_def k)
  have mod: "0 \<le> ?q mod f ^ k" "?q mod f ^ k < f ^ k" using pos by simp_all
  have level: "level_of f (fan_par f c) = k" unfolding par using mod by (intro level_of_eq [OF f]) simp_all
  have "f ^ k * (?q div f ^ k) < f ^ k * f"
    using q(2) mod(1) mult_div_mod_eq [of "f ^ k" ?q] unfolding power_Suc2 by linarith
  then have "?q div f ^ k < f" by (simp only: mult_less_cancel_left_pos [OF pos])
  moreover have "0 \<le> ?q div f ^ k" using q pos by (simp add: pos_imp_zdiv_nonneg_iff)
  moreover have "c = fan_par f c + f ^ k * (?q div f ^ k + 1)"
    unfolding par using mult_div_mod_eq [of "f ^ k" ?q] by (simp add: algebra_simps)
  moreover have "0 \<le> fan_par f c" unfolding par using nodes_above_ge [OF f, of k] mod by simp
  ultimately show ?thesis unfolding level by blast
qed

lemma fan_kids_set:
  assumes f: "1 \<le> f" and v: "0 \<le> v" "v < n"
  shows "set (fan_kids f n v) = {c \<in> {0..<n}. c \<noteq> 0 \<and> fan_par f c = v}"
proof (intro set_eqI iffI)
  fix c assume "c \<in> set (fan_kids f n v)"
  then obtain i where i: "c = v + f ^ level_of f v * (i + 1)" "0 \<le> i" "i < f" "c < n" by (auto simp: fan_kids_def)
  moreover have "0 < f ^ level_of f v * (i + 1)" using f i by simp
  ultimately have "0 < c" using v by linarith
  then show "c \<in> {c \<in> {0..<n}. c \<noteq> 0 \<and> fan_par f c = v}" using fan_child_par [OF f v(1) i(2,3)] i(1,4) by auto
next
  fix c assume "c \<in> {c \<in> {0..<n}. c \<noteq> 0 \<and> fan_par f c = v}"
  then have c: "0 < c" "c < n" "fan_par f c = v" by auto
  then obtain i where i: "0 \<le> i" "i < f" "c = v + f ^ level_of f v * (i + 1)" using fan_par_child [OF f c(1)] by auto
  then have "c \<in> (\<lambda>i. v + f ^ level_of f v * (i + 1)) ` set [0..f - 1]" by (intro image_eqI [of _ _ i]) auto
  then show "c \<in> set (fan_kids f n v)" using c(2) by (simp add: fan_kids_def)
qed

lemma fan_spanning:
  assumes f: "1 \<le> f" and n: "0 < n"
  shows "spanning n 0 (fan_par f) (fan_kids f n)"
proof -
  have less: "0 \<le> fan_par f c \<and> fan_par f c < c" if c: "0 < c" for c
  proof -
    obtain i where "0 \<le> fan_par f c" "0 \<le> i" "c = fan_par f c + f ^ level_of f (fan_par f c) * (i + 1)"
      using fan_par_child [OF f c] by blast
    moreover have "0 < f ^ level_of f (fan_par f c) * (i + 1)" using f calculation(2) by simp
    ultimately show ?thesis by linarith
  qed
  show ?thesis
    unfolding spanning_def
  proof (intro conjI ballI impI)
    fix v assume v: "v \<in> {0..<n}"
    have "inj (\<lambda>i. v + f ^ level_of f v * (i + 1))" using f by (intro injI) simp
    then show "distinct (fan_kids f n v)" unfolding fan_kids_def by (intro distinct_filter) (auto simp: distinct_map intro: inj_on_subset)
    show "set (fan_kids f n v) = {c \<in> {0..<n}. c \<noteq> 0 \<and> fan_par f c = v}" using fan_kids_set [OF f] v by simp
  next
    fix c assume "c \<in> {0..<n}" "c \<noteq> 0"
    then show "fan_par f c \<in> {0..<n}" using less [of c] by auto
  next
    have "nat (fan_par f c) < nat c" if "c \<in> {0..<n}" "c \<noteq> 0" for c using that less [of c] by auto
    then show "\<exists>depth :: int \<Rightarrow> nat. \<forall>c \<in> {0..<n}. c \<noteq> 0 \<longrightarrow> depth (fan_par f c) < depth c" by (intro exI [of _ nat]) blast
  qed (use n in simp_all)
qed

section \<open>The helpers\<close>

lemma pown_loop_works: "1 \<le> f \<Longrightarrow> 0 \<le> p \<Longrightarrow> p * f ^ k < 2 ^ 31 \<Longrightarrow> pown_loop f k p = Some (p * f ^ k)"
proof (induction k arbitrary: p)
  case (Suc k)
  have "p * f * 1 \<le> p * f * f ^ k" using Suc.prems by (intro mult_left_mono) simp_all
  also have "\<dots> < 2 ^ 31" using Suc.prems by (simp add: mult.assoc)
  finally have "c_int (p * f) = Some (p * f)" using Suc.prems by (intro c_int_Some) simp_all
  then show ?case using Suc.IH [of "p * f"] Suc.prems by (simp add: mult.assoc)
qed simp

lemma pown_works:
  assumes f: "1 \<le> f" and small: "f ^ k < 2 ^ 31"
  shows "pown f (int k) = Some (f ^ k)"
proof (cases "f = 2 \<and> k \<noteq> 1")
  case True
  then have "(2 :: int) ^ k < 2 ^ 31" using small by auto
  then have "k < 31" by (rule power_less_imp_less_exp [rotated]) simp
  then show ?thesis using True by (simp add: pown_def)
next
  case False
  then show ?thesis using pown_loop_works [OF f, of 1 k] small by (auto simp: pown_def)
qed

text \<open>In a communicator of at most \<open>2 ^ 25\<close> ranks the powers of the fanout fit.\<close>

lemma level_power:
  assumes f: "1 \<le> f" "f \<le> 32" and v: "nodes_above f k \<le> v" "v < 2 ^ 25"
  shows "f ^ k \<le> 2 ^ 30"
proof (cases k)
  case (Suc j)
  have "f ^ j < 2 ^ 25" using v nodes_above_ge [OF f(1), of j] by (simp add: Suc)
  then have "f ^ j * f \<le> 2 ^ 25 * 32" using f by (intro mult_mono) simp_all
  then show ?thesis by (simp add: Suc mult.commute)
qed simp

lemma level_loop_works:
  assumes f: "1 \<le> f" "f \<le> 32" and v: "0 \<le> v" "v < 2 ^ 25" and k: "k \<le> Suc (level_of f v)"
  shows "level_loop f v (int k) (nodes_above f k) = Some (int (level_of f v))"
  using k
proof (induction "Suc (level_of f v) - k" arbitrary: k)
  case 0
  then show ?case using level_of_works(2) [OF f(1) v(1)] by (subst level_loop.simps) auto
next
  case (Suc m)
  then have "nodes_above f k \<le> nodes_above f (level_of f v)" using f by (intro nodes_above_mono) simp_all
  then have le: "nodes_above f k \<le> v" using level_of_works(1) [OF f(1) v(1)] by simp
  have pow: "f ^ k \<le> 2 ^ 30" by (rule level_power [OF f le v(2)])
  moreover have ge: "int k \<le> nodes_above f k" by (rule nodes_above_ge [OF f(1)])
  moreover have "0 < f ^ k" using f by simp
  ultimately have "pown f (int k) = Some (f ^ k)" "c_int (nodes_above f k + f ^ k) = Some (nodes_above f (Suc k))"
    "c_int (int k + 1) = Some (int (Suc k))"
    using f le v by (auto simp: pown_works intro!: c_int_Some)
  moreover have "level_loop f v (int (Suc k)) (nodes_above f (Suc k)) = Some (int (level_of f v))" using Suc by (intro Suc.hyps(1)) simp_all
  ultimately show ?case using le by (subst level_loop.simps) (simp del: nodes_above.simps of_nat_Suc)
qed

lemma nodes_up_to_level_works:
  assumes "1 \<le> f" "f ^ k < 2 ^ 31"
  shows "calculate_num_nodes_up_to_level f (int k) = Some (nodes_above f k)"
proof (cases "f = 1")
  case True
  then have "nodes_above f k = int k" by (induction k) auto
  then show ?thesis by (simp add: calculate_num_nodes_up_to_level_def True)
next
  case False
  have "(f ^ k - 1) div (f - 1) = nodes_above f k" unfolding nodes_above_sum [symmetric] using False by simp
  then show ?thesis using False by (simp add: calculate_num_nodes_up_to_level_def pown_works [OF assms])
qed

lemma parent_loop_works:
  assumes d: "0 < d"
  shows "0 \<le> q \<Longrightarrow> parent_loop s d (s + q) = Some (s - d + q mod d)"
proof (induction "nat q" arbitrary: q rule: less_induct)
  case less
  have step: "parent_loop s d (s + q) = parent_loop s d (s + (q - d))" using less.prems by (subst parent_loop.simps) (simp add: algebra_simps)
  show ?case
  proof (cases "q < d")
    case True
    then show ?thesis using less.prems unfolding step by (subst parent_loop.simps) simp
  next
    case False
    then have "parent_loop s d (s + (q - d)) = Some (s - d + (q - d) mod d)" using d by (intro less.hyps) simp_all
    then show ?thesis unfolding step by simp
  qed
qed

lemma fanout_children_fills:
  assumes n: "n \<le> 2 ^ 25" and root: "0 \<le> root" "root < n" and v: "0 \<le> v" "v < n" and d: "0 < d" "d \<le> 2 ^ 30"
    and f: "f \<le> int (length (tree_next t))" and len: "int (length xs) \<le> f" "length xs = 0 \<or> v + d * int (length xs) < n"
  shows "fanout_children n root v d [int (length xs)..f - 1] (with_kids (t\<lparr>tree_nextsize := Some (int (length xs))\<rparr>) xs) =
    (let ys = xs @ map (unshift n root) (filter (\<lambda>c. c < n) (map (\<lambda>i. v + d * (i + 1)) [int (length xs)..f - 1]))
     in Some (with_kids (t\<lparr>tree_nextsize := Some (int (length ys))\<rparr>) ys))"
  using len
proof (induction "nat (f - int (length xs))" arbitrary: xs)
  case 0
  then show ?case by simp
next
  case (Suc m)
  let ?i = "int (length xs)"
  let ?c = "v + d * (?i + 1)"
  have upto: "[?i..f - 1] = ?i # [?i + 1..f - 1]" using Suc.hyps(2) by (simp add: upto_rec1)
  have "d * ?i < n" using Suc.prems(2) v root by auto
  moreover have pos: "0 \<le> d * ?i" using d by simp
  ultimately have fits: "c_int (d * (?i + 1)) = Some (d * (?i + 1))" "c_int ?c = Some ?c"
    using v d n by (auto simp: distrib_left intro!: c_int_Some)
  show ?case
  proof (cases "?c < n")
    case True
    let ?r = "unshift n root ?c"
    have sum: "c_int (?c + root) = Some (?c + root)" using True pos v d root n by (intro c_int_ranks [of _ n]) (auto simp: distrib_left)
    have xs: "length xs < length (tree_next (t\<lparr>tree_nextsize := Some ?i\<rparr>))" using Suc.hyps(2) f by simp
    have upd: "(with_kids (t\<lparr>tree_nextsize := Some ?i\<rparr>) (xs @ [?r]))\<lparr>tree_nextsize := Some (?i + 1)\<rparr> =
      with_kids (t\<lparr>tree_nextsize := Some (int (length (xs @ [?r])))\<rparr>) (xs @ [?r])" by (simp add: with_kids_def)
    have "fanout_children n root v d [int (length (xs @ [?r]))..f - 1]
        (with_kids (t\<lparr>tree_nextsize := Some (int (length (xs @ [?r])))\<rparr>) (xs @ [?r])) =
      (let ys = (xs @ [?r]) @ map (unshift n root) (filter (\<lambda>c. c < n) (map (\<lambda>i. v + d * (i + 1)) [int (length (xs @ [?r]))..f - 1]))
       in Some (with_kids (t\<lparr>tree_nextsize := Some (int (length ys))\<rparr>) ys))"
      by (rule Suc.hyps(1)) (use Suc.hyps(2) True in \<open>simp_all add: add.commute\<close>)
    moreover have "int (length (xs @ [?r])) = ?i + 1" by simp
    moreover have "tree_nextsize (with_kids (t\<lparr>tree_nextsize := Some ?i\<rparr>) (xs @ [?r])) = Some ?i" by (simp add: with_kids_def)
    ultimately show ?thesis
      using True upd fits sum unfolding upto by (simp add: put_next_child [OF xs] unshift_mod Let_def add.commute [of ?i 1])
  next
    case False
    have "\<not> v + d * (i + 1) < n" if "?i \<le> i" for i
    proof -
      have "d * (?i + 1) \<le> d * (i + 1)" using that d(1) by (intro mult_left_mono) simp_all
      then show ?thesis using False by linarith
    qed
    then have "filter (\<lambda>c. c < n) (map (\<lambda>i. v + d * (i + 1)) [?i..f - 1]) = []" by (auto simp: filter_empty_conv)
    then show ?thesis using False unfolding upto by (simp add: fits)
  qed
qed

section \<open>The builder\<close>

lemma fan_prev:
  assumes f: "1 \<le> f" and v: "0 < v"
  shows "(if v < f then Some 0 else parent_loop (nodes_above f (level_of f v)) (f ^ level_of f v div f) v) = Some (fan_par f v)"
proof (cases "v < f")
  case True
  then have "level_of f v = 1" using v by (intro level_of_eq [OF f]) simp_all
  then show ?thesis using True by (simp add: fan_par_def)
next
  case False
  have "0 < level_of f v" using level_of_works(2) [OF f, of v] v by (cases "level_of f v") simp_all
  then obtain k where k: "level_of f v = Suc k" using gr0_implies_Suc by blast
  have "nodes_above f (Suc k) \<le> v" using level_of_works(1) [OF f, of v] v by (simp add: k)
  then have "parent_loop (nodes_above f (Suc k)) (f ^ k) v =
      Some (nodes_above f (Suc k) - f ^ k + (v - nodes_above f (Suc k)) mod f ^ k)"
    using parent_loop_works [of "f ^ k" "v - nodes_above f (Suc k)" "nodes_above f (Suc k)"] f by simp
  then show ?thesis using False f by (simp add: k fan_par_def)
qed

lemma tree_record:
  assumes f: "1 \<le> f" "f \<le> int MAXTREEFANOUT" and n: "2 \<le> n" "n \<le> 2 ^ 25" and root: "0 \<le> root" "root < n"
    and r: "0 \<le> r" "r < n" and v: "v = shift n root r" "0 \<le> v" "v < n"
  shows "\<exists>t. ompi_coll_base_topo_build_tree True f n r root = Some (Some t) \<and> tree_root t = Some root \<and>
      tree_kids t = Some (map (unshift n root) (fan_kids f n v)) \<and> (r \<noteq> root \<longrightarrow> tree_prev t = Some (unshift n root (fan_par f v)))"
proof -
  let ?k = "level_of f v"
  let ?t = "clear_children ((new_tree MAXTREEFANOUT)\<lparr>tree_root := Some root, tree_fanout := Some f, tree_bmtree := Some 0,
    tree_prev := Some (-1), tree_nextsize := Some 0\<rparr>) f"
  let ?ys = "map (unshift n root) (fan_kids f n v)"
  let ?u = "with_kids (?t\<lparr>tree_nextsize := Some (int (length ?ys))\<rparr>) ?ys"
  let ?p = "if v < f then Some 0 else parent_loop (nodes_above f ?k) (f ^ ?k div f) v"
  have f32: "f \<le> 32" using f(2) by (simp add: MAXTREEFANOUT_def)
  have v25: "v < 2 ^ 25" using v(3) n(2) by linarith
  have pow: "f ^ ?k \<le> 2 ^ 30" "0 < f ^ ?k"
    using level_power [OF f(1) f32 level_of_works(1) [OF f(1) v(2)] v25] f(1) by simp_all
  have lev: "calculate_level f v = Some (int ?k)"
    using level_loop_works [OF f(1) f32 v(2) v25, of 0] v(2) by (simp add: calculate_level_def)
  have del: "pown f (int ?k) = Some (f ^ ?k)" "calculate_num_nodes_up_to_level f (int ?k) = Some (nodes_above f ?k)"
    using pow(1) f(1) by (simp_all add: pown_works nodes_up_to_level_works)
  have same: "with_kids (?t\<lparr>tree_nextsize := Some 0\<rparr>) [] = ?t" by (simp add: with_no_kids clear_children_def)
  have kids: "fanout_children n root v (f ^ ?k) [0..f - 1] ?t = Some ?u"
    using fanout_children_fills [OF n(2) root v(2,3) pow(2,1), of f ?t "[]"] f same by (simp add: fan_kids_def Let_def)
  obtain p where p: "?p = Some p" "0 \<le> p" "p < n" "r \<noteq> root \<longrightarrow> p = fan_par f v"
  proof (cases "v = 0")
    case True
    then show thesis using that [of 0] f(1) n(1) v shift_root [OF r root] by simp
  next
    case False
    then have "0 < v" using v(2) by simp
    then have "fan_par f v \<in> {0..<n}" using fan_spanning [OF f(1), of n] n(1) v(3) by (auto simp: spanning_def)
    then show thesis using that [of "fan_par f v"] fan_prev [OF f(1) \<open>0 < v\<close>] by simp
  qed
  have "\<not> f < 1" "\<not> f > int MAXTREEFANOUT" "\<not> n < 2" using f n(1) by simp_all
  moreover have "c_int (p + root) = Some (p + root)" using p root n by (intro c_int_ranks [of _ n]) auto
  ultimately have "ompi_coll_base_topo_build_tree True f n r root = Some (Some (?u\<lparr>tree_prev := Some (unshift n root p)\<rparr>))"
    unfolding ompi_coll_base_topo_build_tree_def Let_def shift_if [OF r root] v(1) [symmetric]
    by (simp only: lev del kids p(1) bind.bind_lunit unshift_mod simp_thms if_False)
  then show ?thesis using p(4) by (auto simp: with_kids_def intro!: with_kids_kids [of _ ?t])
qed

lemma tree_single:
  assumes f: "1 \<le> f" "f \<le> int MAXTREEFANOUT"
  shows "\<exists>t. ompi_coll_base_topo_build_tree True f 1 0 0 = Some (Some t) \<and> tree_root t = Some 0 \<and> tree_kids t = Some []"
  using f by (simp add: ompi_coll_base_topo_build_tree_def Let_def tree_kids_def)

lemma tree_builds:
  assumes f: "1 \<le> f" "f \<le> int MAXTREEFANOUT" and n: "n \<le> 2 ^ 25" and root: "0 \<le> root" "root < n"
  shows "builds_tree n root (\<lambda>r. ompi_coll_base_topo_build_tree True f n r root)"
proof (rule builds_shifted [OF fan_spanning [OF f(1)]])
  show "0 < n" "0 \<le> root" "root < n" using root by simp_all
  fix r v assume r: "0 \<le> r" "r < n" and v: "v = shift n root r" "0 \<le> v" "v < n"
  show "\<exists>t. ompi_coll_base_topo_build_tree True f n r root = Some (Some t) \<and> tree_root t = Some root \<and>
      tree_kids t = Some (map (unshift n root) (fan_kids f n v)) \<and> (r \<noteq> root \<longrightarrow> tree_prev t = Some (unshift n root (fan_par f v)))"
  proof (cases "2 \<le> n")
    case True
    then show ?thesis by (rule tree_record [OF f _ n root r v])
  next
    case False
    then have one: "n = 1" "root = 0" "r = 0" "v = 0" using root r v by simp_all
    have "set (fan_kids f 1 0) = {}" using fan_kids_set [OF f(1), of 0 1] by auto
    then show ?thesis using tree_single [OF f] unfolding one by simp
  qed
qed

end
