(* ===== verification/Coll_Topo_Chain.thy ===== *)
theory Coll_Topo_Chain
  imports Coll_Base_Topo
begin

text \<open>
  The chains of \<open>ompi_coll_base_topo_build_chain\<close>: the shifted ranks above 0 form \<open>F\<close> chains of consecutive ranks
  whose heads hang below the root. When the chains cannot all be of the same length, the first \<open>mark\<close> of them are
  longer by one.
\<close>

section \<open>Heads of chains\<close>

definition chain_len :: "int \<Rightarrow> int \<Rightarrow> int" where
  "chain_len F n = (if (n - 1) mod F = 0 then (n - 1) div F else (n - 1) div F + 1)"

definition chain_mark :: "int \<Rightarrow> int \<Rightarrow> int" where
  "chain_mark F n = (if (n - 1) mod F = 0 then F + 1 else (n - 1) mod F)"

definition chain_head :: "int \<Rightarrow> int \<Rightarrow> int \<Rightarrow> int" where
  "chain_head F n k =
     (if k \<le> chain_mark F n then 1 + k * chain_len F n
      else 1 + chain_mark F n * chain_len F n + (k - chain_mark F n) * (chain_len F n - 1))"

lemma chain_shape:
  assumes F: "1 \<le> F" "F \<le> n - 1"
  shows "n - 1 = F * chain_len F n \<and> chain_mark F n = F + 1 \<and> 1 \<le> chain_len F n \<or>
    n - 1 = F * (chain_len F n - 1) + chain_mark F n \<and> 1 \<le> chain_mark F n \<and> chain_mark F n < F \<and> 2 \<le> chain_len F n"
proof -
  have "0 < (n - 1) div F" using F by (simp add: pos_imp_zdiv_pos_iff)
  then have div: "1 \<le> (n - 1) div F" by simp
  have eq: "F * ((n - 1) div F) + (n - 1) mod F = n - 1" by simp
  have mod: "0 \<le> (n - 1) mod F" "(n - 1) mod F < F" using F by simp_all
  show ?thesis
  proof (cases "(n - 1) mod F = 0")
    case True
    then show ?thesis using div eq by (simp add: chain_len_def chain_mark_def)
  next
    case False
    then show ?thesis using div eq mod by (simp add: chain_len_def chain_mark_def)
  qed
qed

lemma chain_len_le: "1 \<le> F \<Longrightarrow> F \<le> n - 1 \<Longrightarrow> chain_len F n \<le> n"
  using zdiv_mono2 [of "n - 1" 1 F] by (auto simp: chain_len_def)

lemma chain_head_0: "1 \<le> F \<Longrightarrow> F \<le> n - 1 \<Longrightarrow> chain_head F n 0 = 1"
  using chain_shape [of F n] by (auto simp: chain_head_def)

lemma chain_head_last: "1 \<le> F \<Longrightarrow> F \<le> n - 1 \<Longrightarrow> chain_head F n F = n"
  using chain_shape [of F n] by (auto simp: chain_head_def algebra_simps)

lemma chain_head_step:
  "chain_head F n (k + 1) = chain_head F n k + (if k < chain_mark F n then chain_len F n else chain_len F n - 1)"
  by (auto simp: chain_head_def algebra_simps)

lemma chain_head_less:
  assumes F: "1 \<le> F" "F \<le> n - 1" and j: "0 \<le> j" "j < k" "k \<le> F"
  shows "chain_head F n j < chain_head F n k"
proof -
  have "j + 1 \<le> k" using j by simp
  then show ?thesis using j(3)
  proof (induction k rule: int_ge_induct)
    case base
    then show ?case using chain_shape [OF F] j by (auto simp: chain_head_step)
  next
    case (step k)
    then have "chain_head F n k < chain_head F n (k + 1)" using chain_shape [OF F] j by (auto simp: chain_head_step)
    then show ?case using step by simp
  qed
qed

lemma chain_head_le:
  assumes F: "1 \<le> F" "F \<le> n - 1" and k: "j \<le> k"
  shows "chain_head F n j \<le> chain_head F n k"
  using k
proof (induction k rule: int_ge_induct)
  case (step k)
  have "chain_head F n k \<le> chain_head F n (k + 1)" using chain_shape [OF F] by (auto simp: chain_head_step)
  then show ?case using step by simp
qed simp

definition chain_heads_of :: "int \<Rightarrow> int \<Rightarrow> int list" where
  "chain_heads_of F n = map (chain_head F n) [0..F - 1]"

lemma chain_heads_range:
  assumes F: "1 \<le> F" "F \<le> n - 1" and c: "c \<in> set (chain_heads_of F n)"
  shows "0 < c" "c < n"
proof -
  obtain k where k: "c = chain_head F n k" "0 \<le> k" "k < F" using c by (auto simp: chain_heads_of_def)
  show "0 < c" using chain_head_le [OF F, of 0 k] k chain_head_0 [OF F] by simp
  show "c < n" using chain_head_less [OF F k(2,3)] k(1) chain_head_last [OF F] by simp
qed

text \<open>The rank \<open>v\<close> of column \<open>k\<close>: whether it is the head, and whether it is the last of its chain.\<close>

lemma chain_column:
  assumes F: "1 \<le> F" "F \<le> n - 1" and k: "0 \<le> k" "k < F" and v: "chain_head F n k \<le> v" "v < chain_head F n (k + 1)"
  shows "v \<in> set (chain_heads_of F n) \<longleftrightarrow> v = chain_head F n k"
    and "v + 1 < n \<and> v + 1 \<notin> set (chain_heads_of F n) \<longleftrightarrow> v + 1 \<noteq> chain_head F n (k + 1)"
proof -
  have only: "j = k" if "0 \<le> j" "j < F" "chain_head F n j < chain_head F n (k + 1)" "chain_head F n k < chain_head F n (j + 1)" for j
  proof (rule ccontr)
    assume "j \<noteq> k"
    then consider "j < k" | "k < j" by linarith
    then show False
      using chain_head_le [OF F, of "j + 1" k] chain_head_le [OF F, of "k + 1" j] that k by cases auto
  qed
  show "v \<in> set (chain_heads_of F n) \<longleftrightarrow> v = chain_head F n k"
  proof
    assume "v \<in> set (chain_heads_of F n)"
    then obtain j where j: "v = chain_head F n j" "0 \<le> j" "j < F" by (auto simp: chain_heads_of_def)
    then have "j = k" using v chain_head_less [OF F, of j "j + 1"] by (intro only) auto
    then show "v = chain_head F n k" using j by simp
  qed (use k in \<open>simp add: chain_heads_of_def\<close>)
  show "v + 1 < n \<and> v + 1 \<notin> set (chain_heads_of F n) \<longleftrightarrow> v + 1 \<noteq> chain_head F n (k + 1)"
  proof (cases "v + 1 = chain_head F n (k + 1)")
    case True
    then show ?thesis using k chain_head_last [OF F] by (cases "k + 1 = F") (auto simp: chain_heads_of_def)
  next
    case False
    then have less: "v + 1 < chain_head F n (k + 1)" using v by simp
    also have "\<dots> \<le> n" using chain_head_le [OF F, of "k + 1" F] k chain_head_last [OF F] by simp
    finally have "v + 1 < n" .
    moreover have "v + 1 \<noteq> chain_head F n j" if "0 \<le> j" "j < F" for j
    proof
      assume j: "v + 1 = chain_head F n j"
      then have "j = k" using that less v chain_head_less [OF F, of j "j + 1"] by (intro only) auto
      then show False using j v by simp
    qed
    then have "v + 1 \<notin> set (chain_heads_of F n)" unfolding chain_heads_of_def by fastforce
    ultimately show ?thesis using False by simp
  qed
qed

section \<open>The tree\<close>

definition chain_par :: "int \<Rightarrow> int \<Rightarrow> int \<Rightarrow> int" where
  "chain_par F n v = (if v \<in> set (chain_heads_of F n) then 0 else v - 1)"

definition chain_kids :: "int \<Rightarrow> int \<Rightarrow> int \<Rightarrow> int list" where
  "chain_kids F n v = (if v = 0 then chain_heads_of F n else if v + 1 < n \<and> v + 1 \<notin> set (chain_heads_of F n) then [v + 1] else [])"

lemma chain_spanning:
  assumes F: "1 \<le> F" "F \<le> n - 1"
  shows "spanning n 0 (chain_par F n) (chain_kids F n)"
proof -
  have one: "1 \<in> set (chain_heads_of F n)" using F chain_head_0 [OF F] by (force simp: chain_heads_of_def)
  note range = chain_heads_range [OF F]
  have "inj_on (chain_head F n) (set [0..F - 1])"
  proof (rule inj_onI)
    fix j k assume jk: "j \<in> set [0..F - 1]" "k \<in> set [0..F - 1]" "chain_head F n j = chain_head F n k"
    then show "j = k" using chain_head_less [OF F, of j k] chain_head_less [OF F, of k j] by (cases j k rule: linorder_cases) auto
  qed
  then have distinct: "distinct (chain_heads_of F n)" by (simp add: chain_heads_of_def distinct_map)
  show ?thesis
    unfolding spanning_def
  proof (intro conjI ballI impI)
    fix v assume v: "v \<in> {0..<n}"
    show "distinct (chain_kids F n v)" using distinct by (simp add: chain_kids_def)
    show "set (chain_kids F n v) = {c \<in> {0..<n}. c \<noteq> 0 \<and> chain_par F n c = v}"
    proof (cases "v = 0")
      case True
      have "c \<in> set (chain_heads_of F n) \<longleftrightarrow> c \<in> {0..<n} \<and> c \<noteq> 0 \<and> chain_par F n c = 0" for c
        using range [of c] one by (auto simp: chain_par_def)
      then show ?thesis using True by (auto simp: chain_kids_def)
    next
      case False
      then have "c \<in> set (chain_kids F n v) \<longleftrightarrow> c \<in> {0..<n} \<and> c \<noteq> 0 \<and> chain_par F n c = v" for c
        using v by (auto simp: chain_kids_def chain_par_def)
      then show ?thesis by blast
    qed
  next
    fix c assume "c \<in> {0..<n}" "c \<noteq> 0"
    then show "chain_par F n c \<in> {0..<n}" by (auto simp: chain_par_def)
  next
    have "nat (chain_par F n c) < nat c" if "c \<in> {0..<n}" "c \<noteq> 0" for c using that by (auto simp: chain_par_def)
    then show "\<exists>depth :: int \<Rightarrow> nat. \<forall>c \<in> {0..<n}. c \<noteq> 0 \<longrightarrow> depth (chain_par F n c) < depth c" by (intro exI [of _ nat]) blast
  qed (use F in simp_all)
qed

section \<open>The builder\<close>

text \<open>The column of a rank, as the builder computes it.\<close>

lemma chain_find:
  assumes F: "1 \<le> F" "F \<le> n - 1" and v: "0 < v" "v < n"
    and limit: "limit = chain_mark F n * chain_len F n" and first: "first = (v - 1 < limit)"
    and k: "k = (if first then (v - 1) div chain_len F n else chain_mark F n + (v - 1 - limit) div (chain_len F n - 1))"
  shows "0 \<le> k" "k < F"
    and "(if first then 1 + k * chain_len F n else limit + 1 + (k - chain_mark F n) * (chain_len F n - 1)) = chain_head F n k"
    and "chain_head F n k + (if first then chain_len F n else chain_len F n - 1) = chain_head F n (k + 1)"
    and "chain_head F n k \<le> v" "v < chain_head F n (k + 1)"
proof -
  let ?m = "chain_len F n" and ?mark = "chain_mark F n"
  note shape = chain_shape [OF F]
  have m: "1 \<le> ?m" using shape by auto
  have "k * ?m \<le> v - 1 \<and> v - 1 < k * ?m + ?m \<and> k < ?mark \<and> 0 \<le> k" if first
  proof -
    have d: "k = (v - 1) div ?m" using k that by simp
    have "k * ?m + (v - 1) mod ?m = v - 1" unfolding d by (rule div_mult_mod_eq)
    moreover have "0 \<le> (v - 1) mod ?m" "(v - 1) mod ?m < ?m" using m by simp_all
    ultimately have b: "k * ?m \<le> v - 1" "v - 1 < k * ?m + ?m" by linarith+
    then have "k * ?m < ?mark * ?m" using that unfolding first limit by linarith
    then have "k < ?mark" using m by (simp only: mult_less_cancel_right_pos)
    moreover have "0 \<le> k" unfolding d using v m by (simp add: pos_imp_zdiv_nonneg_iff)
    ultimately show ?thesis using b by simp
  qed
  moreover have "limit + (k - ?mark) * (?m - 1) \<le> v - 1 \<and> v - 1 < limit + (k - ?mark) * (?m - 1) + (?m - 1) \<and> ?mark \<le> k \<and> ?mark < F" if "\<not> first"
  proof -
    have "?mark * ?m \<le> v - 1" using that by (simp add: first limit)
    then have long: "n - 1 = F * (?m - 1) + ?mark" "?mark < F" "2 \<le> ?m"
      using shape v m by (auto simp: distrib_right)
    have d: "k - ?mark = (v - 1 - limit) div (?m - 1)" using k that by simp
    have "(k - ?mark) * (?m - 1) + (v - 1 - limit) mod (?m - 1) = v - 1 - limit" unfolding d by (rule div_mult_mod_eq)
    moreover have "0 \<le> (v - 1 - limit) mod (?m - 1)" "(v - 1 - limit) mod (?m - 1) < ?m - 1" using long by simp_all
    moreover have "0 \<le> k - ?mark" unfolding d using that long by (simp add: first pos_imp_zdiv_nonneg_iff)
    ultimately show ?thesis using long by linarith
  qed
  ultimately have b: "(if first then k < ?mark \<and> 0 \<le> k else ?mark \<le> k)"
    "(if first then 1 + k * ?m else limit + 1 + (k - ?mark) * (?m - 1)) \<le> v"
    "v < (if first then 1 + k * ?m else limit + 1 + (k - ?mark) * (?m - 1)) + (if first then ?m else ?m - 1)"
    by (auto split: if_split)
  show head: "(if first then 1 + k * ?m else limit + 1 + (k - ?mark) * (?m - 1)) = chain_head F n k"
    using b(1) by (auto simp: chain_head_def limit algebra_simps split: if_splits)
  show upper: "chain_head F n k + (if first then ?m else ?m - 1) = chain_head F n (k + 1)"
    using b(1) by (auto simp: chain_head_step split: if_splits)
  show "chain_head F n k \<le> v" using b(2) unfolding head .
  show "v < chain_head F n (k + 1)" using b(3) unfolding head upper .
  show "0 \<le> k" using b(1) F shape by (auto split: if_splits)
  show "k < F"
    using chain_head_le [OF F, of F k] chain_head_last [OF F] b(2) v(2) unfolding head by linarith
qed

lemma chain_heads_fill:
  assumes F: "1 \<le> F" "F \<le> n - 1" "F \<le> int (length (tree_next t))" and n: "n \<le> 2 ^ 30" and k: "1 \<le> k" "k \<le> F"
  shows "chain_heads n (chain_len F n) (chain_mark F n) (unshift n root (chain_head F n (k - 1))) [k..F - 1]
      (with_kids t (map (unshift n root) (map (chain_head F n) [0..k - 1]))) =
    Some (with_kids t (map (unshift n root) (chain_heads_of F n)))"
  using k
proof (induction "nat (F - k)" arbitrary: k)
  case 0
  then show ?case by (simp add: chain_heads_of_def)
next
  case (Suc j)
  let ?m = "chain_len F n" and ?mark = "chain_mark F n"
  let ?b = "unshift n root (chain_head F n (k - 1))"
  let ?xs = "map (unshift n root) (map (chain_head F n) [0..k - 1])"
  have upto: "[k..F - 1] = k # [k + 1..F - 1]" "[0..k] = [0..k - 1] @ [k]"
    using Suc upto_rec1 [of k "F - 1"] upto_rec2 [of 0 k] by simp_all
  have b: "0 \<le> ?b" "?b < n" using shift_range(2) [of n root "chain_head F n (k - 1)"] F by auto
  have "chain_head F n (F - 1) \<le> n" using chain_head_le [OF F(1,2), of "F - 1" F] chain_head_last [OF F(1,2)] by simp
  moreover have m: "1 \<le> ?m" using chain_shape [OF F(1,2)] by auto
  moreover have "?m \<le> n" by (rule chain_len_le [OF F(1,2)])
  ultimately have fits: "c_int (?b + ?m) = Some (?b + ?m)" using b n by (intro c_int_Some) simp_all
  have head: "(if k > ?mark then ?b + ?m - 1 else ?b + ?m) mod n = unshift n root (chain_head F n k)"
  proof -
    have "chain_head F n k = chain_head F n (k - 1) + (if k > ?mark then ?m - 1 else ?m)"
      using chain_head_step [of F n "k - 1"] by auto
    moreover have "(?b + d) mod n = unshift n root (chain_head F n (k - 1) + d)" for d
      by (simp add: unshift_def mod_add_left_eq mod_add_right_eq algebra_simps)
    ultimately show ?thesis by (simp add: add_diff_eq [symmetric])
  qed
  have len: "length ?xs < length (tree_next t)" "int (length ?xs) = k" using Suc F(3) by simp_all
  have "chain_heads n ?m ?mark (unshift n root (chain_head F n (k + 1 - 1))) [k + 1..F - 1]
      (with_kids t (map (unshift n root) (map (chain_head F n) [0..k + 1 - 1]))) =
    Some (with_kids t (map (unshift n root) (chain_heads_of F n)))"
    by (rule Suc.hyps(1)) (use Suc in simp_all)
  then show ?case
    using put_next_child [OF len(1), of "unshift n root (chain_head F n k)"] unfolding upto len(2)
    by (simp add: fits head upto(2) Let_def)
qed

lemma chain_single:
  "\<exists>t. ompi_coll_base_topo_build_chain True fanout 1 0 0 = Some (Some t) \<and> tree_root t = Some 0 \<and> tree_kids t = Some []"
  by (auto simp: ompi_coll_base_topo_build_chain_def Let_def tree_kids_def put_child_def arr_set_def MAXTREEFANOUT_def)

lemma pipeline_tree:
  assumes "2 \<le> n" "0 \<le> v" "v < n"
  shows "chain_kids 1 n v = (if v + 1 < n then [v + 1] else [])" "0 < v \<Longrightarrow> chain_par 1 n v = v - 1"
proof -
  have heads: "chain_heads_of 1 n = [1]" using chain_head_0 [of 1 n] assms by (simp add: chain_heads_of_def)
  show "chain_kids 1 n v = (if v + 1 < n then [v + 1] else [])" using assms by (auto simp: chain_kids_def heads)
  show "0 < v \<Longrightarrow> chain_par 1 n v = v - 1" by (simp add: chain_par_def heads)
qed

lemma chain_limit_fits:
  assumes F: "1 \<le> F" "F \<le> n - 1" and n: "n \<le> 2 ^ 30"
  shows "c_int (chain_mark F n * chain_len F n) = Some (chain_mark F n * chain_len F n)"
proof -
  have m: "1 \<le> chain_len F n" using chain_shape [OF F] by auto
  have "chain_mark F n * chain_len F n \<le> n - 1 + n \<and> 0 \<le> chain_mark F n"
    using chain_shape [OF F]
  proof
    assume s: "n - 1 = F * chain_len F n \<and> chain_mark F n = F + 1 \<and> 1 \<le> chain_len F n"
    then have "chain_mark F n * chain_len F n = n - 1 + chain_len F n" by (simp add: distrib_right)
    then show ?thesis using chain_len_le [OF F] s F by simp
  next
    assume s: "n - 1 = F * (chain_len F n - 1) + chain_mark F n \<and> 1 \<le> chain_mark F n \<and> chain_mark F n < F \<and> 2 \<le> chain_len F n"
    then have "chain_mark F n * chain_len F n \<le> F * chain_len F n" by (intro mult_right_mono) auto
    also have "\<dots> = n - 1 - chain_mark F n + F" using s by (simp add: right_diff_distrib)
    finally show ?thesis using s F by linarith
  qed
  then show ?thesis using m n by (intro c_int_Some) simp_all
qed

lemma chain_record:
  assumes F: "F = min (max 1 (min fanout (int MAXTREEFANOUT))) (n - 1)" and n: "2 \<le> n" "n \<le> 2 ^ 30" and root: "0 \<le> root" "root < n"
    and r: "0 \<le> r" "r < n" and v: "v = shift n root r" "0 \<le> v" "v < n"
  shows "\<exists>t. ompi_coll_base_topo_build_chain True fanout n r root = Some (Some t) \<and> tree_root t = Some root \<and>
      tree_kids t = Some (map (unshift n root) (chain_kids F n v)) \<and> (r \<noteq> root \<longrightarrow> tree_prev t = Some (unshift n root (chain_par F n v)))"
proof -
  let ?F0 = "max 1 (min fanout (int MAXTREEFANOUT))"
  let ?m = "chain_len F n" and ?mark = "chain_mark F n"
  define t where "t = (clear_children ((new_tree MAXTREEFANOUT)\<lparr>tree_root := Some root\<rparr>) ?F0)\<lparr>tree_nextsize := Some F\<rparr>"
  have t: "tree_root t = Some root" "length (tree_next t) = MAXTREEFANOUT" by (simp_all add: t_def)
  then have put: "put_child t 0 c = Some (with_kids t [c])" for c
    by (intro put_first_child) (auto simp: MAXTREEFANOUT_def)
  have F1: "1 \<le> F" "F \<le> n - 1" "F \<le> int MAXTREEFANOUT" using F n by (auto simp: MAXTREEFANOUT_def)
  have clamp: "(if (if fanout < 1 then 1 else fanout) > int MAXTREEFANOUT then int MAXTREEFANOUT else (if fanout < 1 then 1 else fanout)) = ?F0"
    "(if n - 1 < ?F0 then n - 1 else ?F0) = F"
    unfolding F by (auto simp: MAXTREEFANOUT_def min_def max_def)
  have lens: "(if (n - 1) mod F = 0 then (n - 1) div F else (n - 1) div F + 1) = ?m" "(if (n - 1) mod F = 0 then F + 1 else (n - 1) mod F) = ?mark"
    by (simp_all add: chain_len_def chain_mark_def)
  have fits: "c_int (w + root) = Some (w + root)" if "0 \<le> w" "w < n" for w using that root n by (intro c_int_ranks [of _ n])
  have v0: "v = 0 \<longleftrightarrow> r = root" using shift_root [OF r root] v(1) by simp
  have kid: "tree_kids ((with_kids t [c])\<lparr>tree_prev := p, tree_nextsize := Some 1\<rparr>) = Some [c]" for c p
    by (rule with_kids_kids [of _ t]) simp_all
  note start = ompi_coll_base_topo_build_chain_def Let_def clamp lens shift_if [OF r root] v(1) [symmetric] t_def [symmetric]
  consider "F = 1" | "F \<noteq> 1" "v = 0" | "F \<noteq> 1" "0 < v" using v by linarith
  then show ?thesis
  proof cases
    case 1
    then show ?thesis
      using n v v0 fits [of "v - 1"] fits [of "v + 1"] unfolding start
      by (auto simp: put kid pipeline_tree unshift_mod t tree_kids_def with_kids_def)
  next
    case 2
    let ?ys = "map (unshift n root) (chain_heads_of F n)"
    have "c_int (root + 1) = Some (1 + root)" using fits [of 1] n by (simp add: add.commute)
    moreover have "chain_heads n ?m ?mark (unshift n root 1) [1..F - 1] (with_kids t [unshift n root 1]) = Some (with_kids t ?ys)"
      using chain_heads_fill [OF F1(1,2), of t 1 root] F1 t(2) n(2) chain_head_0 [OF F1(1,2)] by simp
    ultimately have "ompi_coll_base_topo_build_chain True fanout n r root =
        Some (Some ((with_kids t ?ys)\<lparr>tree_prev := Some (-1), tree_nextsize := Some F\<rparr>))"
      using 2 n unfolding start by (simp add: put unshift_mod)
    moreover have "tree_kids ((with_kids t ?ys)\<lparr>tree_prev := Some (-1), tree_nextsize := Some F\<rparr>) = Some ?ys"
      using F1(1) by (intro with_kids_kids [of _ t]) (simp_all add: chain_heads_of_def)
    ultimately show ?thesis using 2 v0 t(1) by (simp add: chain_kids_def with_kids_def)
  next
    case 3
    let ?limit = "?mark * ?m"
    let ?k = "if v - 1 < ?limit then (v - 1) div ?m else ?mark + (v - 1 - ?limit) div (?m - 1)"
    note find = chain_find [OF F1(1,2) 3(2) v(3) refl refl refl]
    note col = chain_column [OF F1(1,2) find(1,2,5,6)]
    let ?u = "\<lambda>c j. (with_kids t [c])\<lparr>tree_prev := Some (unshift n root (chain_par F n v)), tree_nextsize := Some j\<rparr>"
    have par: "(if v = chain_head F n ?k then 0 else v - 1) = chain_par F n v" unfolding chain_par_def col(1) ..
    then have "0 \<le> chain_par F n v" "chain_par F n v < n" using 3(2) v by (auto simp: chain_par_def)
    then have parent: "c_int (chain_par F n v + root) = Some (chain_par F n v + root)" by (rule fits)
    have last: "v = chain_head F n ?k + (if v - 1 < ?limit then ?m else ?m - 1) - 1 \<or> \<not> v + 1 < n \<longleftrightarrow> chain_kids F n v = []"
      using col(2) 3(2) unfolding find(4) chain_kids_def by auto
    have guards: "F = 1 \<longleftrightarrow> False" "n = 1 \<longleftrightarrow> False" "v \<noteq> 0 \<longleftrightarrow> True" using 3 n by simp_all
    note build = start if_True if_False guards chain_limit_fits [OF F1(1,2) n(2)] bind.bind_lunit not_False_eq_True not_True_eq_False
      find(3) par last parent put unshift_mod
    show ?thesis
    proof (cases "chain_kids F n v = []")
      case True
      have "ompi_coll_base_topo_build_chain True fanout n r root = Some (Some (?u (-1) 0))" by (simp only: build True refl)
      then show ?thesis using True t(1) by (simp add: with_kids_def tree_kids_def)
    next
      case False
      then have kids: "v + 1 < n" "chain_kids F n v = [v + 1]" using 3(2) by (auto simp: chain_kids_def split: if_splits)
      then have "c_int (v + 1 + root) = Some (v + 1 + root)" using v by (intro fits) simp_all
      then have "ompi_coll_base_topo_build_chain True fanout n r root = Some (Some (?u (unshift n root (v + 1)) 1))"
        by (simp only: build False)
      then show ?thesis using kids t(1) kid by (simp add: with_kids_def)
    qed
  qed
qed

lemma chain_builds:
  assumes n: "n \<le> 2 ^ 30" and root: "0 \<le> root" "root < n"
  shows "builds_tree n root (\<lambda>r. ompi_coll_base_topo_build_chain True fanout n r root)"
proof (cases "2 \<le> n")
  case True
  let ?F = "min (max 1 (min fanout (int MAXTREEFANOUT))) (n - 1)"
  have F: "1 \<le> ?F" "?F \<le> n - 1" using True by auto
  show ?thesis by (rule builds_shifted [OF chain_spanning [OF F] root]) (rule chain_record [OF refl True n root])
next
  case False
  then have one: "n = 1" "root = 0" using root by simp_all
  have "spanning 1 0 (\<lambda>v. 0) (\<lambda>v. [])" by (auto simp: spanning_def)
  then show ?thesis unfolding one
  proof (rule builds_shifted)
    fix r v :: int assume "0 \<le> r" "r < 1"
    then have "r = 0" by simp
    then show "\<exists>t. ompi_coll_base_topo_build_chain True fanout 1 r 0 = Some (Some t) \<and> tree_root t = Some 0 \<and>
        tree_kids t = Some (map (unshift 1 0) []) \<and> (r \<noteq> 0 \<longrightarrow> tree_prev t = Some (unshift 1 0 0))"
      using chain_single [of fanout] by simp
  qed simp_all
qed

end
