(* ===== verification/Coll_Topo_Inorder.thy ===== *)
theory Coll_Topo_Inorder
  imports Coll_Base_Topo
begin

text \<open>
  The tree of \<open>ompi_coll_base_topo_build_in_order_bintree\<close>: the last rank is the root, the first half of the other
  ranks are its right subtree and the rest its left one, so that a parent follows all ranks below it.
\<close>

section \<open>The tree\<close>

definition right_size :: "int \<Rightarrow> int" where
  "right_size s = (if s \<ge> 3 then s div 2 else 0)"

lemma right_size_less: "2 \<le> s \<Longrightarrow> 0 \<le> right_size s \<and> right_size s < s - 1"
  by (auto simp: right_size_def)

text \<open>Parent and children of rank \<open>m\<close> in the tree of the ranks below \<open>s\<close>.\<close>

function bin_par :: "int \<Rightarrow> int \<Rightarrow> int" where
  "bin_par s m =
     (if s < 2 then -1
      else if m < right_size s then (if m = right_size s - 1 then s - 1 else bin_par (right_size s) m)
      else if m = s - 2 then s - 1 else right_size s + bin_par (s - right_size s - 1) (m - right_size s))"
  by auto

termination
  by (relation "measure (\<lambda>(s, m). nat s)") (auto simp: right_size_def)

function bin_kids :: "int \<Rightarrow> int \<Rightarrow> int list" where
  "bin_kids s m =
     (if s < 2 then []
      else if m = s - 1 then (if s \<ge> 3 then [s - 2, right_size s - 1] else [s - 2])
      else if m < right_size s then bin_kids (right_size s) m
      else map (\<lambda>c. right_size s + c) (bin_kids (s - right_size s - 1) (m - right_size s)))"
  by auto

termination
  by (relation "measure (\<lambda>(s, m). nat s)") (auto simp: right_size_def)

declare bin_par.simps [simp del] bin_kids.simps [simp del]

lemma bin_par_above: "0 \<le> m \<Longrightarrow> m < s - 1 \<Longrightarrow> m < bin_par s m \<and> bin_par s m < s"
proof (induction s m rule: bin_par.induct)
  case (1 s m)
  then show ?case using right_size_less [of s] by (subst (1 2) bin_par.simps) auto
qed

lemma image_offset: "(\<lambda>c. r + c) ` {c. 0 \<le> c \<and> P c} = {c. r \<le> c \<and> P (c - r)}" for r :: int
proof (intro set_eqI iffI)
  fix c assume "c \<in> {c. r \<le> c \<and> P (c - r)}"
  then show "c \<in> (\<lambda>c. r + c) ` {c. 0 \<le> c \<and> P c}" by (intro image_eqI [of _ _ "c - r"]) simp_all
qed auto

lemma bin_kids_set:
  "0 \<le> m \<Longrightarrow> m < s \<Longrightarrow> distinct (bin_kids s m) \<and> set (bin_kids s m) = {c. 0 \<le> c \<and> c < s - 1 \<and> bin_par s c = m}"
proof (induction s m rule: bin_kids.induct)
  case (1 s m)
  let ?r = "right_size s"
  let ?l = "s - ?r - 1"
  consider "s < 2" | "2 \<le> s" "m = s - 1" | "2 \<le> s" "m \<noteq> s - 1" "m < ?r" | "2 \<le> s" "m \<noteq> s - 1" "?r \<le> m" by linarith
  then show ?case
  proof cases
    case 1
    then have "bin_kids s m = []" by (subst bin_kids.simps) simp
    then show ?thesis using 1 by simp
  next
    case 2
    have "bin_par s c = s - 1 \<longleftrightarrow> c = ?r - 1 \<or> c = s - 2" if "0 \<le> c" "c < s - 1" for c
      using that 2(1) right_size_less [of s] bin_par_above [of c ?r] bin_par_above [of "c - ?r" ?l]
      by (subst bin_par.simps) auto
    moreover have "3 \<le> s \<longleftrightarrow> 1 \<le> ?r" by (auto simp: right_size_def)
    ultimately have "0 \<le> c \<and> c < s - 1 \<and> bin_par s c = m \<longleftrightarrow> 3 \<le> s \<and> c = ?r - 1 \<or> c = s - 2" for c
      using 2 right_size_less [of s] by (cases "c = ?r - 1"; cases "c = s - 2") auto
    then have "{c. 0 \<le> c \<and> c < s - 1 \<and> bin_par s c = m} = (if s \<ge> 3 then {s - 2, ?r - 1} else {s - 2})"
      by (simp split: if_split) blast
    moreover have "bin_kids s m = (if s \<ge> 3 then [s - 2, ?r - 1] else [s - 2])" using 2 by (subst bin_kids.simps) simp
    moreover have "s - 2 \<noteq> ?r - 1" using right_size_less [OF 2(1)] by linarith
    ultimately show ?thesis by simp
  next
    case 3
    have kids: "bin_kids s m = bin_kids ?r m" using 3 by (subst bin_kids.simps) simp
    have "c < s - 1 \<and> bin_par s c = m \<longleftrightarrow> c < ?r - 1 \<and> bin_par ?r c = m" if "0 \<le> c" for c
      using that 3 right_size_less [of s] bin_par_above [of "c - ?r" ?l] by (subst bin_par.simps) auto
    then have "{c. 0 \<le> c \<and> c < s - 1 \<and> bin_par s c = m} = {c. 0 \<le> c \<and> c < ?r - 1 \<and> bin_par ?r c = m}"
      by (intro Collect_cong) auto
    then show ?thesis using "1.IH"(1) 3 \<open>0 \<le> m\<close> unfolding kids by simp
  next
    case 4
    have kids: "bin_kids s m = map (\<lambda>c. ?r + c) (bin_kids ?l (m - ?r))" using 4 by (subst bin_kids.simps) simp
    have ih: "distinct (bin_kids ?l (m - ?r))" "set (bin_kids ?l (m - ?r)) = {c. 0 \<le> c \<and> c < ?l - 1 \<and> bin_par ?l c = m - ?r}"
      using "1.IH"(2) 4 \<open>m < s\<close> by auto
    have "0 \<le> c \<and> c < s - 1 \<and> bin_par s c = m \<longleftrightarrow> ?r \<le> c \<and> c - ?r < ?l - 1 \<and> bin_par ?l (c - ?r) = m - ?r" for c
      using 4 right_size_less [of s] bin_par_above [of c ?r] by (subst bin_par.simps) auto
    moreover have "(\<lambda>c. ?r + c) ` {c. 0 \<le> c \<and> c < ?l - 1 \<and> bin_par ?l c = m - ?r} =
        {c. ?r \<le> c \<and> c - ?r < ?l - 1 \<and> bin_par ?l (c - ?r) = m - ?r}"
      by (rule image_offset)
    ultimately show ?thesis using ih unfolding kids by (simp add: distinct_map)
  qed
qed

lemma bin_spanning:
  assumes "0 < n"
  shows "spanning n (n - 1) (bin_par n) (bin_kids n)"
  unfolding spanning_def
proof (intro conjI ballI impI)
  fix r assume r: "r \<in> {0..<n}"
  show "distinct (bin_kids n r)" using bin_kids_set r by simp
  have "set (bin_kids n r) = {c. 0 \<le> c \<and> c < n - 1 \<and> bin_par n c = r}" using bin_kids_set r by simp
  also have "\<dots> = {c \<in> {0..<n}. c \<noteq> n - 1 \<and> bin_par n c = r}" by (rule Collect_cong) auto
  finally show "set (bin_kids n r) = {c \<in> {0..<n}. c \<noteq> n - 1 \<and> bin_par n c = r}" .
next
  fix c assume "c \<in> {0..<n}" "c \<noteq> n - 1"
  then show "bin_par n c \<in> {0..<n}" using bin_par_above [of c n] by auto
next
  have "nat (n - bin_par n c) < nat (n - c)" if "c \<in> {0..<n}" "c \<noteq> n - 1" for c using that bin_par_above [of c n] by auto
  then show "\<exists>depth :: int \<Rightarrow> nat. \<forall>c \<in> {0..<n}. c \<noteq> n - 1 \<longrightarrow> depth (bin_par n c) < depth c"
    by (intro exI [of _ "\<lambda>c. nat (n - c)"]) blast
qed (use assms in simp_all)

section \<open>The builder\<close>

definition pick :: "int list \<Rightarrow> nat \<Rightarrow> int" where
  "pick xs i = (if i < length xs then xs ! i else -1)"

lemma bintree_loop_works:
  "0 \<le> m \<Longrightarrow> m < s \<Longrightarrow> 0 \<le> d \<Longrightarrow> bintree_loop s m (s - 1) d prev =
     (let ks = map (\<lambda>c. d + c) (bin_kids s m) in Some (if m = s - 1 then prev else d + bin_par s m, pick ks 0, pick ks 1))"
proof (induction s m arbitrary: d prev rule: bin_kids.induct)
  case (1 s m)
  consider "s = 1" | "s = 2" "m = 1" | "s = 2" "m = 0" | "3 \<le> s" using 1 by linarith
  then show ?case
  proof cases
    case 1
    then show ?thesis using \<open>0 \<le> m\<close> \<open>m < s\<close>
      by (subst bintree_loop.simps) (simp add: bin_kids.simps [of 1] pick_def Let_def)
  next
    case 2
    then show ?thesis using \<open>0 \<le> d\<close>
      by (subst bintree_loop.simps) (simp add: bin_kids.simps [of 2] pick_def Let_def)
  next
    case 3
    have "bintree_loop 0 (-1) (-1) d' prev' = Some (prev', -1, -1)" for d' prev' by (subst bintree_loop.simps) (simp add: Let_def)
    then show ?thesis using 3 \<open>0 \<le> d\<close>
      by (subst bintree_loop.simps) (simp add: bin_kids.simps bin_par.simps pick_def right_size_def Let_def)
  next
    case 4
    let ?r = "right_size s"
    have r: "s div 2 = ?r" "1 \<le> ?r" "?r < s - 1" using 4 by (auto simp: right_size_def)
    have step: "bintree_loop s m (s - 1) d prev =
      (if m = s - 1 then Some (prev, s - 2 + d, ?r - 1 + d)
       else if m < ?r then bintree_loop ?r m (?r - 1) d (if m = ?r - 1 then s - 1 + d else prev)
       else bintree_loop (s - ?r - 1) (m - ?r) (s - ?r - 1 - 1) (d + ?r) (if m = s - 2 then s - 1 + d else prev))"
      using 4 r \<open>0 \<le> d\<close> by (subst bintree_loop.simps) (simp add: Let_def)
    consider "m = s - 1" | "m \<noteq> s - 1" "m < ?r" | "m \<noteq> s - 1" "?r \<le> m" by linarith
    then show ?thesis
    proof cases
      case 1
      then have "bin_kids s m = [s - 2, ?r - 1]" using 4 by (subst bin_kids.simps) simp
      then show ?thesis using 1 step by (simp add: pick_def)
    next
      case 2
      have "bin_kids s m = bin_kids ?r m" using 2 4 by (subst bin_kids.simps) simp
      moreover have "bin_par s m = (if m = ?r - 1 then s - 1 else bin_par ?r m)" using 2 4 by (subst bin_par.simps) simp
      ultimately show ?thesis using "1.IH"(1) "1.prems" 2 4 step by (simp add: Let_def)
    next
      case 3
      have "bin_kids s m = map (\<lambda>c. ?r + c) (bin_kids (s - ?r - 1) (m - ?r))" using 3 4 by (subst bin_kids.simps) simp
      moreover have "bin_par s m = (if m = s - 2 then s - 1 else ?r + bin_par (s - ?r - 1) (m - ?r))" using 3 4 by (subst bin_par.simps) simp
      ultimately show ?thesis using "1.IH"(2) [of "d + ?r"] "1.prems" 3 4 r step by (simp add: Let_def comp_def algebra_simps)
    qed
  qed
qed

lemma bin_kids_two: "length (bin_kids s m) \<le> 2"
proof (induction s m rule: bin_kids.induct)
  case (1 s m)
  then show ?case by (subst bin_kids.simps) auto
qed

lemma in_order_bintree_builds:
  assumes n: "0 < n"
  shows "builds_tree n (n - 1) (\<lambda>r. ompi_coll_base_topo_build_in_order_bintree True n r)"
  unfolding builds_tree_def
proof (rule exI [of _ "bin_par n"], rule exI [of _ "bin_kids n"], rule conjI [OF bin_spanning [OF n]], rule ballI)
  fix r assume r: "r \<in> {0..<n}"
  let ?ks = "bin_kids n r"
  let ?prev = "if r = n - 1 then -1 else bin_par n r"
  let ?t = "(new_tree MAXTREEFANOUT)\<lparr>tree_root := Some (n - 1), tree_fanout := Some 2, tree_bmtree := Some 0, tree_prev := Some ?prev\<rparr>"
  let ?u = "(with_kids ?t [pick ?ks 0, pick ?ks 1])\<lparr>tree_nextsize := Some (int (length ?ks))\<rparr>"
  have loop: "bintree_loop n r (n - 1) 0 (-1) = Some (?prev, pick ?ks 0, pick ?ks 1)"
    using bintree_loop_works [of r n 0] r by (simp add: Let_def)
  have "tree_next ?t \<noteq> []" by (simp add: MAXTREEFANOUT_def)
  then have put: "put_child ?t 0 a = Some (with_kids ?t [a])" "put_child (with_kids ?t [a]) 1 b = Some (with_kids ?t [a, b])" for a b
    using put_first_child [of ?t a] put_next_child [of "[a]" ?t b] by (simp_all add: MAXTREEFANOUT_def)
  have "\<forall>c \<in> set ?ks. 0 \<le> c" using bin_kids_set [of r n] r by auto
  then consider "?ks = []" | a where "?ks = [a]" "0 \<le> a" | a b where "?ks = [a, b]" "0 \<le> a" "0 \<le> b"
    using bin_kids_two [of n r] by (cases ?ks rule: remdups_adj.cases) auto
  then have "(let nextsize = if pick ?ks 0 \<ge> 0 then 1 else 0 in if pick ?ks 1 \<ge> 0 then nextsize + 1 else nextsize) = int (length ?ks) \<and>
      tree_kids ?u = Some ?ks"
    by cases (simp_all add: pick_def tree_kids_def with_kids_def MAXTREEFANOUT_def)
  moreover from this have "ompi_coll_base_topo_build_in_order_bintree True n r = Some (Some ?u)"
    by (simp add: ompi_coll_base_topo_build_in_order_bintree_def loop put Let_def split del: if_split)
  ultimately show "\<exists>t. ompi_coll_base_topo_build_in_order_bintree True n r = Some (Some t) \<and> tree_root t = Some (n - 1) \<and>
      tree_kids t = Some (bin_kids n r) \<and> (r \<noteq> n - 1 \<longrightarrow> tree_prev t = Some (bin_par n r))"
    by (simp add: with_kids_def)
qed

end
