(* ===== verification/Coll_Topo.thy ===== *)
theory Coll_Topo
  imports Coll_Topo_Binomial Coll_Topo_Knomial Coll_Topo_Fanout Coll_Topo_Chain Coll_Topo_Inorder
begin

text \<open>
  What the collectives rely on when they walk along a tree: the contract \<open>tree_builder\<close>, discharged for the six
  builders of \<^verbatim>\<open>ompi/mca/coll/base/coll_base_topo.c\<close>.
\<close>

section \<open>The builders\<close>

datatype tree_kind = Fanout_tree int | In_order_bintree | Bmtree | In_order_bmtree | Kmtree int | Chain_tree int

fun build_tree :: "tree_kind \<Rightarrow> bool \<Rightarrow> int \<Rightarrow> int \<Rightarrow> int \<Rightarrow> coll_tree option option" where
  "build_tree (Fanout_tree fanout) mem_ok n root rank = ompi_coll_base_topo_build_tree mem_ok fanout n rank root"
| "build_tree In_order_bintree mem_ok n root rank = ompi_coll_base_topo_build_in_order_bintree mem_ok n rank"
| "build_tree Bmtree mem_ok n root rank = ompi_coll_base_topo_build_bmtree mem_ok n rank root"
| "build_tree In_order_bmtree mem_ok n root rank = ompi_coll_base_topo_build_in_order_bmtree mem_ok n rank root"
| "build_tree (Kmtree radix) mem_ok n root rank = ompi_coll_base_topo_build_kmtree mem_ok n rank root radix"
| "build_tree (Chain_tree fanout) mem_ok n root rank = ompi_coll_base_topo_build_chain mem_ok fanout n rank root"

text \<open>The sizes for which no intermediate \<open>int\<close> of the builder overflows, and the root of the in-order binary tree.\<close>

fun tree_fits :: "tree_kind \<Rightarrow> int \<Rightarrow> int \<Rightarrow> bool" where
  "tree_fits (Fanout_tree fanout) n root \<longleftrightarrow> 1 \<le> fanout \<and> fanout \<le> int MAXTREEFANOUT \<and> n \<le> 2 ^ 25"
| "tree_fits In_order_bintree n root \<longleftrightarrow> root = n - 1"
| "tree_fits Bmtree n root \<longleftrightarrow> n < 2 ^ 30"
| "tree_fits In_order_bmtree n root \<longleftrightarrow> n < 2 ^ 30"
| "tree_fits (Kmtree radix) n root \<longleftrightarrow> 2 \<le> radix \<and> n \<le> 2 ^ 30 \<and> n * radix < 2 ^ 31"
| "tree_fits (Chain_tree fanout) n root \<longleftrightarrow> n \<le> 2 ^ 30"

section \<open>The contract\<close>

text \<open>Following the parents for at most \<open>k\<close> steps leads to the root.\<close>

fun climbs :: "(int \<Rightarrow> coll_tree option option) \<Rightarrow> int \<Rightarrow> nat \<Rightarrow> int \<Rightarrow> bool" where
  "climbs build root 0 r \<longleftrightarrow> r = root"
| "climbs build root (Suc k) r \<longleftrightarrow>
     r = root \<or>
     (case build r of
        Some (Some t) \<Rightarrow> (case tree_prev t of Some p \<Rightarrow> climbs build root k p | None \<Rightarrow> False)
      | _ \<Rightarrow> False)"

locale tree_builder =
  fixes valid :: "'c \<Rightarrow> bool" and ranks :: "'c \<Rightarrow> int" and root :: "'c \<Rightarrow> int"
    and build :: "'c \<Rightarrow> int \<Rightarrow> coll_tree option option"
  assumes builds: "valid c \<Longrightarrow> builds_tree (ranks c) (root c) (build c)"
begin

lemma reaches_root:
  assumes c: "valid c" and r: "r \<in> {0..<ranks c}"
  shows "\<exists>k. climbs (build c) (root c) k r"
proof -
  obtain par kids where s: "spanning (ranks c) (root c) par kids"
    and b: "\<forall>r \<in> {0..<ranks c}. \<exists>t. build c r = Some (Some t) \<and> tree_root t = Some (root c) \<and> tree_kids t = Some (kids r) \<and>
      (r \<noteq> root c \<longrightarrow> tree_prev t = Some (par r))"
    using builds [OF c] by (auto simp: builds_tree_def)
  obtain depth :: "int \<Rightarrow> nat" where depth: "\<forall>r \<in> {0..<ranks c}. r \<noteq> root c \<longrightarrow> depth (par r) < depth r"
    using s unfolding spanning_def by blast
  show ?thesis using r
  proof (induction "depth r" arbitrary: r rule: less_induct)
    case less
    show ?case
    proof (cases "r = root c")
      case True
      then have "climbs (build c) (root c) 0 r" by simp
      then show ?thesis ..
    next
      case False
      then have "par r \<in> {0..<ranks c}" "depth (par r) < depth r" using s depth less.prems by (auto simp: spanning_def)
      then obtain k where "climbs (build c) (root c) k (par r)" using less.hyps by blast
      moreover obtain t where "build c r = Some (Some t)" "tree_prev t = Some (par r)" using b less.prems False by blast
      ultimately have "climbs (build c) (root c) (Suc k) r" by simp
      then show ?thesis ..
    qed
  qed
qed

text \<open>Every other rank is listed once, by its parent and by no one else.\<close>

lemma listed_once:
  assumes c: "valid c" and r: "r \<in> {0..<ranks c}" "r \<noteq> root c" and q: "q \<in> {0..<ranks c}"
  shows "\<exists>t u ks. build c r = Some (Some t) \<and> build c q = Some (Some u) \<and> tree_kids u = Some ks \<and> distinct ks \<and>
    (r \<in> set ks \<longleftrightarrow> tree_prev t = Some q)"
proof -
  obtain par kids where s: "spanning (ranks c) (root c) par kids"
    and b: "\<forall>r \<in> {0..<ranks c}. \<exists>t. build c r = Some (Some t) \<and> tree_root t = Some (root c) \<and> tree_kids t = Some (kids r) \<and>
      (r \<noteq> root c \<longrightarrow> tree_prev t = Some (par r))"
    using builds [OF c] by (auto simp: builds_tree_def)
  obtain t where "build c r = Some (Some t)" "tree_prev t = Some (par r)" using b r by blast
  moreover obtain u where "build c q = Some (Some u)" "tree_kids u = Some (kids q)" using b q by blast
  moreover have "distinct (kids q)" "r \<in> set (kids q) \<longleftrightarrow> par r = q" using s q r by (auto simp: spanning_def)
  ultimately show ?thesis by simp
qed

end

section \<open>The builders meet the contract\<close>

lemma build_tree_builds:
  assumes "0 \<le> root" "root < n" "tree_fits kind n root"
  shows "builds_tree n root (build_tree kind True n root)"
proof (cases kind)
  case (Fanout_tree fanout)
  then have "build_tree kind True n root = (\<lambda>r. ompi_coll_base_topo_build_tree True fanout n r root)" by auto
  then show ?thesis using tree_builds [of fanout n root] assms Fanout_tree by simp
next
  case In_order_bintree
  then have "build_tree kind True n root = (\<lambda>r. ompi_coll_base_topo_build_in_order_bintree True n r)" by auto
  then show ?thesis using in_order_bintree_builds [of n] assms In_order_bintree by simp
next
  case Bmtree
  then have "build_tree kind True n root = (\<lambda>r. ompi_coll_base_topo_build_bmtree True n r root)" by auto
  then show ?thesis using bmtree_builds [of n root] assms Bmtree by simp
next
  case In_order_bmtree
  then have "build_tree kind True n root = (\<lambda>r. ompi_coll_base_topo_build_in_order_bmtree True n r root)" by auto
  then show ?thesis using in_order_bmtree_builds [of n root] assms In_order_bmtree by simp
next
  case (Kmtree radix)
  then have "build_tree kind True n root = (\<lambda>r. ompi_coll_base_topo_build_kmtree True n r root radix)" by auto
  then show ?thesis using kmtree_builds [of radix n root] assms Kmtree by simp
next
  case (Chain_tree fanout)
  then have "build_tree kind True n root = (\<lambda>r. ompi_coll_base_topo_build_chain True fanout n r root)" by auto
  then show ?thesis using chain_builds [of n root fanout] assms Chain_tree by simp
qed

interpretation tb: tree_builder "\<lambda>(kind, n, root). 0 \<le> root \<and> root < n \<and> tree_fits kind n root"
  "\<lambda>(kind, n, root). n" "\<lambda>(kind, n, root). root" "\<lambda>(kind, n, root). build_tree kind True n root"
  by unfold_locales (auto simp: build_tree_builds)

text \<open>
  C3. The six tree builders agree across the ranks: for every size and root whose numbers fit an \<open>int\<close>, each rank gets
  a record without a fault; all records name the same root; a rank other than the root is in the list of children of
  exactly the rank that its own record names as the parent, and once; and following the parents from any rank ends at
  the root.
\<close>

theorem coll_trees_span:
  assumes "0 \<le> root" "root < n" "tree_fits kind n root"
  shows "builds_tree n root (build_tree kind True n root) \<and>
    (\<forall>r \<in> {0..<n} - {root}. \<forall>q \<in> {0..<n}. \<exists>t u ks. build_tree kind True n root r = Some (Some t) \<and>
      build_tree kind True n root q = Some (Some u) \<and> tree_kids u = Some ks \<and> distinct ks \<and> (r \<in> set ks \<longleftrightarrow> tree_prev t = Some q)) \<and>
    (\<forall>r \<in> {0..<n}. \<exists>k. climbs (build_tree kind True n root) root k r)"
  using assms tb.builds [of "(kind, n, root)"] tb.listed_once [of "(kind, n, root)"] tb.reaches_root [of "(kind, n, root)"]
  by simp

theorem coll_trees_span_witness:
  "tree_fits (Kmtree 4) 10 3 \<and> builds_tree 10 3 (build_tree (Kmtree 4) True 10 3) \<and>
   (\<exists>k. climbs (build_tree (Kmtree 4) True 10 3) 3 k 9)"
  using coll_trees_span [of 3 10 "Kmtree 4"] by simp

end
