(* ===== verification/Spec2Isabelle.thy ===== *)
theory Spec2Isabelle
  imports Opal_Ring_Buffer Opal_Hotel Opal_Bitmap Ucs_Queue Ucs_Frag_List Ompi_Group_Ops Opal_Proc_Table Opal_Pointer_Array
    Ucp_Tag_Protocol Coll_Base_Barrier Coll_Topo
begin

text \<open>
  A verification library for Open MPI and UCX.

  \<^bold>\<open>The program.\<close> The repository holds Open MPI (\<^verbatim>\<open>src/mpi\<close>: the portability layer \<open>opal\<close>, the MPI layer
  \<open>ompi\<close>, \<open>oshmem\<close> and bundled packages) and UCX (\<^verbatim>\<open>src/ucx\<close>: services \<open>ucs\<close>, transports \<open>uct\<close>, protocols \<open>ucp\<close>,
  memory hooks \<open>ucm\<close>). An MPI program names processes through groups (\<^verbatim>\<open>ompi/group\<close>) that hold process objects or
  encoded names of processes not yet contacted; process objects are found through hash tables and pointer arrays of
  \<^verbatim>\<open>opal/class\<close>. A collective operation (\<^verbatim>\<open>ompi/mca/coll/base\<close>) is a pattern of point-to-point messages, and these
  run over the tag matching of UCX (\<^verbatim>\<open>ucp/tag\<close>), whose packets arrive, possibly out of order, from a transport that
  uses the reorder buffer of \<^verbatim>\<open>ucs/datastruct\<close>.

  \<^bold>\<open>Conventions.\<close> They are stated in \<open>Mpi_Ucx_Prelude\<close>. A C struct is a record, an enumeration a datatype, an
  unsigned field a word of its width; \<open>size_t\<close> is a natural number with the wrap-around written out; a C \<open>int\<close> is an
  \<open>int\<close>, and where it can leave its 32 bits the operation goes through \<open>c_int\<close>, which is \<open>None\<close> on overflow, or through
  \<open>to_int\<close> where a \<open>size_t\<close> is converted. A fault (access out of bounds, null
  pointer, failed assertion, signed overflow, endless loop) is the value \<open>None\<close>, so that \<open>Some\<close> also means memory
  safety; error codes are values. Whether an allocation succeeds is a boolean argument. Objects that are shared
  or released live in explicit stores. Locks are left out: a call is atomic.

  \<^bold>\<open>Containers of opal\<close> (\<^verbatim>\<open>src/mpi/opal/class\<close>).
  \<^item> \<open>Opal_Ring_Buffer\<close>: \<^verbatim>\<open>opal_ring_buffer.c/.h\<close>. Refinement of a bounded list whose push drops the oldest element.
  \<^item> \<open>Slot_Table\<close> (contract), \<open>Opal_Hotel\<close>: \<^verbatim>\<open>opal_hotel.c/.h\<close>. The stack of free rooms is exact, and a batch of guests
    that checks in and out restores the hotel.
  \<^item> \<open>Bit_Set\<close> (contract), \<open>Opal_Bitmap\<close>: \<^verbatim>\<open>opal_bitmap.c/.h\<close>. Set and test with growth up to the last bits of an
    \<open>int\<close>, least unset bit, and the unit mismatch of the maximum size.
  \<^item> \<open>Opal_Hash_Table\<close> (definitions), \<open>Key_Table\<close> (contract), \<open>Opal_Hash_Map\<close>, \<open>Opal_Proc_Table\<close>:
    \<^verbatim>\<open>opal_hash_table.c/.h\<close>. The probe loops are \<open>partial_function\<close>s and are shown to end while a slot is free; any
    sequence of calls is that of a finite map, removal keeps the probe runs closed, traversal is complete. The
    process table is the same table twice, with its inner tables in a store. What happens after a failed growth
    (the rounds of a probe in a full table are counted and never end), and after removing all entries, is shown as well.
  \<^item> \<open>Opal_Pointer_Array\<close>: \<^verbatim>\<open>opal_pointer_array.c/.h\<close>. Any sequence of calls is that of a partial map in which
    \<open>add\<close> takes the least free index, also when the first of the two allocations of a growth fails; what happens when only
    the second fails is shown apart.

  \<^bold>\<open>Processes and groups\<close> (\<^verbatim>\<open>src/mpi/ompi/proc\<close>, \<^verbatim>\<open>src/mpi/ompi/group\<close>).
  \<^item> \<open>Ompi_Proc\<close>: names and the 64-bit sentinel encoding of a name in a pointer (round trip).
  \<^item> \<open>Ompi_Group_Formats\<close>: the sporadic, strided and bitmap formats, with the contract \<open>sparse_format\<close> (translation up
    and down are inverse) interpreted on each.
  \<^item> \<open>Ompi_Group\<close>, \<open>Ompi_Group_Ops\<close>: construction, set operations, ranges, comparison, translation and lookup. \<open>members\<close>
    is the abstraction to the list of process names; each operation is shown to compute on that list what the MPI
    standard says, for every format and for members that are still sentinels. Exactly one case is left out, and is
    shown to fault: the bitmap format for a process that is not in the parent group.

  \<^bold>\<open>Queues and reordering of ucs and uct\<close> (\<^verbatim>\<open>src/ucx/src/ucs/datastruct\<close>, \<^verbatim>\<open>src/ucx/src/uct/ib/efa/srd\<close>).
  \<^item> \<open>Fifo_Queue\<close> (contract), \<open>Ucs_Queue\<close>: \<^verbatim>\<open>queue.h\<close> at the level of pointers; any interleaving of operations on
    several queues is that of lists.
  \<^item> \<open>Ucs_Frag_List\<close>: \<^verbatim>\<open>frag_list.c\<close> and the receive path of \<^verbatim>\<open>srd_iface.c\<close>. Packets in any order within the window
    are delivered once and in order, and the cleanup releases the rest. A number 0 that arrives again while it is buffered
    can stop a sender for good, and the count of a buffer that is not emptied at once goes wrong; both are shown.

  \<^bold>\<open>Tag matching and eager receive of ucp\<close> (\<^verbatim>\<open>src/ucx/src/ucp/tag\<close>).
  \<^item> \<open>Ucp_Tag_Match\<close>: \<^verbatim>\<open>tag_match.c/.h/.inl\<close>. Hash buckets, wildcard queue, sequence numbers, unexpected messages; the
    inductive relation \<open>tm_reach\<close> and its invariant.
  \<^item> \<open>Ucp_Tag_Recv\<close>: \<^verbatim>\<open>eager_rcv.c\<close>, \<^verbatim>\<open>tag_recv.c\<close>, \<^verbatim>\<open>probe.c\<close> and the parts of \<^verbatim>\<open>ucp_request.inl\<close> they use.
  \<^item> \<open>Ucp_Tag_Order\<close>: refinement of in-order matching for single packets. \<open>Ucp_Tag_Frag\<close>: assembly of one message from
    fragments in any order. \<open>Ucp_Tag_Eager\<close>, \<open>Ucp_Tag_Protocol\<close>: the protocol state for many messages and its
    refinement of the specification \<open>frag_spec_run\<close>, with what a forced immediate completion and the cleanup lose.

  \<^bold>\<open>Collectives\<close> (\<^verbatim>\<open>src/mpi/ompi/mca/coll/base\<close>, \<^verbatim>\<open>src/mpi/opal/util/bit_ops.h\<close>).
  \<^item> \<open>Coll_Network\<close>: processes whose code is a list of point-to-point calls, run in every interleaving with the
    matching rules of MPI, and the contract \<open>schedule\<close>: each rank run alone on the messages it should get, and a
    logical time for its calls, give a bounded, deadlock-free execution with a fixed final state.
  \<^item> \<open>Coll_Exchange\<close>: the contract \<open>exchange\<close> of rounds of empty messages, a sublocale of \<open>schedule\<close>.
  \<^item> \<open>Opal_Bit_Ops\<close>, \<open>Coll_Base_Barrier\<close>: powers of two and five barriers of \<^verbatim>\<open>coll_base_barrier.c\<close>; no rank leaves
    before all have entered, and none waits forever.
  \<^item> \<open>Coll_Tree\<close>, \<open>Coll_Base_Topo\<close>: the record of parent and children that each rank builds for itself, and the six
    builders of \<^verbatim>\<open>coll_base_topo.c\<close>, in the order of the file. \<open>Coll_Topo_Binomial\<close>, \<open>Coll_Topo_Knomial\<close>,
    \<open>Coll_Topo_Fanout\<close>, \<open>Coll_Topo_Chain\<close>, \<open>Coll_Topo_Inorder\<close>: the tree that each of them builds, as functions of the
    rank, and that the loops compute it. \<open>Coll_Topo\<close>: the contract \<open>tree_builder\<close> of a tree that spans the ranks, on
    all six.

  \<^bold>\<open>Contracts.\<close> The locales \<open>slot_table\<close>, \<open>bit_set\<close>, \<open>fifo_queue\<close>, \<open>key_table\<close>, \<open>sparse_format\<close>, \<open>schedule\<close>, \<open>exchange\<close>, \<open>tree_builder\<close>
  hold the laws that clients rely on and the lemmas that follow from them. Each is interpreted on the model's own definitions.

  \<^bold>\<open>Bounds and fuel.\<close> No operation of the model uses fuel: loops are structural, have a \<open>termination\<close> proof, or are
  \<open>partial_function (option)\<close>, for which the theorems state \<open>Some\<close>. Three functions that count steps are
  used in statements only: \<open>scan_rounds\<close> for the rounds of a probe, \<open>pull_times\<close> for a number of pulls and \<open>climbs\<close> for the
  way to the root of a tree. Bounds that theorems assume are those of the C types: table sizes below \<open>2 ^ 63\<close> bytes, array indices in \<open>int\<close>, bitmaps below \<open>2 ^ 25\<close> words and groups of
  at most \<open>2 ^ 31 - 64\<close> processes (the number of bits is an \<open>int\<close>), rings of at most \<open>2 ^ 30\<close> slots, reorder windows below half of the sequence
  numbers, communicators below \<open>2 ^ 30\<close> processes (sums of two ranks are an \<open>int\<close>), trees of
  a given fanout of up to \<open>2 ^ 25\<close> processes (the first child of a last rank is still an \<open>int\<close>) and k-nomial trees whose size
  times the radix is an \<open>int\<close>.

  \<^bold>\<open>Not modelled.\<close> The point-to-point layers of Open MPI (\<^verbatim>\<open>ompi/mca/pml\<close>, \<^verbatim>\<open>opal/mca/btl\<close>), whose matching rules
  are stated in \<open>Coll_Network\<close>; the datatype engine (buffers are contiguous); rendezvous, hardware offload, streams,
  remote memory and wireup of UCX; the transports other than the receive order of SRD; communicators, attributes,
  files, windows and start-up, which depend on the runtime and on PMIx; OpenSHMEM; bindings, which are generated;
  configuration, event loops, threads, signals and memory hooks, which are effects of the operating system; the
  bundled packages. Within modelled parts: reference counts of groups, statistics, debug output, the paths after
  a point-to-point call that fails inside a collective, and collectives that receive from any source.
\<close>

end
